(* ===== verification/Prelude.thy ===== *)
theory Prelude
  imports Main "HOL-Library.Word" "HOL-Library.Multiset"
begin

text \<open>
  Shared vocabulary of the development: the error numbers and timeout values the kernel's
  C code uses, byte memory with \<open>memcpy\<close>, and the generic list lemmas (insertion into a
  priority-ordered list, removal of one element) that the component theories rely on.
\<close>

unbundle bit_operations_syntax

named_theorems frame_simps
  \<open>which fields of the kernel state an operation leaves alone\<close>

named_theorems flag_defs
  \<open>the thread-state predicates of kernel/include/kthread.h, unfolded to flag membership\<close>

section \<open>Constants of the C interface\<close>

type_synonym tid = nat
type_synonym addr = nat
type_synonym byte = "8 word"
type_synonym u32 = "32 word"
type_synonym k_ticks_t = int

text \<open>Error numbers of \<open>lib/libc/minimal/include/errno.h\<close>; routines return them negated.\<close>

abbreviation (input) EPERM :: int where "EPERM \<equiv> 1"
abbreviation (input) EAGAIN :: int where "EAGAIN \<equiv> 11"
abbreviation (input) ENOMEM :: int where "ENOMEM \<equiv> 12"
abbreviation (input) EBUSY :: int where "EBUSY \<equiv> 16"
abbreviation (input) EINVAL :: int where "EINVAL \<equiv> 22"
abbreviation (input) ENOMSG :: int where "ENOMSG \<equiv> 35"
abbreviation (input) EDEADLK :: int where "EDEADLK \<equiv> 45"
abbreviation (input) ETIMEDOUT :: int where "ETIMEDOUT \<equiv> 116"

text \<open>
  A \<open>k_timeout_t\<close> is its tick count: \<open>K_NO_WAIT\<close> is 0, \<open>K_FOREVER\<close> is -1, and the values
  below -1 encode absolute times through \<open>Z_TICK_ABS\<close>.
\<close>

abbreviation (input) K_NO_WAIT :: k_ticks_t where "K_NO_WAIT \<equiv> 0"
abbreviation (input) K_FOREVER :: k_ticks_t where "K_FOREVER \<equiv> -1"

definition Z_TICK_ABS :: "k_ticks_t \<Rightarrow> k_ticks_t" where
  "Z_TICK_ABS t = -1 - 1 - t"

text \<open>
  What a call that may block does at once: it returns a value, or it pends the calling thread
  and switches to another one. A pended call goes on when the thread is switched in again,
  with the value left in the thread's \<open>swap_retval\<close>.
\<close>

datatype 'a outcome = Done 'a | Blocked

section \<open>Byte memory\<close>

definition memcpy :: "addr \<Rightarrow> addr \<Rightarrow> nat \<Rightarrow> (addr \<Rightarrow> byte) \<Rightarrow> addr \<Rightarrow> byte" where
  "memcpy dst src n m = (\<lambda>a. if dst \<le> a \<and> a < dst + n then m (src + (a - dst)) else m a)"

definition mem_read :: "(addr \<Rightarrow> byte) \<Rightarrow> addr \<Rightarrow> nat \<Rightarrow> byte list" where
  "mem_read m a n = map m [a..<a + n]"

lemma length_mem_read [simp]: "length (mem_read m a n) = n"
  by (simp add: mem_read_def)

lemma mem_read_nth: "i < n \<Longrightarrow> mem_read m a n ! i = m (a + i)"
  by (simp add: mem_read_def)

lemma mem_read_cong:
  assumes "\<And>i. i < n \<Longrightarrow> m (a + i) = m' (a' + i)"
  shows "mem_read m a n = mem_read m' a' n"
  using assms by (auto intro!: nth_equalityI simp: mem_read_nth)

lemma mem_read_memcpy_dst: "mem_read (memcpy dst src n m) dst n = mem_read m src n"
  by (rule mem_read_cong) (simp add: memcpy_def)

lemma mem_read_memcpy_other:
  assumes "a + k \<le> dst \<or> dst + n \<le> a"
  shows "mem_read (memcpy dst src n m) a k = mem_read m a k"
  by (rule mem_read_cong) (use assms in \<open>auto simp: memcpy_def\<close>)

section \<open>Lists\<close>

lemma remove1_not_in [simp]: "x \<notin> set xs \<Longrightarrow> remove1 x xs = xs"
  by (induction xs) auto

lemma sorted_wrt_remove1: "sorted_wrt P xs \<Longrightarrow> sorted_wrt P (remove1 x xs)"
proof (induction xs)
  case (Cons y ys)
  then show ?case by (auto dest: notin_set_remove1)
qed simp

lemma sorted_wrt_cong:
  assumes "\<And>x y. x \<in> set xs \<Longrightarrow> y \<in> set xs \<Longrightarrow> P x y = Q x y"
  shows "sorted_wrt P xs = sorted_wrt Q xs"
  using assms by (induction xs) auto

lemma list_case_hd: "(case xs of [] \<Rightarrow> d | x # ys \<Rightarrow> f x) = (if xs = [] then d else f (hd xs))"
  by (cases xs) auto

lemma map_option_add [simp]:
  "map_option ((+) a) (map_option ((+) b) x) = map_option ((+) (a + b)) (x :: int option)"
  by (cases x) auto

lemma filter_remove1_neq: "\<not> P x \<Longrightarrow> filter P (remove1 x xs) = filter P xs"
  by (induction xs) auto

section \<open>Words\<close>

lemma word_incr_below: "(c::'a::len word) < l \<Longrightarrow> c + 1 \<le> l \<and> unat (c + 1) = unat c + 1"
proof -
  assume lt: "c < l"
  have "unat l < 2 ^ LENGTH('a)" by (rule unsigned_less)
  with lt have "unat c + 1 < 2 ^ LENGTH('a)" unfolding word_less_nat_alt by linarith
  then have "unat (c + 1) = unat c + 1" by (simp add: unat_word_ariths)
  with lt show ?thesis by (simp add: word_less_nat_alt word_le_nat_alt)
qed

lemma word_decr: "(0::'a::len word) < c \<Longrightarrow> unat (c - 1) = unat c - 1 \<and> c - 1 < c"
  by (metis less_numeral_extra(3) measure_unat unat_minus_one word_less_nat_alt word_neq_0_conv)

end
