(* ===== verification/Priq.thy ===== *)
theory Priq
  imports Prelude
begin

text \<open>
  Threads and the priority queues of threads: the thread control block of
  \<open>include/zephyr/kernel/thread.h\<close>, the flag predicates of \<open>kernel/include/kthread.h\<close>, and the
  queue implementations of \<open>kernel/include/priority_q.h\<close> (the list queue \<open>z_priq_dumb_*\<close> and the
  multi-queue \<open>z_priq_mq_*\<close>) behind one interface, the locale \<open>priq\<close>.
\<close>

section \<open>Threads\<close>

text \<open>The bits of \<open>thread_state\<close>; the bit mask is the set of the flags that are set.\<close>

datatype thread_flag =
    THREAD_DUMMY | THREAD_PENDING | THREAD_PRESTART | THREAD_DEAD
  | THREAD_SUSPENDED | THREAD_ABORTING | THREAD_SUSPENDING | THREAD_QUEUED

text \<open>
  A wait queue is named by the object it belongs to: the wait queue of a kernel object, or the
  \<open>join_queue\<close> of a thread.
\<close>

datatype wait_q = ObjQ nat | JoinQ tid

record k_thread =
  prio :: int
  sched_locked :: "8 word"
  thread_state :: "thread_flag set"
  essential :: bool
  pended_on :: "wait_q option"
  swap_retval :: int
  swap_data :: addr
  events :: u32
  event_options :: u32
  no_wake_on_timeout :: bool
  next_event_link :: "tid option"

type_synonym tcbs = "tid \<Rightarrow> k_thread"

subsection \<open>Flag predicates and updates (kthread.h)\<close>

definition z_is_thread_suspended :: "k_thread \<Rightarrow> bool" where
  "z_is_thread_suspended t \<longleftrightarrow> THREAD_SUSPENDED \<in> thread_state t"

definition z_is_thread_pending :: "k_thread \<Rightarrow> bool" where
  "z_is_thread_pending t \<longleftrightarrow> THREAD_PENDING \<in> thread_state t"

definition z_is_thread_prevented_from_running :: "k_thread \<Rightarrow> bool" where
  "z_is_thread_prevented_from_running t \<longleftrightarrow>
     thread_state t \<inter> {THREAD_PENDING, THREAD_PRESTART, THREAD_DEAD, THREAD_DUMMY, THREAD_SUSPENDED} \<noteq> {}"

definition z_has_thread_started :: "k_thread \<Rightarrow> bool" where
  "z_has_thread_started t \<longleftrightarrow> THREAD_PRESTART \<notin> thread_state t"

definition z_is_thread_queued :: "k_thread \<Rightarrow> bool" where
  "z_is_thread_queued t \<longleftrightarrow> THREAD_QUEUED \<in> thread_state t"

definition z_mark_thread_as_suspended :: "k_thread \<Rightarrow> k_thread" where
  "z_mark_thread_as_suspended t = t\<lparr>thread_state := insert THREAD_SUSPENDED (thread_state t)\<rparr>"

definition z_mark_thread_as_not_suspended :: "k_thread \<Rightarrow> k_thread" where
  "z_mark_thread_as_not_suspended t = t\<lparr>thread_state := thread_state t - {THREAD_SUSPENDED}\<rparr>"

definition z_mark_thread_as_started :: "k_thread \<Rightarrow> k_thread" where
  "z_mark_thread_as_started t = t\<lparr>thread_state := thread_state t - {THREAD_PRESTART}\<rparr>"

definition z_mark_thread_as_pending :: "k_thread \<Rightarrow> k_thread" where
  "z_mark_thread_as_pending t = t\<lparr>thread_state := insert THREAD_PENDING (thread_state t)\<rparr>"

definition z_mark_thread_as_not_pending :: "k_thread \<Rightarrow> k_thread" where
  "z_mark_thread_as_not_pending t = t\<lparr>thread_state := thread_state t - {THREAD_PENDING}\<rparr>"

definition z_is_thread_essential :: "k_thread \<Rightarrow> bool" where
  "z_is_thread_essential t \<longleftrightarrow> essential t"

declare
  z_is_thread_suspended_def [flag_defs] z_is_thread_pending_def [flag_defs]
  z_is_thread_prevented_from_running_def [flag_defs] z_has_thread_started_def [flag_defs]
  z_is_thread_queued_def [flag_defs] z_mark_thread_as_suspended_def [flag_defs]
  z_mark_thread_as_not_suspended_def [flag_defs] z_mark_thread_as_started_def [flag_defs]
  z_mark_thread_as_pending_def [flag_defs] z_mark_thread_as_not_pending_def [flag_defs]

text \<open>
  \<open>prio\<close> and \<open>sched_locked\<close> share a union with the 16-bit \<open>preempt\<close>: the priority is the low
  byte (as an unsigned byte), the lock count the high byte. A thread is preemptible when the
  bundled value is at most \<open>_PREEMPT_THRESHOLD\<close>, 0x7f.
\<close>

definition preempt :: "k_thread \<Rightarrow> int" where
  "preempt t = uint (sched_locked t) * 256 + prio t mod 256"

definition thread_is_preemptible :: "k_thread \<Rightarrow> bool" where
  "thread_is_preemptible t \<longleftrightarrow> preempt t \<le> 127"

section \<open>Comparison and the list queue\<close>

definition z_sched_prio_cmp :: "k_thread \<Rightarrow> k_thread \<Rightarrow> int" where
  "z_sched_prio_cmp t1 t2 =
     (let b1 = prio t1; b2 = prio t2 in if b1 \<noteq> b2 then b2 - b1 else 0)"

fun z_priq_dumb_add :: "tcbs \<Rightarrow> tid list \<Rightarrow> tid \<Rightarrow> tid list" where
  "z_priq_dumb_add th [] thread = [thread]"
| "z_priq_dumb_add th (t # pq) thread =
     (if z_sched_prio_cmp (th thread) (th t) > 0 then thread # t # pq
      else t # z_priq_dumb_add th pq thread)"

definition z_priq_dumb_remove :: "tcbs \<Rightarrow> tid list \<Rightarrow> tid \<Rightarrow> tid list" where
  "z_priq_dumb_remove th pq thread = remove1 thread pq"

definition z_priq_dumb_best :: "tid list \<Rightarrow> tid option" where
  "z_priq_dumb_best pq = (case pq of [] \<Rightarrow> None | n # _ \<Rightarrow> Some n)"

abbreviation by_prio :: "tcbs \<Rightarrow> tid \<Rightarrow> tid \<Rightarrow> bool" where
  "by_prio th a b \<equiv> prio (th a) \<le> prio (th b)"

subsection \<open>Lemmas on the list queue\<close>

lemma prio_cmp_pos [simp]: "z_sched_prio_cmp a b > 0 \<longleftrightarrow> prio a < prio b"
  by (simp add: z_sched_prio_cmp_def Let_def)

lemma prio_cmp_antisym: "z_sched_prio_cmp a b = - z_sched_prio_cmp b a"
  by (simp add: z_sched_prio_cmp_def Let_def)

lemma set_dumb_add [simp]: "set (z_priq_dumb_add th pq t) = insert t (set pq)"
  by (induction pq) auto

lemma mset_dumb_add [simp]: "mset (z_priq_dumb_add th pq t) = add_mset t (mset pq)"
  by (induction pq) auto

lemma distinct_dumb_add [simp]:
  "distinct (z_priq_dumb_add th pq t) \<longleftrightarrow> t \<notin> set pq \<and> distinct pq"
  by (induction pq) auto

lemma dumb_add_not_Nil [simp]: "z_priq_dumb_add th pq t \<noteq> []"
  by (cases pq) auto

lemma sorted_dumb_add:
  "sorted_wrt (by_prio th) pq \<Longrightarrow> sorted_wrt (by_prio th) (z_priq_dumb_add th pq t)"
  by (induction pq) fastforce+

lemma dumb_add_cong:
  "(\<And>x. x \<in> insert t (set pq) \<Longrightarrow> prio (th x) = prio (th' x)) \<Longrightarrow>
     z_priq_dumb_add th pq t = z_priq_dumb_add th' pq t"
  by (induction pq) auto

text \<open>Threads of equal priority keep their order of arrival.\<close>

lemma dumb_add_fifo:
  assumes "sorted_wrt (by_prio th) pq"
  shows "filter (\<lambda>x. prio (th x) = p) (z_priq_dumb_add th pq t) =
         filter (\<lambda>x. prio (th x) = p) pq @ (if prio (th t) = p then [t] else [])"
  using assms
proof (induction pq)
  case (Cons y ys)
  show ?case
  proof (cases "prio (th t) < prio (th y)")
    case True
    with Cons.prems have "filter (\<lambda>x. prio (th x) = prio (th t)) (y # ys) = []"
      by (auto simp: filter_empty_conv)
    with True show ?thesis by auto
  next
    case False
    with Cons show ?thesis by auto
  qed
qed simp

lemma set_dumb_remove [simp]:
  "distinct pq \<Longrightarrow> set (z_priq_dumb_remove th pq t) = set pq - {t}"
  by (simp add: z_priq_dumb_remove_def)

lemma distinct_dumb_remove [simp]:
  "distinct pq \<Longrightarrow> distinct (z_priq_dumb_remove th pq t)"
  by (simp add: z_priq_dumb_remove_def)

lemma sorted_dumb_remove:
  "sorted_wrt P pq \<Longrightarrow> sorted_wrt P (z_priq_dumb_remove th pq t)"
  by (simp add: z_priq_dumb_remove_def sorted_wrt_remove1)

lemma dumb_best_None [simp]: "z_priq_dumb_best pq = None \<longleftrightarrow> pq = []"
  by (simp add: z_priq_dumb_best_def split: list.splits)

lemma dumb_best_Some: "z_priq_dumb_best pq = Some t \<longleftrightarrow> (\<exists>rest. pq = t # rest)"
  by (cases pq) (auto simp: z_priq_dumb_best_def)

lemma sorted_head_best:
  "sorted_wrt (by_prio th) (t # pq) \<Longrightarrow> u \<in> set (t # pq) \<Longrightarrow> prio (th t) \<le> prio (th u)"
  by auto


section \<open>The multi-queue\<close>

text \<open>
  One list per priority and a bit map of the non-empty ones, in 32-bit words
  (\<open>NBITS\<close> 32, the build without \<open>CONFIG_64BIT\<close>). \<open>hp\<close> is \<open>K_HIGHEST_THREAD_PRIO\<close>.
\<close>

record priq_mq =
  queues :: "tid list list"
  bitmask :: "u32 list"

record prio_info =
  offset_prio :: nat
  info_idx :: nat
  info_bit :: nat

definition get_prio_info :: "int \<Rightarrow> int \<Rightarrow> prio_info" where
  "get_prio_info hp old_prio =
     (let off = nat ((old_prio - hp) mod 256)
      in \<lparr>offset_prio = off, info_idx = off div 32, info_bit = off mod 32\<rparr>)"

definition u32_count_trailing_zeros :: "u32 \<Rightarrow> nat" where
  "u32_count_trailing_zeros x = length (takeWhile (\<lambda>n. \<not> bit x n) [0..<32])"

definition z_priq_mq_add :: "int \<Rightarrow> tcbs \<Rightarrow> priq_mq \<Rightarrow> tid \<Rightarrow> priq_mq" where
  "z_priq_mq_add hp th pq thread =
     (let pos = get_prio_info hp (prio (th thread))
      in pq\<lparr>queues := (queues pq)[offset_prio pos := queues pq ! offset_prio pos @ [thread]],
            bitmask := (bitmask pq)[info_idx pos :=
              bitmask pq ! info_idx pos OR push_bit (info_bit pos) 1]\<rparr>)"

definition z_priq_mq_remove :: "int \<Rightarrow> tcbs \<Rightarrow> priq_mq \<Rightarrow> tid \<Rightarrow> priq_mq" where
  "z_priq_mq_remove hp th pq thread =
     (let pos = get_prio_info hp (prio (th thread));
          pq' = pq\<lparr>queues := map (remove1 thread) (queues pq)\<rparr>
      in if queues pq' ! offset_prio pos = []
         then pq'\<lparr>bitmask := (bitmask pq')[info_idx pos :=
                bitmask pq' ! info_idx pos AND NOT (push_bit (info_bit pos) 1)]\<rparr>
         else pq')"

fun mq_best_from :: "tid list list \<Rightarrow> nat \<Rightarrow> u32 list \<Rightarrow> tid option" where
  "mq_best_from qs i [] = None"
| "mq_best_from qs i (w # ws) =
     (if w = 0 then mq_best_from qs (Suc i) ws
      else (case qs ! (i * 32 + u32_count_trailing_zeros w) of
              [] \<Rightarrow> mq_best_from qs (Suc i) ws
            | n # _ \<Rightarrow> Some n))"

definition z_priq_mq_best :: "priq_mq \<Rightarrow> tid option" where
  "z_priq_mq_best pq = mq_best_from (queues pq) 0 (bitmask pq)"

text \<open>
  The invariant of the multi-queue: a bit is set exactly when its list is non-empty, and a
  thread is in the list of its priority.
\<close>

definition mq_bit :: "priq_mq \<Rightarrow> nat \<Rightarrow> bool" where
  "mq_bit pq i \<longleftrightarrow> bit (bitmask pq ! (i div 32)) (i mod 32)"

definition mq_inv :: "int \<Rightarrow> tcbs \<Rightarrow> priq_mq \<Rightarrow> bool" where
  "mq_inv hp th pq \<longleftrightarrow>
     length (queues pq) \<le> 256 \<and> length (queues pq) \<le> 32 * length (bitmask pq) \<and>
     (\<forall>i < 32 * length (bitmask pq). mq_bit pq i \<longleftrightarrow> i < length (queues pq) \<and> queues pq ! i \<noteq> []) \<and>
     (\<forall>i < length (queues pq). \<forall>t \<in> set (queues pq ! i). prio (th t) = hp + int i) \<and>
     distinct (concat (queues pq))"

definition mq_ok :: "int \<Rightarrow> nat \<Rightarrow> k_thread \<Rightarrow> bool" where
  "mq_ok hp n t \<longleftrightarrow> hp \<le> prio t \<and> prio t < hp + int n"

section \<open>The queue interface\<close>

text \<open>
  What the scheduler relies on, whichever implementation is built: the queue holds its threads
  in the order the list queue would keep them.
\<close>

locale priq =
  fixes add :: "tcbs \<Rightarrow> 'q \<Rightarrow> tid \<Rightarrow> 'q"
    and remove :: "tcbs \<Rightarrow> 'q \<Rightarrow> tid \<Rightarrow> 'q"
    and best :: "'q \<Rightarrow> tid option"
    and elems :: "'q \<Rightarrow> tid list"
    and invar :: "tcbs \<Rightarrow> 'q \<Rightarrow> bool"
    and ok :: "'q \<Rightarrow> k_thread \<Rightarrow> bool"
  assumes invar_distinct: "invar th q \<Longrightarrow> distinct (elems q)"
    and invar_sorted: "invar th q \<Longrightarrow> sorted_wrt (by_prio th) (elems q)"
    and elems_add: "invar th q \<Longrightarrow> ok q (th t) \<Longrightarrow> t \<notin> set (elems q) \<Longrightarrow>
      elems (add th q t) = z_priq_dumb_add th (elems q) t"
    and elems_remove: "invar th q \<Longrightarrow> t \<in> set (elems q) \<Longrightarrow>
      elems (remove th q t) = remove1 t (elems q)"
    and best_elems: "invar th q \<Longrightarrow> best q = z_priq_dumb_best (elems q)"
    and invar_add: "invar th q \<Longrightarrow> ok q (th t) \<Longrightarrow> t \<notin> set (elems q) \<Longrightarrow> invar th (add th q t)"
    and invar_remove: "invar th q \<Longrightarrow> t \<in> set (elems q) \<Longrightarrow> invar th (remove th q t)"
begin

lemma best_highest:
  assumes "invar th q" "best q = Some t" "u \<in> set (elems q)"
  shows "prio (th t) \<le> prio (th u)"
  using assms invar_sorted [OF assms(1)] best_elems [OF assms(1)]
  by (auto simp: dumb_best_Some)

lemma best_mem: "invar th q \<Longrightarrow> best q = Some t \<Longrightarrow> t \<in> set (elems q)"
  by (auto simp: best_elems dumb_best_Some)

lemma best_None: "invar th q \<Longrightarrow> best q = None \<longleftrightarrow> elems q = []"
  by (simp add: best_elems)

lemma add_arrival_order:
  assumes "invar th q" "ok q (th t)" "t \<notin> set (elems q)"
  shows "filter (\<lambda>x. prio (th x) = p) (elems (add th q t)) =
         filter (\<lambda>x. prio (th x) = p) (elems q) @ (if prio (th t) = p then [t] else [])"
  using assms by (simp add: elems_add dumb_add_fifo invar_sorted)

lemma remove_add:
  assumes "invar th q" "ok q (th t)" "t \<notin> set (elems q)"
  shows "elems (remove th (add th q t) t) = elems q"
proof -
  have "remove1 t (z_priq_dumb_add th xs t) = xs" if "t \<notin> set xs" for xs
    using that by (induction xs) auto
  with assms show ?thesis
    by (simp add: elems_add elems_remove invar_add)
qed

end

interpretation dumb: priq z_priq_dumb_add z_priq_dumb_remove z_priq_dumb_best "\<lambda>q. q"
    "\<lambda>th q. distinct q \<and> sorted_wrt (by_prio th) q" "\<lambda>q t. True"
  by unfold_locales (auto simp: z_priq_dumb_remove_def sorted_dumb_add sorted_wrt_remove1)


section \<open>The multi-queue implements the interface\<close>

lemma dumb_add_between:
  assumes "\<forall>x \<in> set xs. prio (th x) \<le> prio (th t)" and "\<forall>y \<in> set ys. prio (th t) < prio (th y)"
  shows "z_priq_dumb_add th (xs @ ys) t = xs @ t # ys"
  using assms by (induction xs) (auto simp: neq_Nil_conv split: list.splits intro: list.exhaust [of ys])

lemma concat_update_append:
  "i < length qs \<Longrightarrow> concat (qs[i := qs ! i @ [t]]) = concat (take (Suc i) qs) @ t # concat (drop (Suc i) qs)"
  by (subst id_take_nth_drop [of i qs]) (simp_all add: upd_conv_take_nth_drop take_Suc_conv_app_nth)

lemma concat_map_remove1:
  "distinct (concat qs) \<Longrightarrow> concat (map (remove1 t) qs) = remove1 t (concat qs)"
proof (induction qs)
  case (Cons q qs)
  then have "t \<in> set q \<Longrightarrow> t \<notin> set (concat qs)" by auto
  moreover have "map (remove1 t) qs = qs" if "t \<notin> set (concat qs)"
    using that by (induction qs) auto
  ultimately show ?case using Cons by (auto simp: remove1_append)
qed simp

lemma ctz_props:
  assumes "w \<noteq> (0::u32)"
  shows "u32_count_trailing_zeros w < 32" "bit w (u32_count_trailing_zeros w)"
    "n < u32_count_trailing_zeros w \<Longrightarrow> \<not> bit w n"
proof -
  let ?z = "takeWhile (\<lambda>n. \<not> bit w n) [0..<32]"
  obtain k where k: "bit w k" "k < 32"
  proof -
    from assms obtain k where "bit w k" by (auto simp: bit_eq_iff)
    moreover from this have "k < 32" using bit_imp_le_length [of w k] by simp
    ultimately show ?thesis using that by blast
  qed
  have "length ?z \<le> k"
  proof (rule ccontr)
    assume "\<not> length ?z \<le> k"
    then have "k < length ?z" by simp
    then have "?z ! k = k" using k by (simp add: takeWhile_nth)
    with \<open>k < length ?z\<close> have "k \<in> set ?z" by (metis nth_mem)
    then show False using k set_takeWhileD by fastforce
  qed
  with k have lt: "length ?z < 32" by simp
  show "u32_count_trailing_zeros w < 32"
    using lt by (simp add: u32_count_trailing_zeros_def)
  have "\<not> \<not> bit w ([0..<32] ! length ?z)"
    using lt by (intro nth_length_takeWhile) simp
  then show "bit w (u32_count_trailing_zeros w)"
    using lt by (simp add: u32_count_trailing_zeros_def)
  show "\<not> bit w n" if "n < u32_count_trailing_zeros w"
  proof -
    from that lt have "?z ! n = n" "n < length ?z"
      by (simp_all add: u32_count_trailing_zeros_def takeWhile_nth)
    then show ?thesis by (metis nth_mem set_takeWhileD)
  qed
qed


lemma concat_drop_skip:
  assumes "\<And>j. i \<le> j \<Longrightarrow> j < i + n \<Longrightarrow> j < length qs \<Longrightarrow> qs ! j = []"
  shows "concat (drop i qs) = concat (drop (i + n) qs)"
  using assms
proof (induction n)
  case (Suc n)
  then have "concat (drop i qs) = concat (drop (i + n) qs)" by simp
  also have "\<dots> = concat (drop (i + Suc n) qs)"
  proof (cases "i + n < length qs")
    case True
    then have "drop (i + n) qs = qs ! (i + n) # drop (i + Suc n) qs"
      by (simp add: Cons_nth_drop_Suc)
    with True Suc.prems [of "i + n"] show ?thesis by simp
  qed simp
  finally show ?case .
qed simp

lemma concat_drop_at: "j < length qs \<Longrightarrow> concat (drop j qs) = qs ! j @ concat (drop (Suc j) qs)"
  by (metis Cons_nth_drop_Suc concat.simps(2))

lemma mq_best_from_head:
  assumes bits: "\<And>i. i < 32 * length (bitmask pq) \<Longrightarrow>
      mq_bit pq i \<longleftrightarrow> i < length (queues pq) \<and> queues pq ! i \<noteq> []"
    and len: "length (queues pq) \<le> 32 * length (bitmask pq)"
  shows "ws = drop i (bitmask pq) \<Longrightarrow>
    mq_best_from (queues pq) i ws = z_priq_dumb_best (concat (drop (32 * i) (queues pq)))"
proof (induction ws arbitrary: i)
  case Nil
  then have "length (bitmask pq) \<le> i" by simp
  then have "length (queues pq) \<le> 32 * i" using len by linarith
  then show ?case by (simp add: z_priq_dumb_best_def)
next
  case (Cons w ws)
  from Cons.prems have i: "i < length (bitmask pq)" and w: "w = bitmask pq ! i"
    and ws: "ws = drop (Suc i) (bitmask pq)"
    by (metis drop_all linorder_not_less list.distinct(1))
      (metis Cons.prems hd_drop_conv_nth drop_all linorder_not_less list.distinct(1) list.sel(1),
       metis Cons.prems drop_Suc list.sel(3) tl_drop)
  have empty: "queues pq ! (32 * i + n) = []"
    if "n < 32" "\<not> bit w n" "32 * i + n < length (queues pq)" for n
    using bits [of "32 * i + n"] that i w by (simp add: mq_bit_def)
  show ?case
  proof (cases "w = 0")
    case True
    have "concat (drop (32 * i) (queues pq)) = concat (drop (32 * i + 32) (queues pq))"
    proof (rule concat_drop_skip)
      fix j assume "32 * i \<le> j" "j < 32 * i + 32" "j < length (queues pq)"
      then show "queues pq ! j = []" using empty [of "j - 32 * i"] True by simp
    qed
    with True Cons.IH [OF ws] show ?thesis by (simp add: add.commute)
  next
    case False
    let ?c = "u32_count_trailing_zeros w"
    have c: "?c < 32" "bit w ?c" using ctz_props [OF False] by auto
    then have q: "32 * i + ?c < length (queues pq)" "queues pq ! (32 * i + ?c) \<noteq> []"
      using bits [of "32 * i + ?c"] i w by (auto simp: mq_bit_def)
    have "concat (drop (32 * i) (queues pq)) = concat (drop (32 * i + ?c) (queues pq))"
    proof (rule concat_drop_skip)
      fix j assume j: "32 * i \<le> j" "j < 32 * i + ?c" "j < length (queues pq)"
      then have "\<not> bit w (j - 32 * i)" using ctz_props(3) [OF False, of "j - 32 * i"] by linarith
      then show "queues pq ! j = []" using empty [of "j - 32 * i"] j c by simp
    qed
    moreover obtain n rest where "queues pq ! (32 * i + ?c) = n # rest"
      using q(2) by (auto simp: neq_Nil_conv)
    ultimately show ?thesis using False concat_drop_at [OF q(1)]
      by (simp add: z_priq_dumb_best_def mult.commute)
  qed
qed

lemma mq_offset:
  assumes "mq_inv hp th pq" "mq_ok hp (length (queues pq)) t"
  obtains i where "prio t = hp + int i" "i < length (queues pq)"
    "get_prio_info hp (prio t) = \<lparr>offset_prio = i, info_idx = i div 32, info_bit = i mod 32\<rparr>"
proof -
  from assms have "0 \<le> prio t - hp" "prio t - hp < 256" "prio t - hp < int (length (queues pq))"
    by (auto simp: mq_inv_def mq_ok_def)
  then show ?thesis
    by (intro that [of "nat (prio t - hp)"]) (auto simp: get_prio_info_def Let_def)
qed

lemma mq_add_elems:
  assumes inv: "mq_inv hp th pq" and ok: "mq_ok hp (length (queues pq)) (th t)"
  shows "concat (queues (z_priq_mq_add hp th pq t)) = z_priq_dumb_add th (concat (queues pq)) t"
proof -
  let ?qs = "queues pq"
  obtain i where hp: "prio (th t) = hp + int i" and i: "i < length ?qs"
    and info: "get_prio_info hp (prio (th t)) = \<lparr>offset_prio = i, info_idx = i div 32, info_bit = i mod 32\<rparr>"
    by (rule mq_offset [OF inv ok])
  from inv have pr: "\<And>j u. j < length ?qs \<Longrightarrow> u \<in> set (?qs ! j) \<Longrightarrow> prio (th u) = hp + int j"
    by (auto simp: mq_inv_def)
  have lo: "\<forall>x \<in> set (concat (take (Suc i) ?qs)). prio (th x) \<le> prio (th t)"
  proof
    fix x assume "x \<in> set (concat (take (Suc i) ?qs))"
    then obtain q where "q \<in> set (take (Suc i) ?qs)" "x \<in> set q" by auto
    then obtain j where "j < length ?qs" "j \<le> i" "x \<in> set (?qs ! j)"
      by (auto simp: in_set_conv_nth [of q] less_Suc_eq_le)
    then show "prio (th x) \<le> prio (th t)" using pr [of j x] hp by simp
  qed
  have hi: "\<forall>y \<in> set (concat (drop (Suc i) ?qs)). prio (th t) < prio (th y)"
  proof
    fix y assume "y \<in> set (concat (drop (Suc i) ?qs))"
    then obtain q where "q \<in> set (drop (Suc i) ?qs)" "y \<in> set q" by auto
    then obtain j where "j < length ?qs - Suc i" "y \<in> set (?qs ! (Suc i + j))"
      by (auto simp: in_set_conv_nth [of q])
    then have "prio (th y) = hp + int (Suc i + j)" using pr [of "Suc i + j" y] by simp
    then show "prio (th t) < prio (th y)" using hp by simp
  qed
  have "concat ?qs = concat (take (Suc i) ?qs) @ concat (drop (Suc i) ?qs)"
    by (metis append_take_drop_id concat_append)
  then have "z_priq_dumb_add th (concat ?qs) t =
      concat (take (Suc i) ?qs) @ t # concat (drop (Suc i) ?qs)"
    using dumb_add_between [OF lo hi] by simp
  then show ?thesis
    using i by (simp add: z_priq_mq_add_def Let_def info concat_update_append)
qed

lemma u32_bit_exp: "n < 32 \<Longrightarrow> bit ((2::u32) ^ m) n \<longleftrightarrow> n = m"
  by (auto simp: bit_simps)

lemma div_mod_32_eq: "i div 32 = k div 32 \<Longrightarrow> i mod 32 = k mod 32 \<Longrightarrow> i = (k::nat)"
  by (metis div_mult_mod_eq)

lemma mq_set_bit:
  assumes "k < 32 * length (bitmask pq)"
  shows "mq_bit (pq\<lparr>bitmask := (bitmask pq)[k div 32 := bitmask pq ! (k div 32) OR push_bit (k mod 32) 1]\<rparr>) i
     \<longleftrightarrow> mq_bit pq i \<or> i = k"
proof (cases "i div 32 = k div 32")
  case True
  have "k div 32 < length (bitmask pq)" using assms by auto
  then have "mq_bit (pq\<lparr>bitmask := (bitmask pq)[k div 32 := bitmask pq ! (k div 32) OR push_bit (k mod 32) 1]\<rparr>) i
      \<longleftrightarrow> mq_bit pq i \<or> i mod 32 = k mod 32"
    by (simp add: True mq_bit_def bit_or_iff u32_bit_exp)
  then show ?thesis using True div_mod_32_eq by blast
next
  case False
  then show ?thesis by (auto simp: mq_bit_def)
qed

lemma mq_clear_bit:
  assumes "k < 32 * length (bitmask pq)"
  shows "mq_bit (pq\<lparr>bitmask := (bitmask pq)[k div 32 := bitmask pq ! (k div 32) AND NOT (push_bit (k mod 32) 1)]\<rparr>) i
     \<longleftrightarrow> mq_bit pq i \<and> i \<noteq> k"
proof (cases "i div 32 = k div 32")
  case True
  have "k div 32 < length (bitmask pq)" using assms by auto
  then have "mq_bit (pq\<lparr>bitmask := (bitmask pq)[k div 32 := bitmask pq ! (k div 32) AND NOT (push_bit (k mod 32) 1)]\<rparr>) i
      \<longleftrightarrow> mq_bit pq i \<and> i mod 32 \<noteq> k mod 32"
    by (simp add: True mq_bit_def bit_and_iff bit_not_iff u32_bit_exp)
  then show ?thesis using True div_mod_32_eq by blast
next
  case False
  then show ?thesis by (auto simp: mq_bit_def)
qed


lemma mq_invI:
  assumes "length (queues pq) \<le> 256" "length (queues pq) \<le> 32 * length (bitmask pq)"
    and "\<And>i. i < 32 * length (bitmask pq) \<Longrightarrow> mq_bit pq i \<longleftrightarrow> i < length (queues pq) \<and> queues pq ! i \<noteq> []"
    and "\<And>i t. i < length (queues pq) \<Longrightarrow> t \<in> set (queues pq ! i) \<Longrightarrow> prio (th t) = hp + int i"
    and "distinct (concat (queues pq))"
  shows "mq_inv hp th pq"
  using assms by (simp add: mq_inv_def)

lemma mq_invD:
  assumes "mq_inv hp th pq"
  shows "length (queues pq) \<le> 256" "length (queues pq) \<le> 32 * length (bitmask pq)"
    and "\<And>i. i < 32 * length (bitmask pq) \<Longrightarrow> mq_bit pq i \<longleftrightarrow> i < length (queues pq) \<and> queues pq ! i \<noteq> []"
    and "\<And>i t. i < length (queues pq) \<Longrightarrow> t \<in> set (queues pq ! i) \<Longrightarrow> prio (th t) = hp + int i"
    and "distinct (concat (queues pq))"
  using assms by (simp_all add: mq_inv_def)

lemma mq_bit_queues [simp]: "mq_bit (pq\<lparr>queues := qs\<rparr>) i = mq_bit pq i"
  by (simp add: mq_bit_def)

lemma mq_bit_both [simp]: "mq_bit (pq\<lparr>queues := qs, bitmask := bs\<rparr>) i = mq_bit (pq\<lparr>bitmask := bs\<rparr>) i"
  by (simp add: mq_bit_def)

lemma mq_add_inv:
  assumes inv: "mq_inv hp th pq" and ok: "mq_ok hp (length (queues pq)) (th t)"
    and new: "t \<notin> set (concat (queues pq))"
  shows "mq_inv hp th (z_priq_mq_add hp th pq t)"
proof -
  note d = mq_invD [OF inv]
  let ?qs = "queues pq"
  obtain i where hp: "prio (th t) = hp + int i" and i: "i < length ?qs"
    and info: "get_prio_info hp (prio (th t)) = \<lparr>offset_prio = i, info_idx = i div 32, info_bit = i mod 32\<rparr>"
    by (rule mq_offset [OF inv ok])
  let ?pq = "pq\<lparr>queues := ?qs[i := ?qs ! i @ [t]],
    bitmask := (bitmask pq)[i div 32 := bitmask pq ! (i div 32) OR push_bit (i mod 32) 1]\<rparr>"
  have pq: "z_priq_mq_add hp th pq t = ?pq"
    by (simp add: z_priq_mq_add_def Let_def info)
  show ?thesis unfolding pq
  proof (rule mq_invI)
    show "mq_bit ?pq j \<longleftrightarrow> j < length (queues ?pq) \<and> queues ?pq ! j \<noteq> []"
      if "j < 32 * length (bitmask ?pq)" for j
    proof -
      have "i < 32 * length (bitmask pq)" using i d(2) by simp
      then have "mq_bit ?pq j \<longleftrightarrow> mq_bit pq j \<or> j = i"
        using mq_set_bit by simp
      then show ?thesis using d(3) [of j] that i by (cases "j = i") auto
    qed
    show "prio (th u) = hp + int j" if "j < length (queues ?pq)" "u \<in> set (queues ?pq ! j)" for j u
      using that d(4) [of j u] hp by (cases "j = i") auto
    show "distinct (concat (queues ?pq))"
      using mq_add_elems [OF inv ok] d(5) new unfolding pq
      by (simp del: select_convs update_convs)
  qed (use d in simp_all)
qed

lemma mq_remove_elems:
  assumes "mq_inv hp th pq"
  shows "concat (queues (z_priq_mq_remove hp th pq t)) = remove1 t (concat (queues pq))"
  using concat_map_remove1 [OF mq_invD(5) [OF assms], of t]
  by (simp add: z_priq_mq_remove_def Let_def)

lemma mq_mem_ok:
  assumes "mq_inv hp th pq" "t \<in> set (concat (queues pq))"
  shows "mq_ok hp (length (queues pq)) (th t)"
proof -
  from assms(2) obtain q where "q \<in> set (queues pq)" "t \<in> set q" by auto
  then obtain i where "i < length (queues pq)" "t \<in> set (queues pq ! i)"
    by (auto simp: in_set_conv_nth [of q])
  then show ?thesis using mq_invD(4) [OF assms(1)] by (simp add: mq_ok_def)
qed

lemma mq_remove_inv:
  assumes inv: "mq_inv hp th pq" and mem: "t \<in> set (concat (queues pq))"
  shows "mq_inv hp th (z_priq_mq_remove hp th pq t)"
proof -
  note d = mq_invD [OF inv]
  let ?qs = "queues pq" and ?rm = "map (remove1 t) (queues pq)"
  obtain i where hp: "prio (th t) = hp + int i" and i: "i < length ?qs"
    and info: "get_prio_info hp (prio (th t)) = \<lparr>offset_prio = i, info_idx = i div 32, info_bit = i mod 32\<rparr>"
    by (rule mq_offset [OF inv mq_mem_ok [OF inv mem]])
  let ?bs = "(bitmask pq)[i div 32 := bitmask pq ! (i div 32) AND NOT (push_bit (i mod 32) 1)]"
  let ?pq = "if ?rm ! i = [] then pq\<lparr>queues := ?rm, bitmask := ?bs\<rparr> else pq\<lparr>queues := ?rm\<rparr>"
  have pq: "z_priq_mq_remove hp th pq t = ?pq"
    by (simp add: z_priq_mq_remove_def Let_def info)
  have qs [simp]: "queues ?pq = ?rm" and len [simp]: "length (bitmask ?pq) = length (bitmask pq)"
    by simp_all
  have other: "?rm ! j = ?qs ! j" if "j < length ?qs" "j \<noteq> i" for j
  proof -
    have "t \<notin> set (?qs ! j)" using that d(4) [of j t] hp by auto
    then show ?thesis using that by simp
  qed
  have ib: "i < 32 * length (bitmask pq)" using i d(2) by simp
  have bit: "mq_bit ?pq j \<longleftrightarrow> mq_bit pq j \<and> (j \<noteq> i \<or> ?rm ! i \<noteq> [])" for j
    using mq_clear_bit [OF ib] by simp
  have rm_i: "?qs ! i \<noteq> []" if "?rm ! i \<noteq> []" using that i by auto
  show ?thesis unfolding pq
  proof (rule mq_invI)
    show "mq_bit ?pq j \<longleftrightarrow> j < length (queues ?pq) \<and> queues ?pq ! j \<noteq> []"
      if "j < 32 * length (bitmask ?pq)" for j
    proof -
      from that have "j < 32 * length (bitmask pq)" by (simp only: len)
      then show ?thesis
        unfolding bit qs using d(3) [of j] i other [of j] rm_i by (cases "j = i") auto
    qed
    show "prio (th u) = hp + int j" if "j < length (queues ?pq)" "u \<in> set (queues ?pq ! j)" for j u
      using that d(4) [of j u] notin_set_remove1 [of u "?qs ! j" t] unfolding qs by auto
    show "distinct (concat (queues ?pq))"
      unfolding qs using concat_map_remove1 [OF d(5), of t] d(5) by simp
  qed (use d in \<open>simp_all only: qs len length_map\<close>)
qed

lemma mq_inv_sorted:
  assumes "mq_inv hp th pq"
  shows "sorted_wrt (by_prio th) (concat (queues pq))"
proof -
  have "sorted_wrt (by_prio th) (concat qs)"
    if "\<And>i t. i < length qs \<Longrightarrow> t \<in> set (qs ! i) \<Longrightarrow> prio (th t) = p + int i" for qs p
    using that
  proof (induction qs arbitrary: p)
    case (Cons q qs)
    have q: "prio (th t) = p" if "t \<in> set q" for t using Cons.prems [of 0 t] that by simp
    have qs: "prio (th t) = (p + 1) + int i" if "i < length qs" "t \<in> set (qs ! i)" for i t
      using Cons.prems [of "Suc i" t] that by simp
    have "p \<le> prio (th t)" if "t \<in> set (concat qs)" for t
    proof -
      from that obtain r where "r \<in> set qs" "t \<in> set r" by auto
      then obtain i where "i < length qs" "t \<in> set (qs ! i)" by (auto simp: in_set_conv_nth [of r])
      then show ?thesis using qs by fastforce
    qed
    moreover have "sorted_wrt (by_prio th) q" using q by (simp add: sorted_wrt_iff_nth_less)
    ultimately show ?case using Cons.IH [OF qs] q by (auto simp: sorted_wrt_append)
  qed simp
  then show ?thesis using mq_invD(4) [OF assms] by blast
qed

interpretation mq: priq "z_priq_mq_add hp" "z_priq_mq_remove hp" z_priq_mq_best "\<lambda>q. concat (queues q)"
    "mq_inv hp" "\<lambda>q. mq_ok hp (length (queues q))" for hp
proof unfold_locales
  fix th q assume inv: "mq_inv hp th q"
  show "distinct (concat (queues q))" using mq_invD(5) [OF inv] .
  show "sorted_wrt (by_prio th) (concat (queues q))" by (rule mq_inv_sorted [OF inv])
  show "z_priq_mq_best q = z_priq_dumb_best (concat (queues q))"
    using mq_best_from_head [OF mq_invD(3,2) [OF inv], where i = 0 and ws = "bitmask q"]
    by (simp add: z_priq_mq_best_def)
qed (simp_all add: mq_add_elems mq_add_inv mq_remove_elems mq_remove_inv)

end
