(* ===== verification/Timeout.thy ===== *)
theory Timeout
  imports Prelude
begin

text \<open>
  The timeout queue of \<open>kernel/timeout.c\<close>: a list of pending timeouts in which each entry stores
  its distance in ticks from the entry before it, the current tick, and the ticks still to be
  processed by a running \<open>sys_clock_announce\<close>. Tick counts are mathematical integers (the 64-bit
  counters do not wrap in the life of a system). The timer driver is outside the repository's
  kernel: what \<open>sys_clock_elapsed\<close> reports is the field \<open>clk_elapsed\<close>, and the last argument of
  \<open>sys_clock_set_timeout\<close> is kept in \<open>clk_programmed\<close>.
\<close>

section \<open>State\<close>

text \<open>Who owns a \<open>struct _timeout\<close>, and the callbacks the kernel installs.\<close>

datatype timeout_id = ThreadTo tid | SliceTo

datatype timeout_fn = Fn_thread_timeout | Fn_slice_timeout

record timeout =
  to_id :: timeout_id
  to_fn :: timeout_fn
  dticks :: k_ticks_t

record timeouts =
  timeout_list :: "timeout list"
  curr_tick :: k_ticks_t
  announce_remaining :: k_ticks_t
  clk_elapsed :: k_ticks_t
  clk_programmed :: k_ticks_t

abbreviation (input) INT_MAX :: int where "INT_MAX \<equiv> 2147483647"
abbreviation (input) UINT64_MAX :: int where "UINT64_MAX \<equiv> 18446744073709551615"

section \<open>Operations\<close>

definition first :: "timeouts \<Rightarrow> timeout option" where
  "first s = (case timeout_list s of [] \<Rightarrow> None | t # _ \<Rightarrow> Some t)"

definition linked :: "timeouts \<Rightarrow> timeout_id \<Rightarrow> bool" where
  "linked s i \<longleftrightarrow> i \<in> to_id ` set (timeout_list s)"

definition z_is_inactive_timeout :: "timeouts \<Rightarrow> timeout_id \<Rightarrow> bool" where
  "z_is_inactive_timeout s i \<longleftrightarrow> \<not> linked s i"

text \<open>\<open>remove_timeout\<close>: the next entry takes over the removed entry's ticks.\<close>

fun remove_timeout :: "timeout_id \<Rightarrow> timeout list \<Rightarrow> timeout list" where
  "remove_timeout i [] = []"
| "remove_timeout i (t # ts) =
     (if to_id t = i
      then (case ts of [] \<Rightarrow> [] | n # ns \<Rightarrow> n\<lparr>dticks := dticks n + dticks t\<rparr> # ns)
      else t # remove_timeout i ts)"

definition elapsed :: "timeouts \<Rightarrow> k_ticks_t" where
  "elapsed s = (if announce_remaining s = 0 then clk_elapsed s else 0)"

definition next_timeout :: "timeouts \<Rightarrow> k_ticks_t" where
  "next_timeout s =
     (let ticks_elapsed = elapsed s
      in case first s of
           None \<Rightarrow> INT_MAX
         | Some t \<Rightarrow> if dticks t - ticks_elapsed > INT_MAX then INT_MAX
                     else max 0 (dticks t - ticks_elapsed))"

text \<open>The insertion loop of \<open>z_add_timeout\<close>.\<close>

fun insert_timeout :: "timeout \<Rightarrow> timeout list \<Rightarrow> timeout list" where
  "insert_timeout e [] = [e]"
| "insert_timeout e (t # ts) =
     (if dticks t > dticks e then e # t\<lparr>dticks := dticks t - dticks e\<rparr> # ts
      else t # insert_timeout (e\<lparr>dticks := dticks e - dticks t\<rparr>) ts)"

definition timeout_delay :: "k_ticks_t \<Rightarrow> timeouts \<Rightarrow> k_ticks_t" where
  "timeout_delay ticks s =
     (if Z_TICK_ABS ticks \<ge> 0 then max 1 (Z_TICK_ABS ticks - curr_tick s)
      else ticks + 1 + elapsed s)"

definition z_add_timeout :: "timeout_id \<Rightarrow> timeout_fn \<Rightarrow> k_ticks_t \<Rightarrow> timeouts \<Rightarrow> timeouts" where
  "z_add_timeout i f ticks s =
     (if ticks = K_FOREVER then s
      else
        let e = \<lparr>to_id = i, to_fn = f, dticks = timeout_delay ticks s\<rparr>;
            s' = s\<lparr>timeout_list := insert_timeout e (timeout_list s)\<rparr>
        in if map_option to_id (first s') = Some i \<and> announce_remaining s' = 0
           then s'\<lparr>clk_programmed := next_timeout s'\<rparr> else s')"

definition z_abort_timeout :: "timeout_id \<Rightarrow> timeouts \<Rightarrow> int \<times> timeouts" where
  "z_abort_timeout i s =
     (if linked s i then (0, s\<lparr>timeout_list := remove_timeout i (timeout_list s)\<rparr>)
      else (- EINVAL, s))"

text \<open>The loop of \<open>timeout_rem\<close> sums up to the entry; without the entry it sums the list.\<close>

fun timeout_rem :: "timeout_id \<Rightarrow> timeout list \<Rightarrow> k_ticks_t" where
  "timeout_rem i [] = 0"
| "timeout_rem i (t # ts) = dticks t + (if to_id t = i then 0 else timeout_rem i ts)"

definition z_timeout_remaining :: "timeouts \<Rightarrow> timeout_id \<Rightarrow> k_ticks_t" where
  "z_timeout_remaining s i =
     (if \<not> z_is_inactive_timeout s i then timeout_rem i (timeout_list s) - elapsed s else 0)"

definition z_timeout_expires :: "timeouts \<Rightarrow> timeout_id \<Rightarrow> k_ticks_t" where
  "z_timeout_expires s i =
     curr_tick s + (if \<not> z_is_inactive_timeout s i then timeout_rem i (timeout_list s) else 0)"

definition z_get_next_timeout_expiry :: "timeouts \<Rightarrow> k_ticks_t" where
  "z_get_next_timeout_expiry s = next_timeout s"

definition sys_clock_tick_get :: "timeouts \<Rightarrow> k_ticks_t" where
  "sys_clock_tick_get s = curr_tick s + elapsed s"

definition sys_clock_tick_get_32 :: "timeouts \<Rightarrow> u32" where
  "sys_clock_tick_get_32 s = word_of_int (sys_clock_tick_get s)"

definition z_impl_k_uptime_ticks :: "timeouts \<Rightarrow> k_ticks_t" where
  "z_impl_k_uptime_ticks s = sys_clock_tick_get s"

definition sys_timepoint_calc :: "k_ticks_t \<Rightarrow> timeouts \<Rightarrow> int" where
  "sys_timepoint_calc ticks s =
     (if ticks = K_FOREVER then UINT64_MAX
      else if ticks = K_NO_WAIT then 0
      else if Z_TICK_ABS ticks \<ge> 0 then Z_TICK_ABS ticks
      else sys_clock_tick_get s + max 1 ticks)"

definition sys_timepoint_timeout :: "int \<Rightarrow> timeouts \<Rightarrow> k_ticks_t" where
  "sys_timepoint_timeout timepoint s =
     (if timepoint = UINT64_MAX then K_FOREVER
      else if timepoint = 0 then K_NO_WAIT
      else let now = sys_clock_tick_get s
           in if timepoint > now then timepoint - now else 0)"

text \<open>
  The steps of \<open>sys_clock_announce\<close>: \<open>announce_begin\<close> sets the ticks to process;
  \<open>announce_due\<close> is the loop test; \<open>announce_pop\<close> takes the first timeout off the list before
  its callback runs, \<open>announce_charge\<close> accounts its ticks after; \<open>announce_end\<close> is what follows
  the loop. The loop itself, which runs the callbacks, is in the theory \<open>Clock\<close>.
\<close>

definition announce_begin :: "k_ticks_t \<Rightarrow> timeouts \<Rightarrow> timeouts" where
  "announce_begin ticks s = s\<lparr>announce_remaining := ticks\<rparr>"

definition announce_due :: "timeouts \<Rightarrow> timeout option" where
  "announce_due s =
     (case first s of None \<Rightarrow> None
      | Some t \<Rightarrow> if dticks t \<le> announce_remaining s then Some t else None)"

definition announce_pop :: "timeout \<Rightarrow> timeouts \<Rightarrow> timeouts" where
  "announce_pop t s =
     s\<lparr>curr_tick := curr_tick s + dticks t,
       timeout_list := remove_timeout (to_id t) (t\<lparr>dticks := 0\<rparr> # tl (timeout_list s))\<rparr>"

definition announce_charge :: "k_ticks_t \<Rightarrow> timeouts \<Rightarrow> timeouts" where
  "announce_charge dt s = s\<lparr>announce_remaining := announce_remaining s - dt\<rparr>"

definition announce_end :: "timeouts \<Rightarrow> timeouts" where
  "announce_end s =
     (let r = announce_remaining s;
          l = (case timeout_list s of [] \<Rightarrow> [] | t # ts \<Rightarrow> t\<lparr>dticks := dticks t - r\<rparr> # ts);
          s' = s\<lparr>timeout_list := l, curr_tick := curr_tick s + r, announce_remaining := 0\<rparr>
      in s'\<lparr>clk_programmed := next_timeout s'\<rparr>)"

section \<open>The abstract view: a map from timeouts to ticks left\<close>

fun list_deadline :: "timeout list \<Rightarrow> timeout_id \<Rightarrow> k_ticks_t option" where
  "list_deadline [] i = None"
| "list_deadline (t # ts) i =
     (if to_id t = i then Some (dticks t) else map_option (\<lambda>d. dticks t + d) (list_deadline ts i))"

definition deadline :: "timeouts \<Rightarrow> timeout_id \<Rightarrow> k_ticks_t option" where
  "deadline s = list_deadline (timeout_list s)"

text \<open>The callback that goes with each owner.\<close>

fun fn_for :: "timeout_id \<Rightarrow> timeout_fn \<Rightarrow> bool" where
  "fn_for (ThreadTo t) f = (f = Fn_thread_timeout)"
| "fn_for SliceTo f = (f = Fn_slice_timeout)"

definition timeouts_inv :: "timeouts \<Rightarrow> bool" where
  "timeouts_inv s \<longleftrightarrow>
     distinct (map to_id (timeout_list s)) \<and> (\<forall>t \<in> set (timeout_list s). 0 \<le> dticks t) \<and>
     (\<forall>t \<in> set (timeout_list s). fn_for (to_id t) (to_fn t)) \<and> 0 \<le> clk_elapsed s"

section \<open>Lemmas\<close>

lemma list_deadline_None: "list_deadline ts i = None \<longleftrightarrow> i \<notin> to_id ` set ts"
  by (induction ts) auto

lemma linked_deadline: "linked s i \<longleftrightarrow> deadline s i \<noteq> None"
  by (simp add: linked_def deadline_def list_deadline_None)

lemma list_deadline_insert:
  "to_id e \<notin> to_id ` set ts \<Longrightarrow>
     list_deadline (insert_timeout e ts) = (list_deadline ts)(to_id e \<mapsto> dticks e)"
proof (induction e ts rule: insert_timeout.induct)
  case (2 e t ts)
  show ?case
  proof (cases "dticks t > dticks e")
    case True
    with 2 show ?thesis by (auto simp: fun_eq_iff)
  next
    case False
    with 2 show ?thesis by (auto simp: fun_eq_iff)
  qed
qed (auto simp: fun_eq_iff)

lemma ids_insert_timeout: "mset (map to_id (insert_timeout e ts)) = add_mset (to_id e) (mset (map to_id ts))"
  by (induction e ts rule: insert_timeout.induct) auto

lemma set_ids_insert_timeout: "to_id ` set (insert_timeout e ts) = insert (to_id e) (to_id ` set ts)"
  by (induction e ts rule: insert_timeout.induct) auto

lemma distinct_insert_timeout:
  "to_id e \<notin> to_id ` set ts \<Longrightarrow> distinct (map to_id (insert_timeout e ts)) = distinct (map to_id ts)"
  by (induction e ts rule: insert_timeout.induct) (auto simp: set_ids_insert_timeout)

lemma nonneg_insert_timeout:
  "0 \<le> dticks e \<Longrightarrow> \<forall>t \<in> set ts. 0 \<le> dticks t \<Longrightarrow> \<forall>t \<in> set (insert_timeout e ts). 0 \<le> dticks t"
  by (induction e ts rule: insert_timeout.induct) auto

lemma fn_insert_timeout:
  "fn_for (to_id e) (to_fn e) \<Longrightarrow> \<forall>t \<in> set ts. fn_for (to_id t) (to_fn t) \<Longrightarrow>
     \<forall>t \<in> set (insert_timeout e ts). fn_for (to_id t) (to_fn t)"
  by (induction e ts rule: insert_timeout.induct) auto

lemma fn_remove_timeout:
  "\<forall>t \<in> set ts. fn_for (to_id t) (to_fn t) \<Longrightarrow> \<forall>t \<in> set (remove_timeout i ts). fn_for (to_id t) (to_fn t)"
  by (induction ts) (auto split: list.splits)

lemma list_deadline_remove:
  "distinct (map to_id ts) \<Longrightarrow> list_deadline (remove_timeout i ts) = (list_deadline ts)(i := None)"
proof (induction ts)
  case (Cons t ts)
  show ?case
  proof (cases "to_id t = i")
    case True
    with Cons.prems have "list_deadline ts i = None" by (auto simp: list_deadline_None)
    with True Cons.prems show ?thesis
      by (cases ts) (auto simp: fun_eq_iff add.commute)
  next
    case False
    with Cons show ?thesis by (auto simp: fun_eq_iff)
  qed
qed (simp add: fun_eq_iff)

lemma ids_remove_timeout: "map to_id (remove_timeout i ts) = remove1 i (map to_id ts)"
  by (induction ts) (auto split: list.splits)

lemma nonneg_remove_timeout:
  "\<forall>t \<in> set ts. 0 \<le> dticks t \<Longrightarrow> \<forall>t \<in> set (remove_timeout i ts). 0 \<le> dticks t"
  by (induction ts) (auto split: list.splits)

lemma timeout_rem_deadline: "list_deadline ts i = Some d \<Longrightarrow> timeout_rem i ts = d"
  by (induction ts arbitrary: d) (auto split: if_splits)

lemma deadline_nonneg:
  "timeouts_inv s \<Longrightarrow> deadline s i = Some d \<Longrightarrow> 0 \<le> d"
proof -
  have "\<forall>t \<in> set ts. 0 \<le> dticks t \<Longrightarrow> list_deadline ts i = Some d \<Longrightarrow> 0 \<le> d" for ts
    by (induction ts arbitrary: d) (auto split: if_splits)
  then show "timeouts_inv s \<Longrightarrow> deadline s i = Some d \<Longrightarrow> 0 \<le> d"
    by (auto simp: timeouts_inv_def deadline_def)
qed

subsection \<open>The queue as a client sees it\<close>

text \<open>
  The contract between the timeout queue and the scheduler: arming sets one deadline, aborting
  clears one, and neither moves any other deadline.
\<close>

locale timeout_queue =
  fixes arm :: "timeout_id \<Rightarrow> timeout_fn \<Rightarrow> k_ticks_t \<Rightarrow> 's \<Rightarrow> 's"
    and abort :: "timeout_id \<Rightarrow> 's \<Rightarrow> int \<times> 's"
    and due :: "'s \<Rightarrow> timeout_id \<Rightarrow> k_ticks_t option"
    and delay :: "k_ticks_t \<Rightarrow> 's \<Rightarrow> k_ticks_t"
    and goes_with :: "timeout_id \<Rightarrow> timeout_fn \<Rightarrow> bool"
    and invar :: "'s \<Rightarrow> bool"
  assumes due_arm: "invar s \<Longrightarrow> due s i = None \<Longrightarrow> ticks \<noteq> K_FOREVER \<Longrightarrow>
      due (arm i f ticks s) = (due s)(i \<mapsto> delay ticks s)"
    and arm_forever: "arm i f K_FOREVER s = s"
    and due_abort: "invar s \<Longrightarrow> due (snd (abort i s)) = (due s)(i := None)"
    and abort_result: "fst (abort i s) = (if due s i = None then - EINVAL else 0)"
    and invar_arm: "invar s \<Longrightarrow> due s i = None \<Longrightarrow> 0 \<le> delay ticks s \<Longrightarrow> goes_with i f \<Longrightarrow>
      invar (arm i f ticks s)"
    and invar_abort: "invar s \<Longrightarrow> invar (snd (abort i s))"
begin

lemma abort_arm:
  "invar s \<Longrightarrow> due s i = None \<Longrightarrow> 0 \<le> delay ticks s \<Longrightarrow> goes_with i f \<Longrightarrow>
     due (snd (abort i (arm i f ticks s))) = due s"
  by (cases "ticks = K_FOREVER")
    (auto simp: arm_forever due_abort due_arm invar_arm fun_upd_idem)

lemma arm_other: "invar s \<Longrightarrow> due s i = None \<Longrightarrow> j \<noteq> i \<Longrightarrow> due (arm i f ticks s) j = due s j"
  by (cases "ticks = K_FOREVER") (auto simp: arm_forever due_arm)

lemma abort_other: "invar s \<Longrightarrow> j \<noteq> i \<Longrightarrow> due (snd (abort i s)) j = due s j"
  by (simp add: due_abort)

lemma abort_clears: "invar s \<Longrightarrow> due (snd (abort i s)) i = None"
  by (simp add: due_abort)

end

lemma timeout_delay_pos:
  "timeouts_inv s \<Longrightarrow> ticks \<noteq> K_FOREVER \<Longrightarrow> 1 \<le> timeout_delay ticks s"
  by (auto simp: timeout_delay_def timeouts_inv_def elapsed_def Z_TICK_ABS_def)

lemma timeout_frame [simp]:
  "curr_tick (z_add_timeout i f ticks s) = curr_tick s"
  "announce_remaining (z_add_timeout i f ticks s) = announce_remaining s"
  "clk_elapsed (z_add_timeout i f ticks s) = clk_elapsed s"
  "curr_tick (snd (z_abort_timeout i s)) = curr_tick s"
  "announce_remaining (snd (z_abort_timeout i s)) = announce_remaining s"
  "clk_elapsed (snd (z_abort_timeout i s)) = clk_elapsed s"
  by (simp_all add: z_add_timeout_def z_abort_timeout_def Let_def)

lemma z_add_timeout_list:
  "ticks \<noteq> K_FOREVER \<Longrightarrow> timeout_list (z_add_timeout i f ticks s) =
     insert_timeout \<lparr>to_id = i, to_fn = f, dticks = timeout_delay ticks s\<rparr> (timeout_list s)"
  by (simp add: z_add_timeout_def Let_def)

interpretation tq: timeout_queue z_add_timeout z_abort_timeout deadline timeout_delay fn_for timeouts_inv
proof unfold_locales
  fix s i f and ticks :: k_ticks_t
  assume inv: "timeouts_inv s"
  { assume "deadline s i = None"
    then have new: "i \<notin> to_id ` set (timeout_list s)"
      by (simp add: deadline_def list_deadline_None)
    show "ticks \<noteq> K_FOREVER \<Longrightarrow>
        deadline (z_add_timeout i f ticks s) = (deadline s)(i \<mapsto> timeout_delay ticks s)"
      using new by (simp add: deadline_def z_add_timeout_list list_deadline_insert)
    show "timeouts_inv (z_add_timeout i f ticks s)" if "0 \<le> timeout_delay ticks s" "fn_for i f"
    proof (cases "ticks = K_FOREVER")
      case True
      with inv show ?thesis by (simp add: z_add_timeout_def)
    next
      case False
      with inv that new show ?thesis
        using nonneg_insert_timeout [of "\<lparr>to_id = i, to_fn = f, dticks = timeout_delay ticks s\<rparr>"
          "timeout_list s"] fn_insert_timeout [of "\<lparr>to_id = i, to_fn = f, dticks = timeout_delay ticks s\<rparr>"
          "timeout_list s"]
        by (simp add: timeouts_inv_def z_add_timeout_list distinct_insert_timeout)
    qed }
  show "deadline (snd (z_abort_timeout i s)) = (deadline s)(i := None)"
    using inv by (auto simp: z_abort_timeout_def linked_deadline deadline_def timeouts_inv_def
        list_deadline_remove fun_upd_idem)
  show "timeouts_inv (snd (z_abort_timeout i s))"
    using inv nonneg_remove_timeout [of "timeout_list s" i] fn_remove_timeout [of "timeout_list s" i]
    by (auto simp: z_abort_timeout_def timeouts_inv_def ids_remove_timeout)
next
  show "z_add_timeout i f K_FOREVER s = s" for i f s by (simp add: z_add_timeout_def)
  show "fst (z_abort_timeout i s) = (if deadline s i = None then - EINVAL else 0)" for i s
    by (simp add: z_abort_timeout_def linked_deadline)
qed

lemma invar_add_timeout:
  "timeouts_inv s \<Longrightarrow> deadline s i = None \<Longrightarrow> fn_for i f \<Longrightarrow> timeouts_inv (z_add_timeout i f ticks s)"
  using timeout_delay_pos [of s ticks] tq.invar_arm [of s i ticks f]
  by (cases "ticks = K_FOREVER") (auto simp: tq.arm_forever)

section \<open>Announcing ticks\<close>

lemma announce_dueD:
  "announce_due s = Some t \<Longrightarrow> \<exists>ts. timeout_list s = t # ts \<and> dticks t \<le> announce_remaining s"
  by (auto simp: announce_due_def first_def split: list.splits if_splits)

lemma announce_pop_list: "timeout_list s = t # ts \<Longrightarrow> timeout_list (announce_pop t s) = ts"
  by (simp add: announce_pop_def split: list.split)

lemma announce_pop_deadline:
  "timeouts_inv s \<Longrightarrow> timeout_list s = t # ts \<Longrightarrow>
     deadline (announce_pop t s) i = (if i = to_id t then None else map_option (\<lambda>d. d - dticks t) (deadline s i))"
  by (auto simp: deadline_def announce_pop_list timeouts_inv_def list_deadline_None option.map_comp
      comp_def option.map_ident)

lemma announce_pop_inv: "timeouts_inv s \<Longrightarrow> timeout_list s = t # ts \<Longrightarrow> timeouts_inv (announce_pop t s)"
  by (simp add: timeouts_inv_def announce_pop_list) (simp add: announce_pop_def)

lemma announce_frame [simp]:
  "curr_tick (announce_pop t s) = curr_tick s + dticks t"
  "announce_remaining (announce_pop t s) = announce_remaining s"
  "deadline (announce_charge dt s) = deadline s" "timeouts_inv (announce_charge dt s) = timeouts_inv s"
  "curr_tick (announce_charge dt s) = curr_tick s"
  "announce_remaining (announce_charge dt s) = announce_remaining s - dt"
  "deadline (announce_begin n s) = deadline s" "timeouts_inv (announce_begin n s) = timeouts_inv s"
  "curr_tick (announce_begin n s) = curr_tick s" "announce_remaining (announce_begin n s) = n"
  by (simp_all add: announce_pop_def announce_charge_def announce_begin_def deadline_def timeouts_inv_def)

text \<open>The end of an announcement moves every deadline by the ticks that were left.\<close>

lemma announce_end_deadline:
  "deadline (announce_end s) i = map_option (\<lambda>d. d - announce_remaining s) (deadline s i)"
  by (cases "timeout_list s")
    (auto simp: announce_end_def deadline_def Let_def option.map_comp comp_def algebra_simps
      intro!: option.map_cong)

lemma announce_end_inv:
  assumes "timeouts_inv s" "announce_due s = None"
  shows "timeouts_inv (announce_end s)"
  using assms
  by (cases "timeout_list s")
    (auto simp: announce_end_def announce_due_def first_def timeouts_inv_def Let_def split: if_splits)

lemma announce_end_frame [simp]:
  "curr_tick (announce_end s) = curr_tick s + announce_remaining s" "announce_remaining (announce_end s) = 0"
  by (simp_all add: announce_end_def Let_def)

lemma not_due_deadline:
  assumes "timeouts_inv s" "announce_due s = None" "deadline s i = Some d"
  shows "announce_remaining s < d"
proof -
  obtain t ts where l: "timeout_list s = t # ts"
    using assms(3) by (cases "timeout_list s") (auto simp: deadline_def)
  with assms(2) have lt: "announce_remaining s < dticks t"
    by (auto simp: announce_due_def first_def split: if_splits)
  have nn: "list_deadline ts i = Some e \<Longrightarrow> 0 \<le> e" for e
    using assms(1) l deadline_nonneg [of "s\<lparr>timeout_list := ts\<rparr>" i e]
    by (simp add: timeouts_inv_def deadline_def)
  show ?thesis using assms(3) l lt nn by (auto simp: deadline_def split: if_splits)
qed

text \<open>The first entry has the least deadline.\<close>

lemma first_deadline_least:
  assumes "timeouts_inv s" "timeout_list s = t # ts" "deadline s i = Some d"
  shows "dticks t \<le> d"
proof -
  have nn: "list_deadline ts i = Some e \<Longrightarrow> 0 \<le> e" for e
    using assms(1,2) deadline_nonneg [of "s\<lparr>timeout_list := ts\<rparr>" i e]
    by (simp add: timeouts_inv_def deadline_def)
  show ?thesis using assms nn by (auto simp: deadline_def split: if_splits)
qed

lemma finite_deadline: "finite {i. deadline s i \<noteq> None}"
proof -
  have "{i. deadline s i \<noteq> None} = to_id ` set (timeout_list s)"
    by (auto simp: deadline_def list_deadline_None)
  then show ?thesis by simp
qed

end
