(* ===== verification/Sched.thy ===== *)
theory Sched
  imports Priq Timeout
begin

text \<open>
  The scheduler of \<open>kernel/sched.c\<close> with the parts of \<open>kernel/timeslicing.c\<close>,
  \<open>kernel/include/ksched.h\<close>, \<open>kernel/include/kthread.h\<close> and \<open>kernel/include/kswap.h\<close> it calls: the kernel state
  and every operation that moves a thread between running, ready, pending, suspended and dead.

  The configuration is the uniprocessor one (\<open>CONFIG_SMP\<close> off), with \<open>CONFIG_USE_SWITCH\<close>,
  \<open>CONFIG_TIMESLICING\<close>, \<open>CONFIG_EVENTS\<close>, \<open>CONFIG_SCHED_DUMB\<close> and \<open>CONFIG_WAITQ_DUMB\<close> on, and
  \<open>CONFIG_SCHED_DEADLINE\<close>, \<open>CONFIG_TIMESLICE_PER_THREAD\<close>, \<open>CONFIG_SWAP_NONATOMIC\<close> and \<open>CONFIG_POLL\<close> off.
  On one processor a spin lock only masks interrupts, so every critical section is one step;
  \<open>irq_locked\<close> is the interrupt state at the entry of the routine (what the lock's key records).
\<close>

section \<open>Kernel state\<close>

record kernel =
  threads :: tcbs
  current :: tid
  idle_thread :: tid
  thread_dummy :: tid
  runq :: "tid list"
  cache :: tid
  waitqs :: "wait_q \<Rightarrow> tid list"
  tmo :: timeouts
  metairq_preempted :: "tid option"
  in_isr :: bool
  irq_locked :: bool
  slice_ticks :: int
  slice_max_prio :: int
  slice_expired :: bool
  num_coop :: int
  num_preempt :: int
  num_metairq :: int
  prio_ceiling :: int
  ticks_per_sec :: int
  bmem :: "addr \<Rightarrow> byte"
  pmem :: "addr \<Rightarrow> addr"

definition upd_thread :: "tid \<Rightarrow> (k_thread \<Rightarrow> k_thread) \<Rightarrow> kernel \<Rightarrow> kernel" where
  "upd_thread t f k = k\<lparr>threads := (threads k)(t := f (threads k t))\<rparr>"

text \<open>\<open>z_abort_thread_timeout\<close> and \<open>z_add_thread_timeout\<close> of \<open>kernel/include/timeout_q.h\<close>.\<close>

definition z_add_thread_timeout :: "tid \<Rightarrow> k_ticks_t \<Rightarrow> kernel \<Rightarrow> kernel" where
  "z_add_thread_timeout t ticks k = k\<lparr>tmo := z_add_timeout (ThreadTo t) Fn_thread_timeout ticks (tmo k)\<rparr>"

definition z_abort_thread_timeout :: "tid \<Rightarrow> kernel \<Rightarrow> int \<times> kernel" where
  "z_abort_thread_timeout t k =
     (let (ret, s) = z_abort_timeout (ThreadTo t) (tmo k) in (ret, k\<lparr>tmo := s\<rparr>))"

definition arch_thread_return_value_set :: "tid \<Rightarrow> int \<Rightarrow> kernel \<Rightarrow> kernel" where
  "arch_thread_return_value_set t v = upd_thread t (\<lambda>th. th\<lparr>swap_retval := v\<rparr>)"

definition z_thread_return_value_set_with_data :: "tid \<Rightarrow> int \<Rightarrow> addr \<Rightarrow> kernel \<Rightarrow> kernel" where
  "z_thread_return_value_set_with_data t v d k =
     upd_thread t (\<lambda>th. th\<lparr>swap_data := d\<rparr>) (arch_thread_return_value_set t v k)"

subsection \<open>Predicates on the state\<close>

definition z_is_thread_timeout_active :: "kernel \<Rightarrow> tid \<Rightarrow> bool" where
  "z_is_thread_timeout_active k t \<longleftrightarrow> \<not> z_is_inactive_timeout (tmo k) (ThreadTo t)"

definition z_is_thread_ready :: "kernel \<Rightarrow> tid \<Rightarrow> bool" where
  "z_is_thread_ready k t \<longleftrightarrow>
     \<not> (z_is_thread_prevented_from_running (threads k t) \<or> z_is_thread_timeout_active k t)"

definition thread_is_metairq :: "kernel \<Rightarrow> tid \<Rightarrow> bool" where
  "thread_is_metairq k t \<longleftrightarrow>
     num_metairq k > 0 \<and> prio (threads k t) - (- num_coop k) < num_metairq k"

definition z_is_prio_higher :: "int \<Rightarrow> int \<Rightarrow> bool" where
  "z_is_prio_higher p test_prio \<longleftrightarrow> p < test_prio"

definition should_preempt :: "kernel \<Rightarrow> tid \<Rightarrow> bool \<Rightarrow> bool" where
  "should_preempt k thread preempt_ok \<longleftrightarrow>
     preempt_ok \<or> z_is_thread_prevented_from_running (threads k (current k)) \<or>
     thread_is_preemptible (threads k (current k)) \<or> thread_is_metairq k thread"

section \<open>Time slices (timeslicing.c)\<close>

definition slice_time :: "kernel \<Rightarrow> tid \<Rightarrow> int" where
  "slice_time k thread = slice_ticks k"

definition thread_is_sliceable :: "kernel \<Rightarrow> tid \<Rightarrow> bool" where
  "thread_is_sliceable k thread \<longleftrightarrow>
     thread_is_preemptible (threads k thread) \<and> slice_time k thread \<noteq> 0 \<and>
     \<not> z_is_prio_higher (prio (threads k thread)) (slice_max_prio k) \<and>
     \<not> z_is_thread_prevented_from_running (threads k thread) \<and> thread \<noteq> idle_thread k"

definition slice_timeout :: "kernel \<Rightarrow> kernel" where
  "slice_timeout k = k\<lparr>slice_expired := True\<rparr>"

definition z_reset_time_slice :: "tid \<Rightarrow> kernel \<Rightarrow> kernel" where
  "z_reset_time_slice thread k =
     (let k1 = k\<lparr>tmo := snd (z_abort_timeout SliceTo (tmo k)), slice_expired := False\<rparr>
      in if thread_is_sliceable k1 thread
         then k1\<lparr>tmo := z_add_timeout SliceTo Fn_slice_timeout (slice_time k1 thread - 1) (tmo k1)\<rparr>
         else k1)"

section \<open>The run queue and the choice of the next thread\<close>

definition runq_add :: "tid \<Rightarrow> kernel \<Rightarrow> kernel" where
  "runq_add thread k = k\<lparr>runq := z_priq_dumb_add (threads k) (runq k) thread\<rparr>"

definition runq_remove :: "tid \<Rightarrow> kernel \<Rightarrow> kernel" where
  "runq_remove thread k = k\<lparr>runq := z_priq_dumb_remove (threads k) (runq k) thread\<rparr>"

definition runq_best :: "kernel \<Rightarrow> tid option" where
  "runq_best k = z_priq_dumb_best (runq k)"

definition queue_thread :: "tid \<Rightarrow> kernel \<Rightarrow> kernel" where
  "queue_thread thread k =
     runq_add thread
       (upd_thread thread (\<lambda>th. th\<lparr>thread_state := insert THREAD_QUEUED (thread_state th)\<rparr>) k)"

definition dequeue_thread :: "tid \<Rightarrow> kernel \<Rightarrow> kernel" where
  "dequeue_thread thread k =
     runq_remove thread
       (upd_thread thread (\<lambda>th. th\<lparr>thread_state := thread_state th - {THREAD_QUEUED}\<rparr>) k)"

definition clear_halting :: "tid \<Rightarrow> kernel \<Rightarrow> kernel" where
  "clear_halting thread =
     upd_thread thread
       (\<lambda>th. th\<lparr>thread_state := thread_state th - {THREAD_ABORTING, THREAD_SUSPENDING}\<rparr>)"

definition metairq_tracked :: "kernel \<Rightarrow> bool" where
  "metairq_tracked k \<longleftrightarrow> num_metairq k > 0 \<and> num_coop k > num_metairq k"

definition next_up :: "kernel \<Rightarrow> tid \<times> kernel" where
  "next_up k =
     (let thread = runq_best k;
          pick = (\<lambda>t. case t of Some x \<Rightarrow> x | None \<Rightarrow> idle_thread k)
      in case metairq_preempted k of
           None \<Rightarrow> (pick thread, k)
         | Some mirqp \<Rightarrow>
             if metairq_tracked k \<and>
                (case thread of None \<Rightarrow> True | Some t \<Rightarrow> \<not> thread_is_metairq k t)
             then if \<not> z_is_thread_prevented_from_running (threads k mirqp) then (mirqp, k)
                  else (pick thread, k\<lparr>metairq_preempted := None\<rparr>)
             else (pick thread, k))"

definition update_metairq_preempt :: "tid \<Rightarrow> kernel \<Rightarrow> kernel" where
  "update_metairq_preempt thread k =
     (if metairq_tracked k
      then if thread_is_metairq k thread \<and> \<not> thread_is_metairq k (current k) \<and>
              \<not> thread_is_preemptible (threads k (current k))
           then k\<lparr>metairq_preempted := Some (current k)\<rparr>
           else if \<not> thread_is_metairq k thread \<and> thread \<noteq> idle_thread k
           then k\<lparr>metairq_preempted := None\<rparr>
           else k
      else k)"

definition update_cache :: "bool \<Rightarrow> kernel \<Rightarrow> kernel" where
  "update_cache preempt_ok k =
     (let (thread, k1) = next_up k
      in if should_preempt k1 thread preempt_ok
         then let k2 = (if thread \<noteq> current k1 then z_reset_time_slice thread k1 else k1);
                  k3 = update_metairq_preempt thread k2
              in k3\<lparr>cache := thread\<rparr>
         else k1\<lparr>cache := current k1\<rparr>)"

definition move_thread_to_end_of_prio_q :: "tid \<Rightarrow> kernel \<Rightarrow> kernel" where
  "move_thread_to_end_of_prio_q thread k =
     (let k1 = (if z_is_thread_queued (threads k thread) then dequeue_thread thread k else k)
      in update_cache (thread = current k) (queue_thread thread k1))"

definition ready_thread :: "tid \<Rightarrow> kernel \<Rightarrow> kernel" where
  "ready_thread thread k =
     (if \<not> z_is_thread_queued (threads k thread) \<and> z_is_thread_ready k thread
      then update_cache False (queue_thread thread k) else k)"

definition z_ready_thread :: "tid \<Rightarrow> kernel \<Rightarrow> kernel" where
  "z_ready_thread thread k = ready_thread thread k"

section \<open>Context switch\<close>

definition z_swap_next_thread :: "kernel \<Rightarrow> tid" where
  "z_swap_next_thread k = cache k"

definition do_swap :: "kernel \<Rightarrow> kernel" where
  "do_swap k =
     (let old_thread = current k;
          k1 = upd_thread old_thread (\<lambda>th. th\<lparr>swap_retval := - EAGAIN\<rparr>) k;
          new_thread = z_swap_next_thread k1
      in if new_thread \<noteq> old_thread
         then z_reset_time_slice new_thread (k1\<lparr>current := new_thread\<rparr>)
         else k1)"

definition resched :: "kernel \<Rightarrow> bool" where
  "resched k \<longleftrightarrow> \<not> irq_locked k \<and> \<not> in_isr k"

definition need_swap :: "kernel \<Rightarrow> bool" where
  "need_swap k \<longleftrightarrow> cache k \<noteq> current k"

definition z_reschedule :: "kernel \<Rightarrow> kernel" where
  "z_reschedule k = (if resched k \<and> need_swap k then do_swap k else k)"

text \<open>On the way out of an interrupt: switch to the cached thread.\<close>

definition z_get_next_switch_handle :: "kernel \<Rightarrow> kernel" where
  "z_get_next_switch_handle k = k\<lparr>current := cache k\<rparr>"

section \<open>Pending and waking threads\<close>

definition unready_thread :: "tid \<Rightarrow> kernel \<Rightarrow> kernel" where
  "unready_thread thread k =
     (let k1 = (if z_is_thread_queued (threads k thread) then dequeue_thread thread k else k)
      in update_cache (thread = current k1) k1)"

definition add_to_waitq_locked :: "tid \<Rightarrow> wait_q option \<Rightarrow> kernel \<Rightarrow> kernel" where
  "add_to_waitq_locked thread wait_q k =
     (let k1 = upd_thread thread z_mark_thread_as_pending (unready_thread thread k)
      in case wait_q of
           None \<Rightarrow> k1
         | Some w \<Rightarrow>
             let k2 = upd_thread thread (\<lambda>th. th\<lparr>pended_on := Some w\<rparr>) k1
             in k2\<lparr>waitqs := (waitqs k2)(w := z_priq_dumb_add (threads k2) (waitqs k2 w) thread)\<rparr>)"

definition add_thread_timeout :: "tid \<Rightarrow> k_ticks_t \<Rightarrow> kernel \<Rightarrow> kernel" where
  "add_thread_timeout thread timeout k =
     (if timeout \<noteq> K_FOREVER then z_add_thread_timeout thread timeout k else k)"

definition pend_locked :: "tid \<Rightarrow> wait_q option \<Rightarrow> k_ticks_t \<Rightarrow> kernel \<Rightarrow> kernel" where
  "pend_locked thread wait_q timeout k =
     add_thread_timeout thread timeout (add_to_waitq_locked thread wait_q k)"

text \<open>\<open>pended_on_thread\<close> asserts that the thread is pended; there is nothing to do when it is not.\<close>

definition unpend_thread_no_timeout :: "tid \<Rightarrow> kernel \<Rightarrow> kernel" where
  "unpend_thread_no_timeout thread k =
     (case pended_on (threads k thread) of
        None \<Rightarrow> k
      | Some w \<Rightarrow>
          upd_thread thread (\<lambda>th. (z_mark_thread_as_not_pending th)\<lparr>pended_on := None\<rparr>)
            (k\<lparr>waitqs := (waitqs k)(w := z_priq_dumb_remove (threads k) (waitqs k w) thread)\<rparr>))"

definition z_unpend_thread_no_timeout :: "tid \<Rightarrow> kernel \<Rightarrow> kernel" where
  "z_unpend_thread_no_timeout thread k =
     (if pended_on (threads k thread) \<noteq> None then unpend_thread_no_timeout thread k else k)"

definition z_sched_wake_thread :: "tid \<Rightarrow> bool \<Rightarrow> kernel \<Rightarrow> kernel" where
  "z_sched_wake_thread thread is_timeout k =
     (let killed = thread_state (threads k thread) \<inter> {THREAD_DEAD, THREAD_ABORTING} \<noteq> {};
          do_nothing = no_wake_on_timeout (threads k thread) \<and> is_timeout;
          k1 = upd_thread thread (\<lambda>th. th\<lparr>no_wake_on_timeout := False\<rparr>) k
      in if do_nothing \<or> killed then k1
         else
           let k2 = z_unpend_thread_no_timeout thread k1;
               k3 = upd_thread thread z_mark_thread_as_started k2;
               k4 = (if is_timeout then upd_thread thread z_mark_thread_as_not_suspended k3 else k3)
           in ready_thread thread k4)"

definition z_thread_timeout :: "tid \<Rightarrow> kernel \<Rightarrow> kernel" where
  "z_thread_timeout thread k = z_sched_wake_thread thread True k"

text \<open>
  \<open>z_pend_curr\<close> up to the context switch. The pended thread returns from it with its
  \<open>swap_retval\<close> when it is switched in again.
\<close>

definition z_pend_curr :: "wait_q \<Rightarrow> k_ticks_t \<Rightarrow> kernel \<Rightarrow> kernel" where
  "z_pend_curr wait_q timeout k = do_swap (pend_locked (current k) (Some wait_q) timeout k)"

definition z_waitq_head :: "wait_q \<Rightarrow> kernel \<Rightarrow> tid option" where
  "z_waitq_head w k = (case waitqs k w of [] \<Rightarrow> None | t # _ \<Rightarrow> Some t)"

definition z_unpend1_no_timeout :: "wait_q \<Rightarrow> kernel \<Rightarrow> tid option \<times> kernel" where
  "z_unpend1_no_timeout w k =
     (case z_priq_dumb_best (waitqs k w) of
        None \<Rightarrow> (None, k)
      | Some thread \<Rightarrow> (Some thread, unpend_thread_no_timeout thread k))"

definition z_unpend_first_thread :: "wait_q \<Rightarrow> kernel \<Rightarrow> tid option \<times> kernel" where
  "z_unpend_first_thread w k =
     (case z_priq_dumb_best (waitqs k w) of
        None \<Rightarrow> (None, k)
      | Some thread \<Rightarrow>
          (Some thread, snd (z_abort_thread_timeout thread (unpend_thread_no_timeout thread k))))"

definition z_unpend_thread :: "tid \<Rightarrow> kernel \<Rightarrow> kernel" where
  "z_unpend_thread thread k =
     snd (z_abort_thread_timeout thread (z_unpend_thread_no_timeout thread k))"

text \<open>
  Loops that take threads off a wait queue until it is empty. Each pass removes one thread, so
  the length of the queue bounds the passes; \<open>wake_loop_drains\<close> in the theory \<open>Sched_Inv\<close> shows
  that the loop leaves the queue empty.
\<close>

fun unpend_all_loop :: "nat \<Rightarrow> wait_q \<Rightarrow> kernel \<Rightarrow> kernel" where
  "unpend_all_loop 0 w k = k"
| "unpend_all_loop (Suc n) w k =
     (case z_waitq_head w k of
        None \<Rightarrow> k
      | Some thread \<Rightarrow>
          unpend_all_loop n w
            (ready_thread thread
              (arch_thread_return_value_set thread 0
                (snd (z_abort_thread_timeout thread (unpend_thread_no_timeout thread k))))))"

definition unpend_all :: "wait_q \<Rightarrow> kernel \<Rightarrow> kernel" where
  "unpend_all w k = unpend_all_loop (length (waitqs k w)) w k"

fun z_unpend_all_loop :: "nat \<Rightarrow> wait_q \<Rightarrow> kernel \<Rightarrow> bool \<times> kernel" where
  "z_unpend_all_loop 0 w k = (False, k)"
| "z_unpend_all_loop (Suc n) w k =
     (case z_waitq_head w k of
        None \<Rightarrow> (False, k)
      | Some thread \<Rightarrow>
          (True, snd (z_unpend_all_loop n w (z_ready_thread thread (z_unpend_thread thread k)))))"

definition z_unpend_all :: "wait_q \<Rightarrow> kernel \<Rightarrow> bool \<times> kernel" where
  "z_unpend_all w k = z_unpend_all_loop (length (waitqs k w)) w k"

text \<open>
  The loop that several objects share (\<open>k_sem_reset\<close>, \<open>k_msgq_purge\<close>, \<open>k_condvar_broadcast\<close>,
  \<open>k_futex_wake\<close>): unpend the first thread, give it a return value, make it ready; the result
  counts the threads woken.
\<close>

fun wake_loop :: "nat \<Rightarrow> int \<Rightarrow> wait_q \<Rightarrow> kernel \<Rightarrow> nat \<times> kernel" where
  "wake_loop 0 v w k = (0, k)"
| "wake_loop (Suc n) v w k =
     (case z_unpend_first_thread w k of
        (None, k1) \<Rightarrow> (0, k1)
      | (Some thread, k1) \<Rightarrow>
          let (c, k2) = wake_loop n v w (z_ready_thread thread (arch_thread_return_value_set thread v k1))
          in (Suc c, k2))"

definition wake_all :: "int \<Rightarrow> wait_q \<Rightarrow> kernel \<Rightarrow> nat \<times> kernel" where
  "wake_all v w k = wake_loop (Suc (length (waitqs k w))) v w k"

definition z_sched_wake :: "wait_q \<Rightarrow> int \<Rightarrow> addr \<Rightarrow> kernel \<Rightarrow> bool \<times> kernel" where
  "z_sched_wake w swap_ret swap_dat k =
     (case z_priq_dumb_best (waitqs k w) of
        None \<Rightarrow> (False, k)
      | Some thread \<Rightarrow>
          let k1 = z_thread_return_value_set_with_data thread swap_ret swap_dat k;
              k2 = snd (z_abort_thread_timeout thread (unpend_thread_no_timeout thread k1))
          in (True, ready_thread thread k2))"

fun z_sched_wake_all_loop :: "nat \<Rightarrow> wait_q \<Rightarrow> int \<Rightarrow> addr \<Rightarrow> kernel \<Rightarrow> bool \<times> kernel" where
  "z_sched_wake_all_loop 0 w v d k = (False, k)"
| "z_sched_wake_all_loop (Suc n) w v d k =
     (case z_sched_wake w v d k of
        (False, k1) \<Rightarrow> (False, k1)
      | (True, k1) \<Rightarrow> (True, snd (z_sched_wake_all_loop n w v d k1)))"

definition z_sched_wake_all :: "wait_q \<Rightarrow> int \<Rightarrow> addr \<Rightarrow> kernel \<Rightarrow> bool \<times> kernel" where
  "z_sched_wake_all w v d k = z_sched_wake_all_loop (Suc (length (waitqs k w))) w v d k"

text \<open>
  \<open>z_sched_waitq_walk\<close>: the callback sees each waiting thread and its own data, the state \<open>'s\<close>,
  until it returns a nonzero status.
\<close>

fun z_sched_waitq_walk :: "tid list \<Rightarrow> (tid \<Rightarrow> 's \<Rightarrow> int \<times> 's) \<Rightarrow> 's \<Rightarrow> int \<times> 's" where
  "z_sched_waitq_walk [] func s = (0, s)"
| "z_sched_waitq_walk (thread # rest) func s =
     (let (status, s1) = func thread s
      in if status \<noteq> 0 then (status, s1) else z_sched_waitq_walk rest func s1)"

section \<open>Priorities\<close>

definition z_get_new_prio_with_ceiling :: "int \<Rightarrow> kernel \<Rightarrow> int" where
  "z_get_new_prio_with_ceiling p k = (if p \<ge> prio_ceiling k then p else prio_ceiling k)"

definition is_valid_prio :: "int \<Rightarrow> bool \<Rightarrow> kernel \<Rightarrow> bool" where
  "is_valid_prio p idle_entry k \<longleftrightarrow>
     (if p = num_preempt k \<and> idle_entry then True
      else if \<not> p \<le> num_preempt k - 1 then False
      else if \<not> p \<ge> - num_coop k then False
      else True)"

definition set_prio :: "tid \<Rightarrow> int \<Rightarrow> kernel \<Rightarrow> kernel" where
  "set_prio thread p = upd_thread thread (\<lambda>th. th\<lparr>prio := p\<rparr>)"

definition z_thread_prio_set :: "tid \<Rightarrow> int \<Rightarrow> kernel \<Rightarrow> bool \<times> kernel" where
  "z_thread_prio_set thread p k =
     (let need_sched = z_is_thread_ready k thread
      in if need_sched
         then (True, update_cache True (queue_thread thread (set_prio thread p (dequeue_thread thread k))))
         else (False, set_prio thread p k))"

definition z_impl_k_thread_priority_set :: "tid \<Rightarrow> int \<Rightarrow> kernel \<Rightarrow> kernel" where
  "z_impl_k_thread_priority_set thread p k =
     (let (need_sched, k1) = z_thread_prio_set thread p k
      in if need_sched \<and> sched_locked (threads k1 (current k1)) = 0
         then z_reschedule k1 else k1)"

definition k_sched_lock :: "kernel \<Rightarrow> kernel" where
  "k_sched_lock k = upd_thread (current k) (\<lambda>th. th\<lparr>sched_locked := sched_locked th - 1\<rparr>) k"

definition k_sched_unlock :: "kernel \<Rightarrow> kernel" where
  "k_sched_unlock k =
     z_reschedule
       (update_cache False
         (upd_thread (current k) (\<lambda>th. th\<lparr>sched_locked := sched_locked th + 1\<rparr>) k))"

section \<open>Starting, yielding, sleeping\<close>

definition z_sched_start :: "tid \<Rightarrow> kernel \<Rightarrow> kernel" where
  "z_sched_start thread k =
     (if z_has_thread_started (threads k thread) then k
      else z_reschedule (ready_thread thread (upd_thread thread z_mark_thread_as_started k)))"

definition k_can_yield :: "bool \<Rightarrow> kernel \<Rightarrow> bool" where
  "k_can_yield pre_kernel k \<longleftrightarrow> \<not> (pre_kernel \<or> in_isr k \<or> current k = idle_thread k)"

definition z_impl_k_yield :: "kernel \<Rightarrow> kernel" where
  "z_impl_k_yield k =
     do_swap (update_cache True (queue_thread (current k) (dequeue_thread (current k) k)))"

text \<open>
  \<open>z_tick_sleep\<close> up to the context switch; it also yields the tick at which the caller expects to
  wake up. \<open>z_tick_sleep_resume\<close> is the part after the switch: the ticks left to that point.
\<close>

definition expected_wakeup_ticks :: "k_ticks_t \<Rightarrow> kernel \<Rightarrow> u32" where
  "expected_wakeup_ticks ticks k =
     (if Z_TICK_ABS ticks \<le> 0 then word_of_int ticks + sys_clock_tick_get_32 (tmo k)
      else word_of_int (Z_TICK_ABS ticks))"

definition z_tick_sleep :: "k_ticks_t \<Rightarrow> kernel \<Rightarrow> int outcome \<times> kernel" where
  "z_tick_sleep ticks k =
     (if ticks = 0 then (Done 0, z_impl_k_yield k)
      else
        let c = current k;
            k1 = z_add_thread_timeout c ticks (unready_thread c k);
            k2 = upd_thread c z_mark_thread_as_suspended k1
        in (Blocked, do_swap k2))"

definition z_tick_sleep_resume :: "u32 \<Rightarrow> kernel \<Rightarrow> int" where
  "z_tick_sleep_resume expected k =
     (let ticks = uint expected - uint (sys_clock_tick_get_32 (tmo k)) in if ticks > 0 then ticks else 0)"

definition z_impl_k_wakeup :: "tid \<Rightarrow> kernel \<Rightarrow> kernel" where
  "z_impl_k_wakeup thread k =
     (if z_is_thread_pending (threads k thread) then k
      else
        let (ret, k1) = z_abort_thread_timeout thread k
        in if ret < 0 \<and> thread_state (threads k1 thread) \<noteq> {THREAD_SUSPENDED} then k1
           else
             let k2 = ready_thread thread (upd_thread thread z_mark_thread_as_not_suspended k1)
             in if in_isr k2 then k2 else z_reschedule k2)"

definition z_impl_k_sched_current_thread_query :: "kernel \<Rightarrow> tid" where
  "z_impl_k_sched_current_thread_query k = current k"

section \<open>Suspending, aborting and joining\<close>

definition z_dummy_thread_init :: "kernel \<Rightarrow> kernel" where
  "z_dummy_thread_init k =
     (upd_thread (thread_dummy k) (\<lambda>th. th\<lparr>thread_state := {THREAD_DUMMY}, essential := True\<rparr>) k)
       \<lparr>current := thread_dummy k\<rparr>"

definition halt_thread :: "tid \<Rightarrow> thread_flag \<Rightarrow> kernel \<Rightarrow> kernel" where
  "halt_thread thread new_state k =
     (if new_state \<notin> thread_state (threads k thread)
      then
        let k1 = upd_thread thread (\<lambda>th. th\<lparr>thread_state := insert new_state (thread_state th)\<rparr>) k;
            k2 = (if z_is_thread_queued (threads k1 thread) then dequeue_thread thread k1 else k1);
            k3 = (if new_state = THREAD_DEAD
                  then unpend_all (JoinQ thread)
                         (snd (z_abort_thread_timeout thread (z_unpend_thread_no_timeout thread k2)))
                  else k2);
            dummify = (new_state = THREAD_DEAD \<and> thread = current k \<and> in_isr k);
            k4 = update_cache True k3;
            k5 = (if dummify then z_dummy_thread_init k4 else k4)
        in clear_halting thread k5
      else k)"

definition z_thread_halt :: "tid \<Rightarrow> bool \<Rightarrow> kernel \<Rightarrow> kernel" where
  "z_thread_halt thread terminate k =
     (let k1 = halt_thread thread (if terminate then THREAD_DEAD else THREAD_SUSPENDED) k
      in if thread = current k1 \<and> \<not> in_isr k1 then do_swap k1 else k1)"

definition z_impl_k_thread_suspend :: "tid \<Rightarrow> kernel \<Rightarrow> kernel" where
  "z_impl_k_thread_suspend thread k =
     (let k1 = snd (z_abort_thread_timeout thread k)
      in if z_is_thread_suspended (threads k1 thread) then k1
         else z_thread_halt thread False k1)"

definition z_impl_k_thread_resume :: "tid \<Rightarrow> kernel \<Rightarrow> kernel" where
  "z_impl_k_thread_resume thread k =
     (if \<not> z_is_thread_suspended (threads k thread) then k
      else z_reschedule (ready_thread thread (upd_thread thread z_mark_thread_as_not_suspended k)))"

text \<open>Aborting an essential thread is a kernel panic, the value \<open>None\<close>.\<close>

definition z_thread_abort :: "tid \<Rightarrow> kernel \<Rightarrow> kernel option" where
  "z_thread_abort thread k =
     (if z_is_thread_essential (threads k thread) then None
      else if THREAD_DEAD \<in> thread_state (threads k thread) then Some k
      else Some (z_thread_halt thread True k))"

definition z_impl_k_thread_join :: "tid \<Rightarrow> k_ticks_t \<Rightarrow> kernel \<Rightarrow> int outcome \<times> kernel" where
  "z_impl_k_thread_join thread timeout k =
     (if THREAD_DEAD \<in> thread_state (threads k thread) then (Done 0, k)
      else if timeout = K_NO_WAIT then (Done (- EBUSY), k)
      else if thread = current k \<or> pended_on (threads k thread) = Some (JoinQ (current k))
      then (Done (- EDEADLK), k)
      else (Blocked,
            do_swap (add_thread_timeout (current k) timeout
              (add_to_waitq_locked (current k) (Some (JoinQ thread)) k))))"

text \<open>\<open>k_sleep\<close>: \<open>K_FOREVER\<close> suspends the caller.\<close>

definition z_impl_k_sleep :: "k_ticks_t \<Rightarrow> kernel \<Rightarrow> int outcome \<times> kernel" where
  "z_impl_k_sleep timeout k =
     (if timeout = K_FOREVER then (Blocked, z_impl_k_thread_suspend (current k) k)
      else z_tick_sleep timeout k)"

text \<open>The value \<open>k_sleep\<close> returns after the switch, in milliseconds.\<close>

definition k_ticks_to_ms_ceil :: "int \<Rightarrow> kernel \<Rightarrow> int" where
  "k_ticks_to_ms_ceil ticks k = (ticks * 1000 + ticks_per_sec k - 1) div ticks_per_sec k"

definition z_impl_k_sleep_resume :: "u32 \<Rightarrow> kernel \<Rightarrow> int" where
  "z_impl_k_sleep_resume expected k = k_ticks_to_ms_ceil (z_tick_sleep_resume expected k) k"

text \<open>\<open>k_usleep\<close>: the conversions are made in unsigned 64 bits and stored in a signed 32-bit variable.\<close>

definition k_us_to_ticks_ceil64 :: "int \<Rightarrow> kernel \<Rightarrow> int" where
  "k_us_to_ticks_ceil64 us k = (us mod 2 ^ 64 * ticks_per_sec k + 999999) div 1000000 mod 2 ^ 64"

definition k_ticks_to_us_ceil64 :: "int \<Rightarrow> kernel \<Rightarrow> int" where
  "k_ticks_to_us_ceil64 ticks k = (ticks mod 2 ^ 64 * 1000000 + ticks_per_sec k - 1) div ticks_per_sec k mod 2 ^ 64"

definition z_impl_k_usleep :: "int \<Rightarrow> kernel \<Rightarrow> int outcome \<times> kernel" where
  "z_impl_k_usleep us k = z_tick_sleep (sint (of_int (k_us_to_ticks_ceil64 us k) :: 32 word)) k"

definition z_impl_k_usleep_resume :: "u32 \<Rightarrow> kernel \<Rightarrow> int" where
  "z_impl_k_usleep_resume expected k = sint (of_int (k_ticks_to_us_ceil64 (z_tick_sleep_resume expected k) k) :: 32 word)"

text \<open>Time slicing at a timer interrupt.\<close>

definition z_time_slice :: "kernel \<Rightarrow> kernel" where
  "z_time_slice k =
     (let curr = current k
      in if slice_expired k \<and> thread_is_sliceable k curr
         then let k1 = (if \<not> z_is_thread_prevented_from_running (threads k curr)
                        then move_thread_to_end_of_prio_q curr k else k)
              in z_reset_time_slice curr k1
         else k)"

definition k_ms_to_ticks_ceil :: "int \<Rightarrow> kernel \<Rightarrow> int" where
  "k_ms_to_ticks_ceil ms k = (ms * ticks_per_sec k + 999) div 1000"

definition k_sched_time_slice_set :: "int \<Rightarrow> int \<Rightarrow> kernel \<Rightarrow> kernel" where
  "k_sched_time_slice_set ms p k =
     z_reset_time_slice (current k) (k\<lparr>slice_ticks := k_ms_to_ticks_ceil ms k, slice_max_prio := p\<rparr>)"

section \<open>Creating threads (thread.c)\<close>

text \<open>
  The part of thread creation the scheduler sees: the thread's scheduling state, its empty join
  queue and its start. The stack and the architecture's initial context are not modelled.
\<close>

definition z_init_thread_base :: "int \<Rightarrow> thread_flag set \<Rightarrow> bool \<Rightarrow> k_thread \<Rightarrow> k_thread" where
  "z_init_thread_base priority initial_state ess th =
     th\<lparr>pended_on := None, essential := ess, thread_state := initial_state, prio := priority,
        sched_locked := 0\<rparr>"

definition z_setup_new_thread :: "tid \<Rightarrow> int \<Rightarrow> bool \<Rightarrow> kernel \<Rightarrow> kernel" where
  "z_setup_new_thread new_thread p ess k =
     upd_thread new_thread
       (\<lambda>th. (z_init_thread_base p {THREAD_PRESTART} ess th)\<lparr>no_wake_on_timeout := False\<rparr>)
       (k\<lparr>waitqs := (waitqs k)(JoinQ new_thread := [])\<rparr>)"

definition thread_schedule_new :: "tid \<Rightarrow> k_ticks_t \<Rightarrow> kernel \<Rightarrow> kernel" where
  "thread_schedule_new thread delay k =
     (if delay = K_NO_WAIT then z_sched_start thread k else z_add_thread_timeout thread delay k)"

definition z_impl_k_thread_create :: "tid \<Rightarrow> int \<Rightarrow> bool \<Rightarrow> k_ticks_t \<Rightarrow> kernel \<Rightarrow> kernel" where
  "z_impl_k_thread_create new_thread p ess delay k =
     (let k1 = z_setup_new_thread new_thread p ess k
      in if delay \<noteq> K_FOREVER then thread_schedule_new new_thread delay k1 else k1)"

end
