(* ===== verification/Sched_Inv.thy ===== *)
theory Sched_Inv
  imports Sched
begin

text \<open>
  The scheduler's invariant and the proof that its operations keep it. The run queue holds exactly
  the ready threads, in priority order; a thread is in at most one wait queue, the one its
  \<open>pended_on\<close> names; timeouts are well formed; the idle thread can always run. \<open>sched_inv_but X\<close> is the form that holds inside an
  operation, while the threads in \<open>X\<close> may be ready and not yet in the run queue.
\<close>

section \<open>The invariant\<close>

definition tprio :: "kernel \<Rightarrow> tid \<Rightarrow> int" where
  "tprio k t = prio (threads k t)"

definition wf_queues :: "kernel \<Rightarrow> bool" where
  "wf_queues k \<longleftrightarrow>
     distinct (runq k) \<and>
     sorted_wrt (\<lambda>a b. tprio k a \<le> tprio k b) (runq k) \<and>
     (\<forall>t. z_is_thread_queued (threads k t) \<longleftrightarrow> t \<in> set (runq k)) \<and>
     (\<forall>w. distinct (waitqs k w)) \<and>
     (\<forall>t w. t \<in> set (waitqs k w) \<longleftrightarrow> pended_on (threads k t) = Some w) \<and>
     (\<forall>t. pended_on (threads k t) \<noteq> None \<longrightarrow> THREAD_PENDING \<in> thread_state (threads k t)) \<and>
     (\<forall>t. THREAD_ABORTING \<notin> thread_state (threads k t)) \<and>
     timeouts_inv (tmo k)"

definition sched_inv_but :: "tid set \<Rightarrow> kernel \<Rightarrow> bool" where
  "sched_inv_but X k \<longleftrightarrow>
     wf_queues k \<and> z_is_thread_ready k (idle_thread k) \<and>
     (\<forall>t \<in> set (runq k). z_is_thread_ready k t \<and> t \<noteq> idle_thread k) \<and>
     (\<forall>t. z_is_thread_ready k t \<longrightarrow> t \<noteq> idle_thread k \<longrightarrow> t \<notin> X \<longrightarrow> t \<in> set (runq k))"

abbreviation sched_inv :: "kernel \<Rightarrow> bool" where
  "sched_inv \<equiv> sched_inv_but {}"

text \<open>The state the scheduler never touches, as one value.\<close>

definition env where
  "env k = (idle_thread k, thread_dummy k, in_isr k, irq_locked k, slice_ticks k, slice_max_prio k,
     num_coop k, num_preempt k, num_metairq k, prio_ceiling k, ticks_per_sec k, bmem k, pmem k)"

text \<open>What the invariant reads of a thread.\<close>

definition sched_view :: "k_thread \<Rightarrow> int \<times> thread_flag set \<times> wait_q option" where
  "sched_view th = (prio th, thread_state th, pended_on th)"

lemma env_idle: "env k' = env k \<Longrightarrow> idle_thread k' = idle_thread k"
  by (simp add: env_def)

lemma ready_iff:
  "z_is_thread_ready k t \<longleftrightarrow>
     thread_state (threads k t) \<inter>
       {THREAD_PENDING, THREAD_PRESTART, THREAD_DEAD, THREAD_DUMMY, THREAD_SUSPENDED} = {} \<and>
     deadline (tmo k) (ThreadTo t) = None"
  by (auto simp: z_is_thread_ready_def z_is_thread_timeout_active_def z_is_inactive_timeout_def
      linked_deadline z_is_thread_prevented_from_running_def)

lemma ready_iff_prevented:
  "z_is_thread_ready k t \<longleftrightarrow>
     \<not> z_is_thread_prevented_from_running (threads k t) \<and> deadline (tmo k) (ThreadTo t) = None"
  by (simp add: ready_iff z_is_thread_prevented_from_running_def)

lemma inv_but_mono: "sched_inv_but X k \<Longrightarrow> X \<subseteq> Y \<Longrightarrow> sched_inv_but Y k"
  by (auto simp: sched_inv_but_def)

lemma idle_ready: "sched_inv_but X k \<Longrightarrow> z_is_thread_ready k (idle_thread k)"
  by (simp add: sched_inv_but_def)

lemma inv_but_drop: "sched_inv_but (insert t X) k \<Longrightarrow> \<not> z_is_thread_ready k t \<Longrightarrow> sched_inv_but X k"
  by (auto simp: sched_inv_but_def)

lemma inv_but_cong:
  assumes "sched_inv_but X k"
    and "\<And>t. sched_view (threads k' t) = sched_view (threads k t)"
    and "runq k' = runq k" and "waitqs k' = waitqs k" and "idle_thread k' = idle_thread k"
    and "\<And>t. deadline (tmo k') (ThreadTo t) = deadline (tmo k) (ThreadTo t)"
    and "timeouts_inv (tmo k')"
  shows "sched_inv_but X k'"
proof -
  have th: "prio (threads k' t) = prio (threads k t)" "thread_state (threads k' t) = thread_state (threads k t)"
    "pended_on (threads k' t) = pended_on (threads k t)" for t
    using assms(2) [of t] by (auto simp: sched_view_def)
  have "z_is_thread_ready k' t = z_is_thread_ready k t" for t
    by (simp add: ready_iff th assms)
  then show ?thesis
    using assms(1) by (simp add: sched_inv_but_def wf_queues_def tprio_def z_is_thread_queued_def th assms)
qed

section \<open>Frames\<close>

text \<open>What the operations leave alone.\<close>

lemma upd_thread_frame [simp]:
  "current (upd_thread t f k) = current k" "runq (upd_thread t f k) = runq k"
  "cache (upd_thread t f k) = cache k" "waitqs (upd_thread t f k) = waitqs k"
  "tmo (upd_thread t f k) = tmo k" "idle_thread (upd_thread t f k) = idle_thread k"
  "metairq_preempted (upd_thread t f k) = metairq_preempted k"
  "env (upd_thread t f k) = env k"
  by (simp_all add: upd_thread_def env_def)

lemma threads_upd_thread: "threads (upd_thread t f k) x = (if x = t then f (threads k t) else threads k x)"
  by (simp add: upd_thread_def)

lemma reset_slice_frame [simp]:
  "threads (z_reset_time_slice t k) = threads k" "current (z_reset_time_slice t k) = current k"
  "runq (z_reset_time_slice t k) = runq k" "cache (z_reset_time_slice t k) = cache k"
  "waitqs (z_reset_time_slice t k) = waitqs k" "idle_thread (z_reset_time_slice t k) = idle_thread k"
  "metairq_preempted (z_reset_time_slice t k) = metairq_preempted k"
  "env (z_reset_time_slice t k) = env k"
  by (simp_all add: z_reset_time_slice_def Let_def env_def)

lemma reset_slice_tmo:
  assumes "timeouts_inv (tmo k)"
  shows "timeouts_inv (tmo (z_reset_time_slice t k))"
    and "deadline (tmo (z_reset_time_slice t k)) (ThreadTo x) = deadline (tmo k) (ThreadTo x)"
proof -
  let ?s = "snd (z_abort_timeout SliceTo (tmo k))"
  have s: "timeouts_inv ?s" "deadline ?s SliceTo = None" "deadline ?s (ThreadTo x) = deadline (tmo k) (ThreadTo x)"
    using assms by (simp_all add: tq.invar_abort tq.due_abort)
  then show "timeouts_inv (tmo (z_reset_time_slice t k))"
    by (simp add: z_reset_time_slice_def Let_def invar_add_timeout)
  show "deadline (tmo (z_reset_time_slice t k)) (ThreadTo x) = deadline (tmo k) (ThreadTo x)"
    using s by (simp add: z_reset_time_slice_def Let_def tq.arm_other)
qed

lemma reset_slice_clock [simp]:
  "curr_tick (tmo (z_reset_time_slice t k)) = curr_tick (tmo k)"
  "announce_remaining (tmo (z_reset_time_slice t k)) = announce_remaining (tmo k)"
  by (simp_all add: z_reset_time_slice_def Let_def)

lemma next_up_frame [simp]:
  "threads (snd (next_up k)) = threads k" "current (snd (next_up k)) = current k"
  "runq (snd (next_up k)) = runq k" "cache (snd (next_up k)) = cache k"
  "waitqs (snd (next_up k)) = waitqs k" "tmo (snd (next_up k)) = tmo k"
  "idle_thread (snd (next_up k)) = idle_thread k" "env (snd (next_up k)) = env k"
  by (simp_all add: next_up_def Let_def env_def split: option.split)

lemma metairq_frame [simp]:
  "threads (update_metairq_preempt t k) = threads k" "current (update_metairq_preempt t k) = current k"
  "runq (update_metairq_preempt t k) = runq k" "cache (update_metairq_preempt t k) = cache k"
  "waitqs (update_metairq_preempt t k) = waitqs k" "tmo (update_metairq_preempt t k) = tmo k"
  "idle_thread (update_metairq_preempt t k) = idle_thread k" "env (update_metairq_preempt t k) = env k"
  by (simp_all add: update_metairq_preempt_def env_def)

lemma env_upd [simp]:
  "env (k\<lparr>cache := c\<rparr>) = env k" "env (k\<lparr>current := c\<rparr>) = env k" "env (k\<lparr>tmo := s\<rparr>) = env k"
  "env (k\<lparr>runq := r\<rparr>) = env k" "env (k\<lparr>waitqs := w\<rparr>) = env k" "env (k\<lparr>threads := th\<rparr>) = env k"
  by (simp_all add: env_def)

lemma update_cache_frame [simp]:
  "threads (update_cache b k) = threads k" "current (update_cache b k) = current k"
  "runq (update_cache b k) = runq k" "waitqs (update_cache b k) = waitqs k"
  "idle_thread (update_cache b k) = idle_thread k" "env (update_cache b k) = env k"
  by (simp_all add: update_cache_def Let_def case_prod_beta)

lemma update_cache_tmo:
  assumes "timeouts_inv (tmo k)"
  shows "timeouts_inv (tmo (update_cache b k))"
    and "deadline (tmo (update_cache b k)) (ThreadTo x) = deadline (tmo k) (ThreadTo x)"
  using assms by (simp_all add: update_cache_def Let_def case_prod_beta reset_slice_tmo)

lemma update_cache_clock [simp]:
  "curr_tick (tmo (update_cache b k)) = curr_tick (tmo k)"
  "announce_remaining (tmo (update_cache b k)) = announce_remaining (tmo k)"
  by (simp_all add: update_cache_def Let_def case_prod_beta)

lemma abort_thread_timeout_frame [simp]:
  "threads (snd (z_abort_thread_timeout t k)) = threads k"
  "current (snd (z_abort_thread_timeout t k)) = current k"
  "runq (snd (z_abort_thread_timeout t k)) = runq k" "cache (snd (z_abort_thread_timeout t k)) = cache k"
  "waitqs (snd (z_abort_thread_timeout t k)) = waitqs k"
  "idle_thread (snd (z_abort_thread_timeout t k)) = idle_thread k"
  "env (snd (z_abort_thread_timeout t k)) = env k"
  "tmo (snd (z_abort_thread_timeout t k)) = snd (z_abort_timeout (ThreadTo t) (tmo k))"
  by (simp_all add: z_abort_thread_timeout_def Let_def env_def split: prod.split)

lemma add_thread_timeout_frame [simp]:
  "threads (z_add_thread_timeout t n k) = threads k" "current (z_add_thread_timeout t n k) = current k"
  "runq (z_add_thread_timeout t n k) = runq k" "cache (z_add_thread_timeout t n k) = cache k"
  "waitqs (z_add_thread_timeout t n k) = waitqs k"
  "idle_thread (z_add_thread_timeout t n k) = idle_thread k"
  "env (z_add_thread_timeout t n k) = env k"
  "tmo (z_add_thread_timeout t n k) = z_add_timeout (ThreadTo t) Fn_thread_timeout n (tmo k)"
  by (simp_all add: z_add_thread_timeout_def env_def)

lemma queue_frame [simp]:
  "current (queue_thread t k) = current k" "cache (queue_thread t k) = cache k"
  "waitqs (queue_thread t k) = waitqs k" "tmo (queue_thread t k) = tmo k"
  "idle_thread (queue_thread t k) = idle_thread k" "env (queue_thread t k) = env k"
  "current (dequeue_thread t k) = current k" "cache (dequeue_thread t k) = cache k"
  "waitqs (dequeue_thread t k) = waitqs k" "tmo (dequeue_thread t k) = tmo k"
  "idle_thread (dequeue_thread t k) = idle_thread k" "env (dequeue_thread t k) = env k"
  "runq (dequeue_thread t k) = remove1 t (runq k)"
  by (simp_all add: queue_thread_def dequeue_thread_def runq_add_def runq_remove_def
      z_priq_dumb_remove_def env_def upd_thread_def)

lemma queue_threads:
  "threads (queue_thread t k) x =
     (if x = t then (threads k t)\<lparr>thread_state := insert THREAD_QUEUED (thread_state (threads k t))\<rparr>
      else threads k x)"
  "threads (dequeue_thread t k) x =
     (if x = t then (threads k t)\<lparr>thread_state := thread_state (threads k t) - {THREAD_QUEUED}\<rparr>
      else threads k x)"
  by (simp_all add: queue_thread_def dequeue_thread_def runq_add_def runq_remove_def threads_upd_thread)

section \<open>Preservation by the internal steps\<close>

lemma update_cache_inv: "sched_inv_but X k \<Longrightarrow> sched_inv_but X (update_cache b k)"
  by (rule inv_but_cong) (auto simp: update_cache_tmo sched_inv_but_def wf_queues_def)

lemma reset_slice_inv: "sched_inv_but X k \<Longrightarrow> sched_inv_but X (z_reset_time_slice t k)"
  by (rule inv_but_cong) (auto simp: reset_slice_tmo sched_inv_but_def wf_queues_def)

lemma upd_thread_view_inv:
  "sched_inv_but X k \<Longrightarrow> sched_view (f (threads k t)) = sched_view (threads k t) \<Longrightarrow>
     sched_inv_but X (upd_thread t f k)"
  by (rule inv_but_cong) (auto simp: threads_upd_thread sched_inv_but_def wf_queues_def)

lemma current_inv [simp]: "sched_inv_but X (k\<lparr>current := c\<rparr>) = sched_inv_but X k"
  by (auto simp: sched_inv_but_def wf_queues_def tprio_def ready_iff)

lemma do_swap_inv: "sched_inv_but X k \<Longrightarrow> sched_inv_but X (do_swap k)"
  by (auto simp: do_swap_def Let_def sched_view_def intro!: reset_slice_inv upd_thread_view_inv)

lemma z_reschedule_inv: "sched_inv_but X k \<Longrightarrow> sched_inv_but X (z_reschedule k)"
  by (simp add: z_reschedule_def do_swap_inv)

lemma runq_queue_thread [simp]: "runq (queue_thread t k) = z_priq_dumb_add (threads k) (runq k) t"
  by (auto simp: queue_thread_def runq_add_def threads_upd_thread intro!: dumb_add_cong)

lemma tprio_frame [simp]:
  "tprio (queue_thread t k) = tprio k" "tprio (dequeue_thread t k) = tprio k"
  "tprio (update_cache b k) = tprio k" "tprio (z_reset_time_slice t k) = tprio k"
  by (auto simp: tprio_def queue_threads fun_eq_iff)

lemma tprio_upd_thread: "(\<And>th. prio (f th) = prio th) \<Longrightarrow> tprio (upd_thread t f k) = tprio k"
  by (auto simp: tprio_def threads_upd_thread fun_eq_iff)

lemma sorted_tprio_add:
  "sorted_wrt (\<lambda>a b. tprio k a \<le> tprio k b) q \<Longrightarrow>
     sorted_wrt (\<lambda>a b. tprio k a \<le> tprio k b) (z_priq_dumb_add (threads k) q t)"
  unfolding tprio_def by (rule sorted_dumb_add)

lemma wf_queues_dequeue: "wf_queues k \<Longrightarrow> wf_queues (dequeue_thread t k)"
  by (auto simp: wf_queues_def queue_threads z_is_thread_queued_def sorted_wrt_remove1)

lemma wf_queues_queue: "wf_queues k \<Longrightarrow> t \<notin> set (runq k) \<Longrightarrow> wf_queues (queue_thread t k)"
  by (auto simp: wf_queues_def queue_threads z_is_thread_queued_def sorted_tprio_add)

lemma ready_frame [simp]:
  "z_is_thread_ready (queue_thread t k) x = z_is_thread_ready k x"
  "z_is_thread_ready (dequeue_thread t k) x = z_is_thread_ready k x"
  by (auto simp: ready_iff queue_threads)

lemma ready_update_cache [simp]:
  "timeouts_inv (tmo k) \<Longrightarrow> z_is_thread_ready (update_cache b k) x = z_is_thread_ready k x"
  by (simp add: ready_iff update_cache_tmo)

lemma dequeue_inv: "sched_inv_but X k \<Longrightarrow> sched_inv_but (insert t X) (dequeue_thread t k)"
  by (auto simp: sched_inv_but_def wf_queues_dequeue dest: notin_set_remove1)

lemma queue_inv:
  "sched_inv_but X k \<Longrightarrow> t \<notin> set (runq k) \<Longrightarrow> z_is_thread_ready k t \<Longrightarrow> t \<noteq> idle_thread k \<Longrightarrow>
     sched_inv_but (X - {t}) (queue_thread t k)"
  by (auto simp: sched_inv_but_def wf_queues_queue)

lemma queued_iff: "sched_inv_but X k \<Longrightarrow> z_is_thread_queued (threads k t) \<longleftrightarrow> t \<in> set (runq k)"
  by (simp add: sched_inv_but_def wf_queues_def)

lemma ready_thread_inv:
  assumes "sched_inv_but X k" "t \<noteq> idle_thread k"
  shows "sched_inv_but (X - {t}) (ready_thread t k)"
proof (cases "t \<notin> set (runq k) \<and> z_is_thread_ready k t")
  case True
  with assms have "ready_thread t k = update_cache False (queue_thread t k)"
    by (simp add: ready_thread_def queued_iff)
  with True assms show ?thesis by (simp add: update_cache_inv queue_inv)
next
  case False
  with assms have "ready_thread t k = k" by (auto simp: ready_thread_def queued_iff)
  with False assms show ?thesis unfolding sched_inv_but_def by (metis Diff_iff singletonD)
qed

lemma not_queued_not_ready: "sched_inv_but X k \<Longrightarrow> \<not> z_is_thread_ready k t \<Longrightarrow> t \<notin> set (runq k)"
  by (auto simp: sched_inv_but_def)

lemma pended_pending:
  "sched_inv_but X k \<Longrightarrow> pended_on (threads k t) = Some w \<Longrightarrow> THREAD_PENDING \<in> thread_state (threads k t)"
  unfolding sched_inv_but_def wf_queues_def by (metis option.distinct(1))

lemma pending_not_ready: "THREAD_PENDING \<in> thread_state (threads k t) \<Longrightarrow> \<not> z_is_thread_ready k t"
  by (auto simp: ready_iff)

lemma not_aborting: "sched_inv_but X k \<Longrightarrow> THREAD_ABORTING \<notin> thread_state (threads k t)"
  by (simp add: sched_inv_but_def wf_queues_def)

lemma pended_not_queued: "sched_inv_but X k \<Longrightarrow> pended_on (threads k t) = Some w \<Longrightarrow> t \<notin> set (runq k)"
  using pended_pending pending_not_ready not_queued_not_ready by blast

text \<open>A step that changes only the thread \<open>t\<close>.\<close>

lemma inv_but_one:
  assumes "sched_inv_but X k" "wf_queues k'" "runq k' = runq k" "idle_thread k' = idle_thread k"
    and "\<And>x. x \<noteq> t \<Longrightarrow> z_is_thread_ready k' x \<longleftrightarrow> z_is_thread_ready k x"
    and "t \<in> set (runq k) \<or> t = idle_thread k \<Longrightarrow> z_is_thread_ready k t \<Longrightarrow> z_is_thread_ready k' t"
  shows "sched_inv_but (insert t X) k'"
  using assms unfolding sched_inv_but_def by (metis insertCI)

lemma inv_butD:
  assumes "sched_inv_but X k"
  shows "wf_queues k" "timeouts_inv (tmo k)"
  using assms by (simp_all add: sched_inv_but_def wf_queues_def)

text \<open>Changing the flags of a thread that is not in the run queue.\<close>

lemma upd_flags_inv:
  assumes "sched_inv_but X k" "t \<notin> set (runq k)" "t \<noteq> idle_thread k"
    and f: "prio (f (threads k t)) = prio (threads k t)" "pended_on (f (threads k t)) = pended_on (threads k t)"
    "THREAD_QUEUED \<notin> thread_state (f (threads k t))" "THREAD_ABORTING \<notin> thread_state (f (threads k t))"
    "pended_on (threads k t) \<noteq> None \<Longrightarrow> THREAD_PENDING \<in> thread_state (f (threads k t))"
  shows "sched_inv_but (insert t X) (upd_thread t f k)"
proof (rule inv_but_one [OF assms(1)])
  have tp: "tprio (upd_thread t f k) = tprio k"
    using f by (simp add: tprio_def threads_upd_thread fun_eq_iff)
  from inv_butD(1) [OF assms(1)] assms(2) tp show "wf_queues (upd_thread t f k)"
    unfolding wf_queues_def
    by (intro conjI allI) (simp_all add: threads_upd_thread z_is_thread_queued_def f)
qed (use assms(2,3) in \<open>auto simp: ready_iff threads_upd_thread\<close>)

text \<open>Clearing flags can only make a thread ready.\<close>

lemma clear_flags_inv:
  assumes "sched_inv_but X k" "THREAD_QUEUED \<notin> S" "THREAD_PENDING \<notin> S"
  shows "sched_inv_but (insert t X) (upd_thread t (\<lambda>th. th\<lparr>thread_state := thread_state th - S\<rparr>) k)"
proof (rule inv_but_one [OF assms(1)])
  let ?k = "upd_thread t (\<lambda>th. th\<lparr>thread_state := thread_state th - S\<rparr>) k"
  have "tprio ?k = tprio k" by (simp add: tprio_upd_thread)
  with inv_butD(1) [OF assms(1)] assms(2,3) show "wf_queues ?k"
    unfolding wf_queues_def
    by (intro conjI allI) (simp_all add: threads_upd_thread z_is_thread_queued_def)
qed (auto simp: ready_iff threads_upd_thread)

lemma abort_timeout_noop: "deadline (tmo k) (ThreadTo t) = None \<Longrightarrow> snd (z_abort_thread_timeout t k) = k"
  by (simp add: z_abort_thread_timeout_def z_abort_timeout_def linked_deadline)

lemma abort_timeout_inv:
  assumes "sched_inv_but X k"
  shows "sched_inv_but (insert t X) (snd (z_abort_thread_timeout t k))"
proof (rule inv_but_one [OF assms])
  show "wf_queues (snd (z_abort_thread_timeout t k))"
    using inv_butD [OF assms] by (simp add: wf_queues_def tprio_def tq.invar_abort)
qed (use inv_butD [OF assms] in \<open>simp_all add: ready_iff tq.due_abort\<close>)

lemma add_timeout_inv:
  assumes "sched_inv_but X k" "t \<notin> set (runq k)" "t \<noteq> idle_thread k" "deadline (tmo k) (ThreadTo t) = None"
  shows "sched_inv_but X (z_add_thread_timeout t n k)"
proof -
  let ?k = "z_add_thread_timeout t n k"
  have inv: "timeouts_inv (tmo k)" using inv_butD [OF assms(1)] by simp
  have "sched_inv_but (insert t X) ?k"
  proof (rule inv_but_one [OF assms(1)])
    show "wf_queues ?k"
      using inv_butD [OF assms(1)] assms(4) by (simp add: wf_queues_def tprio_def invar_add_timeout)
  qed (use inv assms in \<open>simp_all add: ready_iff tq.arm_other\<close>)
  moreover have "z_is_thread_ready ?k t \<Longrightarrow> z_is_thread_ready k t"
    using assms(4) by (simp add: ready_iff)
  ultimately show ?thesis
    using assms(1,2,3) unfolding sched_inv_but_def by (metis add_thread_timeout_frame(3,6) insertE)
qed

lemma unpend_frame [simp]:
  "current (unpend_thread_no_timeout t k) = current k" "runq (unpend_thread_no_timeout t k) = runq k"
  "cache (unpend_thread_no_timeout t k) = cache k" "tmo (unpend_thread_no_timeout t k) = tmo k"
  "idle_thread (unpend_thread_no_timeout t k) = idle_thread k"
  "env (unpend_thread_no_timeout t k) = env k"
  by (simp_all add: unpend_thread_no_timeout_def split: option.split)

lemma unpend_threads:
  "threads (unpend_thread_no_timeout t k) x =
     (if x = t \<and> pended_on (threads k t) \<noteq> None
      then (threads k t)\<lparr>thread_state := thread_state (threads k t) - {THREAD_PENDING}, pended_on := None\<rparr>
      else threads k x)"
  by (auto simp: unpend_thread_no_timeout_def threads_upd_thread z_mark_thread_as_not_pending_def
      split: option.split)

lemma unpend_waitqs:
  "waitqs (unpend_thread_no_timeout t k) w =
     (if pended_on (threads k t) = Some w then remove1 t (waitqs k w) else waitqs k w)"
  by (simp add: unpend_thread_no_timeout_def z_priq_dumb_remove_def split: option.split)

lemma unpend_inv:
  assumes "sched_inv_but X k"
  shows "sched_inv_but (insert t X) (unpend_thread_no_timeout t k)"
proof (rule inv_but_one [OF assms])
  let ?k = "unpend_thread_no_timeout t k"
  have nq: "t \<notin> set (runq k)" if "pended_on (threads k t) \<noteq> None"
    using assms that pended_not_queued by blast
  have "tprio ?k = tprio k" by (simp add: tprio_def unpend_threads fun_eq_iff)
  with inv_butD(1) [OF assms] nq show "wf_queues ?k"
    unfolding wf_queues_def
    by (intro conjI allI) (simp_all add: unpend_threads unpend_waitqs z_is_thread_queued_def)
qed (auto simp: ready_iff unpend_threads)

section \<open>Pending\<close>

lemma unready_frame [simp]:
  "current (unready_thread t k) = current k" "waitqs (unready_thread t k) = waitqs k"
  "idle_thread (unready_thread t k) = idle_thread k" "env (unready_thread t k) = env k"
  by (simp_all add: unready_thread_def Let_def)

lemma unready_threads:
  "threads (unready_thread t k) x =
     (if x = t then (threads k t)\<lparr>thread_state := thread_state (threads k t) - {THREAD_QUEUED}\<rparr>
      else threads k x)"
  by (auto simp: unready_thread_def Let_def queue_threads z_is_thread_queued_def)

lemma unready_tmo:
  assumes "timeouts_inv (tmo k)"
  shows "timeouts_inv (tmo (unready_thread t k))"
    and "deadline (tmo (unready_thread t k)) (ThreadTo x) = deadline (tmo k) (ThreadTo x)"
  using assms by (simp_all add: unready_thread_def Let_def update_cache_tmo)

lemma unready_runq:
  "sched_inv_but X k \<Longrightarrow> runq (unready_thread t k) = remove1 t (runq k)"
  by (auto simp: unready_thread_def Let_def queued_iff)

lemma inv_distinct: "sched_inv_but X k \<Longrightarrow> distinct (runq k)"
  by (simp add: sched_inv_but_def wf_queues_def)

lemma unready_inv: "sched_inv_but X k \<Longrightarrow> sched_inv_but (insert t X) (unready_thread t k)"
  using dequeue_inv [of X k t] inv_but_mono [of X k "insert t X"]
  by (auto simp: unready_thread_def Let_def intro: update_cache_inv)

lemma waitq_add_inv:
  assumes inv: "sched_inv_but X k" and np: "pended_on (threads k t) = None"
    and pend: "THREAD_PENDING \<in> thread_state (threads k t)"
    and th: "\<And>x. threads k' x = (if x = t then (threads k t)\<lparr>pended_on := Some w\<rparr> else threads k x)"
    and wq: "\<And>v. waitqs k' v = (if v = w then z_priq_dumb_add (threads k') (waitqs k w) t else waitqs k v)"
    and eq: "runq k' = runq k" "tmo k' = tmo k" "idle_thread k' = idle_thread k"
  shows "sched_inv_but X k'"
proof -
  have t_out: "t \<notin> set (waitqs k v)" for v
    using inv_butD(1) [OF inv] np by (simp add: wf_queues_def)
  have tp: "tprio k' = tprio k" unfolding tprio_def fun_eq_iff th by simp
  have wf: "wf_queues k'"
    using inv_butD(1) [OF inv] tp pend t_out np unfolding wf_queues_def
    by (intro conjI allI) (simp_all add: th z_is_thread_queued_def wq eq)
  have ready: "z_is_thread_ready k' x = z_is_thread_ready k x" for x
    by (simp add: ready_iff th eq)
  have "sched_inv_but (insert t X) k'"
    by (rule inv_but_one [OF inv wf]) (simp_all add: ready eq)
  moreover have "\<not> z_is_thread_ready k t" using pend by (rule pending_not_ready)
  ultimately show ?thesis by (simp add: inv_but_drop ready)
qed

lemma add_to_waitq_frame [simp]:
  "current (add_to_waitq_locked t w k) = current k"
  "idle_thread (add_to_waitq_locked t w k) = idle_thread k" "env (add_to_waitq_locked t w k) = env k"
  "runq (add_to_waitq_locked t w k) = runq (unready_thread t k)"
  "tmo (add_to_waitq_locked t w k) = tmo (unready_thread t k)"
  by (simp_all add: add_to_waitq_locked_def Let_def split: option.split)

lemma add_to_waitq_inv:
  assumes "sched_inv_but X k" "pended_on (threads k t) = None" "t \<noteq> idle_thread k"
  shows "sched_inv_but X (add_to_waitq_locked t w k)"
proof -
  let ?k1 = "upd_thread t z_mark_thread_as_pending (unready_thread t k)"
  have "sched_inv_but (insert t X) (unready_thread t k)"
    using assms(1) by (rule unready_inv)
  then have "sched_inv_but (insert t (insert t X)) ?k1"
    using assms
    by (rule_tac upd_flags_inv)
      (auto simp: unready_runq inv_distinct unready_threads z_mark_thread_as_pending_def not_aborting)
  moreover have p: "THREAD_PENDING \<in> thread_state (threads ?k1 t)"
    by (simp add: threads_upd_thread z_mark_thread_as_pending_def)
  ultimately have k1: "sched_inv_but X ?k1"
    using pending_not_ready by (metis insert_absorb2 inv_but_drop)
  have np: "pended_on (threads ?k1 t) = None"
    using assms(2) by (simp add: threads_upd_thread unready_threads z_mark_thread_as_pending_def)
  have "sched_inv_but X (add_to_waitq_locked t (Some v) k)" for v
    by (rule waitq_add_inv [OF k1 np p, where w = v])
      (simp_all add: add_to_waitq_locked_def Let_def threads_upd_thread)
  with k1 show ?thesis
    by (cases w) (simp_all add: add_to_waitq_locked_def Let_def)
qed

lemma runq_ready: "sched_inv_but X k \<Longrightarrow> t \<in> set (runq k) \<Longrightarrow> z_is_thread_ready k t \<and> t \<noteq> idle_thread k"
  by (simp add: sched_inv_but_def)

lemma ready_clear:
  assumes "sched_inv_but X k" "z_is_thread_ready k t"
  shows "pended_on (threads k t) = None" "deadline (tmo k) (ThreadTo t) = None"
proof -
  show "pended_on (threads k t) = None"
    using assms pended_pending pending_not_ready by (cases "pended_on (threads k t)") blast+
  show "deadline (tmo k) (ThreadTo t) = None" using assms(2) by (simp add: ready_iff)
qed

lemma pend_locked_inv:
  assumes inv: "sched_inv_but X k" and "t \<in> set (runq k)"
  shows "sched_inv_but X (pend_locked t w n k)"
proof -
  from assms have r: "z_is_thread_ready k t" "t \<noteq> idle_thread k" using runq_ready by blast+
  note c = ready_clear [OF inv r(1)]
  have "sched_inv_but X (add_to_waitq_locked t w k)"
    using inv c r by (simp add: add_to_waitq_inv)
  then show ?thesis
    using inv c r inv_butD(2) [OF inv]
    by (auto simp: pend_locked_def add_thread_timeout_def unready_runq inv_distinct unready_tmo
        intro!: add_timeout_inv)
qed

lemma z_pend_curr_inv:
  "sched_inv_but X k \<Longrightarrow> current k \<in> set (runq k) \<Longrightarrow> sched_inv_but X (z_pend_curr w n k)"
  by (simp add: z_pend_curr_def do_swap_inv pend_locked_inv)

section \<open>Waking\<close>

lemma ready_thread_frame [simp]:
  "current (ready_thread t k) = current k" "waitqs (ready_thread t k) = waitqs k"
  "idle_thread (ready_thread t k) = idle_thread k" "env (ready_thread t k) = env k"
  by (simp_all add: ready_thread_def)

lemma ready_thread_threads:
  "threads (ready_thread t k) x =
     (if x = t \<and> z_is_thread_ready k t
      then (threads k t)\<lparr>thread_state := insert THREAD_QUEUED (thread_state (threads k t))\<rparr>
      else threads k x)"
  by (auto simp: ready_thread_def queue_threads z_is_thread_queued_def insert_absorb)

lemma ready_thread_runq:
  "sched_inv_but X k \<Longrightarrow> set (runq (ready_thread t k)) =
     (if z_is_thread_ready k t then insert t (set (runq k)) else set (runq k))"
  by (auto simp: ready_thread_def queued_iff)

lemma set_ret_frame [simp]:
  "current (arch_thread_return_value_set t v k) = current k" "runq (arch_thread_return_value_set t v k) = runq k"
  "cache (arch_thread_return_value_set t v k) = cache k" "waitqs (arch_thread_return_value_set t v k) = waitqs k"
  "tmo (arch_thread_return_value_set t v k) = tmo k"
  "idle_thread (arch_thread_return_value_set t v k) = idle_thread k"
  "env (arch_thread_return_value_set t v k) = env k"
  by (simp_all add: arch_thread_return_value_set_def)

lemma set_ret_threads:
  "threads (arch_thread_return_value_set t v k) x =
     (if x = t then (threads k t)\<lparr>swap_retval := v\<rparr> else threads k x)"
  by (simp add: arch_thread_return_value_set_def threads_upd_thread)

lemma set_ret_inv: "sched_inv_but X k \<Longrightarrow> sched_inv_but X (arch_thread_return_value_set t v k)"
  by (simp add: arch_thread_return_value_set_def upd_thread_view_inv sched_view_def)

lemma set_ret_data_inv:
  "sched_inv_but X k \<Longrightarrow> sched_inv_but X (z_thread_return_value_set_with_data t v d k)"
  by (simp add: z_thread_return_value_set_with_data_def upd_thread_view_inv sched_view_def set_ret_inv)

lemma waitq_member:
  "sched_inv_but X k \<Longrightarrow> t \<in> set (waitqs k w) \<longleftrightarrow> pended_on (threads k t) = Some w"
  by (simp add: sched_inv_but_def wf_queues_def)

lemma waiter_not_idle: "sched_inv_but X k \<Longrightarrow> t \<in> set (waitqs k w) \<Longrightarrow> t \<noteq> idle_thread k"
  using idle_ready pended_pending pending_not_ready waitq_member by metis

lemma unpend_first_None [simp]: "waitqs k w = [] \<Longrightarrow> z_unpend_first_thread w k = (None, k)"
  by (simp add: z_unpend_first_thread_def z_priq_dumb_best_def)

lemma unpend_first_eq:
  "waitqs k w = t # ts \<Longrightarrow>
     z_unpend_first_thread w k = (Some t, snd (z_abort_thread_timeout t (unpend_thread_no_timeout t k)))"
  by (simp add: z_unpend_first_thread_def z_priq_dumb_best_def)

text \<open>What \<open>z_unpend_first_thread\<close> does to a queue with a first thread \<open>t\<close>.\<close>

lemma unpend_first_Some:
  assumes inv: "sched_inv_but X k" and q: "waitqs k w = t # ts"
  obtains k' where "z_unpend_first_thread w k = (Some t, k')" "sched_inv_but (insert t X) k'"
    "waitqs k' = (waitqs k)(w := ts)" "current k' = current k" "env k' = env k" "runq k' = runq k"
    "\<And>x. x \<noteq> t \<Longrightarrow> threads k' x = threads k x"
    "threads k' t = (threads k t)\<lparr>thread_state := thread_state (threads k t) - {THREAD_PENDING}, pended_on := None\<rparr>"
    "\<And>x. deadline (tmo k') (ThreadTo x) = (if x = t then None else deadline (tmo k) (ThreadTo x))"
proof
  let ?k = "snd (z_abort_thread_timeout t (unpend_thread_no_timeout t k))"
  have p: "pended_on (threads k t) = Some w"
    using waitq_member [OF inv, of t w] q by simp
  have "sched_inv_but (insert t (insert t X)) ?k"
    using inv by (intro abort_timeout_inv unpend_inv)
  then show "sched_inv_but (insert t X) ?k" by simp
  show "z_unpend_first_thread w k = (Some t, ?k)" using q by (rule unpend_first_eq)
  show "waitqs ?k = (waitqs k)(w := ts)" using p q by (simp add: unpend_waitqs fun_eq_iff)
  show "threads ?k t = (threads k t)\<lparr>thread_state := thread_state (threads k t) - {THREAD_PENDING}, pended_on := None\<rparr>"
    using p by (simp add: unpend_threads)
  show "deadline (tmo ?k) (ThreadTo x) = (if x = t then None else deadline (tmo k) (ThreadTo x))" for x
    using inv_butD(2) [OF inv] by (simp add: tq.due_abort)
qed (simp_all add: unpend_threads)

end
