(* ===== verification/Sched_Api.thy ===== *)
theory Sched_Api
  imports Sched_Inv
begin

text \<open>
  The contract between the scheduler and the kernel objects (the wait/wake operations that
  \<open>kernel/include/ksched.h\<close> describes): a locale with the laws every object's proof uses, what
  a client gets from them, and its interpretation on the scheduler's definitions.
\<close>

section \<open>The contract\<close>

text \<open>A thread without the flags the scheduler keeps in it.\<close>

definition unsched :: "k_thread \<Rightarrow> k_thread" where
  "unsched th = th\<lparr>thread_state := {}\<rparr>"

lemma unsched_eqD:
  assumes "unsched a = unsched b"
  shows "prio a = prio b" "pended_on a = pended_on b" "swap_retval a = swap_retval b"
    "swap_data a = swap_data b" "events a = events b" "event_options a = event_options b"
    "sched_locked a = sched_locked b" "no_wake_on_timeout a = no_wake_on_timeout b"
  using assms by (cases a; cases b; simp add: unsched_def)+

locale sched_api =
  fixes inv :: "tid set \<Rightarrow> 's \<Rightarrow> bool"
    and waiters :: "'s \<Rightarrow> wait_q \<Rightarrow> tid list"
    and tcb :: "'s \<Rightarrow> tid \<Rightarrow> k_thread"
    and me :: "'s \<Rightarrow> tid"
    and running :: "'s \<Rightarrow> bool"
    and can_wake :: "'s \<Rightarrow> tid \<Rightarrow> bool"
    and frame :: "'s \<Rightarrow> 'e"
    and unpend_first :: "wait_q \<Rightarrow> 's \<Rightarrow> tid option \<times> 's"
    and upd :: "tid \<Rightarrow> (k_thread \<Rightarrow> k_thread) \<Rightarrow> 's \<Rightarrow> 's"
    and ready :: "tid \<Rightarrow> 's \<Rightarrow> 's"
    and reschedule :: "'s \<Rightarrow> 's"
    and pend :: "wait_q \<Rightarrow> k_ticks_t \<Rightarrow> 's \<Rightarrow> 's"
  assumes waiter_pended: "inv X s \<Longrightarrow> t \<in> set (waiters s w) \<longleftrightarrow> pended_on (tcb s t) = Some w"
    and waiters_distinct: "inv X s \<Longrightarrow> distinct (waiters s w)"
    and unpend_none: "waiters s w = [] \<Longrightarrow> unpend_first w s = (None, s)"
    and unpend_some: "inv X s \<Longrightarrow> waiters s w = t # ts \<Longrightarrow>
      \<exists>s'. unpend_first w s = (Some t, s') \<and> inv (insert t X) s' \<and> waiters s' = (waiters s)(w := ts) \<and>
        me s' = me s \<and> can_wake s' t \<and> frame s' = frame s \<and> (\<forall>x. x \<noteq> t \<longrightarrow> tcb s' x = tcb s x) \<and>
        unsched (tcb s' t) = unsched ((tcb s t)\<lparr>pended_on := None\<rparr>)"
    and upd_inv: "inv X s \<Longrightarrow> sched_view (f (tcb s t)) = sched_view (tcb s t) \<Longrightarrow> inv X (upd t f s)"
    and upd_tcb: "tcb (upd t f s) = (tcb s)(t := f (tcb s t))"
    and upd_frame: "waiters (upd t f s) = waiters s" "me (upd t f s) = me s"
      "can_wake (upd t f s) x = can_wake s x" "frame (upd t f s) = frame s"
    and ready_inv: "inv X s \<Longrightarrow> can_wake s t \<Longrightarrow> inv (X - {t}) (ready t s)"
    and ready_frame: "waiters (ready t s) = waiters s" "me (ready t s) = me s"
      "frame (ready t s) = frame s" "unsched (tcb (ready t s) x) = unsched (tcb s x)"
      "x \<noteq> t \<Longrightarrow> tcb (ready t s) x = tcb s x"
    and resched_inv: "inv X s \<Longrightarrow> inv X (reschedule s)"
    and resched_frame: "waiters (reschedule s) = waiters s" "frame (reschedule s) = frame s"
      "x \<noteq> me s \<Longrightarrow> tcb (reschedule s) x = tcb s x"
    and running_not_pended: "inv X s \<Longrightarrow> running s \<Longrightarrow> pended_on (tcb s (me s)) = None"
    and pend_inv: "inv X s \<Longrightarrow> running s \<Longrightarrow> inv X (pend w n s)"
    and pend_effect: "waiters (pend w n s) = (waiters s)(w := z_priq_dumb_add (tcb s) (waiters s w) (me s))"
      "frame (pend w n s) = frame s" "x \<noteq> me s \<Longrightarrow> tcb (pend w n s) x = tcb s x"
      "unsched (tcb (pend w n s) (me s)) =
         unsched ((tcb s (me s))\<lparr>pended_on := Some w, swap_retval := - EAGAIN\<rparr>)"
begin

text \<open>Waking the first waiter with values set in its thread, as every object does it.\<close>

lemma handoff:
  assumes inv: "inv {} s" and q: "waiters s w = t # ts"
    and f: "\<And>th. sched_view (f th) = sched_view th" "\<And>th. unsched (f th) = unsched (f (unsched th))"
  obtains s1 s2 where "unpend_first w s = (Some t, s1)" "s2 = ready t (upd t f s1)" "inv {} s2"
    "waiters s2 = (waiters s)(w := ts)" "me s2 = me s" "frame s2 = frame s"
    "\<And>x. x \<noteq> t \<Longrightarrow> tcb s2 x = tcb s x"
    "unsched (tcb s2 t) = unsched (f ((tcb s t)\<lparr>pended_on := None\<rparr>))"
proof -
  obtain s1 where s1: "unpend_first w s = (Some t, s1)" "inv {t} s1" "waiters s1 = (waiters s)(w := ts)"
      "me s1 = me s" "can_wake s1 t" "frame s1 = frame s" "\<And>x. x \<noteq> t \<Longrightarrow> tcb s1 x = tcb s x"
      "unsched (tcb s1 t) = unsched ((tcb s t)\<lparr>pended_on := None\<rparr>)"
    using unpend_some [OF inv q] by blast
  let ?s2 = "ready t (upd t f s1)"
  have "inv ({t} - {t}) ?s2"
    by (intro ready_inv upd_inv s1 f) (simp add: upd_frame s1)
  then have "inv {} ?s2" by simp
  moreover have "unsched (tcb ?s2 t) = unsched (f ((tcb s t)\<lparr>pended_on := None\<rparr>))"
    using s1(8) f(2) by (simp add: ready_frame upd_tcb) metis
  ultimately show ?thesis
    by (intro that [OF s1(1) refl]) (simp_all add: ready_frame upd_frame upd_tcb s1)
qed

text \<open>A pended thread that nobody wakes returns \<open>-EAGAIN\<close>.\<close>

lemma pend_default_retval: "swap_retval (tcb (pend w n s) (me s)) = - EAGAIN"
  using unsched_eqD(3) [OF pend_effect(4)] by simp

lemma pend_joins: "me s \<in> set (waiters (pend w n s) w)"
  by (simp add: pend_effect)

lemma waiter_one_queue: "inv X s \<Longrightarrow> t \<in> set (waiters s w) \<Longrightarrow> t \<in> set (waiters s v) \<Longrightarrow> v = w"
  by (simp add: waiter_pended)

lemma running_not_waiter: "inv X s \<Longrightarrow> running s \<Longrightarrow> me s \<notin> set (waiters s w)"
  by (simp add: waiter_pended running_not_pended)

end

section \<open>The scheduler keeps the contract\<close>

definition running :: "kernel \<Rightarrow> bool" where
  "running k \<longleftrightarrow> current k \<in> set (runq k)"

lemma do_swap_frame [simp]:
  "waitqs (do_swap k) = waitqs k" "env (do_swap k) = env k" "runq (do_swap k) = runq k"
  "idle_thread (do_swap k) = idle_thread k"
  by (simp_all add: do_swap_def Let_def)

lemma do_swap_threads:
  "threads (do_swap k) x =
     (if x = current k then (threads k x)\<lparr>swap_retval := - EAGAIN\<rparr> else threads k x)"
  by (simp add: do_swap_def Let_def threads_upd_thread)

lemma reschedule_frame [simp]:
  "waitqs (z_reschedule k) = waitqs k" "env (z_reschedule k) = env k" "runq (z_reschedule k) = runq k"
  "idle_thread (z_reschedule k) = idle_thread k"
  by (simp_all add: z_reschedule_def)

lemma reschedule_threads:
  "x \<noteq> current k \<Longrightarrow> threads (z_reschedule k) x = threads k x"
  by (simp add: z_reschedule_def do_swap_threads)

lemma pend_locked_frame [simp]:
  "current (pend_locked t w n k) = current k" "env (pend_locked t w n k) = env k"
  "idle_thread (pend_locked t w n k) = idle_thread k"
  "threads (pend_locked t w n k) = threads (add_to_waitq_locked t w k)"
  "waitqs (pend_locked t w n k) = waitqs (add_to_waitq_locked t w k)"
  by (simp_all add: pend_locked_def add_thread_timeout_def)

lemma add_to_waitq_threads:
  "threads (add_to_waitq_locked t (Some w) k) x =
     (if x = t then (threads k t)\<lparr>thread_state := insert THREAD_PENDING (thread_state (threads k t) - {THREAD_QUEUED}),
                        pended_on := Some w\<rparr>
      else threads k x)"
  by (simp add: add_to_waitq_locked_def Let_def threads_upd_thread unready_threads z_mark_thread_as_pending_def)

lemma add_to_waitq_waitqs:
  "waitqs (add_to_waitq_locked t (Some w) k) = (waitqs k)(w := z_priq_dumb_add (threads k) (waitqs k w) t)"
proof -
  let ?th = "threads (add_to_waitq_locked t (Some w) k)"
  have "waitqs (add_to_waitq_locked t (Some w) k) = (waitqs k)(w := z_priq_dumb_add ?th (waitqs k w) t)"
    by (simp add: add_to_waitq_locked_def Let_def)
  also have "z_priq_dumb_add ?th (waitqs k w) t = z_priq_dumb_add (threads k) (waitqs k w) t"
    by (rule dumb_add_cong) (simp add: add_to_waitq_threads)
  finally show ?thesis .
qed

lemma z_pend_curr_frame [simp]: "env (z_pend_curr w n k) = env k"
  by (simp add: z_pend_curr_def)

lemma z_pend_curr_waitqs:
  "waitqs (z_pend_curr w n k) = (waitqs k)(w := z_priq_dumb_add (threads k) (waitqs k w) (current k))"
  by (simp add: z_pend_curr_def add_to_waitq_waitqs)

lemma z_pend_curr_threads:
  "threads (z_pend_curr w n k) x =
     (if x = current k
      then (threads k x)\<lparr>thread_state := insert THREAD_PENDING (thread_state (threads k x) - {THREAD_QUEUED}),
             pended_on := Some w, swap_retval := - EAGAIN\<rparr>
      else threads k x)"
  by (simp add: z_pend_curr_def do_swap_threads add_to_waitq_threads)

interpretation sch: sched_api sched_inv_but waitqs threads current running
    "\<lambda>k t. t \<noteq> idle_thread k" env z_unpend_first_thread upd_thread z_ready_thread z_reschedule z_pend_curr
proof
  fix X k t w ts
  assume inv: "sched_inv_but X k"
  show "t \<in> set (waitqs k w) \<longleftrightarrow> pended_on (threads k t) = Some w"
    using inv by (rule waitq_member)
  show "distinct (waitqs k w)"
    using inv by (simp add: sched_inv_but_def wf_queues_def)
  assume q: "waitqs k w = t # ts"
  from unpend_first_Some [OF inv q] obtain k' where k':
    "z_unpend_first_thread w k = (Some t, k')" "sched_inv_but (insert t X) k'"
    "waitqs k' = (waitqs k)(w := ts)" "current k' = current k" "env k' = env k" "runq k' = runq k"
    "\<And>x. x \<noteq> t \<Longrightarrow> threads k' x = threads k x"
    "threads k' t = (threads k t)\<lparr>thread_state := thread_state (threads k t) - {THREAD_PENDING}, pended_on := None\<rparr>"
    by metis
  have "t \<noteq> idle_thread k'"
    using waiter_not_idle [OF inv, of t w] q env_idle [OF k'(5)] by simp
  with k' show "\<exists>s'. z_unpend_first_thread w k = (Some t, s') \<and> sched_inv_but (insert t X) s' \<and>
      waitqs s' = (waitqs k)(w := ts) \<and> current s' = current k \<and> t \<noteq> idle_thread s' \<and> env s' = env k \<and>
      (\<forall>x. x \<noteq> t \<longrightarrow> threads s' x = threads k x) \<and>
      unsched (threads s' t) = unsched ((threads k t)\<lparr>pended_on := None\<rparr>)"
    by (intro exI [of _ k']) (simp add: unsched_def)
qed (simp_all add: upd_thread_view_inv threads_upd_thread fun_eq_iff z_ready_thread_def ready_thread_inv
    ready_thread_threads unsched_def z_reschedule_inv reschedule_threads z_pend_curr_inv running_def
    z_pend_curr_waitqs z_pend_curr_threads runq_ready ready_clear(1))

end
