(* ===== verification/Sched_Ops.thy ===== *)
theory Sched_Ops
  imports Sched_Api
begin

text \<open>
  Every scheduling call keeps the invariant: waking by a timeout, changing priority, yielding,
  sleeping, suspending, resuming, aborting, joining, starting and creating threads, and the time
  slice. The loops that empty a wait queue are shown to empty it.
\<close>

section \<open>Wake-ups\<close>

lemma z_unpend_no_timeout_eq: "z_unpend_thread_no_timeout t k = unpend_thread_no_timeout t k"
  by (auto simp: z_unpend_thread_no_timeout_def unpend_thread_no_timeout_def)

lemmas mark_started_inv = clear_flags_inv [where S = "{THREAD_PRESTART}", folded z_mark_thread_as_started_def, simplified]
lemmas mark_not_suspended_inv = clear_flags_inv [where S = "{THREAD_SUSPENDED}", folded z_mark_thread_as_not_suspended_def, simplified]

lemma inv_but_collapse: "sched_inv_but (insert t (insert t X)) k \<Longrightarrow> sched_inv_but (insert t X) k"
  by simp

lemma sched_wake_thread_inv:
  assumes inv: "sched_inv_but X k" and t: "t \<noteq> idle_thread k"
    and nw: "is_timeout \<Longrightarrow> no_wake_on_timeout (threads k t) \<Longrightarrow> THREAD_PENDING \<in> thread_state (threads k t)"
  shows "sched_inv_but (X - {t}) (z_sched_wake_thread t is_timeout k)"
proof -
  let ?k1 = "upd_thread t (\<lambda>th. th\<lparr>no_wake_on_timeout := False\<rparr>) k"
  let ?k3 = "upd_thread t z_mark_thread_as_started (unpend_thread_no_timeout t ?k1)"
  let ?k4 = "if is_timeout then upd_thread t z_mark_thread_as_not_suspended ?k3 else ?k3"
  let ?killed = "thread_state (threads k t) \<inter> {THREAD_DEAD, THREAD_ABORTING} \<noteq> {}"
  have k1: "sched_inv_but X ?k1" using inv by (rule upd_thread_view_inv) (simp add: sched_view_def)
  show ?thesis
  proof (cases "no_wake_on_timeout (threads k t) \<and> is_timeout \<or> ?killed")
    case True
    then have "\<not> z_is_thread_ready ?k1 t"
      using nw not_aborting [OF inv, of t] by (auto simp: ready_iff threads_upd_thread)
    with k1 have "sched_inv_but (X - {t}) ?k1"
      by (metis insert_Diff_single inv_but_drop inv_but_mono subset_insertI)
    with True show ?thesis by (auto simp: z_sched_wake_thread_def Let_def)
  next
    case False
    have "sched_inv_but (insert t X) (unpend_thread_no_timeout t ?k1)" using k1 by (rule unpend_inv)
    from mark_started_inv [OF this, of t] have k3: "sched_inv_but (insert t X) ?k3" by simp
    from mark_not_suspended_inv [OF this, of t] k3 have "sched_inv_but (insert t X) ?k4" by simp
    from ready_thread_inv [OF this, of t] t have "sched_inv_but (X - {t}) (ready_thread t ?k4)"
      by (simp split: if_splits)
    with False show ?thesis
      by (auto simp: z_sched_wake_thread_def Let_def z_unpend_no_timeout_eq)
  qed
qed

lemma z_thread_timeout_inv:
  "sched_inv_but X k \<Longrightarrow> t \<noteq> idle_thread k \<Longrightarrow>
     (no_wake_on_timeout (threads k t) \<Longrightarrow> THREAD_PENDING \<in> thread_state (threads k t)) \<Longrightarrow>
     sched_inv_but (X - {t}) (z_thread_timeout t k)"
  by (simp add: z_thread_timeout_def sched_wake_thread_inv)

section \<open>Draining a wait queue\<close>

text \<open>
  Waking the first thread of a queue, in the form the drain loops use, with a change to the return
  value and the data of the thread.
\<close>

definition swap_fn :: "(k_thread \<Rightarrow> k_thread) \<Rightarrow> bool" where
  "swap_fn f \<longleftrightarrow> (\<forall>th. \<exists>v d. f th = th\<lparr>swap_retval := v, swap_data := d\<rparr>)"

lemma swap_fnD:
  assumes "swap_fn f"
  shows "sched_view (f th) = sched_view th" "prio (f th) = prio th" "sched_locked (f th) = sched_locked th"
    "no_wake_on_timeout (f th) = no_wake_on_timeout th" "thread_state (f th) = thread_state th"
    "pended_on (f th) = pended_on th"
proof -
  obtain v d where "f th = th\<lparr>swap_retval := v, swap_data := d\<rparr>" using assms unfolding swap_fn_def by blast
  then show "sched_view (f th) = sched_view th" "prio (f th) = prio th" "sched_locked (f th) = sched_locked th"
    "no_wake_on_timeout (f th) = no_wake_on_timeout th" "thread_state (f th) = thread_state th"
    "pended_on (f th) = pended_on th"
    by (simp_all add: sched_view_def)
qed

lemma swap_fnI: "(\<And>th. f th = th\<lparr>swap_retval := v th, swap_data := d th\<rparr>) \<Longrightarrow> swap_fn f"
  unfolding swap_fn_def by blast

lemma swap_fn_simps [simp]:
  "swap_fn (\<lambda>th. th)" "swap_fn (swap_retval_update (\<lambda>_. v))" "swap_fn (swap_data_update (\<lambda>_. d))"
  "swap_fn (\<lambda>th. th\<lparr>swap_retval := v, swap_data := d\<rparr>)"
  by (rule swap_fnI [of _ swap_data swap_retval], simp)
    (rule swap_fnI [of _ swap_data "\<lambda>_. v"], simp, rule swap_fnI [of _ "\<lambda>_. d" swap_retval], simp,
     rule swap_fnI [of _ "\<lambda>_. d" "\<lambda>_. v"], simp)

definition woken_with :: "(k_thread \<Rightarrow> k_thread) \<Rightarrow> tid \<Rightarrow> kernel \<Rightarrow> kernel" where
  "woken_with f t k = ready_thread t (upd_thread t f
     (snd (z_abort_thread_timeout t (unpend_thread_no_timeout t k))))"

definition woken :: "tid \<Rightarrow> int \<Rightarrow> kernel \<Rightarrow> kernel" where
  "woken t v k = woken_with (\<lambda>th. th\<lparr>swap_retval := v\<rparr>) t k"

lemma woken_eq:
  "woken t v k = ready_thread t (arch_thread_return_value_set t v
     (snd (z_abort_thread_timeout t (unpend_thread_no_timeout t k))))"
  by (simp add: woken_def woken_with_def arch_thread_return_value_set_def)

lemma woken_with_props:
  assumes inv: "sched_inv_but X k" and q: "waitqs k w = t # ts" and f: "swap_fn f"
  shows "sched_inv_but X (woken_with f t k)" "waitqs (woken_with f t k) = (waitqs k)(w := ts)"
    "current (woken_with f t k) = current k" "env (woken_with f t k) = env k"
    "x \<noteq> t \<Longrightarrow> threads (woken_with f t k) x = threads k x"
    "deadline (tmo (woken_with f t k)) (ThreadTo x) = (if x = t then None else deadline (tmo k) (ThreadTo x))"
proof -
  from unpend_first_Some [OF inv q] obtain k' where k':
    "z_unpend_first_thread w k = (Some t, k')" "sched_inv_but (insert t X) k'"
    "waitqs k' = (waitqs k)(w := ts)" "current k' = current k" "env k' = env k"
    "\<And>x. x \<noteq> t \<Longrightarrow> threads k' x = threads k x"
    "\<And>x. deadline (tmo k') (ThreadTo x) = (if x = t then None else deadline (tmo k) (ThreadTo x))"
    by metis
  have k'eq: "k' = snd (z_abort_thread_timeout t (unpend_thread_no_timeout t k))"
    using k'(1) unpend_first_eq [OF q] by simp
  have "t \<noteq> idle_thread k'"
    using waiter_not_idle [OF inv, of t w] q env_idle [OF k'(5)] by simp
  then have "sched_inv_but (insert t X - {t}) (woken_with f t k)"
    unfolding woken_with_def k'eq [symmetric]
    by (intro ready_thread_inv upd_thread_view_inv k') (simp_all add: swap_fnD [OF f])
  then show "sched_inv_but X (woken_with f t k)" by (rule inv_but_mono) auto
  show "waitqs (woken_with f t k) = (waitqs k)(w := ts)" "current (woken_with f t k) = current k"
    "env (woken_with f t k) = env k"
    unfolding woken_with_def k'eq [symmetric] by (simp_all add: k')
  show "x \<noteq> t \<Longrightarrow> threads (woken_with f t k) x = threads k x"
    unfolding woken_with_def k'eq [symmetric] by (simp add: ready_thread_threads threads_upd_thread k')
  show "deadline (tmo (woken_with f t k)) (ThreadTo x) = (if x = t then None else deadline (tmo k) (ThreadTo x))"
    unfolding woken_with_def k'eq [symmetric]
    using inv_butD(2) [OF k'(2)] by (simp add: ready_thread_def update_cache_tmo k')
qed

lemmas woken_basic = woken_with_props [where f = "\<lambda>th. th\<lparr>swap_retval := v\<rparr>" for v, folded woken_def, simplified]

text \<open>A waiting thread woken from its queue keeps no wait queue and no timeout; it is queued to run unless it is suspended.\<close>

lemma woken_retval: "swap_retval (threads (woken t v k) t) = v"
  by (simp add: woken_def woken_with_def ready_thread_threads threads_upd_thread)

lemma woken_props:
  assumes "sched_inv_but X k" and "waitqs k w = t # ts"
  shows "sched_inv_but X (woken t v k)" "waitqs (woken t v k) = (waitqs k)(w := ts)"
    "current (woken t v k) = current k" "env (woken t v k) = env k"
    "x \<noteq> t \<Longrightarrow> threads (woken t v k) x = threads k x"
    "swap_retval (threads (woken t v k) t) = v"
    "deadline (tmo (woken t v k)) (ThreadTo x) = (if x = t then None else deadline (tmo k) (ThreadTo x))"
  using woken_basic [OF assms] woken_retval by simp_all

lemma unpend_all_loop_drains:
  assumes "sched_inv_but X k" "length (waitqs k w) \<le> n"
  shows "sched_inv_but X (unpend_all_loop n w k) \<and> waitqs (unpend_all_loop n w k) = (waitqs k)(w := []) \<and>
    current (unpend_all_loop n w k) = current k \<and> env (unpend_all_loop n w k) = env k \<and>
    (\<forall>x. x \<notin> set (waitqs k w) \<longrightarrow> threads (unpend_all_loop n w k) x = threads k x \<and>
       deadline (tmo (unpend_all_loop n w k)) (ThreadTo x) = deadline (tmo k) (ThreadTo x)) \<and>
    (\<forall>x \<in> set (waitqs k w). swap_retval (threads (unpend_all_loop n w k) x) = 0 \<and>
       deadline (tmo (unpend_all_loop n w k)) (ThreadTo x) = None)"
  using assms
proof (induction n arbitrary: k)
  case 0
  then show ?case by (simp add: fun_upd_idem)
next
  case (Suc n)
  show ?case
  proof (cases "waitqs k w")
    case Nil
    with Suc.prems show ?thesis by (simp add: z_waitq_head_def fun_upd_idem)
  next
    case (Cons t ts)
    note w = woken_props [OF Suc.prems(1) Cons, where v = 0]
    have eq: "unpend_all_loop (Suc n) w k = unpend_all_loop n w (woken t 0 k)"
      by (simp add: z_waitq_head_def Cons woken_eq)
    have d: "t \<notin> set ts" using sch.waiters_distinct [OF Suc.prems(1), of w] Cons by simp
    from Suc.IH [OF w(1)] Suc.prems(2) Cons show ?thesis
      unfolding eq using w d by auto
  qed
qed

lemma wake_loop_drains:
  assumes "sched_inv_but X k" "length (waitqs k w) < n"
  shows "fst (wake_loop n v w k) = length (waitqs k w) \<and>
    sched_inv_but X (snd (wake_loop n v w k)) \<and> waitqs (snd (wake_loop n v w k)) = (waitqs k)(w := []) \<and>
    current (snd (wake_loop n v w k)) = current k \<and> env (snd (wake_loop n v w k)) = env k \<and>
    (\<forall>x. x \<notin> set (waitqs k w) \<longrightarrow> threads (snd (wake_loop n v w k)) x = threads k x) \<and>
    (\<forall>x \<in> set (waitqs k w). swap_retval (threads (snd (wake_loop n v w k)) x) = v)"
  using assms
proof (induction n arbitrary: k)
  case 0
  then show ?case by simp
next
  case (Suc n)
  show ?case
  proof (cases "waitqs k w")
    case Nil
    with Suc.prems show ?thesis by (simp add: fun_upd_idem)
  next
    case (Cons t ts)
    note w = woken_props [OF Suc.prems(1) Cons, where v = v]
    have eq: "wake_loop (Suc n) v w k =
        (Suc (fst (wake_loop n v w (woken t v k))), snd (wake_loop n v w (woken t v k)))"
      by (simp add: unpend_first_eq [OF Cons] z_ready_thread_def woken_eq case_prod_beta)
    have d: "t \<notin> set ts" using sch.waiters_distinct [OF Suc.prems(1), of w] Cons by simp
    from Suc.IH [OF w(1)] Suc.prems(2) Cons show ?thesis
      unfolding eq using w d by auto
  qed
qed

lemmas wake_all_drains = wake_loop_drains [where n = "Suc (length (waitqs k w))" and k = k and w = w for k w,
    folded wake_all_def, simplified]

section \<open>Priorities, locking, yielding\<close>

lemma set_prio_inv:
  assumes "sched_inv_but X k" "t \<notin> set (runq k)"
  shows "sched_inv_but X (set_prio t p k)"
proof -
  let ?k = "set_prio t p k"
  have th: "threads ?k x = (if x = t then (threads k t)\<lparr>prio := p\<rparr> else threads k x)" for x
    by (simp add: set_prio_def threads_upd_thread)
  have eq: "runq ?k = runq k" "waitqs ?k = waitqs k" "tmo ?k = tmo k" "idle_thread ?k = idle_thread k"
    by (simp_all add: set_prio_def)
  have "sorted_wrt (\<lambda>a b. tprio ?k a \<le> tprio ?k b) (runq k) = sorted_wrt (\<lambda>a b. tprio k a \<le> tprio k b) (runq k)"
    by (rule sorted_wrt_cong) (use assms(2) in \<open>auto simp: tprio_def th\<close>)
  with inv_butD(1) [OF assms(1)] have "wf_queues ?k"
    unfolding wf_queues_def eq
    by (intro conjI allI) (simp_all add: th z_is_thread_queued_def)
  moreover have "z_is_thread_ready ?k x = z_is_thread_ready k x" for x by (simp add: ready_iff th eq)
  ultimately show ?thesis using assms(1) by (simp add: sched_inv_but_def eq)
qed

text \<open>Taking a ready thread off the run queue and putting it back after a change.\<close>

lemma requeue_inv:
  assumes "sched_inv_but X k" "t \<in> set (runq k)"
  shows "sched_inv_but X (queue_thread t (dequeue_thread t k))"
proof -
  note r = runq_ready [OF assms]
  have "sched_inv_but (insert t X - {t}) (queue_thread t (dequeue_thread t k))"
    by (rule queue_inv) (use assms r in \<open>auto simp: dequeue_inv inv_distinct\<close>)
  then show ?thesis by (rule inv_but_mono) auto
qed

lemma prio_requeue_inv:
  assumes "sched_inv_but X k" "t \<in> set (runq k)"
  shows "sched_inv_but X (queue_thread t (set_prio t p (dequeue_thread t k)))"
proof -
  note r = runq_ready [OF assms]
  let ?k = "set_prio t p (dequeue_thread t k)"
  have k: "sched_inv_but (insert t X) ?k" "t \<notin> set (runq ?k)"
    using assms by (auto simp: set_prio_inv dequeue_inv inv_distinct) (simp add: set_prio_def inv_distinct)
  have "z_is_thread_ready ?k t" using r by (simp add: ready_iff set_prio_def threads_upd_thread queue_threads)
  moreover have "t \<noteq> idle_thread ?k" using r by (simp add: set_prio_def)
  ultimately have "sched_inv_but (insert t X - {t}) (queue_thread t ?k)" using k by (intro queue_inv)
  then show ?thesis by (rule inv_but_mono) auto
qed

lemma ready_runq: "sched_inv k \<Longrightarrow> t \<noteq> idle_thread k \<Longrightarrow> z_is_thread_ready k t \<longleftrightarrow> t \<in> set (runq k)"
  by (auto simp: sched_inv_but_def)

lemma prio_set_inv:
  "sched_inv k \<Longrightarrow> t \<noteq> idle_thread k \<Longrightarrow> sched_inv (snd (z_thread_prio_set t p k))"
  by (simp add: z_thread_prio_set_def Let_def ready_runq update_cache_inv prio_requeue_inv set_prio_inv)

lemma priority_set_inv:
  "sched_inv k \<Longrightarrow> t \<noteq> idle_thread k \<Longrightarrow> sched_inv (z_impl_k_thread_priority_set t p k)"
  using prio_set_inv [of k t p]
  by (auto simp: z_impl_k_thread_priority_set_def Let_def case_prod_beta z_reschedule_inv)

lemma sched_lock_inv: "sched_inv k \<Longrightarrow> sched_inv (k_sched_lock k)"
  by (simp add: k_sched_lock_def upd_thread_view_inv sched_view_def)

lemma sched_unlock_inv: "sched_inv k \<Longrightarrow> sched_inv (k_sched_unlock k)"
  by (simp add: k_sched_unlock_def z_reschedule_inv update_cache_inv upd_thread_view_inv sched_view_def)

lemma yield_inv: "sched_inv k \<Longrightarrow> running k \<Longrightarrow> sched_inv (z_impl_k_yield k)"
  by (simp add: z_impl_k_yield_def do_swap_inv update_cache_inv requeue_inv running_def)

lemma move_to_end_inv: "sched_inv k \<Longrightarrow> t \<in> set (runq k) \<Longrightarrow> sched_inv (move_thread_to_end_of_prio_q t k)"
  by (simp add: move_thread_to_end_of_prio_q_def Let_def queued_iff update_cache_inv requeue_inv)

section \<open>Starting, sleeping, waking up\<close>

lemma sched_start_inv: "sched_inv k \<Longrightarrow> t \<noteq> idle_thread k \<Longrightarrow> sched_inv (z_sched_start t k)"
  using ready_thread_inv [OF mark_started_inv [of "{}" k t], of t]
  by (simp add: z_sched_start_def z_reschedule_inv)

lemma resume_inv: "sched_inv k \<Longrightarrow> t \<noteq> idle_thread k \<Longrightarrow> sched_inv (z_impl_k_thread_resume t k)"
  using ready_thread_inv [OF mark_not_suspended_inv [of "{}" k t], of t]
  by (simp add: z_impl_k_thread_resume_def z_reschedule_inv)

definition asleep :: "k_ticks_t \<Rightarrow> kernel \<Rightarrow> kernel" where
  "asleep n k =
     upd_thread (current k) z_mark_thread_as_suspended
       (z_add_thread_timeout (current k) n (unready_thread (current k) k))"

lemma tick_sleep_eq: "n \<noteq> 0 \<Longrightarrow> z_tick_sleep n k = (Blocked, do_swap (asleep n k))"
  by (simp add: z_tick_sleep_def Let_def asleep_def)

lemma asleep_inv:
  assumes inv: "sched_inv k" and run: "running k"
  shows "sched_inv (asleep n k)"
proof -
  let ?c = "current k"
  let ?k1 = "z_add_thread_timeout ?c n (unready_thread ?c k)"
  from run have q: "?c \<in> set (runq k)" by (simp add: running_def)
  note r = runq_ready [OF inv q]
  have out: "?c \<notin> set (runq (unready_thread ?c k))" using inv by (simp add: unready_runq inv_distinct)
  have d: "deadline (tmo (unready_thread ?c k)) (ThreadTo ?c) = None"
    using ready_clear(2) [OF inv] r inv_butD(2) [OF inv] by (simp add: unready_tmo)
  have "sched_inv_but {?c} ?k1"
    by (rule add_timeout_inv [OF unready_inv [OF inv] out _ d]) (use r in simp)
  moreover have "pended_on (threads ?k1 ?c) = None"
    using ready_clear(1) [OF inv] r by (simp add: unready_threads)
  ultimately have "sched_inv_but (insert ?c {?c}) (asleep n k)"
    unfolding asleep_def
    using out r inv
    by (rule_tac upd_flags_inv) (auto simp: z_mark_thread_as_suspended_def unready_threads not_aborting)
  moreover have "\<not> z_is_thread_ready (asleep n k) ?c"
    by (auto simp: asleep_def ready_iff threads_upd_thread z_mark_thread_as_suspended_def)
  ultimately show ?thesis by (simp add: inv_but_drop)
qed

lemma tick_sleep_inv:
  assumes inv: "sched_inv k" and run: "running k"
  shows "sched_inv (snd (z_tick_sleep n k))"
proof (cases "n = 0")
  case True
  with assms show ?thesis by (simp add: z_tick_sleep_def yield_inv)
next
  case False
  with assms show ?thesis by (simp add: tick_sleep_eq do_swap_inv asleep_inv)
qed

lemma wakeup_inv:
  assumes inv: "sched_inv k" and t: "t \<noteq> idle_thread k"
  shows "sched_inv (z_impl_k_wakeup t k)"
proof (cases "deadline (tmo k) (ThreadTo t) = None")
  case True
  have "sched_inv (ready_thread t (upd_thread t z_mark_thread_as_not_suspended k))"
    using ready_thread_inv [OF mark_not_suspended_inv [OF inv, of t], of t] t by simp
  with True inv show ?thesis
    using abort_timeout_noop [OF True]
    by (auto simp: z_impl_k_wakeup_def Let_def case_prod_beta z_reschedule_inv)
next
  case False
  let ?k1 = "snd (z_abort_thread_timeout t k)"
  have "sched_inv_but {t} (upd_thread t z_mark_thread_as_not_suspended ?k1)"
    using mark_not_suspended_inv [OF abort_timeout_inv [OF inv], of t t] by simp
  from ready_thread_inv [OF this, of t] t
  have "sched_inv (ready_thread t (upd_thread t z_mark_thread_as_not_suspended ?k1))" by simp
  moreover have "fst (z_abort_thread_timeout t k) = 0"
    using False by (simp add: z_abort_thread_timeout_def case_prod_beta tq.abort_result)
  ultimately show ?thesis
    using inv by (simp add: z_impl_k_wakeup_def Let_def case_prod_beta z_reschedule_inv)
qed

section \<open>Suspending, aborting, joining\<close>

text \<open>The first steps of \<open>halt_thread\<close>: flag the thread and take it off the run queue.\<close>

definition halted :: "tid \<Rightarrow> thread_flag \<Rightarrow> kernel \<Rightarrow> kernel" where
  "halted t s k =
     (let k1 = upd_thread t (\<lambda>th. th\<lparr>thread_state := insert s (thread_state th)\<rparr>) k
      in if z_is_thread_queued (threads k1 t) then dequeue_thread t k1 else k1)"

lemma dequeue_upd_commute:
  "s \<noteq> THREAD_QUEUED \<Longrightarrow>
     dequeue_thread t (upd_thread t (\<lambda>th. th\<lparr>thread_state := insert s (thread_state th)\<rparr>) k) =
     upd_thread t (\<lambda>th. th\<lparr>thread_state := insert s (thread_state th)\<rparr>) (dequeue_thread t k)"
  by (simp add: dequeue_thread_def runq_remove_def upd_thread_def z_priq_dumb_remove_def insert_Diff_if)

lemma halted_alt:
  "s \<noteq> THREAD_QUEUED \<Longrightarrow>
     halted t s k = upd_thread t (\<lambda>th. th\<lparr>thread_state := insert s (thread_state th)\<rparr>)
       (if z_is_thread_queued (threads k t) then dequeue_thread t k else k)"
  by (simp add: halted_def Let_def dequeue_upd_commute threads_upd_thread z_is_thread_queued_def)

lemma halted_frame:
  assumes "s \<in> {THREAD_DEAD, THREAD_SUSPENDED}"
  shows "threads (halted t s k) x =
      (if x = t then (threads k t)\<lparr>thread_state := insert s (thread_state (threads k t) - {THREAD_QUEUED})\<rparr>
       else threads k x)"
    "waitqs (halted t s k) = waitqs k" "current (halted t s k) = current k" "tmo (halted t s k) = tmo k"
    "env (halted t s k) = env k" "idle_thread (halted t s k) = idle_thread k"
proof -
  have s: "s \<noteq> THREAD_QUEUED" using assms by auto
  show "threads (halted t s k) x =
      (if x = t then (threads k t)\<lparr>thread_state := insert s (thread_state (threads k t) - {THREAD_QUEUED})\<rparr>
       else threads k x)"
    by (auto simp: halted_alt [OF s] threads_upd_thread queue_threads z_is_thread_queued_def)
qed (simp_all add: halted_def Let_def)

lemma halted_inv:
  assumes inv: "sched_inv_but X k" and t: "t \<noteq> idle_thread k" and s: "s \<in> {THREAD_DEAD, THREAD_SUSPENDED}"
  shows "sched_inv_but X (halted t s k)"
proof -
  let ?d = "if z_is_thread_queued (threads k t) then dequeue_thread t k else k"
  have sq: "s \<noteq> THREAD_QUEUED" using s by auto
  have d: "sched_inv_but (insert t X) ?d"
    using dequeue_inv [OF inv, of t] inv_but_mono [OF inv, of "insert t X"] by auto
  have out: "t \<notin> set (runq ?d)" "t \<noteq> idle_thread ?d"
    using inv t by (auto simp: queued_iff inv_distinct)
  have "sched_inv_but (insert t (insert t X)) (halted t s k)"
    unfolding halted_alt [OF sq]
    using pended_pending [OF inv] s not_aborting [OF inv] inv out(1)
    by (intro upd_flags_inv [OF d out])
      (auto simp: queue_threads z_is_thread_queued_def queued_iff split: if_splits)
  moreover have "\<not> z_is_thread_ready (halted t s k) t"
    using s by (auto simp: ready_iff halted_frame)
  ultimately show ?thesis by (simp add: inv_but_drop)
qed

lemma clear_halting_frame [simp]:
  "env (clear_halting t k) = env k" "current (clear_halting t k) = current k"
  "runq (clear_halting t k) = runq k" "tmo (clear_halting t k) = tmo k" "cache (clear_halting t k) = cache k"
  "idle_thread (clear_halting t k) = idle_thread k" "waitqs (clear_halting t k) = waitqs k"
  by (simp_all add: clear_halting_def)

lemma clear_halting_inv:
  "sched_inv_but X k \<Longrightarrow> sched_inv_but X (clear_halting t k)"
proof -
  assume inv: "sched_inv_but X k"
  have "sched_inv_but (insert t X) (clear_halting t k)"
    unfolding clear_halting_def by (rule clear_flags_inv [OF inv]) simp_all
  moreover have "z_is_thread_ready (clear_halting t k) t = z_is_thread_ready k t"
    by (auto simp: clear_halting_def ready_iff threads_upd_thread)
  moreover have "runq (clear_halting t k) = runq k" "idle_thread (clear_halting t k) = idle_thread k"
    by (simp_all add: clear_halting_def)
  ultimately show ?thesis using inv unfolding sched_inv_but_def by (metis insertE)
qed

lemma halt_suspend_eq:
  "THREAD_SUSPENDED \<notin> thread_state (threads k t) \<Longrightarrow>
     halt_thread t THREAD_SUSPENDED k = clear_halting t (update_cache True (halted t THREAD_SUSPENDED k))"
  by (simp add: halt_thread_def halted_def Let_def)

definition suspended :: "tid \<Rightarrow> kernel \<Rightarrow> kernel" where
  "suspended t k = clear_halting t (update_cache True
     (halted t THREAD_SUSPENDED (snd (z_abort_thread_timeout t k))))"

lemma suspended_inv:
  assumes "sched_inv k" "t \<noteq> idle_thread k"
  shows "sched_inv (suspended t k)"
proof -
  have "sched_inv_but {t} (suspended t k)"
    unfolding suspended_def
    by (intro clear_halting_inv update_cache_inv halted_inv abort_timeout_inv) (use assms in auto)
  moreover have "\<not> z_is_thread_ready (suspended t k) t"
    by (auto simp: suspended_def ready_iff clear_halting_def threads_upd_thread halted_frame)
  ultimately show ?thesis by (rule inv_but_drop)
qed

lemma suspend_eq:
  "z_impl_k_thread_suspend t k =
     (if THREAD_SUSPENDED \<in> thread_state (threads k t) then snd (z_abort_thread_timeout t k)
      else if t = current k \<and> \<not> in_isr (suspended t k) then do_swap (suspended t k)
      else suspended t k)"
  by (simp add: z_impl_k_thread_suspend_def Let_def z_is_thread_suspended_def z_thread_halt_def
      halt_suspend_eq suspended_def [symmetric] del: clear_halting_frame)
    (auto simp: suspended_def halted_frame)

lemma suspend_inv:
  assumes inv: "sched_inv k" and t: "t \<noteq> idle_thread k"
  shows "sched_inv (z_impl_k_thread_suspend t k)"
proof (cases "THREAD_SUSPENDED \<in> thread_state (threads k t)")
  case True
  then have "\<not> z_is_thread_ready (snd (z_abort_thread_timeout t k)) t" by (auto simp: ready_iff)
  then have "sched_inv (snd (z_abort_thread_timeout t k))"
    using abort_timeout_inv [OF inv] inv_but_drop by blast
  with True show ?thesis by (simp add: suspend_eq)
next
  case False
  then show ?thesis using suspended_inv [OF assms] by (auto simp: suspend_eq do_swap_inv)
qed

lemma sleep_inv: "sched_inv k \<Longrightarrow> running k \<Longrightarrow> sched_inv (snd (z_impl_k_sleep n k))"
  using runq_ready [of "{}" k "current k"]
  by (simp add: z_impl_k_sleep_def suspend_inv tick_sleep_inv running_def)

text \<open>
  The dummy thread is not a thread of the system: it is flagged as such, waits for nothing and
  may not be aborted.
\<close>

definition dummy_ok :: "kernel \<Rightarrow> bool" where
  "dummy_ok k \<longleftrightarrow>
     thread_state (threads k (thread_dummy k)) = {THREAD_DUMMY} \<and>
     pended_on (threads k (thread_dummy k)) = None \<and> essential (threads k (thread_dummy k))"

text \<open>The state before the cache update of an abort: flagged, unpended, joiners woken.\<close>

definition killed :: "tid \<Rightarrow> kernel \<Rightarrow> kernel" where
  "killed t k = unpend_all (JoinQ t)
     (snd (z_abort_thread_timeout t (unpend_thread_no_timeout t (halted t THREAD_DEAD k))))"

lemma halt_dead_eq:
  "THREAD_DEAD \<notin> thread_state (threads k t) \<Longrightarrow>
     halt_thread t THREAD_DEAD k =
       clear_halting t
         (if t = current k \<and> in_isr k then z_dummy_thread_init (update_cache True (killed t k))
          else update_cache True (killed t k))"
  by (simp add: halt_thread_def halted_def killed_def Let_def z_unpend_no_timeout_eq)

lemma killed_props:
  assumes inv: "sched_inv k" and t: "t \<noteq> idle_thread k"
  shows "sched_inv (killed t k)" "waitqs (killed t k) (JoinQ t) = []"
    "THREAD_DEAD \<in> thread_state (threads (killed t k) t)"
    "pended_on (threads (killed t k) t) = None" "deadline (tmo (killed t k)) (ThreadTo t) = None"
    "current (killed t k) = current k" "env (killed t k) = env k"
    "x \<noteq> t \<Longrightarrow> pended_on (threads k x) \<noteq> Some (JoinQ t) \<Longrightarrow> threads (killed t k) x = threads k x"
    "x \<noteq> t \<Longrightarrow> pended_on (threads k x) = Some (JoinQ t) \<Longrightarrow> swap_retval (threads (killed t k) x) = 0"
    "x \<noteq> t \<Longrightarrow> pended_on (threads k x) \<noteq> Some (JoinQ t) \<Longrightarrow>
       deadline (tmo (killed t k)) (ThreadTo x) = deadline (tmo k) (ThreadTo x)"
    "deadline (tmo k) (ThreadTo x) = None \<Longrightarrow> deadline (tmo (killed t k)) (ThreadTo x) = None"
proof -
  let ?a = "halted t THREAD_DEAD k"
  let ?c = "snd (z_abort_thread_timeout t (unpend_thread_no_timeout t ?a))"
  have "sched_inv ?a" using inv t by (simp add: halted_inv)
  then have "sched_inv_but {t} ?c"
    using abort_timeout_inv [OF unpend_inv, of "{}" ?a t t] by simp
  moreover have dead: "THREAD_DEAD \<in> thread_state (threads ?c t)" "\<not> z_is_thread_ready ?c t"
    by (auto simp: unpend_threads halted_frame ready_iff)
  ultimately have c: "sched_inv ?c" by (simp add: inv_but_drop)
  have pt: "pended_on (threads ?c t) = None" by (simp add: unpend_threads)
  have px: "x \<noteq> t \<Longrightarrow> threads ?c x = threads k x" for x by (simp add: unpend_threads halted_frame)
  have dt: "deadline (tmo ?c) (ThreadTo t) = None"
    using inv_butD(2) [OF inv] by (simp add: tq.due_abort halted_frame)
  note d = unpend_all_loop_drains [OF c order_refl, of "JoinQ t", folded unpend_all_def, folded killed_def]
  have tout: "t \<notin> set (waitqs ?c (JoinQ t))"
    using waitq_member [OF c, of t "JoinQ t"] pt by simp
  have xin: "x \<in> set (waitqs ?c (JoinQ t)) \<longleftrightarrow> pended_on (threads k x) = Some (JoinQ t)" if "x \<noteq> t"
    using waitq_member [OF c, of x "JoinQ t"] px [OF that] by simp
  show "sched_inv (killed t k)" "waitqs (killed t k) (JoinQ t) = []" using d by simp_all
  show "THREAD_DEAD \<in> thread_state (threads (killed t k) t)" "pended_on (threads (killed t k) t) = None"
    "deadline (tmo (killed t k)) (ThreadTo t) = None"
    using d tout dead pt dt by simp_all
  show "current (killed t k) = current k" "env (killed t k) = env k"
    using d by (simp_all add: halted_frame)
  show "x \<noteq> t \<Longrightarrow> pended_on (threads k x) \<noteq> Some (JoinQ t) \<Longrightarrow> threads (killed t k) x = threads k x"
    using d xin px by simp
  show "x \<noteq> t \<Longrightarrow> pended_on (threads k x) = Some (JoinQ t) \<Longrightarrow> swap_retval (threads (killed t k) x) = 0"
    using d xin px by simp
  show "x \<noteq> t \<Longrightarrow> pended_on (threads k x) \<noteq> Some (JoinQ t) \<Longrightarrow>
      deadline (tmo (killed t k)) (ThreadTo x) = deadline (tmo k) (ThreadTo x)"
    using d xin inv_butD(2) [OF inv] by (simp add: tq.due_abort halted_frame)
  show "deadline (tmo k) (ThreadTo x) = None \<Longrightarrow> deadline (tmo (killed t k)) (ThreadTo x) = None"
    using d inv_butD(2) [OF inv]
    by (cases "x \<in> set (waitqs ?c (JoinQ t))") (simp_all add: tq.due_abort halted_frame)
qed

lemma unpend_all_loop_no_wake [simp]:
  "no_wake_on_timeout (threads (unpend_all_loop n w k) x) = no_wake_on_timeout (threads k x)"
  by (induction n arbitrary: k)
    (simp_all add: ready_thread_threads set_ret_threads unpend_threads split: option.split)

lemma killed_no_wake [simp]: "no_wake_on_timeout (threads (killed t k) x) = no_wake_on_timeout (threads k x)"
  by (simp add: killed_def unpend_all_def unpend_threads halted_frame)

lemma dummy_init_eq: "dummy_ok k \<Longrightarrow> z_dummy_thread_init k = k\<lparr>current := thread_dummy k\<rparr>"
proof -
  assume ok: "dummy_ok k"
  let ?d = "threads k (thread_dummy k)"
  have "?d\<lparr>thread_state := {THREAD_DUMMY}, essential := True\<rparr> = ?d"
    using ok by (cases ?d) (simp add: dummy_ok_def)
  then show ?thesis by (simp add: z_dummy_thread_init_def upd_thread_def)
qed

lemma dummy_ok_cong:
  "dummy_ok k \<Longrightarrow> thread_dummy k' = thread_dummy k \<Longrightarrow>
     threads k' (thread_dummy k) = threads k (thread_dummy k) \<Longrightarrow> dummy_ok k'"
  by (simp add: dummy_ok_def)

lemma dummy_killed:
  assumes "sched_inv k" "t \<noteq> idle_thread k" "dummy_ok k" "\<not> essential (threads k t)"
  shows "dummy_ok (killed t k)"
proof -
  have "thread_dummy k \<noteq> t" using assms by (auto simp: dummy_ok_def)
  moreover have "thread_dummy (killed t k) = thread_dummy k"
    using killed_props(7) [OF assms(1,2)] by (simp add: env_def)
  ultimately show ?thesis
    using assms killed_props(8) [OF assms(1,2), of "thread_dummy k"]
    by (intro dummy_ok_cong [OF assms(3)]) (simp_all add: dummy_ok_def)
qed

lemma cache_env [simp]: "thread_dummy (update_cache b k) = thread_dummy k"
  using update_cache_frame(6) [of b k] by (simp add: env_def)

lemma halt_dead_inv:
  assumes "sched_inv k" "t \<noteq> idle_thread k" "dummy_ok k" "\<not> essential (threads k t)"
    "THREAD_DEAD \<notin> thread_state (threads k t)"
  shows "sched_inv (halt_thread t THREAD_DEAD k)"
    "THREAD_DEAD \<in> thread_state (threads (halt_thread t THREAD_DEAD k) t)"
    "waitqs (halt_thread t THREAD_DEAD k) (JoinQ t) = []"
proof -
  let ?k = "update_cache True (killed t k)"
  note kp = killed_props [OF assms(1,2)]
  have k: "sched_inv ?k" using kp(1) by (rule update_cache_inv)
  have "dummy_ok ?k" by (rule dummy_ok_cong [OF dummy_killed [OF assms(1-4)]]) simp_all
  then have i: "z_dummy_thread_init ?k = ?k\<lparr>current := thread_dummy ?k\<rparr>" by (rule dummy_init_eq)
  show "sched_inv (halt_thread t THREAD_DEAD k)"
    unfolding halt_dead_eq [OF assms(5)] i using k by (auto intro!: clear_halting_inv)
  show "THREAD_DEAD \<in> thread_state (threads (halt_thread t THREAD_DEAD k) t)"
    "waitqs (halt_thread t THREAD_DEAD k) (JoinQ t) = []"
    unfolding halt_dead_eq [OF assms(5)] i
    using kp(2,3) by (auto simp: clear_halting_def threads_upd_thread)
qed

lemma abort_inv:
  assumes "sched_inv k" "t \<noteq> idle_thread k" "dummy_ok k" "z_thread_abort t k = Some k'"
  shows "sched_inv k'" "THREAD_DEAD \<in> thread_state (threads k' t)"
proof -
  have "\<not> essential (threads k t)"
    using assms(4) by (auto simp: z_thread_abort_def z_is_thread_essential_def split: if_splits)
  note h = halt_dead_inv [OF assms(1-3) this]
  show "sched_inv k'" "THREAD_DEAD \<in> thread_state (threads k' t)"
    using assms h(1,2)
    by (auto simp: z_thread_abort_def z_thread_halt_def Let_def do_swap_inv do_swap_threads split: if_splits)
qed

lemma join_inv:
  assumes inv: "sched_inv k" and run: "running k"
  shows "sched_inv (snd (z_impl_k_thread_join t n k))"
proof -
  have "sched_inv (pend_locked (current k) (Some (JoinQ t)) n k)"
    using inv run by (simp add: pend_locked_inv running_def)
  then show ?thesis
    using inv by (simp add: z_impl_k_thread_join_def pend_locked_def do_swap_inv)
qed

section \<open>Time slices and thread creation\<close>

lemma time_slice_inv:
  assumes "sched_inv k" "running k"
  shows "sched_inv (z_time_slice k)"
  using assms move_to_end_inv [of k "current k"]
  by (auto simp: z_time_slice_def Let_def running_def intro!: reset_slice_inv)

lemma time_slice_set_inv: "sched_inv k \<Longrightarrow> sched_inv (k_sched_time_slice_set ms p k)"
  unfolding k_sched_time_slice_set_def
  by (rule reset_slice_inv, rule inv_but_cong) (auto simp: inv_butD)

text \<open>A thread object may be (re)initialised when it is not in use: dead or never started.\<close>

definition unused :: "tid \<Rightarrow> kernel \<Rightarrow> bool" where
  "unused t k \<longleftrightarrow>
     \<not> z_is_thread_ready k t \<and> pended_on (threads k t) = None \<and> deadline (tmo k) (ThreadTo t) = None \<and>
     waitqs k (JoinQ t) = []"

lemma setup_inv:
  assumes inv: "sched_inv k" and u: "unused t k"
  shows "sched_inv (z_setup_new_thread t p ess k)"
proof -
  let ?k = "z_setup_new_thread t p ess k"
  have th: "threads ?k x = (if x = t then (threads k t)\<lparr>pended_on := None, essential := ess,
      thread_state := {THREAD_PRESTART}, prio := p, sched_locked := 0, no_wake_on_timeout := False\<rparr> else threads k x)" for x
    by (simp add: z_setup_new_thread_def threads_upd_thread z_init_thread_base_def)
  have eq: "runq ?k = runq k" "waitqs ?k = waitqs k" "tmo ?k = tmo k" "idle_thread ?k = idle_thread k"
    using u by (simp_all add: z_setup_new_thread_def unused_def fun_upd_idem)
  have nq: "t \<notin> set (runq k)" using inv u not_queued_not_ready by (auto simp: unused_def)
  have ti: "t \<noteq> idle_thread k" using idle_ready [OF inv] u by (auto simp: unused_def)
  have "sorted_wrt (\<lambda>a b. tprio ?k a \<le> tprio ?k b) (runq k) = sorted_wrt (\<lambda>a b. tprio k a \<le> tprio k b) (runq k)"
    by (rule sorted_wrt_cong) (use nq in \<open>auto simp: tprio_def th\<close>)
  with inv_butD(1) [OF inv] nq u have wf: "wf_queues ?k"
    unfolding wf_queues_def eq unused_def
    by (intro conjI allI) (simp_all add: th z_is_thread_queued_def)
  have "sched_inv_but {t} ?k"
    by (rule inv_but_one [OF inv wf]) (use nq ti in \<open>auto simp: ready_iff th eq\<close>)
  moreover have "\<not> z_is_thread_ready ?k t" by (simp add: ready_iff th)
  ultimately show ?thesis by (rule inv_but_drop)
qed

lemma create_inv:
  assumes inv: "sched_inv k" and u: "unused t k"
  shows "sched_inv (z_impl_k_thread_create t p ess delay k)"
proof -
  let ?k = "z_setup_new_thread t p ess k"
  have k: "sched_inv ?k" using assms by (rule setup_inv)
  have ti: "t \<noteq> idle_thread ?k" using idle_ready [OF inv] u by (auto simp: unused_def z_setup_new_thread_def)
  have r: "\<not> z_is_thread_ready ?k t"
    by (simp add: ready_iff z_setup_new_thread_def threads_upd_thread z_init_thread_base_def)
  have d: "deadline (tmo ?k) (ThreadTo t) = None" using u by (simp add: unused_def z_setup_new_thread_def)
  show ?thesis
    using k ti d not_queued_not_ready [OF k r]
    by (simp add: z_impl_k_thread_create_def Let_def thread_schedule_new_def sched_start_inv add_timeout_inv)
qed

end
