(* ===== verification/Clock.thy ===== *)
theory Clock
  imports Sched_Ops
begin

text \<open>
  The timer interrupt: the loop of \<open>sys_clock_announce\<close> (\<open>kernel/timeout.c\<close>) with the callbacks
  the scheduler installs, and the time slice check that follows it. A pass of the loop removes the
  first timeout; a callback may add the time-slice timeout again but no thread's, so twice the
  number of timeouts plus one bounds the passes (\<open>announce_terminates\<close>).
\<close>

section \<open>The loop\<close>

definition run_timeout :: "timeout \<Rightarrow> kernel \<Rightarrow> kernel" where
  "run_timeout t k =
     (case (to_fn t, to_id t) of
        (Fn_thread_timeout, ThreadTo thread) \<Rightarrow> z_thread_timeout thread k
      | (Fn_slice_timeout, _) \<Rightarrow> slice_timeout k
      | (_, _) \<Rightarrow> k)"

fun announce_loop :: "nat \<Rightarrow> kernel \<Rightarrow> kernel option" where
  "announce_loop 0 k = None"
| "announce_loop (Suc n) k =
     (case announce_due (tmo k) of
        None \<Rightarrow> Some k
      | Some t \<Rightarrow>
          let k1 = k\<lparr>tmo := announce_pop t (tmo k)\<rparr>;
              k2 = run_timeout t k1
          in announce_loop n (k2\<lparr>tmo := announce_charge (dticks t) (tmo k2)\<rparr>))"

definition announce_fuel :: "kernel \<Rightarrow> nat" where
  "announce_fuel k = 2 * length (timeout_list (tmo k)) + 1"

definition sys_clock_announce :: "k_ticks_t \<Rightarrow> kernel \<Rightarrow> kernel option" where
  "sys_clock_announce ticks k =
     (case announce_loop (announce_fuel k) (k\<lparr>tmo := announce_begin ticks (tmo k)\<rparr>) of
        None \<Rightarrow> None
      | Some k1 \<Rightarrow> Some (z_time_slice (k1\<lparr>tmo := announce_end (tmo k1)\<rparr>)))"

section \<open>One pass\<close>

lemma ready_thread_tmo:
  assumes "timeouts_inv (tmo k)"
  shows "timeouts_inv (tmo (ready_thread t k))"
    and "deadline (tmo (ready_thread t k)) (ThreadTo x) = deadline (tmo k) (ThreadTo x)"
    and "curr_tick (tmo (ready_thread t k)) = curr_tick (tmo k)"
    and "announce_remaining (tmo (ready_thread t k)) = announce_remaining (tmo k)"
  using assms by (simp_all add: ready_thread_def update_cache_tmo)

text \<open>What a timeout does to its thread: everything but the flags and \<open>pended_on\<close> is kept.\<close>

lemma thread_timeout_frame:
  assumes "timeouts_inv (tmo k)"
  shows "deadline (tmo (z_thread_timeout t k)) (ThreadTo x) = deadline (tmo k) (ThreadTo x)"
    "curr_tick (tmo (z_thread_timeout t k)) = curr_tick (tmo k)"
    "announce_remaining (tmo (z_thread_timeout t k)) = announce_remaining (tmo k)"
    "current (z_thread_timeout t k) = current k" "env (z_thread_timeout t k) = env k"
    "x \<noteq> t \<Longrightarrow> threads (z_thread_timeout t k) x = threads k x"
    "\<not> no_wake_on_timeout (threads (z_thread_timeout t k) t)"
  using assms
  by (simp_all add: z_thread_timeout_def z_sched_wake_thread_def Let_def ready_thread_tmo
      z_unpend_no_timeout_eq ready_thread_threads threads_upd_thread unpend_threads
      z_mark_thread_as_started_def z_mark_thread_as_not_suspended_def)

lemma ready_thread_runq_mono: "set (runq k) \<subseteq> set (runq (ready_thread t k))"
  by (auto simp: ready_thread_def)

lemma thread_timeout_runq_mono: "set (runq k) \<subseteq> set (runq (z_thread_timeout t k))"
proof -
  have "set (runq k1) \<subseteq> set (runq (ready_thread t k1))" for k1 by (rule ready_thread_runq_mono)
  then show ?thesis
    by (simp add: z_thread_timeout_def z_sched_wake_thread_def Let_def z_unpend_no_timeout_eq)
      (metis (no_types, lifting) unpend_frame(2) upd_thread_frame(2))
qed

definition can_expire :: "kernel \<Rightarrow> tid \<Rightarrow> bool" where
  "can_expire k t \<longleftrightarrow>
     thread_state (threads k t) \<inter> {THREAD_DEAD, THREAD_DUMMY, THREAD_ABORTING} = {} \<and>
     (THREAD_PENDING \<in> thread_state (threads k t) \<longrightarrow> pended_on (threads k t) \<noteq> None) \<and>
     \<not> no_wake_on_timeout (threads k t)"

lemma can_expire_tmo [simp]: "can_expire (k\<lparr>tmo := s\<rparr>) t = can_expire k t"
  by (simp add: can_expire_def)

lemma thread_timeout_wakes:
  assumes "sched_inv_but X k" "can_expire k t" "deadline (tmo k) (ThreadTo t) = None"
  shows "t \<in> set (runq (z_thread_timeout t k))"
    "unsched (threads (z_thread_timeout t k) t) = unsched ((threads k t)\<lparr>pended_on := None\<rparr>)"
proof -
  let ?k1 = "upd_thread t (\<lambda>th. th\<lparr>no_wake_on_timeout := False\<rparr>) k"
  let ?k4 = "upd_thread t z_mark_thread_as_not_suspended
     (upd_thread t z_mark_thread_as_started (unpend_thread_no_timeout t ?k1))"
  have eq: "z_thread_timeout t k = ready_thread t ?k4"
    using assms(2)
    by (auto simp: z_thread_timeout_def z_sched_wake_thread_def Let_def z_unpend_no_timeout_eq can_expire_def)
  have k1: "sched_inv_but X ?k1"
    using assms(1) by (rule upd_thread_view_inv) (simp add: sched_view_def)
  have k4: "sched_inv_but (insert t X) ?k4"
    using mark_not_suspended_inv [OF mark_started_inv [OF unpend_inv [OF k1]], of t t t] by simp
  have "z_is_thread_ready ?k4 t"
    using assms(2,3)
    by (auto simp: ready_iff threads_upd_thread unpend_threads can_expire_def
        z_mark_thread_as_started_def z_mark_thread_as_not_suspended_def)
  then show "t \<in> set (runq (z_thread_timeout t k))"
    unfolding eq using k4 by (simp add: ready_thread_runq)
  show "unsched (threads (z_thread_timeout t k) t) = unsched ((threads k t)\<lparr>pended_on := None\<rparr>)"
    using assms(2)
    by (cases "threads k t")
      (auto simp: eq ready_thread_threads threads_upd_thread unpend_threads can_expire_def unsched_def
        z_mark_thread_as_started_def z_mark_thread_as_not_suspended_def)
qed

lemma pop_inv:
  assumes inv: "sched_inv_but X k" and l: "timeout_list (tmo k) = e # ts"
  shows "sched_inv_but (case to_id e of ThreadTo t \<Rightarrow> insert t X | SliceTo \<Rightarrow> X) (k\<lparr>tmo := announce_pop e (tmo k)\<rparr>)"
proof -
  let ?k = "k\<lparr>tmo := announce_pop e (tmo k)\<rparr>"
  note ti = inv_butD(2) [OF inv]
  have wf: "wf_queues ?k"
    using inv_butD(1) [OF inv] announce_pop_inv [OF ti l] by (simp add: wf_queues_def tprio_def)
  have r: "z_is_thread_ready ?k x \<longleftrightarrow> z_is_thread_ready k x" if "ThreadTo x \<noteq> to_id e" for x
    using that by (simp add: ready_iff announce_pop_deadline [OF ti l])
  have r': "z_is_thread_ready k x \<Longrightarrow> z_is_thread_ready ?k x" for x
    by (auto simp: ready_iff announce_pop_deadline [OF ti l])
  show ?thesis
  proof (cases "to_id e")
    case (ThreadTo t)
    have "sched_inv_but (insert t X) ?k"
      by (rule inv_but_one [OF inv wf]) (use r r' ThreadTo in simp_all)
    with ThreadTo show ?thesis by simp
  next
    case SliceTo
    with r have "z_is_thread_ready ?k x = z_is_thread_ready k x" for x by simp
    with SliceTo inv wf show ?thesis by (simp add: sched_inv_but_def)
  qed
qed

definition announce_pass :: "timeout \<Rightarrow> kernel \<Rightarrow> kernel" where
  "announce_pass t k =
     (let k2 = run_timeout t (k\<lparr>tmo := announce_pop t (tmo k)\<rparr>)
      in k2\<lparr>tmo := announce_charge (dticks t) (tmo k2)\<rparr>)"

lemma announce_loop_Suc:
  "announce_loop (Suc n) k =
     (case announce_due (tmo k) of None \<Rightarrow> Some k | Some t \<Rightarrow> announce_loop n (announce_pass t k))"
  by (simp add: announce_pass_def Let_def split: option.split)

declare announce_loop.simps(2) [simp del]

lemma charge_inv [simp]:
  "sched_inv_but X (k\<lparr>tmo := announce_charge d (tmo k)\<rparr>) = sched_inv_but X k"
  by (simp add: sched_inv_but_def wf_queues_def tprio_def ready_iff)

lemma slice_expired_inv [simp]: "sched_inv_but X (k\<lparr>slice_expired := b\<rparr>) = sched_inv_but X k"
  by (simp add: sched_inv_but_def wf_queues_def tprio_def ready_iff)

lemma env_slice_expired [simp]: "env (k\<lparr>slice_expired := b\<rparr>) = env k"
  by (simp add: env_def)

abbreviation no_wakes :: "kernel \<Rightarrow> bool" where
  "no_wakes k \<equiv> \<forall>t. \<not> no_wake_on_timeout (threads k t)"

text \<open>The effect of a pass that takes off the entry \<open>e\<close>.\<close>

definition pass_rel :: "timeout \<Rightarrow> kernel \<Rightarrow> kernel \<Rightarrow> bool" where
  "pass_rel e k k' \<longleftrightarrow>
     sched_inv k' \<and> no_wakes k' \<and> current k' = current k \<and> env k' = env k \<and>
     curr_tick (tmo k') = curr_tick (tmo k) + dticks e \<and>
     announce_remaining (tmo k') = announce_remaining (tmo k) - dticks e \<and>
     (\<forall>t. deadline (tmo k') (ThreadTo t) =
        (if to_id e = ThreadTo t then None else map_option (\<lambda>d. d - dticks e) (deadline (tmo k) (ThreadTo t)))) \<and>
     (\<forall>t. to_id e \<noteq> ThreadTo t \<longrightarrow> threads k' t = threads k t) \<and>
     set (runq k) \<subseteq> set (runq k') \<and>
     (\<forall>t. to_id e = ThreadTo t \<longrightarrow> can_expire k t \<longrightarrow> t \<in> set (runq k') \<and>
        unsched (threads k' t) = unsched ((threads k t)\<lparr>pended_on := None\<rparr>))"

lemma pass_thread:
  assumes inv: "sched_inv k" and nw: "no_wakes k" and l: "timeout_list (tmo k) = e # ts"
    and e: "to_id e = ThreadTo t"
  shows "pass_rel e k (announce_pass e k)"
proof -
  let ?k1 = "k\<lparr>tmo := announce_pop e (tmo k)\<rparr>"
  note ti = inv_butD(2) [OF inv]
  have ti1: "timeouts_inv (tmo ?k1)" using announce_pop_inv [OF ti l] by simp
  have "to_fn e = Fn_thread_timeout" using ti l e by (simp add: timeouts_inv_def)
  then have pass: "announce_pass e k =
      (z_thread_timeout t ?k1)\<lparr>tmo := announce_charge (dticks e) (tmo (z_thread_timeout t ?k1))\<rparr>"
    using e by (simp add: announce_pass_def run_timeout_def Let_def)
  have p: "sched_inv_but {t} ?k1" using pop_inv [OF inv l] e by simp
  have "t \<noteq> idle_thread k"
    using e l ready_clear(2) [OF inv idle_ready [OF inv]] by (auto simp: deadline_def)
  then have "sched_inv_but ({t} - {t}) (z_thread_timeout t ?k1)"
    using p nw by (intro z_thread_timeout_inv) auto
  moreover have "\<not> no_wake_on_timeout (threads (z_thread_timeout t ?k1) x)" for x
    using nw thread_timeout_frame(6) [OF ti1, of x t] thread_timeout_frame(7) [OF ti1, of t]
    by (cases "x = t") simp_all
  moreover have "can_expire ?k1 t = can_expire k t" by (simp add: can_expire_def)
  ultimately show ?thesis
    unfolding pass pass_rel_def
    using e thread_timeout_frame [OF ti1] thread_timeout_runq_mono [of ?k1 t] thread_timeout_wakes [OF p]
    by (auto simp: announce_pop_deadline [OF ti l])
qed

lemma pass_slice:
  assumes inv: "sched_inv k" and nw: "no_wakes k" and l: "timeout_list (tmo k) = e # ts"
    and e: "to_id e = SliceTo"
  shows "pass_rel e k (announce_pass e k)"
proof -
  let ?k1 = "k\<lparr>tmo := announce_pop e (tmo k)\<rparr>"
  let ?k2 = "?k1\<lparr>slice_expired := True\<rparr>"
  note ti = inv_butD(2) [OF inv]
  have "to_fn e = Fn_slice_timeout" using ti l e by (simp add: timeouts_inv_def)
  then have pass: "announce_pass e k = ?k2\<lparr>tmo := announce_charge (dticks e) (tmo ?k2)\<rparr>"
    using e by (simp add: announce_pass_def run_timeout_def Let_def slice_timeout_def)
  have "sched_inv_but {} ?k1" using pop_inv [OF inv l] e by simp
  then have inv': "sched_inv (announce_pass e k)"
    unfolding pass by (simp only: charge_inv slice_expired_inv)
  show ?thesis
    unfolding pass_rel_def using inv'
    by (intro conjI) (simp_all add: pass nw e announce_pop_deadline [OF ti l])
qed

lemma announce_pass_rel:
  assumes "sched_inv k" "no_wakes k" "announce_due (tmo k) = Some e"
  shows "pass_rel e k (announce_pass e k)"
proof -
  obtain ts where "timeout_list (tmo k) = e # ts" using announce_dueD [OF assms(3)] by blast
  then show ?thesis using assms pass_thread pass_slice by (cases "to_id e") blast+
qed

section \<open>The loop ends\<close>

definition pending_work :: "timeouts \<Rightarrow> nat" where
  "pending_work s = 2 * card {t. deadline s (ThreadTo t) \<noteq> None} + (if deadline s SliceTo = None then 0 else 1)"

lemma finite_thread_deadlines: "finite {t. deadline s (ThreadTo t) \<noteq> None}"
proof -
  have "ThreadTo ` {t. deadline s (ThreadTo t) \<noteq> None} \<subseteq> {i. deadline s i \<noteq> None}" by auto
  then have "finite (ThreadTo ` {t. deadline s (ThreadTo t) \<noteq> None})"
    using finite_deadline finite_subset by blast
  then show ?thesis by (rule finite_imageD) (simp add: inj_on_def)
qed

lemma pending_work_le:
  assumes "timeouts_inv s"
  shows "pending_work s \<le> 2 * length (timeout_list s)"
proof -
  let ?T = "{t. deadline s (ThreadTo t) \<noteq> None}" and ?S = "{i. i = SliceTo \<and> deadline s i \<noteq> None}"
  have "i \<in> ThreadTo ` ?T \<union> ?S \<longleftrightarrow> deadline s i \<noteq> None" for i by (cases i) auto
  then have ids: "ThreadTo ` ?T \<union> ?S = to_id ` set (timeout_list s)"
    unfolding deadline_def list_deadline_None by blast
  have "card (ThreadTo ` ?T) = card ?T" by (rule card_image) (simp add: inj_on_def)
  moreover have "card (ThreadTo ` ?T \<union> ?S) = card (ThreadTo ` ?T) + card ?S"
    by (rule card_Un_disjoint [OF finite_imageI [OF finite_thread_deadlines]]) auto
  moreover have "card ?S = (if deadline s SliceTo = None then 0 else 1)"
  proof -
    have "?S = (if deadline s SliceTo = None then {} else {SliceTo})" by auto
    then show ?thesis by simp
  qed
  moreover have "card (to_id ` set (timeout_list s)) \<le> length (timeout_list s)"
    by (metis card_image_le card_length finite_set le_trans)
  ultimately show ?thesis unfolding pending_work_def ids by simp
qed

lemma pass_progress:
  assumes "sched_inv k" "no_wakes k" "announce_due (tmo k) = Some e"
  shows "pending_work (tmo (announce_pass e k)) < pending_work (tmo k)"
proof -
  obtain ts where l: "timeout_list (tmo k) = e # ts" using announce_dueD [OF assms(3)] by blast
  let ?k' = "announce_pass e k"
  let ?T = "\<lambda>k. {t. deadline (tmo k) (ThreadTo t) \<noteq> None}"
  have rel: "pass_rel e k ?k'" using assms by (rule announce_pass_rel)
  show ?thesis
  proof (cases "to_id e")
    case (ThreadTo t)
    then have "?T ?k' = ?T k - {t}" using rel by (auto simp: pass_rel_def)
    moreover have "t \<in> ?T k" using l ThreadTo by (simp add: deadline_def)
    ultimately have "card (?T ?k') < card (?T k)"
      by (metis finite_thread_deadlines card_Diff1_less)
    then show ?thesis by (simp add: pending_work_def)
  next
    case SliceTo
    then have "?T ?k' = ?T k" using rel by (auto simp: pass_rel_def)
    moreover have "deadline (tmo k) SliceTo \<noteq> None" using l SliceTo by (simp add: deadline_def)
    moreover have "deadline (tmo ?k') SliceTo = None"
      using SliceTo l inv_butD(2) [OF assms(1)]
      by (simp add: announce_pass_def run_timeout_def Let_def slice_timeout_def timeouts_inv_def
          announce_pop_deadline [OF inv_butD(2) [OF assms(1)] l])
    ultimately show ?thesis by (simp add: pending_work_def)
  qed
qed

lemma announce_loop_terminates:
  assumes "sched_inv k" "no_wakes k" "pending_work (tmo k) < n"
  shows "\<exists>k'. announce_loop n k = Some k'"
  using assms
proof (induction n arbitrary: k)
  case (Suc n)
  show ?case
  proof (cases "announce_due (tmo k)")
    case None
    then show ?thesis by (simp add: announce_loop_Suc)
  next
    case (Some e)
    with Suc.prems announce_pass_rel have "pass_rel e k (announce_pass e k)" by blast
    moreover have "pending_work (tmo (announce_pass e k)) < n"
      using pass_progress [OF Suc.prems(1,2) Some] Suc.prems(3) by linarith
    ultimately show ?thesis using Suc.IH Some by (simp add: announce_loop_Suc pass_rel_def)
  qed
qed simp

section \<open>The effect of an announcement\<close>

definition after_ticks :: "k_ticks_t \<Rightarrow> k_ticks_t \<Rightarrow> k_ticks_t option \<Rightarrow> k_ticks_t option" where
  "after_ticks r p d = (case d of None \<Rightarrow> None | Some x \<Rightarrow> if x \<le> r then None else Some (x - p))"

definition loop_rel :: "kernel \<Rightarrow> kernel \<Rightarrow> bool" where
  "loop_rel k k' \<longleftrightarrow>
     sched_inv k' \<and> no_wakes k' \<and> current k' = current k \<and> env k' = env k \<and>
     announce_due (tmo k') = None \<and>
     curr_tick (tmo k') + announce_remaining (tmo k') = curr_tick (tmo k) + announce_remaining (tmo k) \<and>
     (\<forall>t. deadline (tmo k') (ThreadTo t) = after_ticks (announce_remaining (tmo k))
        (announce_remaining (tmo k) - announce_remaining (tmo k')) (deadline (tmo k) (ThreadTo t))) \<and>
     (\<forall>t. (\<forall>d. deadline (tmo k) (ThreadTo t) = Some d \<longrightarrow> announce_remaining (tmo k) < d) \<longrightarrow>
        threads k' t = threads k t) \<and>
     set (runq k) \<subseteq> set (runq k') \<and>
     (\<forall>t d. deadline (tmo k) (ThreadTo t) = Some d \<longrightarrow> d \<le> announce_remaining (tmo k) \<longrightarrow> can_expire k t \<longrightarrow>
        t \<in> set (runq k') \<and> unsched (threads k' t) = unsched ((threads k t)\<lparr>pended_on := None\<rparr>))"

lemma loop_rel_done:
  assumes "sched_inv k" "no_wakes k" "announce_due (tmo k) = None"
  shows "loop_rel k k"
  using assms not_due_deadline [OF inv_butD(2) [OF assms(1)] assms(3)]
  by (auto simp: loop_rel_def after_ticks_def split: option.split) force+

lemma loop_rel_step:
  assumes pass: "pass_rel e k p" and rest: "loop_rel p k'"
    and de: "\<And>t. to_id e = ThreadTo t \<Longrightarrow> deadline (tmo k) (ThreadTo t) = Some (dticks e)"
    and le: "dticks e \<le> announce_remaining (tmo k)"
  shows "loop_rel k k'"
proof -
  let ?r = "announce_remaining (tmo k)" and ?r' = "announce_remaining (tmo k')"
  have dl: "deadline (tmo k') (ThreadTo t) = after_ticks ?r (?r - ?r') (deadline (tmo k) (ThreadTo t))" for t
    using pass rest de [of t] le
    by (cases "to_id e = ThreadTo t")
      (auto simp: pass_rel_def loop_rel_def after_ticks_def split: option.split)
  have same: "threads k' t = threads k t"
    if "\<And>d. deadline (tmo k) (ThreadTo t) = Some d \<Longrightarrow> ?r < d" for t
  proof -
    have ne: "to_id e \<noteq> ThreadTo t" using de [of t] that le by force
    then have "\<forall>d. deadline (tmo p) (ThreadTo t) = Some d \<longrightarrow> announce_remaining (tmo p) < d"
      using pass that by (auto simp: pass_rel_def)
    with rest pass ne show ?thesis by (simp add: pass_rel_def loop_rel_def)
  qed
  have fired: "t \<in> set (runq k') \<and> unsched (threads k' t) = unsched ((threads k t)\<lparr>pended_on := None\<rparr>)"
    if d: "deadline (tmo k) (ThreadTo t) = Some d" "d \<le> ?r" "can_expire k t" for t d
  proof (cases "to_id e = ThreadTo t")
    case True
    have "deadline (tmo p) (ThreadTo t) = None" using pass True by (simp add: pass_rel_def)
    then have "threads k' t = threads p t" using rest by (simp add: loop_rel_def)
    with pass rest True d(3) show ?thesis by (auto simp: pass_rel_def loop_rel_def)
  next
    case False
    with pass have "threads p t = threads k t" by (simp add: pass_rel_def)
    moreover from this d(3) have "can_expire p t" by (simp add: can_expire_def)
    moreover have "deadline (tmo p) (ThreadTo t) = Some (d - dticks e)" "d - dticks e \<le> announce_remaining (tmo p)"
      using pass False d by (simp_all add: pass_rel_def)
    ultimately show ?thesis using rest by (simp add: loop_rel_def)
  qed
  have "set (runq k) \<subseteq> set (runq k')" using pass rest unfolding pass_rel_def loop_rel_def by blast
  moreover have "sched_inv k'" "no_wakes k'" "current k' = current k" "env k' = env k"
      "announce_due (tmo k') = None"
      "curr_tick (tmo k') + ?r' = curr_tick (tmo k) + ?r"
    using pass rest by (simp_all add: pass_rel_def loop_rel_def)
  ultimately show ?thesis unfolding loop_rel_def using dl same fired by blast
qed

lemma announce_loop_effect:
  "announce_loop n k = Some k' \<Longrightarrow> sched_inv k \<Longrightarrow> no_wakes k \<Longrightarrow> loop_rel k k'"
proof (induction n arbitrary: k)
  case (Suc n)
  show ?case
  proof (cases "announce_due (tmo k)")
    case None
    with Suc.prems show ?thesis by (simp add: announce_loop_Suc loop_rel_done)
  next
    case (Some e)
    obtain ts where l: "timeout_list (tmo k) = e # ts" "dticks e \<le> announce_remaining (tmo k)"
      using announce_dueD [OF Some] by blast
    have rel: "pass_rel e k (announce_pass e k)" using Suc.prems(2,3) Some by (rule announce_pass_rel)
    then have "loop_rel (announce_pass e k) k'"
      using Suc.prems Suc.IH Some by (simp add: announce_loop_Suc pass_rel_def)
    with rel l show ?thesis by (rule_tac loop_rel_step) (auto simp: deadline_def)
  qed
qed simp

lemma sliceable_running:
  "sched_inv k \<Longrightarrow> deadline (tmo k) (ThreadTo (current k)) = None \<Longrightarrow> thread_is_sliceable k (current k) \<Longrightarrow>
     running k"
  using ready_runq [of k "current k"] by (simp add: thread_is_sliceable_def running_def ready_iff_prevented)

lemma time_slice_props:
  assumes inv: "sched_inv k" and d: "deadline (tmo k) (ThreadTo (current k)) = None"
  shows "sched_inv (z_time_slice k)" "set (runq (z_time_slice k)) = set (runq k)"
    "deadline (tmo (z_time_slice k)) (ThreadTo t) = deadline (tmo k) (ThreadTo t)"
    "curr_tick (tmo (z_time_slice k)) = curr_tick (tmo k)"
    "announce_remaining (tmo (z_time_slice k)) = announce_remaining (tmo k)"
    "threads (z_time_slice k) t = threads k t"
    "current (z_time_slice k) = current k" "env (z_time_slice k) = env k" "waitqs (z_time_slice k) = waitqs k"
proof -
  let ?c = "current k"
  have eq: "z_time_slice k =
      (if slice_expired k \<and> thread_is_sliceable k ?c
       then z_reset_time_slice ?c (update_cache True (queue_thread ?c (dequeue_thread ?c k))) else k)"
    if "?c \<in> set (runq k)"
    using that inv
    by (auto simp: z_time_slice_def Let_def thread_is_sliceable_def move_thread_to_end_of_prio_q_def queued_iff)
  have nt: "z_time_slice k = k" if "\<not> (slice_expired k \<and> thread_is_sliceable k ?c)"
    using that by (auto simp: z_time_slice_def Let_def)
  have "z_time_slice k = k \<or> (running k \<and> z_time_slice k =
      z_reset_time_slice ?c (update_cache True (queue_thread ?c (dequeue_thread ?c k))))"
    using eq nt sliceable_running [OF inv d] unfolding running_def by presburger
  moreover have "sched_inv (z_time_slice k)"
    using time_slice_inv [OF inv] nt inv sliceable_running [OF inv d] by metis
  moreover have "threads (queue_thread ?c (dequeue_thread ?c k)) t = threads k t" if "running k"
    using that queued_iff [OF inv, of ?c]
    by (simp add: queue_threads running_def z_is_thread_queued_def insert_absorb)
  ultimately show "sched_inv (z_time_slice k)" "set (runq (z_time_slice k)) = set (runq k)"
    "deadline (tmo (z_time_slice k)) (ThreadTo t) = deadline (tmo k) (ThreadTo t)"
    "curr_tick (tmo (z_time_slice k)) = curr_tick (tmo k)"
    "announce_remaining (tmo (z_time_slice k)) = announce_remaining (tmo k)"
    "threads (z_time_slice k) t = threads k t"
    "current (z_time_slice k) = current k" "env (z_time_slice k) = env k" "waitqs (z_time_slice k) = waitqs k"
    using inv_butD(2) [OF inv] inv_distinct [OF inv]
    by (auto simp: reset_slice_tmo update_cache_tmo running_def)
qed

lemma announce_end_sched_inv:
  assumes inv: "sched_inv k" and due: "announce_due (tmo k) = None"
  shows "sched_inv (k\<lparr>tmo := announce_end (tmo k)\<rparr>)"
proof -
  let ?k = "k\<lparr>tmo := announce_end (tmo k)\<rparr>"
  have "wf_queues ?k"
    using inv_butD [OF inv] announce_end_inv [OF _ due] by (simp add: wf_queues_def tprio_def)
  moreover have "z_is_thread_ready ?k t = z_is_thread_ready k t" for t
    by (simp add: ready_iff announce_end_deadline)
  ultimately show ?thesis using inv by (simp add: sched_inv_but_def)
qed

text \<open>
  The announcement always returns; afterwards the clock has advanced by \<open>n\<close>, the thread timeouts
  up to \<open>n\<close> have expired and the others are \<open>n\<close> ticks closer.
\<close>

lemma announce_total:
  assumes inv: "sched_inv k" and nw: "no_wakes k" and d: "deadline (tmo k) (ThreadTo (current k)) = None"
  obtains k' where "sys_clock_announce n k = Some k'" "sched_inv k'" "current k' = current k"
    "curr_tick (tmo k') = curr_tick (tmo k) + n" "announce_remaining (tmo k') = 0"
    "\<And>t. deadline (tmo k') (ThreadTo t) = after_ticks n n (deadline (tmo k) (ThreadTo t))"
    "\<And>t x. deadline (tmo k) (ThreadTo t) = Some x \<Longrightarrow> x \<le> n \<Longrightarrow> can_expire k t \<Longrightarrow>
       t \<in> set (runq k') \<and> unsched (threads k' t) = unsched ((threads k t)\<lparr>pended_on := None\<rparr>)"
    "\<And>t. (\<And>x. deadline (tmo k) (ThreadTo t) = Some x \<Longrightarrow> n < x) \<Longrightarrow> threads k' t = threads k t"
    "no_wakes k'" "env k' = env k"
proof -
  let ?k0 = "k\<lparr>tmo := announce_begin n (tmo k)\<rparr>"
  have k0: "sched_inv ?k0" by (rule inv_but_cong [OF inv]) (use inv_butD [OF inv] in simp_all)
  have "pending_work (tmo ?k0) < announce_fuel k"
    using pending_work_le [OF inv_butD(2) [OF inv]] by (simp add: pending_work_def announce_fuel_def)
  then obtain k1 where k1: "announce_loop (announce_fuel k) ?k0 = Some k1"
    using announce_loop_terminates [OF k0] nw by auto
  have rel: "loop_rel ?k0 k1" using announce_loop_effect [OF k1 k0] nw by simp
  let ?k2 = "k1\<lparr>tmo := announce_end (tmo k1)\<rparr>"
  have k2: "sched_inv ?k2" using rel by (simp add: loop_rel_def announce_end_sched_inv)
  have dl: "deadline (tmo ?k2) (ThreadTo t) = after_ticks n n (deadline (tmo k) (ThreadTo t))" for t
    using rel by (auto simp: loop_rel_def announce_end_deadline after_ticks_def split: option.splits)
  then have "deadline (tmo ?k2) (ThreadTo (current ?k2)) = None"
    using rel d by (simp add: loop_rel_def after_ticks_def)
  note ts = time_slice_props [OF k2 this]
  show thesis
  proof
    show "sys_clock_announce n k = Some (z_time_slice ?k2)" using k1 by (simp add: sys_clock_announce_def)
  qed (use rel dl ts in \<open>auto simp: loop_rel_def\<close>)
qed

end
