(* ===== verification/Sched_Run.thy ===== *)
theory Sched_Run
  imports Clock
begin

text \<open>
  Which thread runs: the cached thread is the head of the run queue (or the idle thread), except
  while a running thread that may not be preempted stays. \<open>kernel_inv\<close> also says that a preemptible
  thread runs only while it is the cached one; \<open>kernel_pre\<close> leaves this out. \<open>sched_step\<close> is one call that
  has a scheduling point wherever it needs one, one interrupt entry or exit, or one clock announcement, and keeps
  \<open>kernel_inv\<close>. \<open>kstep\<close> adds the calls that have none, and keeps \<open>kernel_pre\<close>. The
  configurations covered are the ones that do not track meta-IRQ preemption.
\<close>

section \<open>The cache\<close>

definition best_thread :: "kernel \<Rightarrow> tid" where
  "best_thread k = (case runq k of [] \<Rightarrow> idle_thread k | t # _ \<Rightarrow> t)"

definition runnable :: "kernel \<Rightarrow> tid set" where
  "runnable k = insert (idle_thread k) (set (runq k))"

definition cache_ok :: "kernel \<Rightarrow> bool" where
  "cache_ok k \<longleftrightarrow>
     cache k = best_thread k \<or>
     (cache k = current k \<and> current k \<in> runnable k \<and> \<not> thread_is_preemptible (threads k (current k)))"

definition cpu_ok :: "kernel \<Rightarrow> bool" where
  "cpu_ok k \<longleftrightarrow>
     cache_ok k \<and> deadline (tmo k) (ThreadTo (current k)) = None \<and>
     (\<not> in_isr k \<longrightarrow> current k \<in> runnable k) \<and>
     (\<not> in_isr k \<longrightarrow> \<not> irq_locked k \<longrightarrow> thread_is_preemptible (threads k (current k)) \<longrightarrow> current k = cache k)"

lemma best_runnable: "best_thread k \<in> runnable k"
  by (simp add: best_thread_def runnable_def split: list.split)

lemma cache_runnable: "cache_ok k \<Longrightarrow> cache k \<in> runnable k"
  using best_runnable by (auto simp: cache_ok_def)

lemma runnable_ready: "sched_inv k \<Longrightarrow> t \<in> runnable k \<longleftrightarrow> z_is_thread_ready k t"
  using idle_ready [of "{}" k] ready_runq [of k t] by (auto simp: runnable_def)

lemma runnable_clear: "sched_inv k \<Longrightarrow> t \<in> runnable k \<Longrightarrow> deadline (tmo k) (ThreadTo t) = None"
  using ready_clear(2) runnable_ready by blast

lemma next_up_untracked: "\<not> metairq_tracked k \<Longrightarrow> next_up k = (best_thread k, k)"
  by (simp add: next_up_def best_thread_def runq_best_def z_priq_dumb_best_def Let_def
      split: option.split list.split)

lemma metairq_untracked: "\<not> metairq_tracked k \<Longrightarrow> update_metairq_preempt t k = k"
  by (simp add: update_metairq_preempt_def)

lemma tracked_env: "env k' = env k \<Longrightarrow> metairq_tracked k' = metairq_tracked k"
  by (simp add: env_def metairq_tracked_def)

lemma cache_update_cache:
  assumes "\<not> metairq_tracked k"
  shows "cache (update_cache b k) = (if should_preempt k (best_thread k) b then best_thread k else current k)"
  using assms by (simp add: update_cache_def next_up_untracked Let_def)

lemma best_update_cache [simp]: "best_thread (update_cache b k) = best_thread k"
  by (simp add: best_thread_def split: list.split)

lemma runnable_update_cache [simp]: "runnable (update_cache b k) = runnable k"
  by (simp add: runnable_def)

lemma cache_ok_update:
  assumes "\<not> metairq_tracked k" and "b \<or> (sched_inv k \<and> deadline (tmo k) (ThreadTo (current k)) = None)"
  shows "cache_ok (update_cache b k)"
proof (cases "should_preempt k (best_thread k) b")
  case True
  then show ?thesis using assms(1) by (simp add: cache_ok_def cache_update_cache)
next
  case False
  then have "sched_inv k" "z_is_thread_ready k (current k)" "\<not> thread_is_preemptible (threads k (current k))"
    using assms(2) by (auto simp: should_preempt_def ready_iff_prevented)
  then show ?thesis using False assms(1) by (simp add: cache_ok_def cache_update_cache runnable_ready)
qed

section \<open>Switching\<close>

lemma swap_current:
  "current (do_swap k) = cache k" "cache (do_swap k) = cache k"
  by (simp_all add: do_swap_def Let_def z_swap_next_thread_def)

lemma do_swap_best [simp]: "best_thread (do_swap k) = best_thread k" "runnable (do_swap k) = runnable k"
  by (simp_all add: best_thread_def runnable_def split: list.split)

lemma preemptible_cong:
  "prio a = prio b \<Longrightarrow> sched_locked a = sched_locked b \<Longrightarrow> thread_is_preemptible a = thread_is_preemptible b"
  by (simp add: thread_is_preemptible_def preempt_def)

lemma swap_cpu:
  assumes inv: "sched_inv k" and c: "cache_ok k"
  shows "cpu_ok (do_swap k)"
proof -
  have "cache k \<in> runnable (do_swap k)" using cache_runnable [OF c] by simp
  moreover from this have "deadline (tmo (do_swap k)) (ThreadTo (cache k)) = None"
    using runnable_clear [OF do_swap_inv [OF inv]] by blast
  moreover have "thread_is_preemptible (threads (do_swap k) x) = thread_is_preemptible (threads k x)" for x
    by (rule preemptible_cong) (simp_all add: do_swap_threads)
  ultimately show ?thesis using c by (auto simp: cpu_ok_def cache_ok_def swap_current)
qed

lemma resched_cpu:
  assumes inv: "sched_inv k" and c: "cache_ok k" and d: "deadline (tmo k) (ThreadTo (current k)) = None"
    and r: "\<not> in_isr k \<Longrightarrow> current k \<in> runnable k"
  shows "cpu_ok (z_reschedule k)"
proof (cases "resched k \<and> need_swap k")
  case True
  then show ?thesis using swap_cpu [OF inv c] by (simp add: z_reschedule_def)
next
  case False
  then have "z_reschedule k = k" by (auto simp: z_reschedule_def)
  with assms False show ?thesis by (auto simp: cpu_ok_def resched_def need_swap_def)
qed

section \<open>The invariant of the whole kernel state\<close>

definition dummy_idle :: "kernel \<Rightarrow> bool" where
  "dummy_idle k \<longleftrightarrow> timeouts_inv (tmo k) \<and> deadline (tmo k) (ThreadTo (thread_dummy k)) = None"

definition kernel_inv :: "kernel \<Rightarrow> bool" where
  "kernel_inv k \<longleftrightarrow>
     sched_inv k \<and> dummy_ok k \<and> dummy_idle k \<and> no_wakes k \<and> \<not> metairq_tracked k \<and> cpu_ok k"

text \<open>What every step keeps: the environment, the dummy thread, and no pending event wake-ups.\<close>

definition keeps :: "kernel \<Rightarrow> kernel \<Rightarrow> bool" where
  "keeps k k' \<longleftrightarrow>
     env k' = env k \<and>
     (\<forall>x. no_wake_on_timeout (threads k' x) \<longrightarrow> no_wake_on_timeout (threads k x)) \<and>
     (dummy_ok k \<longrightarrow> dummy_ok k') \<and> (dummy_idle k \<longrightarrow> dummy_idle k')"

lemma keeps_refl [simp]: "keeps k k"
  by (simp add: keeps_def)

lemma keeps_trans: "keeps k k' \<Longrightarrow> keeps k' k'' \<Longrightarrow> keeps k k''"
  by (simp add: keeps_def)

lemma env_dummy: "env k' = env k \<Longrightarrow> thread_dummy k' = thread_dummy k"
  by (simp add: env_def)

lemma keepsI:
  assumes "env k' = env k"
    and "\<And>x. no_wake_on_timeout (threads k' x) \<Longrightarrow> no_wake_on_timeout (threads k x)"
    and "dummy_ok k \<Longrightarrow> thread_state (threads k' (thread_dummy k)) = thread_state (threads k (thread_dummy k)) \<and>
      pended_on (threads k' (thread_dummy k)) = pended_on (threads k (thread_dummy k)) \<and>
      essential (threads k' (thread_dummy k)) = essential (threads k (thread_dummy k))"
    and "timeouts_inv (tmo k) \<Longrightarrow> timeouts_inv (tmo k') \<and>
      (deadline (tmo k) (ThreadTo (thread_dummy k)) = None \<longrightarrow>
       deadline (tmo k') (ThreadTo (thread_dummy k)) = None)"
  shows "keeps k k'"
  using assms(2-4) unfolding keeps_def dummy_ok_def dummy_idle_def env_dummy [OF assms(1)]
  by (simp add: assms(1))

lemma kernel_inv_step:
  "kernel_inv k \<Longrightarrow> keeps k k' \<Longrightarrow> sched_inv k' \<Longrightarrow> cpu_ok k' \<Longrightarrow> kernel_inv k'"
  using tracked_env [of k' k] by (auto simp: kernel_inv_def keeps_def)

lemma keeps_update_cache: "keeps k (update_cache b k)"
  by (rule keepsI) (simp_all add: update_cache_tmo)

lemma keeps_reset_slice: "keeps k (z_reset_time_slice t k)"
  by (rule keepsI) (simp_all add: reset_slice_tmo)

lemma do_swap_tmo:
  "timeouts_inv (tmo k) \<Longrightarrow> timeouts_inv (tmo (do_swap k))"
  "timeouts_inv (tmo k) \<Longrightarrow> deadline (tmo (do_swap k)) (ThreadTo t) = deadline (tmo k) (ThreadTo t)"
  by (simp_all add: do_swap_def Let_def reset_slice_tmo)

lemma keeps_do_swap: "keeps k (do_swap k)"
  by (rule keepsI) (auto simp: do_swap_threads do_swap_tmo split: if_splits)

lemma keeps_reschedule: "keeps k (z_reschedule k)"
  by (simp add: z_reschedule_def keeps_do_swap)

lemma keeps_upd_thread:
  "t \<noteq> thread_dummy k \<Longrightarrow> (\<And>th. no_wake_on_timeout (f th) \<Longrightarrow> no_wake_on_timeout th) \<Longrightarrow> keeps k (upd_thread t f k)"
  by (rule keepsI) (auto simp: threads_upd_thread split: if_splits)

lemma keeps_queue: "t \<noteq> thread_dummy k \<Longrightarrow> keeps k (queue_thread t k)" "t \<noteq> thread_dummy k \<Longrightarrow> keeps k (dequeue_thread t k)"
  by (rule keepsI; auto simp: queue_threads split: if_splits)+

lemma keeps_env: "keeps k k' \<Longrightarrow> thread_dummy k' = thread_dummy k" "keeps k k' \<Longrightarrow> idle_thread k' = idle_thread k"
    "keeps k k' \<Longrightarrow> in_isr k' = in_isr k" "keeps k k' \<Longrightarrow> irq_locked k' = irq_locked k"
    "keeps k k' \<Longrightarrow> metairq_tracked k' = metairq_tracked k"
  by (simp_all add: keeps_def env_def metairq_tracked_def)

lemma keeps_ready: "t \<noteq> thread_dummy k \<Longrightarrow> keeps k (ready_thread t k)"
  using keeps_trans [OF keeps_queue(1) keeps_update_cache] by (simp add: ready_thread_def)

lemma keeps_abort_timeout: "keeps k (snd (z_abort_thread_timeout t k))"
  by (rule keepsI) (simp_all add: tq.invar_abort tq.due_abort)

lemma keeps_unpend: "t \<noteq> thread_dummy k \<Longrightarrow> keeps k (unpend_thread_no_timeout t k)"
  by (rule keepsI) (auto simp: unpend_threads split: if_splits)

lemma keeps_add_timeout:
  "t \<noteq> thread_dummy k \<Longrightarrow> deadline (tmo k) (ThreadTo t) = None \<Longrightarrow> keeps k (z_add_thread_timeout t n k)"
  by (rule keepsI) (simp_all add: invar_add_timeout tq.arm_other)

section \<open>Calls that make a thread ready\<close>

lemma cache_ok_cong:
  assumes "cache_ok k" "cache k' = cache k" "current k' = current k" "runq k' = runq k"
    "idle_thread k' = idle_thread k"
    "thread_is_preemptible (threads k' (current k)) = thread_is_preemptible (threads k (current k))"
  shows "cache_ok k'"
proof -
  have "best_thread k' = best_thread k" "runnable k' = runnable k"
    using assms(4,5) by (simp_all add: best_thread_def runnable_def split: list.split)
  with assms show ?thesis by (simp add: cache_ok_def)
qed

lemma ready_cache_ok:
  assumes inv: "sched_inv_but {t} k" and t: "t \<noteq> idle_thread k" and nt: "\<not> metairq_tracked k"
    and d: "deadline (tmo k) (ThreadTo (current k)) = None" and c: "cache_ok k"
  shows "cache_ok (ready_thread t k)"
proof (cases "t \<notin> set (runq k) \<and> z_is_thread_ready k t")
  case True
  with queue_inv [OF inv, of t] t have "sched_inv (queue_thread t k)" by simp
  moreover have "\<not> metairq_tracked (queue_thread t k)" using nt tracked_env [of "queue_thread t k" k] by simp
  ultimately have "cache_ok (update_cache False (queue_thread t k))"
    using d by (intro cache_ok_update) simp_all
  with True inv show ?thesis by (simp add: ready_thread_def queued_iff)
next
  case False
  with inv c show ?thesis by (auto simp: ready_thread_def queued_iff)
qed

text \<open>
  The state between a change and the scheduling point that follows it: everything but that a
  preemptible running thread is the cached one.
\<close>

definition kernel_pre :: "kernel \<Rightarrow> bool" where
  "kernel_pre k \<longleftrightarrow>
     sched_inv k \<and> dummy_ok k \<and> dummy_idle k \<and> no_wakes k \<and> \<not> metairq_tracked k \<and> cache_ok k \<and>
     deadline (tmo k) (ThreadTo (current k)) = None \<and> (\<not> in_isr k \<longrightarrow> current k \<in> runnable k)"

lemma kernel_inv_pre: "kernel_inv k \<Longrightarrow> kernel_pre k"
  by (simp add: kernel_inv_def kernel_pre_def cpu_ok_def)

lemma kernel_preD:
  assumes "kernel_pre k"
  shows "sched_inv k" "dummy_ok k" "no_wakes k" "\<not> metairq_tracked k" "cache_ok k"
    "deadline (tmo k) (ThreadTo (current k)) = None" "\<not> in_isr k \<Longrightarrow> current k \<in> runnable k"
  using assms by (simp_all add: kernel_pre_def)

lemma kernel_invD:
  assumes "kernel_inv k"
  shows "sched_inv k" "dummy_ok k" "no_wakes k" "\<not> metairq_tracked k" "cpu_ok k" "cache_ok k"
    "deadline (tmo k) (ThreadTo (current k)) = None"
  using assms by (simp_all add: kernel_inv_def cpu_ok_def)

lemma kernel_preI:
  assumes "kernel_pre k" "keeps k k'" "sched_inv k'" "cache_ok k'"
    "deadline (tmo k') (ThreadTo (current k')) = None" "\<not> in_isr k' \<Longrightarrow> current k' \<in> runnable k'"
  shows "kernel_pre k'"
  using assms tracked_env [of k' k] by (auto simp: kernel_pre_def keeps_def)

lemma pre_reschedule: "kernel_pre k \<Longrightarrow> kernel_inv (z_reschedule k)"
proof -
  assume k: "kernel_pre k"
  note D = kernel_preD [OF k]
  have r: "keeps k (z_reschedule k)" by (rule keeps_reschedule)
  have "cpu_ok (z_reschedule k)" using D by (intro resched_cpu)
  moreover have "sched_inv (z_reschedule k)" using D(1) by (rule z_reschedule_inv)
  ultimately show ?thesis
    using k r keeps_env(5) [OF r] by (auto simp: kernel_pre_def kernel_inv_def keeps_def)
qed

text \<open>
  The pattern of starting, resuming and waking: a change to \<open>t\<close> that leaves its priority alone, then
  \<open>ready_thread\<close>.
\<close>

lemma wake_pre:
  assumes k: "kernel_pre k" and t: "t \<noteq> idle_thread k" "t \<noteq> thread_dummy k" and kk: "keeps k k1"
    and inv: "sched_inv_but {t} k1"
    and eq: "cache k1 = cache k" "current k1 = current k" "runq k1 = runq k"
    and pr: "prio (threads k1 (current k)) = prio (threads k (current k))"
      "sched_locked (threads k1 (current k)) = sched_locked (threads k (current k))"
    and d: "deadline (tmo k1) (ThreadTo (current k)) = None"
  shows "kernel_pre (ready_thread t k1)"
proof (rule kernel_preI [OF k])
  let ?K = "ready_thread t k1"
  note D = kernel_preD [OF k]
  note id = keeps_env(2) [OF kk]
  have "cache_ok k1"
    by (rule cache_ok_cong [OF D(5) eq id]) (rule preemptible_cong [OF pr])
  then show "cache_ok ?K"
    using inv t(1) D(4) keeps_env(5) [OF kk] d eq id by (intro ready_cache_ok) simp_all
  show "sched_inv ?K" using ready_thread_inv [OF inv, of t] t(1) id by simp
  show "keeps k ?K" using keeps_trans [OF kk keeps_ready] t(2) keeps_env(1) [OF kk] by simp
  then have isr: "in_isr ?K = in_isr k" by (rule keeps_env)
  show "deadline (tmo ?K) (ThreadTo (current ?K)) = None"
    using inv_butD(2) [OF inv] d eq by (simp add: ready_thread_tmo)
  show "current ?K \<in> runnable ?K" if "\<not> in_isr ?K"
    using D(7) that isr ready_thread_runq_mono [of k1 t] eq id by (auto simp: runnable_def)
qed

text \<open>
  What a call does that has a scheduling point wherever it needs one: it keeps the weaker invariant as well as the full one.
\<close>

definition advances :: "kernel \<Rightarrow> kernel \<Rightarrow> bool" where
  "advances k k' \<longleftrightarrow> kernel_pre k' \<and> (kernel_inv k \<longrightarrow> kernel_inv k')"

lemma advancesD: "advances k k' \<Longrightarrow> kernel_pre k'" "advances k k' \<Longrightarrow> kernel_inv k \<Longrightarrow> kernel_inv k'"
  by (simp_all add: advances_def)

lemma advancesI: "kernel_inv k' \<Longrightarrow> advances k k'" and advances_refl: "kernel_pre k \<Longrightarrow> advances k k"
  by (simp_all add: advances_def kernel_inv_pre)

lemma advances_trans: "advances k k' \<Longrightarrow> advances k' k'' \<Longrightarrow> advances k k''"
  by (simp add: advances_def)

lemma start_advances:
  assumes k: "kernel_pre k" and t: "t \<noteq> idle_thread k" "t \<noteq> thread_dummy k"
  shows "advances k (z_sched_start t k)"
proof -
  note D = kernel_preD [OF k]
  let ?k1 = "upd_thread t z_mark_thread_as_started k"
  have kk: "keeps k ?k1" using t by (intro keeps_upd_thread) (simp_all add: z_mark_thread_as_started_def)
  have inv: "sched_inv_but {t} ?k1" using mark_started_inv [OF D(1)] by simp
  have "kernel_pre (ready_thread t ?k1)"
    by (rule wake_pre [OF k t kk inv]) (simp_all add: threads_upd_thread z_mark_thread_as_started_def D)
  with k show ?thesis by (simp add: z_sched_start_def advancesI advances_refl pre_reschedule)
qed

lemma start_kernel_inv:
  "kernel_inv k \<Longrightarrow> t \<noteq> idle_thread k \<Longrightarrow> t \<noteq> thread_dummy k \<Longrightarrow> kernel_inv (z_sched_start t k)"
  using start_advances kernel_inv_pre advancesD(2) by blast

lemma not_suspended_pre:
  assumes k: "kernel_pre k" and t: "t \<noteq> idle_thread k" "t \<noteq> thread_dummy k" and kk: "keeps k k1"
    and inv: "sched_inv_but {t} k1"
    and eq: "cache k1 = cache k" "current k1 = current k" "runq k1 = runq k" "threads k1 = threads k"
    and d: "deadline (tmo k1) (ThreadTo (current k)) = None"
  shows "kernel_pre (ready_thread t (upd_thread t z_mark_thread_as_not_suspended k1))"
proof (rule wake_pre [OF k t])
  let ?k1 = "upd_thread t z_mark_thread_as_not_suspended k1"
  have "keeps k1 ?k1"
    using t(2) keeps_env(1) [OF kk]
    by (intro keeps_upd_thread) (simp_all add: z_mark_thread_as_not_suspended_def)
  with kk show "keeps k ?k1" by (rule keeps_trans)
  show "sched_inv_but {t} ?k1" using mark_not_suspended_inv [OF inv, of t] by simp
qed (use eq d in \<open>simp_all add: threads_upd_thread z_mark_thread_as_not_suspended_def\<close>)

lemma resume_advances:
  assumes k: "kernel_pre k" and t: "t \<noteq> idle_thread k" "t \<noteq> thread_dummy k"
  shows "advances k (z_impl_k_thread_resume t k)"
proof -
  note D = kernel_preD [OF k]
  have "sched_inv_but {t} k" using D(1) inv_but_mono by blast
  then have "kernel_pre (ready_thread t (upd_thread t z_mark_thread_as_not_suspended k))"
    using not_suspended_pre [OF k t keeps_refl] D(6) by simp
  with k show ?thesis by (simp add: z_impl_k_thread_resume_def advancesI advances_refl pre_reschedule)
qed

lemma wakeup_advances:
  assumes k: "kernel_pre k" and t: "t \<noteq> idle_thread k" "t \<noteq> thread_dummy k"
  shows "advances k (z_impl_k_wakeup t k)"
proof -
  note D = kernel_preD [OF k]
  let ?a = "snd (z_abort_thread_timeout t k)"
  have d: "deadline (tmo ?a) (ThreadTo (current k)) = None"
    using D(6) inv_butD(2) [OF D(1)] by (simp add: tq.due_abort)
  have "kernel_pre (ready_thread t (upd_thread t z_mark_thread_as_not_suspended ?a))"
    by (rule not_suspended_pre [OF k t keeps_abort_timeout abort_timeout_inv [OF D(1)] _ _ _ _ d])
      simp_all
  then have full: "kernel_inv (z_reschedule (ready_thread t (upd_thread t z_mark_thread_as_not_suspended ?a)))"
    by (rule pre_reschedule)
  have isr: "z_reschedule K = K" if "in_isr K" for K using that by (simp add: z_reschedule_def resched_def)
  show ?thesis
  proof (cases "fst (z_abort_thread_timeout t k) < 0")
    case True
    then have "deadline (tmo k) (ThreadTo t) = None"
      by (simp add: z_abort_thread_timeout_def case_prod_beta tq.abort_result split: if_splits)
    then show ?thesis
      using advancesI [OF full] advances_refl [OF k] isr abort_timeout_noop by (auto simp: z_impl_k_wakeup_def Let_def case_prod_beta)
  next
    case False
    then show ?thesis
      using advancesI [OF full] advances_refl [OF k] isr by (auto simp: z_impl_k_wakeup_def Let_def case_prod_beta)
  qed
qed

text \<open>A kernel object wakes the first thread of a wait queue.\<close>

lemma waiter_not_dummy:
  "kernel_pre k \<Longrightarrow> waitqs k w = t # ts \<Longrightarrow> t \<noteq> idle_thread k \<and> t \<noteq> thread_dummy k"
  using waiter_not_idle [of "{}" k t w] waitq_member [of "{}" k t w]
  by (force simp: kernel_pre_def dummy_ok_def)

lemma woken_with_pre:
  assumes k: "kernel_pre k" and q: "waitqs k w = t # ts" and f: "swap_fn f"
  shows "kernel_pre (woken_with f t k)"
  unfolding woken_with_def
proof (rule wake_pre [OF k])
  note D = kernel_preD [OF k]
  let ?u = "snd (z_abort_thread_timeout t (unpend_thread_no_timeout t k))"
  let ?k1 = "upd_thread t f ?u"
  show t: "t \<noteq> idle_thread k" "t \<noteq> thread_dummy k" using waiter_not_dummy [OF k q] by simp_all
  have a: "keeps k ?u" by (rule keeps_trans [OF keeps_unpend [OF t(2)] keeps_abort_timeout])
  have "keeps ?u ?k1"
    using t keeps_env(1) [OF a] by (intro keeps_upd_thread) (simp_all add: swap_fnD [OF f])
  with a show "keeps k ?k1" by (rule keeps_trans)
  show "sched_inv_but {t} ?k1"
    using upd_thread_view_inv [OF abort_timeout_inv [OF unpend_inv [OF D(1), of t], of t], of f t] swap_fnD(1) [OF f]
    by simp
  show "prio (threads ?k1 (current k)) = prio (threads k (current k))"
    "sched_locked (threads ?k1 (current k)) = sched_locked (threads k (current k))"
    by (simp_all add: threads_upd_thread unpend_threads swap_fnD [OF f])
  show "deadline (tmo ?k1) (ThreadTo (current k)) = None"
    using D(6) inv_butD(2) [OF D(1)] by (simp add: tq.due_abort)
qed simp_all

lemma woken_pre: "kernel_pre k \<Longrightarrow> waitqs k w = t # ts \<Longrightarrow> kernel_pre (woken t v k)"
  unfolding woken_def by (rule woken_with_pre) simp_all

lemma wake_first_kernel_inv:
  "kernel_inv k \<Longrightarrow> waitqs k w = t # ts \<Longrightarrow> kernel_inv (z_reschedule (woken t v k))"
  by (rule pre_reschedule, rule woken_pre, rule kernel_inv_pre)

text \<open>A waiting thread is not the running one, so a switch after its wake-up leaves its values alone.\<close>

lemma waiter_not_current:
  assumes k: "kernel_inv k" and isr: "\<not> in_isr k" and t: "t \<in> set (waitqs k w)"
  shows "t \<noteq> current k"
proof -
  note D = kernel_invD [OF k]
  have "z_is_thread_ready k (current k)"
    using D(5) isr runnable_ready [OF D(1), of "current k"] by (simp add: cpu_ok_def)
  then show ?thesis using ready_clear(1) [OF D(1)] waitq_member [OF D(1), of t w] t by auto
qed

lemma reschedule_in_isr [simp]: "in_isr k \<Longrightarrow> z_reschedule k = k"
  by (simp add: z_reschedule_def resched_def)

lemma reschedule_waiter:
  assumes k: "kernel_inv k" and t: "t \<in> set (waitqs k w)" and e: "env k' = env k" "current k' = current k"
  shows "threads (z_reschedule k') t = threads k' t"
proof (cases "in_isr k")
  case True
  then show ?thesis using e(1) by (simp add: env_def)
next
  case False
  with waiter_not_current [OF k _ t] e(2) show ?thesis by (simp add: reschedule_threads)
qed

lemma woken_with_thread:
  "threads (woken_with f t k) t =
     (let th = f (threads (unpend_thread_no_timeout t k) t)
      in th\<lparr>thread_state := thread_state (threads (woken_with f t k) t)\<rparr>)"
  by (simp add: woken_with_def ready_thread_threads threads_upd_thread Let_def)

lemma handed_values:
  "swap_retval (threads (woken_with (\<lambda>th. th\<lparr>swap_retval := v, swap_data := d\<rparr>) t k) t) = v"
  "swap_data (threads (woken_with (\<lambda>th. th\<lparr>swap_retval := v, swap_data := d\<rparr>) t k) t) = d"
  by (subst woken_with_thread, simp add: Let_def)+

lemma handoff_retval:
  assumes "kernel_inv k" "waitqs k w = t # ts"
  shows "swap_retval (threads (z_reschedule (woken t v k)) t) = v"
  using reschedule_waiter [of k t w "woken t v k"] assms woken_props [OF kernel_invD(1) [OF assms(1)] assms(2)]
  by simp

lemma wake_loop_eq:
  "waitqs k w = t # ts \<Longrightarrow> snd (wake_loop (Suc n) v w k) = snd (wake_loop n v w (woken t v k))"
  by (simp add: unpend_first_eq z_ready_thread_def woken_eq case_prod_beta)

lemma wake_loop_pre:
  "kernel_pre k \<Longrightarrow> kernel_pre (snd (wake_loop n v w k))"
proof (induction n arbitrary: k)
  case (Suc n)
  show ?case
  proof (cases "waitqs k w")
    case Nil
    with Suc.prems show ?thesis by simp
  next
    case (Cons t ts)
    with Suc woken_pre show ?thesis using wake_loop_eq by metis
  qed
qed simp

text \<open>
  What draining a queue and a scheduling point leave: every waiter has the value, no other thread
  and no other queue changes.
\<close>

lemma wake_all_effect:
  assumes k: "kernel_inv k" and k': "k' = z_reschedule (snd (wake_all v w k))"
  shows "kernel_inv k'" "waitqs k' = (waitqs k)(w := [])" "fst (wake_all v w k) = length (waitqs k w)"
    "t \<in> set (waitqs k w) \<Longrightarrow> swap_retval (threads k' t) = v \<and> pended_on (threads k' t) = None"
proof -
  note D = kernel_invD [OF k]
  let ?w = "snd (wake_all v w k)"
  note dr = wake_all_drains [OF D(1), of v w]
  show i: "kernel_inv k'"
    unfolding k' wake_all_def by (intro pre_reschedule wake_loop_pre kernel_inv_pre k)
  show wq: "waitqs k' = (waitqs k)(w := [])" and "fst (wake_all v w k) = length (waitqs k w)"
    using dr by (simp_all add: k')
  show "swap_retval (threads k' t) = v \<and> pended_on (threads k' t) = None" if "t \<in> set (waitqs k w)"
  proof -
    have "threads k' t = threads ?w t" using reschedule_waiter [OF k that, of ?w] dr k' by simp
    moreover have "pended_on (threads k' t) \<noteq> Some u" for u
      using waitq_member [OF kernel_invD(1) [OF i], of t u] wq sch.waiter_one_queue [OF D(1) that, of u]
      by (auto split: if_splits)
    ultimately show ?thesis using dr that by auto
  qed
qed

lemma woken_runq_mono: "set (runq k) \<subseteq> set (runq (woken t v k))"
  using ready_thread_runq_mono [of "arch_thread_return_value_set t v
    (snd (z_abort_thread_timeout t (unpend_thread_no_timeout t k)))" t]
  by (simp add: woken_eq)

text \<open>Handing a value and a datum to the first waiter, as the data-passing objects do.\<close>

definition handed :: "tid \<Rightarrow> int \<Rightarrow> addr \<Rightarrow> kernel \<Rightarrow> kernel" where
  "handed t v d k = woken_with (\<lambda>th. th\<lparr>swap_retval := v, swap_data := d\<rparr>) t k"

lemma handed_eq:
  "handed t v d k = ready_thread t (z_thread_return_value_set_with_data t v d
     (snd (z_abort_thread_timeout t (unpend_thread_no_timeout t k))))"
  by (simp add: handed_def woken_with_def z_thread_return_value_set_with_data_def arch_thread_return_value_set_def
      upd_thread_def)

lemma handoff_data:
  assumes k: "kernel_inv k" and q: "waitqs k w = t # ts" and k': "k' = z_reschedule (handed t v d k)"
  shows "kernel_inv k'" "waitqs k' = (waitqs k)(w := ts)" "env k' = env k"
    "swap_retval (threads k' t) = v" "swap_data (threads k' t) = d" "pended_on (threads k' t) = None"
    "deadline (tmo k') (ThreadTo t) = None"
proof -
  let ?f = "\<lambda>th. th\<lparr>swap_retval := v, swap_data := d\<rparr>"
  note w = woken_with_props [OF kernel_invD(1) [OF k] q, of ?f]
  have f: "swap_fn ?f" by simp
  have pre: "kernel_pre (handed t v d k)"
    unfolding handed_def by (rule woken_with_pre [OF kernel_inv_pre [OF k] q f])
  then show i: "kernel_inv k'" unfolding k' by (rule pre_reschedule)
  show wq: "waitqs k' = (waitqs k)(w := ts)" and "env k' = env k"
    using w(2,4) f by (simp_all add: k' handed_def)
  have th: "threads k' t = threads (handed t v d k) t"
    using reschedule_waiter [OF k, of t w "handed t v d k"] q w(3,4) f by (simp add: k' handed_def)
  show "swap_retval (threads k' t) = v" "swap_data (threads k' t) = d"
    using th handed_values by (simp_all add: handed_def)
  have tq: "t \<in> set (waitqs k w)" "distinct (t # ts)"
    using q sch.waiters_distinct [OF kernel_invD(1) [OF k], of w] by simp_all
  have "t \<notin> set (waitqs k' u)" for u
    using sch.waiter_one_queue [OF kernel_invD(1) [OF k] tq(1), of u] tq(2) by (auto simp: wq)
  then show "pended_on (threads k' t) = None" using waitq_member [OF kernel_invD(1) [OF i], of t] by auto
  have "deadline (tmo (handed t v d k)) (ThreadTo t) = None" using w(6) f by (simp add: handed_def)
  then show "deadline (tmo k') (ThreadTo t) = None"
    using inv_butD(2) [OF kernel_preD(1) [OF pre]] by (simp add: k' z_reschedule_def do_swap_tmo)
qed

text \<open>Memory is no concern of the scheduler.\<close>

lemma mem_frame [simp]:
  "sched_inv_but X (k\<lparr>pmem := m\<rparr>) = sched_inv_but X k" "sched_inv_but X (k\<lparr>bmem := b\<rparr>) = sched_inv_but X k"
  "kernel_inv (k\<lparr>pmem := m\<rparr>) = kernel_inv k" "kernel_inv (k\<lparr>bmem := b\<rparr>) = kernel_inv k"
  "kernel_pre (k\<lparr>pmem := m\<rparr>) = kernel_pre k" "kernel_pre (k\<lparr>bmem := b\<rparr>) = kernel_pre k"
  "running (k\<lparr>pmem := m\<rparr>) = running k" "running (k\<lparr>bmem := b\<rparr>) = running k"
proof -
  show s: "sched_inv_but X (k\<lparr>pmem := m\<rparr>) = sched_inv_but X k" "sched_inv_but X (k\<lparr>bmem := b\<rparr>) = sched_inv_but X k" for X
    by (auto simp: sched_inv_but_def wf_queues_def tprio_def ready_iff)
  have c: "best_thread (k\<lparr>pmem := m\<rparr>) = best_thread k" "runnable (k\<lparr>pmem := m\<rparr>) = runnable k"
    "best_thread (k\<lparr>bmem := b\<rparr>) = best_thread k" "runnable (k\<lparr>bmem := b\<rparr>) = runnable k"
    by (simp_all add: best_thread_def runnable_def split: list.split)
  show "kernel_inv (k\<lparr>pmem := m\<rparr>) = kernel_inv k" "kernel_inv (k\<lparr>bmem := b\<rparr>) = kernel_inv k"
    "kernel_pre (k\<lparr>pmem := m\<rparr>) = kernel_pre k" "kernel_pre (k\<lparr>bmem := b\<rparr>) = kernel_pre k"
    by (simp_all add: kernel_inv_def kernel_pre_def s c dummy_ok_def dummy_idle_def metairq_tracked_def cache_ok_def cpu_ok_def)
  show "running (k\<lparr>pmem := m\<rparr>) = running k" "running (k\<lparr>bmem := b\<rparr>) = running k" by (simp_all add: running_def)
qed

section \<open>Calls that switch\<close>

lemma swap_best:
  "sched_inv k \<Longrightarrow> cache k = best_thread k \<Longrightarrow> cpu_ok (do_swap k)"
  by (rule swap_cpu) (simp_all add: cache_ok_def)

lemma best_cong: "runq k' = runq k \<Longrightarrow> idle_thread k' = idle_thread k \<Longrightarrow> best_thread k' = best_thread k"
  by (simp add: best_thread_def split: list.split)

lemma cache_update_True: "\<not> metairq_tracked k \<Longrightarrow> cache (update_cache True k) = best_thread k"
  by (simp add: cache_update_cache should_preempt_def)

lemma pre_not_dummy:
  assumes "kernel_pre k" "running k"
  shows "current k \<noteq> thread_dummy k"
proof
  assume eq: "current k = thread_dummy k"
  have "z_is_thread_ready k (current k)"
    using assms runq_ready [of "{}" k "current k"] by (simp add: kernel_pre_def running_def)
  with assms(1) eq show False by (simp add: kernel_pre_def dummy_ok_def ready_iff)
qed

lemmas running_not_dummy = pre_not_dummy [OF kernel_inv_pre]

lemma kernel_pre_step:
  "kernel_pre k \<Longrightarrow> keeps k k' \<Longrightarrow> sched_inv k' \<Longrightarrow> cpu_ok k' \<Longrightarrow> kernel_inv k'"
  using tracked_env [of k' k] by (auto simp: kernel_inv_def kernel_pre_def keeps_def)

lemma yield_pre:
  assumes k: "kernel_pre k" and run: "running k"
  shows "kernel_inv (z_impl_k_yield k)"
proof -
  note D = kernel_preD [OF k]
  let ?q = "queue_thread (current k) (dequeue_thread (current k) k)"
  have c: "current k \<noteq> thread_dummy k" using k run by (rule pre_not_dummy)
  have q: "keeps k ?q" using c keeps_trans keeps_queue keeps_env(1) by metis
  have "sched_inv (update_cache True ?q)"
    using requeue_inv [OF D(1)] run by (simp add: running_def update_cache_inv)
  moreover have "cache (update_cache True ?q) = best_thread (update_cache True ?q)"
    using D(4) keeps_env(5) [OF q] by (simp add: cache_update_True)
  ultimately have "cpu_ok (z_impl_k_yield k)" unfolding z_impl_k_yield_def by (rule swap_best)
  moreover have "keeps k (z_impl_k_yield k)"
    unfolding z_impl_k_yield_def using q keeps_update_cache keeps_do_swap keeps_trans by blast
  ultimately show ?thesis using kernel_pre_step [OF k] yield_inv [OF D(1) run] by blast
qed

lemmas yield_kernel_inv = yield_pre [OF kernel_inv_pre]

lemma unready_cache:
  "\<not> metairq_tracked k \<Longrightarrow> cache (unready_thread (current k) k) = best_thread (unready_thread (current k) k)"
  using tracked_env [of "dequeue_thread (current k) k" k]
  by (simp add: unready_thread_def Let_def cache_update_True)

lemma keeps_unready: "t \<noteq> thread_dummy k \<Longrightarrow> keeps k (unready_thread t k)"
  using keeps_trans [OF keeps_queue(2) keeps_update_cache]
  by (auto simp: unready_thread_def Let_def keeps_update_cache)

lemma pend_locked_cache:
  assumes "\<not> metairq_tracked k"
  shows "cache (pend_locked (current k) w n k) = best_thread (pend_locked (current k) w n k)"
proof -
  have "cache (pend_locked (current k) w n k) = cache (unready_thread (current k) k)"
    by (simp add: pend_locked_def add_thread_timeout_def add_to_waitq_locked_def Let_def split: option.split)
  moreover have "best_thread (pend_locked (current k) w n k) = best_thread (unready_thread (current k) k)"
    by (rule best_cong) (simp_all add: pend_locked_def add_thread_timeout_def)
  ultimately show ?thesis using unready_cache [OF assms] by simp
qed

lemma keeps_pend_locked:
  assumes inv: "sched_inv k" and t: "t \<in> set (runq k)" "t \<noteq> thread_dummy k"
  shows "keeps k (pend_locked t (Some w) n k)"
proof (rule keepsI)
  have d: "deadline (tmo k) (ThreadTo t) = None" using runq_ready [OF inv t(1)] by (simp add: ready_iff)
  show "timeouts_inv (tmo k) \<Longrightarrow> timeouts_inv (tmo (pend_locked t (Some w) n k)) \<and>
      (deadline (tmo k) (ThreadTo (thread_dummy k)) = None \<longrightarrow>
       deadline (tmo (pend_locked t (Some w) n k)) (ThreadTo (thread_dummy k)) = None)"
    using d t(2) by (simp add: pend_locked_def add_thread_timeout_def unready_tmo invar_add_timeout tq.arm_other)
qed (use t in \<open>auto simp: add_to_waitq_threads split: if_splits\<close>)

lemma pend_pre:
  assumes k: "kernel_pre k" and run: "running k"
  shows "kernel_inv (do_swap (pend_locked (current k) (Some w) n k))"
proof (rule kernel_pre_step [OF k])
  note D = kernel_preD [OF k]
  let ?p = "pend_locked (current k) (Some w) n k"
  have c: "current k \<in> set (runq k)" using run by (simp add: running_def)
  have inv: "sched_inv ?p" by (rule pend_locked_inv [OF D(1) c])
  then show "sched_inv (do_swap ?p)" by (rule do_swap_inv)
  show "cpu_ok (do_swap ?p)" using inv pend_locked_cache [OF D(4)] by (rule swap_best)
  show "keeps k (do_swap ?p)"
    using keeps_pend_locked [OF D(1) c pre_not_dummy [OF k run]] keeps_do_swap keeps_trans by blast
qed

lemmas pend_kernel_inv = pend_pre [OF kernel_inv_pre]

lemma asleep_cache: "\<not> metairq_tracked k \<Longrightarrow> cache (asleep n k) = best_thread (asleep n k)"
  using unready_cache [of k] best_cong [of "asleep n k" "unready_thread (current k) k"]
  by (simp add: asleep_def)

lemma keeps_asleep:
  assumes k: "kernel_pre k" and run: "running k"
  shows "keeps k (asleep n k)"
proof -
  note D = kernel_preD [OF k]
  note c = pre_not_dummy [OF k run]
  let ?u = "unready_thread (current k) k"
  have u: "keeps k ?u" using c by (rule keeps_unready)
  have a: "keeps ?u (z_add_thread_timeout (current k) n ?u)"
    by (rule keeps_add_timeout) (use c D(6) keeps_env(1) [OF u] inv_butD(2) [OF D(1)] in \<open>simp_all add: unready_tmo\<close>)
  have "keeps (z_add_thread_timeout (current k) n ?u) (asleep n k)"
    unfolding asleep_def
    by (rule keeps_upd_thread)
      (use c keeps_env(1) [OF u] keeps_env(1) [OF a] in \<open>simp_all add: z_mark_thread_as_suspended_def\<close>)
  with u a show ?thesis using keeps_trans by blast
qed

lemma sleep_pre:
  assumes k: "kernel_pre k" and run: "running k"
  shows "kernel_inv (snd (z_tick_sleep n k))"
proof (cases "n = 0")
  case True
  with assms show ?thesis by (simp add: z_tick_sleep_def yield_pre)
next
  case False
  note D = kernel_preD [OF k]
  have "cpu_ok (do_swap (asleep n k))"
    using asleep_inv [OF D(1) run] asleep_cache [OF D(4)] by (rule swap_best)
  moreover have "keeps k (do_swap (asleep n k))"
    using keeps_asleep [OF k run] keeps_do_swap by (rule keeps_trans)
  ultimately show ?thesis
    using kernel_pre_step [OF k] do_swap_inv [OF asleep_inv [OF D(1) run]] False by (simp add: tick_sleep_eq)
qed

lemmas sleep_kernel_inv = sleep_pre [OF kernel_inv_pre]

section \<open>Suspending and aborting\<close>

lemma best_after_remove:
  assumes "best_thread k = c" "c \<noteq> t" "runq k' = remove1 t (runq k)" "idle_thread k' = idle_thread k"
  shows "best_thread k' = c"
  using assms by (cases "runq k") (simp_all add: best_thread_def)

text \<open>A call takes the thread \<open>t\<close> off the run queue and updates the cache.\<close>

lemma remove_other_cpu:
  assumes cpu: "cpu_ok k" and env: "env k' = env k" and cur: "current k' = current k"
    and c: "cache k' = best_thread k'" and rq: "runq k' = remove1 t (runq k)"
    and d: "deadline (tmo k') (ThreadTo (current k)) = None"
    and other: "in_isr k \<or> t \<noteq> current k"
    and pr: "thread_is_preemptible (threads k' (current k)) = thread_is_preemptible (threads k (current k))"
  shows "cpu_ok k'"
proof -
  have e: "idle_thread k' = idle_thread k" "in_isr k' = in_isr k" "irq_locked k' = irq_locked k"
    using env by (simp_all add: env_def)
  have "current k \<in> runnable k'" if "\<not> in_isr k"
    using that cpu other rq e by (auto simp: cpu_ok_def runnable_def)
  moreover have "current k = cache k'"
    if u: "\<not> in_isr k" "\<not> irq_locked k" "thread_is_preemptible (threads k (current k))"
  proof -
    have "current k = best_thread k" using cpu u by (auto simp: cpu_ok_def cache_ok_def)
    then show ?thesis using best_after_remove [OF _ _ rq e(1)] other u(1) c by simp
  qed
  ultimately show ?thesis using c cur d e pr by (simp add: cpu_ok_def cache_ok_def)
qed

lemma remove_other_pre:
  assumes k: "kernel_pre k" and kk: "keeps k k'" and inv: "sched_inv k'" and cur: "current k' = current k"
    and c: "cache k' = best_thread k'" and rq: "set (runq k) \<subseteq> insert t (set (runq k'))"
    and d: "deadline (tmo k') (ThreadTo (current k)) = None" and other: "in_isr k \<or> t \<noteq> current k"
  shows "kernel_pre k'"
proof (rule kernel_preI [OF k kk inv])
  show "cache_ok k'" using c by (simp add: cache_ok_def)
  show "deadline (tmo k') (ThreadTo (current k')) = None" using d cur by simp
  show "current k' \<in> runnable k'" if "\<not> in_isr k'"
    using that kernel_preD(7) [OF k] other rq cur keeps_env(2,3) [OF kk] by (auto simp: runnable_def)
qed

lemma halted_runq: "sched_inv_but X k \<Longrightarrow> s \<in> {THREAD_DEAD, THREAD_SUSPENDED} \<Longrightarrow> runq (halted t s k) = remove1 t (runq k)"
  using queued_iff [of X k t]
  by (auto simp: halted_def Let_def threads_upd_thread z_is_thread_queued_def)

lemma suspended_frame:
  assumes inv: "sched_inv k" and nt: "\<not> metairq_tracked k"
  shows "env (suspended t k) = env k" "current (suspended t k) = current k"
    "runq (suspended t k) = remove1 t (runq k)" "cache (suspended t k) = best_thread (suspended t k)"
    "deadline (tmo (suspended t k)) (ThreadTo x) = (if x = t then None else deadline (tmo k) (ThreadTo x))"
    "x \<noteq> t \<Longrightarrow> threads (suspended t k) x = threads k x"
    "prio (threads (suspended t k) x) = prio (threads k x)"
    "sched_locked (threads (suspended t k) x) = sched_locked (threads k x)"
    "no_wake_on_timeout (threads (suspended t k) x) = no_wake_on_timeout (threads k x)"
    "timeouts_inv (tmo (suspended t k))"
proof -
  let ?a = "snd (z_abort_thread_timeout t k)"
  let ?h = "halted t THREAD_SUSPENDED ?a"
  have ti: "timeouts_inv (tmo ?h)" using inv_butD(2) [OF inv] by (simp add: halted_frame tq.invar_abort)
  have "\<not> metairq_tracked ?h" using nt tracked_env [of ?h k] by (simp add: halted_frame)
  then have "cache (update_cache True ?h) = best_thread ?h" by (rule cache_update_True)
  then show "cache (suspended t k) = best_thread (suspended t k)"
    using best_cong [of "suspended t k" ?h] by (simp add: suspended_def halted_frame)
  show "runq (suspended t k) = remove1 t (runq k)"
    using halted_runq [OF abort_timeout_inv [OF inv, of t], of THREAD_SUSPENDED t] by (simp add: suspended_def)
  show "timeouts_inv (tmo (suspended t k))" using ti by (simp add: suspended_def update_cache_tmo)
  show "deadline (tmo (suspended t k)) (ThreadTo x) = (if x = t then None else deadline (tmo k) (ThreadTo x))"
    using ti inv_butD(2) [OF inv] by (simp add: suspended_def update_cache_tmo halted_frame tq.due_abort)
qed (simp_all add: suspended_def halted_frame clear_halting_def threads_upd_thread)

lemma advances_cong:
  assumes k: "kernel_pre k" and kk: "keeps k k'" and inv: "sched_inv k'"
    and eq: "cache k' = cache k" "current k' = current k" "runq k' = runq k"
    and pr: "thread_is_preemptible (threads k' (current k)) = thread_is_preemptible (threads k (current k))"
    and d: "deadline (tmo k') (ThreadTo (current k)) = None"
  shows "advances k k'"
proof -
  note D = kernel_preD [OF k]
  note e = keeps_env [OF kk]
  have r: "runnable k' = runnable k" using eq(3) e(2) by (simp add: runnable_def)
  have c: "cache_ok k'" by (rule cache_ok_cong [OF D(5) eq e(2) pr])
  have "kernel_pre k'" using c d D(7) eq(2) e(3) r by (intro kernel_preI [OF k kk inv]) simp_all
  moreover have "kernel_inv k'" if "kernel_inv k"
    using kernel_invD(5) [OF that] c d eq pr e r by (intro kernel_inv_step [OF that kk inv]) (simp add: cpu_ok_def)
  ultimately show ?thesis by (simp add: advances_def)
qed

lemma abort_timeout_advances:
  assumes k: "kernel_pre k" and inv: "sched_inv (snd (z_abort_thread_timeout t k))"
  shows "advances k (snd (z_abort_thread_timeout t k))"
  by (rule advances_cong [OF k keeps_abort_timeout inv])
    (use kernel_preD(6) [OF k] inv_butD(2) [OF kernel_preD(1) [OF k]] in \<open>simp_all add: tq.due_abort\<close>)

lemma suspend_advances:
  assumes k: "kernel_pre k" and t: "t \<noteq> idle_thread k" "t \<noteq> thread_dummy k"
  shows "advances k (z_impl_k_thread_suspend t k)"
proof (cases "THREAD_SUSPENDED \<in> thread_state (threads k t)")
  case True
  then have eq: "z_impl_k_thread_suspend t k = snd (z_abort_thread_timeout t k)" by (simp add: suspend_eq)
  have "sched_inv (z_impl_k_thread_suspend t k)" using k t by (intro suspend_inv) (simp_all add: kernel_pre_def)
  with k show ?thesis unfolding eq by (rule abort_timeout_advances)
next
  case False
  note D = kernel_preD [OF k]
  note f = suspended_frame [OF D(1,4)]
  note inv = suspended_inv [OF D(1) t(1)]
  have isr: "in_isr (suspended t k) = in_isr k" using f(1) [of t] by (simp add: env_def)
  have keeps: "keeps k (suspended t k)"
    by (rule keepsI) (use t f in \<open>simp_all\<close>)
  show ?thesis
  proof (cases "t = current k \<and> \<not> in_isr k")
    case True
    have "kernel_inv (do_swap (suspended t k))"
      by (intro kernel_pre_step [OF k keeps_trans [OF keeps keeps_do_swap]] do_swap_inv inv swap_best [OF inv] f)
    with True False isr show ?thesis by (simp add: suspend_eq advancesI)
  next
    case other: False
    have pr: "thread_is_preemptible (threads (suspended t k) x) = thread_is_preemptible (threads k x)" for x
      by (rule preemptible_cong) (simp_all add: f)
    have "cpu_ok (suspended t k)" if "cpu_ok k"
      by (rule remove_other_cpu [OF that]) (use f other D(6) pr in auto)
    then have "kernel_inv k \<longrightarrow> kernel_inv (suspended t k)" using kernel_inv_step [OF _ keeps inv] kernel_invD(5) by blast
    moreover have "kernel_pre (suspended t k)"
      by (rule remove_other_pre [OF k keeps inv f(2,4)]) (use f other D(6) set_remove1_subset in \<open>auto dest: in_set_remove1\<close>)
    ultimately show ?thesis using other False isr by (auto simp: suspend_eq advances_def)
  qed
qed

text \<open>
  Aborting. When the caller aborts another thread in thread context, the code makes the joiners of that thread ready
  without a scheduling point, so that only the weaker invariant holds if there are any.
\<close>

lemma killed_unjoined:
  assumes inv: "sched_inv k" and j: "waitqs k (JoinQ t) = []"
  shows "killed t k = snd (z_abort_thread_timeout t (unpend_thread_no_timeout t (halted t THREAD_DEAD k)))"
  using j by (simp add: killed_def unpend_all_def unpend_waitqs halted_frame)

lemma keeps_killed:
  assumes k: "kernel_pre k" and t: "t \<noteq> idle_thread k" "\<not> essential (threads k t)"
  shows "keeps k (killed t k)"
proof -
  note D = kernel_preD [OF k]
  note kp = killed_props [OF D(1) t(1)]
  have "thread_dummy k \<noteq> t" "pended_on (threads k (thread_dummy k)) = None"
    using D(2) t(2) by (auto simp: dummy_ok_def)
  then have "deadline (tmo (killed t k)) (ThreadTo (thread_dummy k)) = deadline (tmo k) (ThreadTo (thread_dummy k))"
    using kp(10) by simp
  then show ?thesis
    using dummy_killed [OF D(1) t(1) D(2) t(2)] kp(7) inv_butD(2) [OF kp(1)] env_dummy [OF kp(7)]
    by (simp add: keeps_def dummy_idle_def)
qed

lemma killed_runq_mono:
  assumes inv: "sched_inv k" and t: "t \<noteq> idle_thread k"
  shows "set (runq k) \<subseteq> insert t (set (runq (killed t k)))"
proof
  fix x assume x: "x \<in> set (runq k)"
  note kp = killed_props [OF inv t]
  have r: "z_is_thread_ready k x" using runq_ready [OF inv x] by simp
  have e: "idle_thread (killed t k) = idle_thread k" using kp(7) by (simp add: env_def)
  show "x \<in> insert t (set (runq (killed t k)))"
  proof (cases "x = t")
    case False
    have "z_is_thread_ready (killed t k) x"
      using r kp(8,10) [OF False] ready_clear(1) [OF inv r] by (simp add: ready_iff)
    moreover have "x \<noteq> idle_thread k" using x inv by (auto simp: sched_inv_but_def)
    ultimately show ?thesis using kp(1) e by (simp add: sched_inv_but_def)
  qed simp
qed

lemma keeps_dummy_init: "dummy_ok k \<Longrightarrow> keeps k (z_dummy_thread_init k)"
  by (simp add: dummy_init_eq keeps_def dummy_ok_def dummy_idle_def)

lemma keeps_clear_halting: "t \<noteq> thread_dummy k \<Longrightarrow> keeps k (clear_halting t k)"
  unfolding clear_halting_def by (rule keeps_upd_thread) simp_all

lemma killed_state:
  assumes k: "kernel_pre k" and t: "t \<noteq> idle_thread k"
  defines "K \<equiv> clear_halting t (update_cache True (killed t k))"
  shows "sched_inv K" "cache K = best_thread K" "env K = env k" "current K = current k"
    "deadline (tmo k) (ThreadTo x) = None \<Longrightarrow> deadline (tmo K) (ThreadTo x) = None"
proof -
  note D = kernel_preD [OF k]
  note kp = killed_props [OF D(1) t]
  show "sched_inv K" unfolding K_def using kp(1) by (intro clear_halting_inv update_cache_inv)
  have "\<not> metairq_tracked (killed t k)" using D(4) tracked_env [OF kp(7)] by simp
  then have "cache (update_cache True (killed t k)) = best_thread (killed t k)" by (rule cache_update_True)
  moreover have "best_thread K = best_thread (killed t k)" by (rule best_cong) (simp_all add: K_def)
  ultimately show "cache K = best_thread K" by (simp add: K_def)
  show "deadline (tmo k) (ThreadTo x) = None \<Longrightarrow> deadline (tmo K) (ThreadTo x) = None"
    using kp(11) inv_butD(2) [OF kp(1)] by (simp add: K_def update_cache_tmo)
qed (simp_all add: K_def killed_props [OF kernel_preD(1) [OF k] t])

lemma killed_cpu:
  assumes k: "kernel_inv k" and t: "t \<noteq> idle_thread k" "t \<noteq> current k"
    and ok: "in_isr k \<or> waitqs k (JoinQ t) = []"
  shows "cpu_ok (clear_halting t (update_cache True (killed t k)))"
proof -
  note D = kernel_invD [OF k]
  note K = killed_state [OF kernel_inv_pre [OF k] t(1)]
  let ?K = "clear_halting t (update_cache True (killed t k))"
  show ?thesis
  proof (cases "in_isr k")
    case True
    then have "in_isr ?K" using K(3) by (simp add: env_def)
    then show ?thesis using K D(7) by (simp add: cpu_ok_def cache_ok_def)
  next
    case False
    with ok have kj: "killed t k = snd (z_abort_thread_timeout t (unpend_thread_no_timeout t (halted t THREAD_DEAD k)))"
      using killed_unjoined [OF D(1)] by simp
    have "runq ?K = remove1 t (runq k)" using halted_runq [OF D(1)] by (simp add: kj)
    moreover have "thread_is_preemptible (threads ?K x) = thread_is_preemptible (threads k x)" for x
      by (rule preemptible_cong)
        (simp_all add: kj clear_halting_def threads_upd_thread unpend_threads halted_frame)
    ultimately show ?thesis
      using K D(7) t(2) by (intro remove_other_cpu [OF D(5), where t = t]) simp_all
  qed
qed

lemma killed_pre:
  assumes k: "kernel_pre k" and t: "t \<noteq> idle_thread k" "t \<noteq> current k" "t \<noteq> thread_dummy k" "\<not> essential (threads k t)"
  shows "kernel_pre (clear_halting t (update_cache True (killed t k)))"
proof (rule remove_other_pre [OF k _ _ _ _ _ _ disjI2 [OF t(2)]])
  note K = killed_state [OF k t(1)]
  let ?U = "update_cache True (killed t k)" and ?K = "clear_halting t (update_cache True (killed t k))"
  have kU: "keeps k ?U" using keeps_killed [OF k t(1,4)] keeps_update_cache by (rule keeps_trans)
  show "keeps k ?K" using kU keeps_clear_halting t(3) keeps_env(1) [OF kU] by (metis keeps_trans)
  show "sched_inv ?K" "cache ?K = best_thread ?K" "current ?K = current k" by (rule K)+
  show "deadline (tmo ?K) (ThreadTo (current k)) = None" using K(5) kernel_preD(6) [OF k] by simp
  show "set (runq k) \<subseteq> insert t (set (runq ?K))"
    using killed_runq_mono [OF kernel_preD(1) [OF k] t(1)] by simp
qed

lemma abort_cases:
  assumes k: "kernel_pre k" and t: "t \<noteq> idle_thread k" and a: "z_thread_abort t k = Some k'"
  shows "kernel_pre k' \<and> (in_isr k \<or> t = current k \<or> waitqs k (JoinQ t) = [] \<longrightarrow> advances k k')"
proof (cases "THREAD_DEAD \<in> thread_state (threads k t)")
  case True
  with k a show ?thesis by (simp add: z_thread_abort_def advances_refl split: if_splits)
next
  case False
  note D = kernel_preD [OF k]
  let ?U = "update_cache True (killed t k)" and ?K = "clear_halting t (update_cache True (killed t k))"
  note K = killed_state [OF k t]
  have ess: "\<not> essential (threads k t)"
    using a by (auto simp: z_thread_abort_def z_is_thread_essential_def split: if_splits)
  then have nd: "t \<noteq> thread_dummy k" using D(2) by (auto simp: dummy_ok_def)
  have kU: "keeps k ?U" using keeps_killed [OF k t ess] keeps_update_cache by (rule keeps_trans)
  have kK: "keeps k ?K"
    using kU keeps_clear_halting nd keeps_env(1) [OF kU] by (metis keeps_trans)
  have k': "k' = z_thread_halt t True k"
    using a False by (auto simp: z_thread_abort_def split: if_splits)
  note h = halt_dead_eq [OF False]
  have isr: "in_isr ?K = in_isr k" using K(3) by (simp add: env_def)
  consider "t \<noteq> current k" | "t = current k" "in_isr k" | "t = current k" "\<not> in_isr k" by blast
  then show ?thesis
  proof cases
    case 1
    then have "k' = ?K" using K(4) h by (simp add: k' z_thread_halt_def Let_def)
    then show ?thesis
      using kernel_inv_step [OF _ kK K(1)] killed_cpu [OF _ t 1] killed_pre [OF k t 1 nd ess] 1 by (auto simp: advances_def)
  next
    case 3
    then have "k' = do_swap ?K" using K(4) h isr by (simp add: k' z_thread_halt_def Let_def)
    then have "kernel_inv k'"
      using kernel_pre_step [OF k keeps_trans [OF kK keeps_do_swap]] do_swap_inv [OF K(1)] swap_best [OF K(1,2)]
      by simp
    then show ?thesis by (simp add: advancesI kernel_inv_pre)
  next
    case 2
    have dU: "dummy_ok ?U" "dummy_idle ?U" using kU k by (simp_all add: keeps_def kernel_pre_def)
    let ?D = "?K\<lparr>current := thread_dummy ?U\<rparr>"
    have "halt_thread t THREAD_DEAD k = ?D"
      using 2 h dummy_init_eq [OF dU(1)] by (simp add: clear_halting_def upd_thread_def)
    moreover have "in_isr ?D" using isr 2 by simp
    ultimately have k'D: "k' = ?D" by (simp add: k' z_thread_halt_def Let_def)
    have "best_thread ?D = best_thread ?K" by (rule best_cong) simp_all
    then have "cpu_ok ?D" using K(2) dU(2) isr 2 by (simp add: cpu_ok_def cache_ok_def dummy_idle_def)
    moreover have "keeps ?K ?D" by (simp add: keeps_def dummy_ok_def dummy_idle_def)
    ultimately have "kernel_inv k'"
      unfolding k'D using K(1) by (intro kernel_pre_step [OF k keeps_trans [OF kK]]) simp_all
    then show ?thesis by (simp add: advancesI kernel_inv_pre)
  qed
qed
lemmas abort_pre = abort_cases [THEN conjunct1]

lemmas abort_advances = abort_cases [THEN conjunct2, rule_format]

section \<open>Priorities and locks\<close>

lemma locked_not_preemptible: "sched_locked th \<noteq> 0 \<Longrightarrow> \<not> thread_is_preemptible th"
proof -
  assume "sched_locked th \<noteq> 0"
  then have "uint (sched_locked th) \<noteq> 0" by (simp add: uint_0_iff)
  moreover have "0 \<le> uint (sched_locked th)" by simp
  moreover have "0 \<le> prio th mod 256" by simp
  ultimately show ?thesis unfolding thread_is_preemptible_def preempt_def by linarith
qed

lemma running_dummy_free: "kernel_pre k \<Longrightarrow> \<not> in_isr k \<Longrightarrow> current k \<noteq> thread_dummy k"
proof
  assume k: "kernel_pre k" and isr: "\<not> in_isr k" and eq: "current k = thread_dummy k"
  have "z_is_thread_ready k (current k)"
    using k isr runnable_ready [of k] by (simp add: kernel_pre_def)
  with k eq show False by (simp add: kernel_pre_def dummy_ok_def ready_iff)
qed

lemma sched_lock_pre:
  assumes k: "kernel_pre k" and isr: "\<not> in_isr k" and a: "sched_locked (threads k (current k)) \<noteq> 1"
  shows "kernel_inv (k_sched_lock k)"
proof (rule kernel_pre_step [OF k])
  note D = kernel_preD [OF k]
  let ?k = "k_sched_lock k"
  have np: "\<not> thread_is_preemptible (threads ?k (current k))"
    using a by (intro locked_not_preemptible) (simp add: k_sched_lock_def threads_upd_thread)
  have e: "in_isr ?k = in_isr k" "irq_locked ?k = irq_locked k" "runnable ?k = runnable k"
    "best_thread ?k = best_thread k" "cache ?k = cache k" "current ?k = current k" "tmo ?k = tmo k"
    by (simp_all add: k_sched_lock_def upd_thread_def runnable_def best_thread_def split: list.split)
  show "cpu_ok ?k" using D(5-7) np by (auto simp: cpu_ok_def cache_ok_def e)
  show "keeps k ?k"
    unfolding k_sched_lock_def by (rule keeps_upd_thread) (use running_dummy_free [OF k isr] in simp_all)
  show "sched_inv ?k" using D(1) by (rule sched_lock_inv)
qed

lemmas sched_lock_kernel_inv = sched_lock_pre [OF kernel_inv_pre]

lemma sched_unlock_pre:
  assumes k: "kernel_pre k" and isr: "\<not> in_isr k"
  shows "kernel_inv (k_sched_unlock k)"
proof (rule kernel_pre_step [OF k])
  note D = kernel_preD [OF k]
  let ?u = "upd_thread (current k) (\<lambda>th. th\<lparr>sched_locked := sched_locked th + 1\<rparr>) k"
  let ?c = "update_cache False ?u"
  have u: "sched_inv ?u" using D(1) by (rule upd_thread_view_inv) (simp add: sched_view_def)
  have nt: "\<not> metairq_tracked ?u" using D(4) tracked_env [of ?u k] by simp
  have cu: "current k \<in> runnable k" using D(7) isr by simp
  show "cpu_ok (k_sched_unlock k)"
    unfolding k_sched_unlock_def
  proof (rule resched_cpu)
    show "sched_inv ?c" using u by (rule update_cache_inv)
    show "cache_ok ?c" using nt u D(6) by (intro cache_ok_update) simp_all
    show "deadline (tmo ?c) (ThreadTo (current ?c)) = None"
      using D(6) inv_butD(2) [OF D(1)] by (simp add: update_cache_tmo)
    show "current ?c \<in> runnable ?c" using cu by (simp add: runnable_def)
  qed
  have "keeps k ?u" by (rule keeps_upd_thread) (use running_dummy_free [OF k isr] in simp_all)
  then show "keeps k (k_sched_unlock k)"
    unfolding k_sched_unlock_def using keeps_update_cache keeps_reschedule keeps_trans by blast
  show "sched_inv (k_sched_unlock k)" using D(1) by (rule sched_unlock_inv)
qed

lemmas sched_unlock_kernel_inv = sched_unlock_pre [OF kernel_inv_pre]

lemma prio_set_frame:
  assumes inv: "sched_inv k" and t: "t \<noteq> idle_thread k"
  shows "current (snd (z_thread_prio_set t p k)) = current k" "env (snd (z_thread_prio_set t p k)) = env k"
    "set (runq (snd (z_thread_prio_set t p k))) = set (runq k)"
    "timeouts_inv (tmo (snd (z_thread_prio_set t p k)))"
    "deadline (tmo (snd (z_thread_prio_set t p k))) (ThreadTo x) = deadline (tmo k) (ThreadTo x)"
    "fst (z_thread_prio_set t p k) \<longleftrightarrow> t \<in> set (runq k)"
    "t \<notin> set (runq k) \<Longrightarrow> snd (z_thread_prio_set t p k) = set_prio t p k"
    "threads (snd (z_thread_prio_set t p k)) x = (if x = t then (threads k t)\<lparr>prio := p\<rparr> else threads k x)"
proof -
  note q = queued_iff [OF inv, of t]
  have s: "thread_state (threads k t) = insert THREAD_QUEUED (thread_state (threads k t) - {THREAD_QUEUED})"
    if "t \<in> set (runq k)"
    using that q by (auto simp: z_is_thread_queued_def)
  show "threads (snd (z_thread_prio_set t p k)) x = (if x = t then (threads k t)\<lparr>prio := p\<rparr> else threads k x)"
    using inv t q
    by (cases "threads k t")
      (auto simp: z_thread_prio_set_def Let_def ready_runq queue_threads set_prio_def threads_upd_thread
        z_is_thread_queued_def insert_absorb)
qed (use inv_butD(2) [OF inv] inv t inv_distinct [OF inv] in
    \<open>auto simp: z_thread_prio_set_def Let_def ready_runq set_prio_def update_cache_tmo\<close>)

lemma prio_set_cache_ok:
  assumes k: "kernel_pre k" and isr: "\<not> in_isr k" and t: "t \<noteq> idle_thread k"
  shows "cache_ok (snd (z_thread_prio_set t p k))"
proof (cases "t \<in> set (runq k)")
  case True
  note D = kernel_preD [OF k]
  let ?q = "queue_thread t (set_prio t p (dequeue_thread t k))"
  have eq: "snd (z_thread_prio_set t p k) = update_cache True ?q"
    using True D(1) t by (simp add: z_thread_prio_set_def Let_def ready_runq)
  have "\<not> metairq_tracked ?q" using D(4) tracked_env [of ?q k] by (simp add: set_prio_def)
  then show ?thesis unfolding eq by (intro cache_ok_update) simp_all
next
  case False
  note D = kernel_preD [OF k]
  have "current k \<noteq> t" using D(7) [OF isr] False t by (auto simp: runnable_def)
  then show ?thesis
    unfolding prio_set_frame(7) [OF D(1) t False]
    by (intro cache_ok_cong [OF D(5)]) (simp_all add: set_prio_def threads_upd_thread)
qed

lemma keeps_prio_set:
  "sched_inv k \<Longrightarrow> t \<noteq> idle_thread k \<Longrightarrow> t \<noteq> thread_dummy k \<Longrightarrow> keeps k (snd (z_thread_prio_set t p k))"
  by (rule keepsI) (auto simp: prio_set_frame split: if_splits)

lemma prio_set_pre:
  assumes k: "kernel_pre k" and isr: "\<not> in_isr k" and t: "t \<noteq> idle_thread k" "t \<noteq> thread_dummy k"
  shows "kernel_pre (snd (z_thread_prio_set t p k))"
proof (rule kernel_preI [OF k])
  note D = kernel_preD [OF k]
  note f = prio_set_frame [OF D(1) t(1)]
  let ?s = "snd (z_thread_prio_set t p k)"
  show kp: "keeps k ?s" using D(1) t by (rule keeps_prio_set)
  show "sched_inv ?s" using D(1) t(1) by (rule prio_set_inv)
  show "cache_ok ?s" using k isr t(1) by (rule prio_set_cache_ok)
  show "deadline (tmo ?s) (ThreadTo (current ?s)) = None" using D(6) by (simp add: f)
  show "current ?s \<in> runnable ?s"
    using D(7) [OF isr] f(3) keeps_env(2) [OF kp] by (simp add: runnable_def f(1))
qed

lemma priority_set_advances:
  assumes k: "kernel_pre k" and isr: "\<not> in_isr k" and t: "t \<noteq> idle_thread k" "t \<noteq> thread_dummy k"
  shows "advances k (z_impl_k_thread_priority_set t p k)"
proof -
  note D = kernel_preD [OF k]
  let ?s = "snd (z_thread_prio_set t p k)"
  note f = prio_set_frame [OF D(1) t(1)]
  note S = prio_set_pre [OF k isr t, of p]
  note e = keeps_env [OF keeps_prio_set [OF D(1) t, of p]]
  have "advances k ?s" if no: "\<not> (t \<in> set (runq k) \<and> sched_locked (threads ?s (current ?s)) = 0)"
  proof (cases "t \<in> set (runq k)")
    case True
    with no locked_not_preemptible have "\<not> thread_is_preemptible (threads ?s (current ?s))" by blast
    with S kernel_preD [OF S] have "kernel_inv ?s" by (simp add: kernel_inv_def kernel_pre_def cpu_ok_def)
    then show ?thesis by (rule advancesI)
  next
    case False
    have c: "current k \<noteq> t" using D(7) isr False t by (auto simp: runnable_def)
    show ?thesis
      by (rule advances_cong [OF k keeps_prio_set [OF D(1) t] kernel_preD(1) [OF S]])
        (use f c D(6) in \<open>simp_all add: f(7) [OF False] set_prio_def threads_upd_thread\<close>)
  qed
  with advancesI [OF pre_reschedule [OF S], of k] show ?thesis
    using f(6) by (auto simp: z_impl_k_thread_priority_set_def Let_def case_prod_beta)
qed

lemma priority_set_kernel_inv:
  "kernel_inv k \<Longrightarrow> \<not> in_isr k \<Longrightarrow> t \<noteq> idle_thread k \<Longrightarrow> t \<noteq> thread_dummy k \<Longrightarrow>
    kernel_inv (z_impl_k_thread_priority_set t p k)"
  using priority_set_advances kernel_inv_pre advancesD(2) by blast

section \<open>Interrupts\<close>

lemma in_isr_frame [simp]:
  "sched_inv_but X (k\<lparr>in_isr := b\<rparr>) = sched_inv_but X k"
  "dummy_ok (k\<lparr>in_isr := b\<rparr>) = dummy_ok k" "dummy_idle (k\<lparr>in_isr := b\<rparr>) = dummy_idle k"
  "metairq_tracked (k\<lparr>in_isr := b\<rparr>) = metairq_tracked k" "runnable (k\<lparr>in_isr := b\<rparr>) = runnable k"
  "best_thread (k\<lparr>in_isr := b\<rparr>) = best_thread k"
proof -
  show "sched_inv_but X (k\<lparr>in_isr := b\<rparr>) = sched_inv_but X k"
    by (auto simp: sched_inv_but_def wf_queues_def tprio_def ready_iff)
qed (simp_all add: dummy_ok_def dummy_idle_def metairq_tracked_def runnable_def best_thread_def split: list.split)

lemma current_frame [simp]:
  "dummy_ok (k\<lparr>current := c\<rparr>) = dummy_ok k" "dummy_idle (k\<lparr>current := c\<rparr>) = dummy_idle k"
  "metairq_tracked (k\<lparr>current := c\<rparr>) = metairq_tracked k" "runnable (k\<lparr>current := c\<rparr>) = runnable k"
  "best_thread (k\<lparr>current := c\<rparr>) = best_thread k"
  by (simp_all add: dummy_ok_def dummy_idle_def metairq_tracked_def runnable_def best_thread_def split: list.split)

lemma isr_enter_pre: "kernel_pre k \<Longrightarrow> kernel_inv (k\<lparr>in_isr := True\<rparr>)"
  by (simp add: kernel_inv_def kernel_pre_def cpu_ok_def cache_ok_def)

lemma isr_exit_pre:
  assumes k: "kernel_pre k"
  shows "kernel_inv ((z_get_next_switch_handle k)\<lparr>in_isr := False\<rparr>)"
proof -
  note D = kernel_preD [OF k]
  let ?k = "k\<lparr>current := cache k\<rparr>\<lparr>in_isr := False\<rparr>"
  have "deadline (tmo k) (ThreadTo (cache k)) = None"
    using runnable_clear [OF D(1) cache_runnable [OF D(5)]] .
  then have "cpu_ok ?k"
    using D(5) cache_runnable [OF D(5)] by (auto simp: cpu_ok_def cache_ok_def simp del: kernel.update_convs)
  moreover have "sched_inv ?k" using D(1) by (simp only: in_isr_frame current_inv)
  moreover have "dummy_ok ?k \<and> dummy_idle ?k \<and> no_wakes ?k \<and> \<not> metairq_tracked ?k"
    using k by (simp add: kernel_pre_def)
  ultimately show ?thesis by (simp add: kernel_inv_def z_get_next_switch_handle_def)
qed

section \<open>The timer interrupt\<close>

lemma thread_timeout_cache_ok:
  assumes inv: "sched_inv_but {t} k" and t: "t \<noteq> idle_thread k" and nt: "\<not> metairq_tracked k"
    and d: "deadline (tmo k) (ThreadTo (current k)) = None" and c: "cache_ok k"
  shows "cache_ok (z_thread_timeout t k)"
proof -
  let ?k1 = "upd_thread t (\<lambda>th. th\<lparr>no_wake_on_timeout := False\<rparr>) k"
  let ?k4 = "upd_thread t z_mark_thread_as_not_suspended
     (upd_thread t z_mark_thread_as_started (unpend_thread_no_timeout t ?k1))"
  have pr: "thread_is_preemptible (threads ?k1 x) = thread_is_preemptible (threads k x)"
    "thread_is_preemptible (threads ?k4 x) = thread_is_preemptible (threads k x)" for x
    by (rule preemptible_cong; simp add: threads_upd_thread unpend_threads z_mark_thread_as_started_def
        z_mark_thread_as_not_suspended_def)+
  have k1: "sched_inv_but {t} ?k1" using inv by (rule upd_thread_view_inv) (simp add: sched_view_def)
  have k4: "sched_inv_but {t} ?k4"
    using mark_not_suspended_inv [OF mark_started_inv [OF unpend_inv [OF k1]], of t t t] by simp
  have "cache_ok ?k1" by (rule cache_ok_cong [OF c]) (simp_all add: pr)
  moreover have "cache_ok ?k4" by (rule cache_ok_cong [OF c]) (simp_all add: pr)
  then have "cache_ok (ready_thread t ?k4)"
    using k4 t d nt tracked_env [of ?k4 k] by (intro ready_cache_ok) simp_all
  ultimately show ?thesis
    by (auto simp: z_thread_timeout_def z_sched_wake_thread_def Let_def z_unpend_no_timeout_eq)
qed

lemma announce_pass_cache_ok:
  assumes inv: "sched_inv k" and nt: "\<not> metairq_tracked k"
    and d: "deadline (tmo k) (ThreadTo (current k)) = None" and c: "cache_ok k"
    and due: "announce_due (tmo k) = Some e"
  shows "cache_ok (announce_pass e k)"
proof -
  obtain ts where l: "timeout_list (tmo k) = e # ts" using announce_dueD [OF due] by blast
  let ?k1 = "k\<lparr>tmo := announce_pop e (tmo k)\<rparr>"
  note ti = inv_butD(2) [OF inv]
  have fn: "fn_for (to_id e) (to_fn e)" using ti l by (simp add: timeouts_inv_def)
  have c1: "cache_ok ?k1" by (rule cache_ok_cong [OF c]) simp_all
  have "cache_ok (run_timeout e ?k1)"
  proof (cases "to_id e")
    case (ThreadTo t)
    have "t \<noteq> idle_thread k"
      using ThreadTo l ready_clear(2) [OF inv idle_ready [OF inv]] by (auto simp: deadline_def)
    moreover have "sched_inv_but {t} ?k1" using pop_inv [OF inv l] ThreadTo by simp
    moreover have "deadline (tmo ?k1) (ThreadTo (current ?k1)) = None"
      using d by (simp add: announce_pop_deadline [OF ti l])
    ultimately have "cache_ok (z_thread_timeout t ?k1)"
      using nt c1 tracked_env [of ?k1 k] by (intro thread_timeout_cache_ok) simp_all
    then show ?thesis using fn ThreadTo by (simp add: run_timeout_def)
  next
    case SliceTo
    then have "run_timeout e ?k1 = ?k1\<lparr>slice_expired := True\<rparr>" using fn by (simp add: run_timeout_def slice_timeout_def)
    moreover have "cache_ok (?k1\<lparr>slice_expired := True\<rparr>)" by (rule cache_ok_cong [OF c1]) simp_all
    ultimately show ?thesis by simp
  qed
  then show ?thesis unfolding announce_pass_def Let_def by (rule cache_ok_cong) simp_all
qed

lemma announce_loop_cache_ok:
  assumes "announce_loop n k = Some k'" "sched_inv k" "no_wakes k" "\<not> metairq_tracked k"
    "deadline (tmo k) (ThreadTo (current k)) = None" "cache_ok k"
  shows "cache_ok k'"
  using assms
proof (induction n arbitrary: k)
  case (Suc n)
  show ?case
  proof (cases "announce_due (tmo k)")
    case None
    with Suc.prems show ?thesis by (simp add: announce_loop_Suc)
  next
    case (Some e)
    let ?p = "announce_pass e k"
    have rel: "pass_rel e k ?p" using Suc.prems Some by (intro announce_pass_rel)
    have "cache_ok ?p" using Suc.prems Some by (intro announce_pass_cache_ok)
    moreover have "deadline (tmo ?p) (ThreadTo (current ?p)) = None"
      using rel Suc.prems(5) by (simp add: pass_rel_def)
    moreover have "\<not> metairq_tracked ?p" using rel Suc.prems(4) tracked_env [of ?p k] by (simp add: pass_rel_def)
    moreover have "sched_inv ?p" "no_wakes ?p" using rel by (simp_all add: pass_rel_def)
    ultimately show ?thesis using Suc.IH Suc.prems(1) Some by (simp add: announce_loop_Suc)
  qed
qed simp

lemma time_slice_cache_ok:
  assumes "\<not> metairq_tracked k" "cache_ok k"
  shows "cache_ok (z_time_slice k)"
proof -
  let ?c = "current k"
  let ?q = "queue_thread ?c (if z_is_thread_queued (threads k ?c) then dequeue_thread ?c k else k)"
  let ?u = "update_cache True ?q"
  have "\<not> metairq_tracked ?q" using assms(1) tracked_env [of ?q k] by simp
  then have "cache_ok ?u" by (intro cache_ok_update) simp_all
  then have "cache_ok (z_reset_time_slice ?c ?u)" by (rule cache_ok_cong) simp_all
  moreover have "z_time_slice k = z_reset_time_slice ?c ?u \<or> z_time_slice k = k"
    by (auto simp: z_time_slice_def Let_def move_thread_to_end_of_prio_q_def thread_is_sliceable_def)
  ultimately show ?thesis using assms(2) by auto
qed

lemma announce_pre:
  assumes k: "kernel_pre k" and isr: "in_isr k" and a: "sys_clock_announce n k = Some k'"
  shows "kernel_inv k'"
proof -
  note D = kernel_preD [OF k]
  obtain k1 where l: "announce_loop (announce_fuel k) (k\<lparr>tmo := announce_begin n (tmo k)\<rparr>) = Some k1"
    and k': "k' = z_time_slice (k1\<lparr>tmo := announce_end (tmo k1)\<rparr>)"
    using a by (auto simp: sys_clock_announce_def split: option.splits)
  let ?k0 = "k\<lparr>tmo := announce_begin n (tmo k)\<rparr>" and ?k2 = "k1\<lparr>tmo := announce_end (tmo k1)\<rparr>"
  have k0: "sched_inv ?k0" by (rule inv_but_cong [OF D(1)]) (use inv_butD(2) [OF D(1)] in simp_all)
  have rel: "loop_rel ?k0 k1" using announce_loop_effect [OF l k0] D(3) by simp
  have "cache_ok ?k0" by (rule cache_ok_cong [OF D(5)]) simp_all
  then have "cache_ok k1"
    using announce_loop_cache_ok [OF l k0] D(3,4,6) tracked_env [of ?k0 k] by simp
  then have "cache_ok ?k2" by (rule cache_ok_cong) simp_all
  then have c: "cache_ok k'"
    unfolding k' using D(4) tracked_env [of ?k2 k] rel by (intro time_slice_cache_ok) (simp_all add: loop_rel_def)
  obtain k'' where K: "sys_clock_announce n k = Some k''" "sched_inv k''" "current k'' = current k"
    "\<And>t. deadline (tmo k'') (ThreadTo t) = after_ticks n n (deadline (tmo k) (ThreadTo t))"
    "\<And>t. (\<And>x. deadline (tmo k) (ThreadTo t) = Some x \<Longrightarrow> n < x) \<Longrightarrow> threads k'' t = threads k t"
    "no_wakes k''" "env k'' = env k"
    using announce_total [OF D(1) D(3) D(6), of n] by metis
  then have eq: "k'' = k'" using a by simp
  have dd: "deadline (tmo k) (ThreadTo (thread_dummy k)) = None" using k by (simp add: kernel_pre_def dummy_idle_def)
  have td: "thread_dummy k' = thread_dummy k" using env_dummy [OF K(7)] eq by simp
  have "threads k' (thread_dummy k) = threads k (thread_dummy k)" using K(5) [of "thread_dummy k"] dd eq by simp
  then have "dummy_ok k'" using td by (intro dummy_ok_cong [OF D(2)])
  moreover have "dummy_idle k'"
    using K(2,4) eq dd inv_butD(2) [of "{}" k'] by (simp add: dummy_idle_def after_ticks_def td)
  moreover have "in_isr k'" using isr K(7) eq by (simp add: env_def)
  ultimately show ?thesis
    using K(2,3,4,6,7) eq c D(4,6) tracked_env [of k' k]
    by (simp add: kernel_inv_def cpu_ok_def after_ticks_def)
qed

section \<open>Creating threads\<close>

lemma cpu_ok_cong:
  assumes "cpu_ok k" "env k' = env k" "cache k' = cache k" "current k' = current k" "runq k' = runq k"
    "thread_is_preemptible (threads k' (current k)) = thread_is_preemptible (threads k (current k))"
    "deadline (tmo k') (ThreadTo (current k)) = None"
  shows "cpu_ok k'"
proof -
  have e: "idle_thread k' = idle_thread k" "in_isr k' = in_isr k" "irq_locked k' = irq_locked k"
    using assms(2) by (simp_all add: env_def)
  have c: "cache_ok k" using assms(1) unfolding cpu_ok_def by blast
  have "cache_ok k'" by (rule cache_ok_cong [OF c assms(3-5) e(1) assms(6)])
  moreover have "runnable k' = runnable k" by (simp add: runnable_def assms(5) e(1))
  ultimately show ?thesis
    using assms(1) unfolding cpu_ok_def assms(3,4,6,7) e by simp
qed

text \<open>Changing fields of a thread that the scheduler does not read.\<close>

lemma upd_kernel_inv:
  assumes k: "kernel_inv k" and t: "t \<noteq> thread_dummy k"
    and f: "\<And>th. sched_view (f th) = sched_view th" "\<And>th. sched_locked (f th) = sched_locked th"
      "\<And>th. no_wake_on_timeout (f th) \<Longrightarrow> no_wake_on_timeout th"
  shows "kernel_inv (upd_thread t f k)"
proof (rule kernel_inv_step [OF k])
  note D = kernel_invD [OF k]
  show "keeps k (upd_thread t f k)" by (rule keeps_upd_thread [OF t f(3)])
  show "sched_inv (upd_thread t f k)" using D(1) f(1) by (simp add: upd_thread_view_inv)
  have "thread_is_preemptible (threads (upd_thread t f k) (current k)) = thread_is_preemptible (threads k (current k))"
    by (rule preemptible_cong) (use f in \<open>auto simp: threads_upd_thread sched_view_def\<close>)
  then show "cpu_ok (upd_thread t f k)" using cpu_ok_cong [OF D(5), of "upd_thread t f k"] D(7) by simp
qed

lemma unused_not_current:
  assumes "kernel_pre k" "\<not> in_isr k" "unused t k"
  shows "t \<noteq> current k"
proof
  assume "t = current k"
  moreover have "z_is_thread_ready k (current k)"
    using assms(1,2) runnable_ready [of k "current k"] by (simp add: kernel_pre_def)
  ultimately show False using assms(3) by (simp add: unused_def)
qed

lemma setup_advances:
  assumes k: "kernel_pre k" and isr: "\<not> in_isr k" and u: "unused t k" and t: "t \<noteq> thread_dummy k"
  shows "advances k (z_setup_new_thread t p ess k)"
proof -
  note D = kernel_preD [OF k]
  note tc = unused_not_current [OF k isr u]
  let ?s = "z_setup_new_thread t p ess k"
  have th: "threads ?s x = threads k x" if "x \<noteq> t" for x
    using that by (simp add: z_setup_new_thread_def threads_upd_thread)
  have f: "env ?s = env k" "cache ?s = cache k" "current ?s = current k" "runq ?s = runq k" "tmo ?s = tmo k"
    by (simp_all add: z_setup_new_thread_def)
  have nw: "\<not> no_wake_on_timeout (threads ?s t)" by (simp add: z_setup_new_thread_def threads_upd_thread)
  have "keeps k ?s"
  proof (rule keepsI)
    show "no_wake_on_timeout (threads k x)" if "no_wake_on_timeout (threads ?s x)" for x
      using that nw th [of x] by (cases "x = t") simp_all
  qed (use th [of "thread_dummy k"] t f in simp_all)
  then show ?thesis by (rule advances_cong [OF k _ setup_inv [OF D(1) u]]) (use f th tc D(6) in auto)
qed

lemma setup_kernel_inv:
  "kernel_inv k \<Longrightarrow> \<not> in_isr k \<Longrightarrow> unused t k \<Longrightarrow> t \<noteq> thread_dummy k \<Longrightarrow> kernel_inv (z_setup_new_thread t p ess k)"
  using setup_advances kernel_inv_pre advancesD(2) by blast

lemma schedule_new_advances:
  assumes s: "kernel_pre s" and isr: "\<not> in_isr s" and t: "t \<noteq> idle_thread s" "t \<noteq> thread_dummy s"
    and d: "deadline (tmo s) (ThreadTo t) = None" and p: "THREAD_PRESTART \<in> thread_state (threads s t)"
  shows "advances s (thread_schedule_new t delay s)"
proof -
  note S = kernel_preD [OF s]
  have r: "\<not> z_is_thread_ready s t" using p by (auto simp: ready_iff)
  moreover have "z_is_thread_ready s (current s)"
    using s isr runnable_ready [OF S(1), of "current s"] by (simp add: kernel_pre_def)
  ultimately have tc: "t \<noteq> current s" by auto
  have "sched_inv (z_add_thread_timeout t delay s)"
    using S(1) not_queued_not_ready [OF S(1) r] t(1) d by (rule add_timeout_inv)
  then have "advances s (z_add_thread_timeout t delay s)"
    by (rule advances_cong [OF s keeps_add_timeout [OF t(2) d]])
      (use S(6) tc d inv_butD(2) [OF S(1)] in \<open>simp_all add: tq.arm_other\<close>)
  then show ?thesis using start_advances [OF s t] by (simp add: thread_schedule_new_def)
qed

lemma schedule_new_kernel_inv:
  assumes "kernel_inv s" "\<not> in_isr s" "t \<noteq> idle_thread s" "t \<noteq> thread_dummy s"
    "deadline (tmo s) (ThreadTo t) = None" "THREAD_PRESTART \<in> thread_state (threads s t)"
  shows "kernel_inv (thread_schedule_new t delay s)"
  using advancesD(2) [OF schedule_new_advances [OF kernel_inv_pre [OF assms(1)] assms(2-)] assms(1)] .

lemma setup_frame [simp]:
  "env (z_setup_new_thread t p ess k) = env k" "idle_thread (z_setup_new_thread t p ess k) = idle_thread k"
  "tmo (z_setup_new_thread t p ess k) = tmo k" "current (z_setup_new_thread t p ess k) = current k"
  "x \<noteq> t \<Longrightarrow> threads (z_setup_new_thread t p ess k) x = threads k x"
  "thread_state (threads (z_setup_new_thread t p ess k) t) = {THREAD_PRESTART}"
  by (simp_all add: z_setup_new_thread_def threads_upd_thread z_init_thread_base_def)

lemma env_isr: "env k' = env k \<Longrightarrow> in_isr k' = in_isr k"
  by (simp add: env_def)

lemma create_advances:
  assumes k: "kernel_pre k" and isr: "\<not> in_isr k" and u: "unused t k" and t: "t \<noteq> thread_dummy k"
  shows "advances k (z_impl_k_thread_create t p ess delay k)"
proof -
  let ?s = "z_setup_new_thread t p ess k"
  have s: "advances k ?s" using assms by (rule setup_advances)
  have ti: "t \<noteq> idle_thread k" using idle_ready [OF kernel_preD(1) [OF k]] u by (auto simp: unused_def)
  have "advances ?s (thread_schedule_new t delay ?s)"
    using advancesD(1) [OF s] isr ti t u env_dummy [of ?s k] env_isr [of ?s k]
    by (intro schedule_new_advances) (simp_all add: unused_def)
  then show ?thesis using s advances_trans by (auto simp: z_impl_k_thread_create_def Let_def)
qed

section \<open>Steps and reachable states\<close>

text \<open>
  The calls that have a scheduling point wherever one is needed, interrupts and announcements. The calls for a given
  thread are not made for the idle and the dummy thread. Aborting a thread is such a call when it is the running one,
  when no thread joins it, or in an interrupt.
\<close>

inductive sched_step :: "kernel \<Rightarrow> kernel \<Rightarrow> bool" where
  create: "\<not> in_isr k \<Longrightarrow> unused t k \<Longrightarrow> t \<noteq> thread_dummy k \<Longrightarrow> sched_step k (z_impl_k_thread_create t p ess delay k)"
| start: "t \<noteq> idle_thread k \<Longrightarrow> t \<noteq> thread_dummy k \<Longrightarrow> sched_step k (z_sched_start t k)"
| suspend: "t \<noteq> idle_thread k \<Longrightarrow> t \<noteq> thread_dummy k \<Longrightarrow> sched_step k (z_impl_k_thread_suspend t k)"
| resume: "t \<noteq> idle_thread k \<Longrightarrow> t \<noteq> thread_dummy k \<Longrightarrow> sched_step k (z_impl_k_thread_resume t k)"
| wakeup: "t \<noteq> idle_thread k \<Longrightarrow> t \<noteq> thread_dummy k \<Longrightarrow> sched_step k (z_impl_k_wakeup t k)"
| abort: "t \<noteq> idle_thread k \<Longrightarrow> in_isr k \<or> t = current k \<or> waitqs k (JoinQ t) = [] \<Longrightarrow>
    z_thread_abort t k = Some k' \<Longrightarrow> sched_step k k'"
| join: "running k \<Longrightarrow> sched_step k (snd (z_impl_k_thread_join t n k))"
| yield: "running k \<Longrightarrow> sched_step k (z_impl_k_yield k)"
| sleep: "running k \<Longrightarrow> sched_step k (snd (z_tick_sleep n k))"
| priority: "\<not> in_isr k \<Longrightarrow> t \<noteq> idle_thread k \<Longrightarrow> t \<noteq> thread_dummy k \<Longrightarrow>
    sched_step k (z_impl_k_thread_priority_set t p k)"
| lock: "\<not> in_isr k \<Longrightarrow> sched_locked (threads k (current k)) \<noteq> 1 \<Longrightarrow> sched_step k (k_sched_lock k)"
| unlock: "\<not> in_isr k \<Longrightarrow> sched_step k (k_sched_unlock k)"
| pend: "running k \<Longrightarrow> sched_step k (z_pend_curr w n k)"
| wake: "waitqs k w = t # ts \<Longrightarrow> swap_fn f \<Longrightarrow> sched_step k (z_reschedule (woken_with f t k))"
| isr_enter: "sched_step k (k\<lparr>in_isr := True\<rparr>)"
| isr_exit: "sched_step k ((z_get_next_switch_handle k)\<lparr>in_isr := False\<rparr>)"
| tick: "in_isr k \<Longrightarrow> sys_clock_announce n k = Some k' \<Longrightarrow> sched_step k k'"

text \<open>
  All steps: also those after which the code has no scheduling point. These are the abort of any thread, the change of
  a priority that a mutex makes (\<open>adjust_owner_prio\<close> of \<open>kernel/mutex.c\<close>), and the wake-up of a waiting thread by an
  object that goes on before it calls the scheduler.
\<close>

inductive kstep :: "kernel \<Rightarrow> kernel \<Rightarrow> bool" where
  sched: "sched_step k k' \<Longrightarrow> kstep k k'"
| abort: "t \<noteq> idle_thread k \<Longrightarrow> z_thread_abort t k = Some k' \<Longrightarrow> kstep k k'"
| inherit: "\<not> in_isr k \<Longrightarrow> t \<noteq> idle_thread k \<Longrightarrow> t \<noteq> thread_dummy k \<Longrightarrow> kstep k (snd (z_thread_prio_set t p k))"
| ready: "waitqs k w = t # ts \<Longrightarrow> swap_fn f \<Longrightarrow> kstep k (woken_with f t k)"

lemma pend_curr_pre: "kernel_pre k \<Longrightarrow> running k \<Longrightarrow> kernel_inv (z_pend_curr w n k)"
  unfolding z_pend_curr_def by (rule pend_pre)

lemmas pend_curr_kernel_inv = pend_curr_pre [OF kernel_inv_pre]

lemma join_advances:
  assumes k: "kernel_pre k" and run: "running k"
  shows "advances k (snd (z_impl_k_thread_join t n k))"
  using advances_refl [OF k] advancesI [OF pend_pre [OF k run, of "JoinQ t" n]]
  by (simp add: z_impl_k_thread_join_def pend_locked_def)

lemma sched_step_advances: "sched_step k k' \<Longrightarrow> kernel_pre k \<Longrightarrow> advances k k'"
proof (induction rule: sched_step.induct)
  case (wake k w t ts f)
  then show ?case using woken_with_pre pre_reschedule advancesI by blast
qed (blast intro: create_advances start_advances suspend_advances resume_advances wakeup_advances abort_advances
    join_advances priority_set_advances
    advancesI [OF yield_pre] advancesI [OF sleep_pre] advancesI [OF sched_lock_pre] advancesI [OF sched_unlock_pre]
    advancesI [OF pend_curr_pre] advancesI [OF isr_enter_pre] advancesI [OF isr_exit_pre] advancesI [OF announce_pre])+

lemma sched_step_inv: "sched_step k k' \<Longrightarrow> kernel_inv k \<Longrightarrow> kernel_inv k'"
  using sched_step_advances kernel_inv_pre advancesD(2) by blast

lemma sched_steps_inv: "sched_step\<^sup>*\<^sup>* k k' \<Longrightarrow> kernel_inv k \<Longrightarrow> kernel_inv k'"
  by (induction rule: rtranclp_induct) (auto intro: sched_step_inv)

lemma kstep_pre: "kstep k k' \<Longrightarrow> kernel_pre k \<Longrightarrow> kernel_pre k'"
  by (induction rule: kstep.induct) (blast intro: advancesD(1) [OF sched_step_advances] abort_pre prio_set_pre woken_with_pre)+

lemma reachable_pre: "kstep\<^sup>*\<^sup>* k k' \<Longrightarrow> kernel_pre k \<Longrightarrow> kernel_pre k'"
  by (induction rule: rtranclp_induct) (auto intro: kstep_pre)

end
