(* ===== verification/Boot.thy ===== *)
theory Boot
  imports Sched_Run
begin

text \<open>
  The start of the kernel, \<open>kernel/init.c\<close>: from zeroed data to the main thread running, and the
  start of the static threads. The kernel state this leaves is the one every run begins with, so
  the invariant of \<open>Sched_Run\<close> holds in all runs.

  A thread identifier whose thread has not been created stands for a block that is not a thread; it
  carries \<open>THREAD_PRESTART\<close>, the flag \<open>z_setup_new_thread\<close> gives a thread that must not run yet.
\<close>

section \<open>Operations\<close>

definition blank_thread :: k_thread where
  "blank_thread =
     \<lparr>prio = 0, sched_locked = 0, thread_state = {THREAD_PRESTART}, essential = False, pended_on = None,
      swap_retval = 0, swap_data = 0, events = 0, event_options = 0, no_wake_on_timeout = False,
      next_event_link = None\<rparr>"

definition init_ready_q :: "kernel \<Rightarrow> kernel" where
  "init_ready_q k = k\<lparr>runq := []\<rparr>"

definition z_sched_init :: "kernel \<Rightarrow> kernel" where
  "z_sched_init k = init_ready_q k"

abbreviation (input) K_IDLE_PRIO :: "kernel \<Rightarrow> int" where
  "K_IDLE_PRIO k \<equiv> num_preempt k"

definition init_idle_thread :: "tid \<Rightarrow> kernel \<Rightarrow> kernel" where
  "init_idle_thread idle k =
     upd_thread idle z_mark_thread_as_started (z_setup_new_thread idle (K_IDLE_PRIO k) True k)"

definition z_init_cpu :: "tid \<Rightarrow> kernel \<Rightarrow> kernel" where
  "z_init_cpu idle k = (init_idle_thread idle k)\<lparr>idle_thread := idle\<rparr>"

definition prepare_multithreading :: "tid \<Rightarrow> int \<Rightarrow> tid \<Rightarrow> kernel \<Rightarrow> kernel" where
  "prepare_multithreading z_main_thread main_prio idle k =
     (let k1 = (z_sched_init k)\<lparr>cache := z_main_thread\<rparr>;
          k2 = z_setup_new_thread z_main_thread main_prio True k1;
          k3 = upd_thread z_main_thread z_mark_thread_as_started k2;
          k4 = z_ready_thread z_main_thread k3
      in z_init_cpu idle k4)"

definition switch_to_main_thread :: "kernel \<Rightarrow> kernel" where
  "switch_to_main_thread k = do_swap k"

definition z_cstart :: "tid \<Rightarrow> int \<Rightarrow> tid \<Rightarrow> kernel \<Rightarrow> kernel" where
  "z_cstart z_main_thread main_prio idle k =
     switch_to_main_thread (prepare_multithreading z_main_thread main_prio idle (z_dummy_thread_init k))"

text \<open>The static threads: identifier, priority, whether essential, and delay of each.\<close>

type_synonym static_thread = "tid \<times> int \<times> bool \<times> k_ticks_t"

fun setup_static_threads :: "static_thread list \<Rightarrow> kernel \<Rightarrow> kernel" where
  "setup_static_threads [] k = k"
| "setup_static_threads ((t, p, ess, delay) # ts) k = setup_static_threads ts (z_setup_new_thread t p ess k)"

fun schedule_static_threads :: "static_thread list \<Rightarrow> kernel \<Rightarrow> kernel" where
  "schedule_static_threads [] k = k"
| "schedule_static_threads ((t, p, ess, delay) # ts) k =
     schedule_static_threads ts (if delay \<noteq> K_FOREVER then thread_schedule_new t delay k else k)"

definition z_init_static_threads :: "static_thread list \<Rightarrow> kernel \<Rightarrow> kernel" where
  "z_init_static_threads ts k =
     k_sched_unlock (schedule_static_threads ts (k_sched_lock (setup_static_threads ts k)))"

section \<open>The state the boot leaves\<close>

text \<open>The state in which \<open>z_cstart\<close> is entered: the data segment is zeroed.\<close>

definition zeroed :: "kernel \<Rightarrow> bool" where
  "zeroed k \<longleftrightarrow>
     threads k = (\<lambda>_. blank_thread) \<and> waitqs k = (\<lambda>_. []) \<and> timeout_list (tmo k) = [] \<and>
     0 \<le> clk_elapsed (tmo k) \<and> \<not> metairq_tracked k"

lemma empty_deadline: "timeout_list s = [] \<Longrightarrow> deadline s i = None"
  by (simp add: deadline_def)

lemma zeroed_tmo: "zeroed k \<Longrightarrow> timeouts_inv (tmo k) \<and> (\<forall>i. deadline (tmo k) i = None)"
  by (simp add: zeroed_def timeouts_inv_def empty_deadline)

text \<open>The first thread made ready, while the dummy thread runs.\<close>

lemma ready_first:
  assumes "runq k = []" "\<not> metairq_tracked k" "z_is_thread_ready k m" "thread_state (threads k m) = {}"
    "THREAD_DUMMY \<in> thread_state (threads k (current k))" "timeouts_inv (tmo k)"
  shows "threads (z_ready_thread m k) = (threads k)(m := (threads k m)\<lparr>thread_state := {THREAD_QUEUED}\<rparr>)"
    "runq (z_ready_thread m k) = [m]" "cache (z_ready_thread m k) = m"
    "timeouts_inv (tmo (z_ready_thread m k))"
    "deadline (tmo (z_ready_thread m k)) (ThreadTo x) = deadline (tmo k) (ThreadTo x)"
proof -
  have q: "\<not> z_is_thread_queued (threads k m)" using assms(4) by (simp add: z_is_thread_queued_def)
  have "current k \<noteq> m" using assms(4,5) by auto
  then have p: "z_is_thread_prevented_from_running (threads (queue_thread m k) (current k))"
    using assms(5) by (auto simp: queue_threads z_is_thread_prevented_from_running_def)
  have "runq (queue_thread m k) = [m]" using assms(1) by simp
  then have n: "next_up (queue_thread m k) = (m, queue_thread m k)"
    using assms(2) tracked_env [of "queue_thread m k" k] by (simp add: next_up_untracked best_thread_def)
  show "threads (z_ready_thread m k) = (threads k)(m := (threads k m)\<lparr>thread_state := {THREAD_QUEUED}\<rparr>)"
    using q assms(3,4) by (simp add: z_ready_thread_def ready_thread_threads fun_eq_iff)
  show "runq (z_ready_thread m k) = [m]"
    using q assms(1,3) by (simp add: z_ready_thread_def ready_thread_def)
  show "cache (z_ready_thread m k) = m"
    using q assms(3) p n by (simp add: z_ready_thread_def ready_thread_def update_cache_def should_preempt_def)
  show "timeouts_inv (tmo (z_ready_thread m k))"
    "deadline (tmo (z_ready_thread m k)) (ThreadTo x) = deadline (tmo k) (ThreadTo x)"
    using assms(6) by (simp_all add: z_ready_thread_def ready_thread_def update_cache_tmo)
qed

text \<open>The state after each part of the boot.\<close>

definition boot_main :: "tid \<Rightarrow> int \<Rightarrow> kernel \<Rightarrow> kernel" where
  "boot_main m p k = upd_thread m z_mark_thread_as_started
    (z_setup_new_thread m p True ((z_sched_init (z_dummy_thread_init k))\<lparr>cache := m\<rparr>))"

lemma z_cstart_eq: "z_cstart m p idle k = do_swap (z_init_cpu idle (z_ready_thread m (boot_main m p k)))"
  by (simp add: z_cstart_def switch_to_main_thread_def prepare_multithreading_def boot_main_def Let_def)

lemma boot_main_facts:
  assumes "zeroed k" "m \<noteq> thread_dummy k"
  shows "threads (boot_main m p k) = (\<lambda>_. blank_thread)
      (thread_dummy k := blank_thread\<lparr>thread_state := {THREAD_DUMMY}, essential := True\<rparr>,
       m := blank_thread\<lparr>prio := p, thread_state := {}, essential := True\<rparr>)"
    "runq (boot_main m p k) = []" "current (boot_main m p k) = thread_dummy k" "waitqs (boot_main m p k) = (\<lambda>_. [])"
    "tmo (boot_main m p k) = tmo k" "env (boot_main m p k) = env k"
  using assms
  by (auto simp: boot_main_def z_setup_new_thread_def z_sched_init_def init_ready_q_def z_dummy_thread_init_def
      upd_thread_def zeroed_def z_init_thread_base_def z_mark_thread_as_started_def blank_thread_def fun_eq_iff env_def)

lemma init_cpu_facts:
  "threads (z_init_cpu idle k) = (threads k)
     (idle := (threads k idle)\<lparr>prio := num_preempt k, sched_locked := 0, thread_state := {}, essential := True,
        pended_on := None, no_wake_on_timeout := False\<rparr>)"
  "runq (z_init_cpu idle k) = runq k" "current (z_init_cpu idle k) = current k" "cache (z_init_cpu idle k) = cache k"
  "waitqs (z_init_cpu idle k) = (waitqs k)(JoinQ idle := [])" "tmo (z_init_cpu idle k) = tmo k"
  "idle_thread (z_init_cpu idle k) = idle"
  "env (z_init_cpu idle k) = (idle, snd (env k))"
  by (auto simp: z_init_cpu_def init_idle_thread_def z_setup_new_thread_def upd_thread_def z_init_thread_base_def
      z_mark_thread_as_started_def fun_eq_iff env_def)

lemma num_preempt_env: "env k' = env k \<Longrightarrow> num_preempt k' = num_preempt k"
  by (simp add: env_def)

lemma boot_facts:
  assumes z: "zeroed k" and d: "distinct [m, idle, thread_dummy k]" and K: "K = z_cstart m p idle k"
  shows "threads K = (\<lambda>_. blank_thread)
      (m := blank_thread\<lparr>prio := p, thread_state := {THREAD_QUEUED}, essential := True\<rparr>,
       idle := blank_thread\<lparr>prio := num_preempt k, thread_state := {}, essential := True\<rparr>,
       thread_dummy k := blank_thread\<lparr>thread_state := {THREAD_DUMMY}, essential := True, swap_retval := - EAGAIN\<rparr>)"
    and "runq K = [m]" "waitqs K = (\<lambda>_. [])" "cache K = m" "current K = m" "idle_thread K = idle"
    and "env K = (idle, snd (env k))" "timeouts_inv (tmo K)" "deadline (tmo K) (ThreadTo x) = None"
proof -
  let ?M = "boot_main m p k"
  let ?R = "z_ready_thread m ?M"
  let ?C = "z_init_cpu idle ?R"
  have M: "m \<noteq> thread_dummy k" using d by simp
  note F = boot_main_facts [OF z M, where p = p]
  have tm: "timeouts_inv (tmo ?M)" "deadline (tmo ?M) (ThreadTo y) = None" for y
    using zeroed_tmo [OF z] by (simp_all add: F)
  have "z_is_thread_ready ?M m"
    using tm(2) [of m] by (simp add: ready_iff F(1))
  moreover have "\<not> metairq_tracked ?M" using z tracked_env [OF F(6)] by (simp add: zeroed_def)
  ultimately have R: "threads ?R = (threads ?M)(m := (threads ?M m)\<lparr>thread_state := {THREAD_QUEUED}\<rparr>)"
    "runq ?R = [m]" "cache ?R = m" "timeouts_inv (tmo ?R)" "deadline (tmo ?R) (ThreadTo y) = None" for y
    using ready_first [of ?M m] F tm M by simp_all
  have e: "env ?R = env k" "current ?R = thread_dummy k" by (simp_all add: z_ready_thread_def F)
  show "threads K = (\<lambda>_. blank_thread)
      (m := blank_thread\<lparr>prio := p, thread_state := {THREAD_QUEUED}, essential := True\<rparr>,
       idle := blank_thread\<lparr>prio := num_preempt k, thread_state := {}, essential := True\<rparr>,
       thread_dummy k := blank_thread\<lparr>thread_state := {THREAD_DUMMY}, essential := True, swap_retval := - EAGAIN\<rparr>)"
    using d num_preempt_env [OF e(1)]
    by (auto simp: K z_cstart_eq do_swap_threads init_cpu_facts R F e(2) fun_eq_iff blank_thread_def)
  show "runq K = [m]" "cache K = m" "current K = m" "idle_thread K = idle" "env K = (idle, snd (env k))"
    by (simp_all add: K z_cstart_eq swap_current init_cpu_facts R e)
  show "waitqs K = (\<lambda>_. [])"
    by (simp add: K z_cstart_eq init_cpu_facts z_ready_thread_def F fun_eq_iff)
  show "timeouts_inv (tmo K)" "deadline (tmo K) (ThreadTo x) = None"
    using R by (simp_all add: K z_cstart_eq do_swap_tmo init_cpu_facts)
qed

lemma cstart_kernel_inv:
  assumes z: "zeroed k" and d: "distinct [m, idle, thread_dummy k]"
  shows "kernel_inv (z_cstart m p idle k)"
proof -
  let ?K = "z_cstart m p idle k"
  note F = boot_facts [OF z d refl, where p = p]
  have e: "thread_dummy ?K = thread_dummy k" "metairq_tracked ?K = metairq_tracked k"
    using F(7) by (simp_all add: env_def metairq_tracked_def)
  have r: "z_is_thread_ready ?K t \<longleftrightarrow> t = m \<or> t = idle" for t
    using d F(9) [of t]
    by (auto simp: ready_iff F(1) blank_thread_def)
  have "wf_queues ?K"
    using d F(8) by (auto simp: wf_queues_def F(1-3) z_is_thread_queued_def blank_thread_def)
  then have "sched_inv ?K" using d by (auto simp: sched_inv_but_def r F)
  moreover have "dummy_ok ?K" "dummy_idle ?K"
    using F(8,9) by (simp_all add: dummy_ok_def dummy_idle_def e F(1) blank_thread_def)
  moreover have "no_wakes ?K" by (auto simp: F(1) blank_thread_def)
  moreover have "cpu_ok ?K" by (simp add: cpu_ok_def cache_ok_def best_thread_def runnable_def F)
  ultimately show ?thesis using z e by (simp add: kernel_inv_def zeroed_def)
qed

section \<open>Static threads\<close>

lemma setup_static_inv:
  assumes "kernel_inv k" "\<not> in_isr k" "distinct (map fst ts)"
    "\<forall>t \<in> fst ` set ts. unused t k \<and> t \<noteq> thread_dummy k"
  shows "kernel_inv (setup_static_threads ts k) \<and> env (setup_static_threads ts k) = env k \<and>
    tmo (setup_static_threads ts k) = tmo k \<and> current (setup_static_threads ts k) = current k \<and>
    (\<forall>x. x \<notin> fst ` set ts \<longrightarrow> threads (setup_static_threads ts k) x = threads k x) \<and>
    (\<forall>t \<in> fst ` set ts. thread_state (threads (setup_static_threads ts k) t) = {THREAD_PRESTART})"
  using assms
proof (induction ts k rule: setup_static_threads.induct)
  case (2 t p ess delay ts k)
  let ?k = "z_setup_new_thread t p ess k"
  have u: "unused x ?k" if "x \<in> fst ` set ts" for x
  proof -
    have "x \<noteq> t" "unused x k" using that 2(4,5) by force+
    moreover have "waitqs ?k (JoinQ x) = []" using \<open>unused x k\<close> by (simp add: unused_def z_setup_new_thread_def)
    ultimately show ?thesis unfolding unused_def ready_iff by auto
  qed
  have ki: "kernel_inv ?k" using 2(2,3,5) by (intro setup_kernel_inv) simp_all
  have "in_isr ?k = in_isr k" "thread_dummy ?k = thread_dummy k"
    using env_isr [of ?k k] env_dummy [of ?k k] by simp_all
  then have "\<not> in_isr ?k" "distinct (map fst ts)" "\<forall>x \<in> fst ` set ts. unused x ?k \<and> x \<noteq> thread_dummy ?k"
    using u 2(3,4,5) by simp_all
  note IHs = 2(1) [OF ki this]
  have IH: "kernel_inv (setup_static_threads ts ?k)" "env (setup_static_threads ts ?k) = env ?k"
    "tmo (setup_static_threads ts ?k) = tmo ?k" "current (setup_static_threads ts ?k) = current ?k"
    "\<And>x. x \<notin> fst ` set ts \<Longrightarrow> threads (setup_static_threads ts ?k) x = threads ?k x"
    "\<And>x. x \<in> fst ` set ts \<Longrightarrow> thread_state (threads (setup_static_threads ts ?k) x) = {THREAD_PRESTART}"
    using IHs by blast+
  have "t \<notin> fst ` set ts" using 2(4) by simp
  with IH show ?case by simp
qed simp

lemma start_others:
  assumes "timeouts_inv (tmo k)" "x \<noteq> t" "deadline (tmo k) (ThreadTo t) = None"
  shows "thread_state (threads (thread_schedule_new t delay k) x) = thread_state (threads k x)"
    "deadline (tmo (thread_schedule_new t delay k)) (ThreadTo x) = deadline (tmo k) (ThreadTo x)"
    "env (thread_schedule_new t delay k) = env k"
  using assms
  by (auto simp: thread_schedule_new_def z_sched_start_def z_reschedule_def do_swap_threads ready_thread_threads
      threads_upd_thread do_swap_tmo ready_thread_tmo tq.arm_other z_add_thread_timeout_def)

lemma schedule_static_inv:
  assumes "kernel_inv k" "\<not> in_isr k" "distinct (map fst ts)"
    "\<forall>t \<in> fst ` set ts. THREAD_PRESTART \<in> thread_state (threads k t) \<and> deadline (tmo k) (ThreadTo t) = None \<and>
       t \<noteq> idle_thread k \<and> t \<noteq> thread_dummy k"
  shows "kernel_inv (schedule_static_threads ts k) \<and> env (schedule_static_threads ts k) = env k"
  using assms
proof (induction ts k rule: schedule_static_threads.induct)
  case (2 t p ess delay ts k)
  let ?k = "if delay \<noteq> K_FOREVER then thread_schedule_new t delay k else k"
  have tm: "timeouts_inv (tmo k)" using inv_butD(2) [OF kernel_invD(1) [OF 2(2)]] .
  have dt: "deadline (tmo k) (ThreadTo t) = None" using 2(5) by simp
  have k: "kernel_inv ?k" using 2 by (auto intro!: schedule_new_kernel_inv)
  have e: "env ?k = env k" using start_others(3) [OF tm _ dt, of "Suc t"] by simp
  then have "in_isr ?k = in_isr k" "thread_dummy ?k = thread_dummy k" "idle_thread ?k = idle_thread k"
    using env_isr env_dummy env_idle by blast+
  moreover have "THREAD_PRESTART \<in> thread_state (threads ?k x) \<and> deadline (tmo ?k) (ThreadTo x) = None"
    if "x \<in> fst ` set ts" for x
  proof -
    have "x \<noteq> t" "THREAD_PRESTART \<in> thread_state (threads k x)" "deadline (tmo k) (ThreadTo x) = None"
      using that 2(4,5) by force+
    then show ?thesis using start_others [OF tm _ dt, of x] by simp
  qed
  ultimately show ?case using 2 k e by simp
qed simp

lemma init_static_kernel_inv:
  assumes k: "kernel_inv k" and isr: "\<not> in_isr k" and d: "distinct (map fst ts)"
    and u: "\<forall>t \<in> fst ` set ts. unused t k \<and> t \<noteq> thread_dummy k"
    and l: "sched_locked (threads k (current k)) = 0"
  shows "kernel_inv (z_init_static_threads ts k)"
proof -
  let ?s = "setup_static_threads ts k"
  note S = setup_static_inv [OF k isr d u]
  have c: "current k \<notin> fst ` set ts" using unused_not_current [OF kernel_inv_pre [OF k] isr] u by blast
  have isr': "\<not> in_isr ?s" using S env_isr [of ?s k] isr by simp
  have "sched_locked (threads ?s (current ?s)) = 0" using S c l by simp
  then have L: "kernel_inv (k_sched_lock ?s)" using S isr' by (intro sched_lock_kernel_inv) simp_all
  have e: "env (k_sched_lock ?s) = env k" using S by (simp add: k_sched_lock_def)
  have "kernel_inv (schedule_static_threads ts (k_sched_lock ?s)) \<and>
    env (schedule_static_threads ts (k_sched_lock ?s)) = env (k_sched_lock ?s)"
  proof (rule schedule_static_inv [OF L _ d])
    show "\<not> in_isr (k_sched_lock ?s)" using env_isr [OF e] isr by simp
    have "THREAD_PRESTART \<in> thread_state (threads (k_sched_lock ?s) t) \<and> t \<noteq> idle_thread k \<and>
        deadline (tmo (k_sched_lock ?s)) (ThreadTo t) = None" if "t \<in> fst ` set ts" for t
      using that S u idle_ready [OF kernel_invD(1) [OF k]]
      by (auto simp: k_sched_lock_def threads_upd_thread unused_def)
    then show "\<forall>t \<in> fst ` set ts. THREAD_PRESTART \<in> thread_state (threads (k_sched_lock ?s) t) \<and>
        deadline (tmo (k_sched_lock ?s)) (ThreadTo t) = None \<and> t \<noteq> idle_thread (k_sched_lock ?s) \<and>
        t \<noteq> thread_dummy (k_sched_lock ?s)"
      using u env_idle [OF e] env_dummy [OF e] by simp
  qed
  then show ?thesis
    using isr env_isr [OF e] env_isr [of "schedule_static_threads ts (k_sched_lock ?s)" "k_sched_lock ?s"]
    unfolding z_init_static_threads_def by (intro sched_unlock_kernel_inv) simp_all
qed

section \<open>A concrete configuration\<close>

text \<open>
  The image of a system with the default numbers of priorities and no time slicing: the idle thread
  is 0, the main thread 5 (at priority 0), the dummy thread 9.
\<close>

definition boot_image :: kernel where
  "boot_image =
     \<lparr>threads = (\<lambda>_. blank_thread), current = 9, idle_thread = 0, thread_dummy = 9, runq = [], cache = 0,
      waitqs = (\<lambda>_. []),
      tmo = \<lparr>timeout_list = [], curr_tick = 0, announce_remaining = 0, clk_elapsed = 0, clk_programmed = 0\<rparr>,
      metairq_preempted = None, in_isr = False, irq_locked = False, slice_ticks = 0, slice_max_prio = 0,
      slice_expired = False, num_coop = 16, num_preempt = 15, num_metairq = 0, prio_ceiling = - 127,
      ticks_per_sec = 10000, bmem = (\<lambda>_. 0), pmem = (\<lambda>_. 0)\<rparr>"

definition booted :: kernel where
  "booted = z_cstart 5 0 0 boot_image"

lemma zeroed_boot_image: "zeroed boot_image"
  by (simp add: zeroed_def boot_image_def metairq_tracked_def)

lemma image_distinct: "distinct [5, 0, thread_dummy boot_image]"
  by (simp add: boot_image_def)

lemmas booted_facts = boot_facts [OF zeroed_boot_image image_distinct booted_def]

lemma booted_simps [simp]:
  "kernel_inv booted" "runq booted = [5]" "waitqs booted = (\<lambda>_. [])" "cache booted = 5" "current booted = 5"
  "idle_thread booted = 0" "\<not> in_isr booted" "\<not> irq_locked booted" "thread_dummy booted = 9" "running booted"
  "sched_locked (threads booted 5) = 0" "prio (threads booted 5) = 0" "prio_ceiling booted = - 127"
  "deadline (tmo booted) (ThreadTo t) = None"
  using cstart_kernel_inv [OF zeroed_boot_image image_distinct, of 0, folded booted_def] booted_facts
  by (simp_all add: env_def boot_image_def running_def blank_thread_def)

end
