(* ===== verification/Sched_Props.thy ===== *)
theory Sched_Props
  imports Boot
begin

text \<open>
  What the scheduler, the timeout queue and the boot promise to the rest of the kernel, stated over
  the definitions of the code. The lemmas of the component theories carry the proofs.
\<close>

section \<open>Queues of threads and of timeouts\<close>

text \<open>
  C6. The multi-queue with its bit map behaves as the list queue, also when it is empty: adding a thread whose priority is
  in range and that is not in the queue, and removing a thread that is, keep the invariant and change the sequence
  of threads as the list queue does, and the best thread is the same one, or none.
\<close>

theorem mq_behaves_as_list:
  assumes "mq_inv hp th q"
  shows "(\<forall>t. hp \<le> prio (th t) \<and> prio (th t) < hp + int (length (queues q)) \<and> t \<notin> set (concat (queues q)) \<longrightarrow>
      mq_inv hp th (z_priq_mq_add hp th q t) \<and>
      concat (queues (z_priq_mq_add hp th q t)) = z_priq_dumb_add th (concat (queues q)) t) \<and>
    (\<forall>t. t \<in> set (concat (queues q)) \<longrightarrow>
      mq_inv hp th (z_priq_mq_remove hp th q t) \<and>
      concat (queues (z_priq_mq_remove hp th q t)) = z_priq_dumb_remove th (concat (queues q)) t) \<and>
    z_priq_mq_best q = z_priq_dumb_best (concat (queues q))"
  using assms mq.invar_add [of hp th q] mq.invar_remove [of hp th q] mq.elems_add [of hp th q]
    mq.elems_remove [of hp th q] mq.best_elems [of hp th q]
  by (simp add: mq_ok_def z_priq_dumb_remove_def)

definition sample_mq :: priq_mq where
  "sample_mq = \<lparr>queues = [[], [7], [], [], []], bitmask = [2]\<rparr>"

definition sample_tcbs :: tcbs where
  "sample_tcbs = (\<lambda>_. blank_thread)(7 := blank_thread\<lparr>prio := -1\<rparr>)"

lemma sample_mq_inv: "mq_inv (-2) sample_tcbs sample_mq"
proof -
  have "bit (2 :: u32) i = (i = 1)" if "i < 32" for i
    using that u32_bit_exp [of i 1] by simp
  then show ?thesis
    by (auto simp: mq_inv_def mq_bit_def sample_mq_def sample_tcbs_def nth_Cons' split: if_splits)
qed

theorem mq_behaves_as_list_witness:
  "mq_inv (-2) sample_tcbs (z_priq_mq_add (-2) sample_tcbs sample_mq 3) \<and>
   concat (queues (z_priq_mq_add (-2) sample_tcbs sample_mq 3)) = [7, 3]"
  using mq_behaves_as_list [OF sample_mq_inv, THEN conjunct1, rule_format, of 3]
  by (simp add: sample_mq_def sample_tcbs_def blank_thread_def)

lemma timeout_delay_longer: "timeouts_inv s \<Longrightarrow> 0 \<le> ticks \<Longrightarrow> ticks < timeout_delay ticks s"
  by (auto simp: timeout_delay_def Z_TICK_ABS_def elapsed_def timeouts_inv_def)

text \<open>
  C10. The timeout list, which stores each entry's distance from the one before it, implements a map
  from timeouts to the ticks left: adding an inactive timeout sets its deadline to its delay (never
  shorter than the ticks asked for) and moves no other one, and aborting it gives back the map from
  before and reports that the timeout was active.
\<close>

theorem timeout_list_is_deadline_map:
  assumes "timeouts_inv s" "deadline s i = None" "ticks \<noteq> K_FOREVER" "fn_for i f"
    "s' = z_add_timeout i f ticks s"
  shows "timeouts_inv s' \<and> deadline s' = (deadline s)(i \<mapsto> timeout_delay ticks s) \<and>
    (0 \<le> ticks \<longrightarrow> ticks < timeout_delay ticks s) \<and>
    timeouts_inv (snd (z_abort_timeout i s')) \<and> deadline (snd (z_abort_timeout i s')) = deadline s \<and>
    fst (z_abort_timeout i s') = 0 \<and> z_abort_timeout i s = (- EINVAL, s)"
proof -
  have s': "timeouts_inv s'" using assms by (simp add: invar_add_timeout)
  moreover have "deadline s' = (deadline s)(i \<mapsto> timeout_delay ticks s)" using assms by (simp add: tq.due_arm)
  moreover have "deadline (snd (z_abort_timeout i s')) = deadline s"
    using tq.due_abort [OF s'] calculation(2) assms(2) by auto
  moreover have "fst (z_abort_timeout i s') = 0" using tq.abort_result [of i s'] calculation(2) by simp
  moreover have "z_abort_timeout i s = (- EINVAL, s)" using assms(2) by (simp add: z_abort_timeout_def linked_deadline)
  ultimately show ?thesis using timeout_delay_longer [OF assms(1)] tq.invar_abort [OF s'] by blast
qed

theorem timeout_list_is_deadline_map_witness:
  "deadline (z_add_timeout (ThreadTo 4) Fn_thread_timeout 5 (tmo boot_image)) (ThreadTo 4) = Some 6"
  using timeout_list_is_deadline_map [of "tmo boot_image" "ThreadTo 4" 5 Fn_thread_timeout, OF _ _ _ _ refl]
    zeroed_tmo [OF zeroed_boot_image]
  by (simp add: timeout_delay_def Z_TICK_ABS_def elapsed_def boot_image_def)

section \<open>The kernel from its start\<close>

text \<open>
  C17. The boot ends with the main thread running in a state that satisfies the invariant of the
  kernel, and no other thread but the idle thread is ready.
\<close>

theorem boot_establishes_invariant:
  assumes "zeroed k" "distinct [m, idle, thread_dummy k]" "k' = z_cstart m p idle k"
  shows "kernel_inv k' \<and> current k' = m \<and> (\<forall>t. z_is_thread_ready k' t = (t \<in> {m, idle}))"
  using cstart_kernel_inv [OF assms(1,2), of p] boot_facts [OF assms] assms(2,3)
  by (auto simp: ready_iff blank_thread_def)

theorem boot_establishes_invariant_witness:
  "kernel_inv booted \<and> current booted = 5"
  using boot_establishes_invariant [OF zeroed_boot_image image_distinct booted_def] by simp

text \<open>
  Starting the static threads after the boot, each set up first and then started with the
  scheduler locked, leads to a state that satisfies the invariant of the kernel.
\<close>

theorem static_threads_invariant:
  assumes "zeroed k" "distinct [m, idle, thread_dummy k]" "\<not> in_isr k" "distinct (map fst ts)"
    "fst ` set ts \<inter> {m, idle, thread_dummy k} = {}"
  shows "kernel_inv (z_init_static_threads ts (z_cstart m p idle k))"
proof -
  note F = boot_facts [OF assms(1,2) refl, of p]
  have e: "in_isr (z_cstart m p idle k) = in_isr k" "thread_dummy (z_cstart m p idle k) = thread_dummy k"
    using F(7) by (simp_all add: env_def)
  have "unused t (z_cstart m p idle k) \<and> t \<noteq> thread_dummy k" if "t \<in> fst ` set ts" for t
  proof -
    have "t \<noteq> m" "t \<noteq> idle" "t \<noteq> thread_dummy k" using that assms(5) by blast+
    then show ?thesis using F(3,9) by (simp add: unused_def ready_iff F(1) blank_thread_def)
  qed
  then show ?thesis
    using assms(3,4) F(1,5) assms(2) cstart_kernel_inv [OF assms(1,2)] e
    by (intro init_static_kernel_inv) (auto simp: blank_thread_def)
qed

theorem static_threads_invariant_witness:
  "kernel_inv (z_init_static_threads [(2, -1, False, K_NO_WAIT), (3, 5, False, 100)] booted)"
  using static_threads_invariant [OF zeroed_boot_image image_distinct,
      of "[(2, -1, False, K_NO_WAIT), (3, 5, False, 100)]" 0, folded booted_def]
  by (simp add: boot_image_def)

lemma best_thread_best:
  assumes "sched_inv k" "z_is_thread_ready k t" "t \<noteq> idle_thread k"
  shows "best_thread k \<noteq> idle_thread k \<and> prio (threads k (best_thread k)) \<le> prio (threads k t)"
proof -
  have "t \<in> set (runq k)" using assms by (simp add: sched_inv_but_def)
  then show ?thesis
    using assms(1) by (cases "runq k") (auto simp: best_thread_def sched_inv_but_def wf_queues_def tprio_def)
qed

text \<open>
  C1. In every state outside interrupts that the kernel reaches from the boot by the steps of \<open>kstep\<close>, the running thread
  is ready. The thread that the next scheduling point switches to, in the cache, is a best ready thread, or it is the
  running thread and this one may not be preempted. After a scheduling point, and as long as only steps follow that have
  scheduling points of their own, a preemptible thread runs with interrupts unmasked only while no ready thread has a
  higher priority. A step without a scheduling point (the abort of another, joined thread, the priority that a mutex
  gives, a wake-up whose caller goes on) can end this until the next one.
\<close>

theorem running_thread_is_best:
  assumes "zeroed k0" "distinct [m, idle, thread_dummy k0]" "kstep\<^sup>*\<^sup>* (z_cstart m p idle k0) k"
    and "\<not> in_isr k"
  shows "z_is_thread_ready k (current k) \<and> z_is_thread_ready k (cache k) \<and>
    (cache k = current k \<and> \<not> thread_is_preemptible (threads k (current k)) \<or>
      (\<forall>t. z_is_thread_ready k t \<longrightarrow> t \<noteq> idle_thread k \<longrightarrow>
        cache k \<noteq> idle_thread k \<and> prio (threads k (cache k)) \<le> prio (threads k t))) \<and>
    (\<forall>k'. sched_step\<^sup>*\<^sup>* (z_reschedule k) k' \<longrightarrow> \<not> in_isr k' \<longrightarrow> \<not> irq_locked k' \<longrightarrow>
      thread_is_preemptible (threads k' (current k')) \<longrightarrow>
      (\<forall>t. z_is_thread_ready k' t \<longrightarrow> t \<noteq> idle_thread k' \<longrightarrow>
        current k' \<noteq> idle_thread k' \<and> prio (threads k' (current k')) \<le> prio (threads k' t)))"
proof -
  have k: "kernel_pre k" using reachable_pre [OF assms(3) kernel_inv_pre [OF cstart_kernel_inv [OF assms(1,2)]]] .
  note D = kernel_preD [OF k]
  have "z_is_thread_ready k (current k)" "z_is_thread_ready k (cache k)"
    using D(1,7) assms(4) cache_runnable [OF D(5)] runnable_ready by auto
  moreover have "cache k = current k \<and> \<not> thread_is_preemptible (threads k (current k)) \<or> cache k = best_thread k"
    using D(5) by (auto simp: cache_ok_def)
  moreover have "current k' = best_thread k' \<and> sched_inv k'"
    if "sched_step\<^sup>*\<^sup>* (z_reschedule k) k'" "\<not> in_isr k'" "\<not> irq_locked k'" "thread_is_preemptible (threads k' (current k'))" for k'
    using sched_steps_inv [OF that(1) pre_reschedule [OF k]] that(2-4) by (auto simp: kernel_inv_def cpu_ok_def cache_ok_def)
  ultimately show ?thesis using best_thread_best [OF D(1)] best_thread_best by metis
qed

definition with_worker :: kernel where
  "with_worker = z_impl_k_thread_create 2 (-1) False K_NO_WAIT booted"

lemma with_worker_sched: "sched_step booted with_worker"
proof -
  have "unused 2 booted"
    using booted_facts by (simp add: unused_def ready_iff blank_thread_def boot_image_def)
  then show ?thesis unfolding with_worker_def by (intro sched_step.create) simp_all
qed

lemma with_worker_step: "kstep\<^sup>*\<^sup>* booted with_worker"
  using kstep.sched [OF with_worker_sched] by blast

lemma with_worker_isr: "\<not> in_isr with_worker"
proof -
  have "env with_worker = env booted"
    by (simp add: with_worker_def z_impl_k_thread_create_def thread_schedule_new_def z_sched_start_def Let_def)
  then show ?thesis using env_isr [of with_worker booted] by simp
qed

theorem running_thread_is_best_witness:
  "z_is_thread_ready with_worker (current with_worker)"
  using running_thread_is_best [OF zeroed_boot_image image_distinct with_worker_step [unfolded booted_def] with_worker_isr]
  by blast

text \<open>
  C5. In every reachable state the run queue holds exactly the ready threads other than the idle
  thread, each once and in the order of their priorities; a thread is in at most one wait queue, the
  one its control block names, and a thread in a wait queue is not in the run queue.
\<close>

theorem reachable_queues:
  assumes "zeroed k0" "distinct [m, idle, thread_dummy k0]" "kstep\<^sup>*\<^sup>* (z_cstart m p idle k0) k"
  shows "set (runq k) = {t. z_is_thread_ready k t \<and> t \<noteq> idle_thread k} \<and> distinct (runq k) \<and>
    sorted_wrt (by_prio (threads k)) (runq k) \<and>
    (\<forall>w. set (waitqs k w) = {t. pended_on (threads k t) = Some w} \<and> distinct (waitqs k w) \<and>
      set (waitqs k w) \<inter> set (runq k) = {})"
proof -
  have k: "sched_inv k"
    using kernel_preD(1) [OF reachable_pre [OF assms(3) kernel_inv_pre [OF cstart_kernel_inv [OF assms(1,2)]]]] .
  have "set (runq k) = {t. z_is_thread_ready k t \<and> t \<noteq> idle_thread k}"
    using k by (auto simp: sched_inv_but_def)
  moreover have "distinct (runq k)" "sorted_wrt (by_prio (threads k)) (runq k)" "\<And>w. distinct (waitqs k w)"
    using inv_butD(1) [OF k] by (simp_all add: wf_queues_def tprio_def)
  moreover have "set (waitqs k w) = {t. pended_on (threads k t) = Some w}" for w
    using waitq_member [OF k] by blast
  moreover have "set (waitqs k w) \<inter> set (runq k) = {}" for w
    using waitq_member [OF k] pended_not_queued [OF k] by blast
  ultimately show ?thesis by blast
qed

theorem reachable_queues_witness:
  "distinct (runq with_worker) \<and> sorted_wrt (by_prio (threads with_worker)) (runq with_worker)"
  using reachable_queues [OF zeroed_boot_image image_distinct with_worker_step [unfolded booted_def]] by blast

section \<open>Time\<close>

text \<open>
  C3. An announcement of \<open>n\<close> ticks always ends. It moves the current tick by \<open>n\<close>; every thread whose
  deadline has come (and which is neither dead nor being aborted) is off its wait queue and in the run queue,
  with its return value unchanged; every later deadline is \<open>n\<close> ticks nearer and its thread untouched.
\<close>

theorem announce_fires_due_timeouts:
  assumes "kernel_inv k"
  shows "\<exists>k'. sys_clock_announce n k = Some k' \<and> current k' = current k \<and>
    curr_tick (tmo k') = curr_tick (tmo k) + n \<and>
    (\<forall>t d. deadline (tmo k) (ThreadTo t) = Some d \<and> d \<le> n \<longrightarrow> deadline (tmo k') (ThreadTo t) = None \<and>
      (can_expire k t \<longrightarrow> t \<in> set (runq k') \<and> pended_on (threads k' t) = None \<and>
         swap_retval (threads k' t) = swap_retval (threads k t))) \<and>
    (\<forall>t d. deadline (tmo k) (ThreadTo t) = Some d \<and> n < d \<longrightarrow>
      deadline (tmo k') (ThreadTo t) = Some (d - n) \<and> threads k' t = threads k t)"
proof -
  note D = kernel_invD [OF assms]
  obtain k' where k': "sys_clock_announce n k = Some k'" "current k' = current k"
    "curr_tick (tmo k') = curr_tick (tmo k) + n"
    "\<And>t. deadline (tmo k') (ThreadTo t) = after_ticks n n (deadline (tmo k) (ThreadTo t))"
    "\<And>t x. deadline (tmo k) (ThreadTo t) = Some x \<Longrightarrow> x \<le> n \<Longrightarrow> can_expire k t \<Longrightarrow>
       t \<in> set (runq k') \<and> unsched (threads k' t) = unsched ((threads k t)\<lparr>pended_on := None\<rparr>)"
    "\<And>t. (\<And>x. deadline (tmo k) (ThreadTo t) = Some x \<Longrightarrow> n < x) \<Longrightarrow> threads k' t = threads k t"
    using announce_total [OF D(1,3,7)] by metis
  have "pended_on (threads k' t) = None \<and> swap_retval (threads k' t) = swap_retval (threads k t)"
    if "deadline (tmo k) (ThreadTo t) = Some d" "d \<le> n" "can_expire k t" for t d
    using k'(5) [OF that] unsched_eqD(2,3) [of "threads k' t" "(threads k t)\<lparr>pended_on := None\<rparr>"] by simp
  moreover have "threads k' t = threads k t" if "deadline (tmo k) (ThreadTo t) = Some d" "n < d" for t d
    using k'(6) [of t] that by simp
  ultimately show ?thesis using k'(1-5) by (intro exI [of _ k']) (simp add: after_ticks_def)
qed

definition sleeper :: kernel where
  "sleeper = snd (z_tick_sleep 10 booted)"

lemma sleeper_inv: "kernel_inv sleeper"
  unfolding sleeper_def by (rule sleep_kernel_inv) simp_all

theorem announce_fires_due_timeouts_witness:
  "\<exists>k'. sys_clock_announce 20 sleeper = Some k' \<and> current k' = current sleeper"
  using announce_fires_due_timeouts [OF sleeper_inv, of 20] by blast

lemma clock_frame:
  "timeout_delay n (tmo (unready_thread t k)) = timeout_delay n (tmo k)"
proof -
  have "clk_elapsed (tmo (z_reset_time_slice x j)) = clk_elapsed (tmo j)" for x j
    by (simp add: z_reset_time_slice_def Let_def)
  then have "clk_elapsed (tmo (update_cache b j)) = clk_elapsed (tmo j)" for b j
    by (simp add: update_cache_def Let_def case_prod_beta)
  then show ?thesis by (simp add: timeout_delay_def elapsed_def unready_thread_def Let_def)
qed

lemma unready_armed:
  assumes "kernel_inv k" "n \<noteq> K_FOREVER"
  shows "deadline (tmo (z_add_thread_timeout (current k) n (unready_thread (current k) k))) (ThreadTo (current k)) =
    Some (timeout_delay n (tmo k))"
  using assms kernel_invD(7) [OF assms(1)] inv_butD(2) [OF kernel_invD(1) [OF assms(1)]]
  by (simp add: z_add_thread_timeout_def tq.due_arm unready_tmo clock_frame)

text \<open>What the next announcement makes of a thread with a deadline.\<close>

lemma announce_one:
  assumes "kernel_inv k" "deadline (tmo k) (ThreadTo t) = Some d" "can_expire k t"
    "t \<notin> set (runq k)"
  obtains k' where "sys_clock_announce n k = Some k'" "d \<le> n \<longleftrightarrow> t \<in> set (runq k')"
    "d \<le> n \<Longrightarrow> unsched (threads k' t) = unsched ((threads k t)\<lparr>pended_on := None\<rparr>)"
proof -
  note D = kernel_invD [OF assms(1)]
  obtain k' where k': "sys_clock_announce n k = Some k'" "sched_inv k'"
    "\<And>t. deadline (tmo k') (ThreadTo t) = after_ticks n n (deadline (tmo k) (ThreadTo t))"
    "\<And>t x. deadline (tmo k) (ThreadTo t) = Some x \<Longrightarrow> x \<le> n \<Longrightarrow> can_expire k t \<Longrightarrow>
       t \<in> set (runq k') \<and> unsched (threads k' t) = unsched ((threads k t)\<lparr>pended_on := None\<rparr>)"
    using announce_total [OF D(1,3,7)] by metis
  have "t \<notin> set (runq k')" if "n < d"
    using that k'(3) [of t] assms(2) ready_clear(2) [OF k'(2)] runq_ready [OF k'(2)]
    by (force simp: after_ticks_def)
  with k' assms show ?thesis by (intro that [of k']) force+
qed

lemma running_can_expire:
  assumes "kernel_inv k" "running k"
  shows "thread_state (threads k (current k)) = {THREAD_QUEUED} \<or>
      thread_state (threads k (current k)) = {THREAD_QUEUED, THREAD_SUSPENDING}"
    "\<not> no_wake_on_timeout (threads k (current k))" "pended_on (threads k (current k)) = None"
proof -
  note D = kernel_invD [OF assms(1)]
  have r: "z_is_thread_ready k (current k)" "THREAD_QUEUED \<in> thread_state (threads k (current k))"
    using assms(2) runq_ready [OF D(1)] queued_iff [OF D(1), of "current k"]
    by (auto simp: running_def z_is_thread_queued_def)
  have "x \<in> {THREAD_QUEUED, THREAD_SUSPENDING}" if "x \<in> thread_state (threads k (current k))" for x
    using that r(1) not_aborting [OF D(1), of "current k"] by (cases x) (auto simp: ready_iff)
  then show "thread_state (threads k (current k)) = {THREAD_QUEUED} \<or>
      thread_state (threads k (current k)) = {THREAD_QUEUED, THREAD_SUSPENDING}"
    using r(2) by blast
  show "\<not> no_wake_on_timeout (threads k (current k))" using D(3) by simp
  show "pended_on (threads k (current k)) = None" using ready_clear(1) [OF D(1) r(1)] .
qed

text \<open>
  C12. A thread that sleeps for \<open>n\<close> ticks leaves the processor, and the announcement that covers its
  delay (more than \<open>n\<close> ticks), and no shorter one, puts it back in the run queue.
\<close>

theorem sleep_ends_on_time:
  assumes "kernel_inv k" "running k" "0 < n" "z_tick_sleep n k = (r, k1)"
  shows "r = Blocked \<and> \<not> z_is_thread_ready k1 (current k) \<and>
    (\<exists>k2. sys_clock_announce m k1 = Some k2 \<and>
      (current k \<in> set (runq k2) \<longleftrightarrow> timeout_delay n (tmo k) \<le> m) \<and> n < timeout_delay n (tmo k))"
proof -
  let ?c = "current k"
  note D = kernel_invD [OF assms(1)]
  have r: "r = Blocked" "k1 = do_swap (asleep n k)" using assms(3,4) by (simp_all add: tick_sleep_eq)
  have k1: "kernel_inv k1" using sleep_kernel_inv [OF assms(1,2), of n] assms(4) by simp
  have "timeouts_inv (tmo (asleep n k))" using asleep_inv [OF D(1) assms(2)] by (rule inv_butD)
  then have d: "deadline (tmo k1) (ThreadTo ?c) = Some (timeout_delay n (tmo k))"
    using unready_armed [OF assms(1), of n] assms(3) by (simp add: r do_swap_tmo) (simp add: asleep_def)
  then have nr: "\<not> z_is_thread_ready k1 ?c" by (simp add: ready_iff)
  have th: "threads k1 ?c = (threads k ?c)\<lparr>thread_state := insert THREAD_SUSPENDED (thread_state (threads k ?c) - {THREAD_QUEUED}),
      swap_retval := - EAGAIN\<rparr>"
    by (simp add: r do_swap_threads asleep_def threads_upd_thread unready_threads z_mark_thread_as_suspended_def)
  have "can_expire k1 ?c"
    using running_can_expire [OF assms(1,2)] by (auto simp: can_expire_def th)
  from announce_one [OF k1 d this not_queued_not_ready [OF kernel_invD(1) [OF k1] nr], of m]
  obtain k2 where "sys_clock_announce m k1 = Some k2" "timeout_delay n (tmo k) \<le> m \<longleftrightarrow> ?c \<in> set (runq k2)"
    by metis
  then show ?thesis using r nr timeout_delay_longer [of "tmo k" n] assms(3) inv_butD(2) [OF D(1)] by auto
qed

theorem sleep_ends_on_time_witness:
  "\<not> z_is_thread_ready sleeper 5 \<and>
   (\<exists>k. sys_clock_announce 11 sleeper = Some k \<and> 10 < timeout_delay 10 (tmo booted) \<and>
     (5 \<in> set (runq k) \<longleftrightarrow> timeout_delay 10 (tmo booted) \<le> 11))"
proof -
  have "z_tick_sleep 10 booted = (fst (z_tick_sleep 10 booted), sleeper)" by (simp add: sleeper_def)
  from sleep_ends_on_time [OF _ _ _ this, of 11] show ?thesis by auto
qed

text \<open>
  C11. A thread that pends on a wait queue with a timeout and is not woken is in that queue, and the
  announcement that covers its delay takes it off the queue, puts it in the run queue and leaves
  \<open>-EAGAIN\<close> as the result of its call.
\<close>

theorem pend_times_out:
  assumes "kernel_inv k" "running k" "n \<noteq> K_FOREVER" "k1 = z_pend_curr w n k"
    and "timeout_delay n (tmo k) \<le> m"
  shows "current k \<in> set (waitqs k1 w) \<and>
    (\<exists>k2. sys_clock_announce m k1 = Some k2 \<and> current k \<in> set (runq k2) \<and>
      pended_on (threads k2 (current k)) = None \<and> swap_retval (threads k2 (current k)) = - EAGAIN)"
proof -
  let ?c = "current k"
  note D = kernel_invD [OF assms(1)]
  let ?p = "pend_locked ?c (Some w) n k"
  have k1: "kernel_inv k1" using pend_curr_kernel_inv [OF assms(1,2)] assms(4) by simp
  have "sched_inv ?p" using D(1) assms(2) by (simp add: pend_locked_inv running_def)
  then have "deadline (tmo k1) (ThreadTo ?c) = deadline (tmo ?p) (ThreadTo ?c)"
    using inv_butD(2) by (simp add: assms(4) z_pend_curr_def do_swap_tmo)
  also have "\<dots> = Some (timeout_delay n (tmo k))"
    using unready_armed [OF assms(1,3)] assms(3)
    by (simp add: pend_locked_def add_thread_timeout_def add_to_waitq_locked_def Let_def z_add_thread_timeout_def)
  finally have d: "deadline (tmo k1) (ThreadTo ?c) = Some (timeout_delay n (tmo k))" .
  then have nr: "\<not> z_is_thread_ready k1 ?c" by (simp add: ready_iff)
  have "can_expire k1 ?c"
    using running_can_expire [OF assms(1,2)] by (auto simp: can_expire_def assms(4) z_pend_curr_threads)
  from announce_one [OF k1 d this not_queued_not_ready [OF kernel_invD(1) [OF k1] nr], of m]
  obtain k2 where k2: "sys_clock_announce m k1 = Some k2" "?c \<in> set (runq k2)"
    "unsched (threads k2 ?c) = unsched ((threads k1 ?c)\<lparr>pended_on := None\<rparr>)"
    using assms(5) by metis
  have "swap_retval (threads k1 ?c) = - EAGAIN" using sch.pend_default_retval assms(4) by simp
  then show ?thesis using k2 unsched_eqD(2,3) [OF k2(3)] sch.pend_joins [of k w n] assms(4) by auto
qed

theorem pend_times_out_witness:
  "\<exists>k. sys_clock_announce (timeout_delay 5 (tmo booted)) (z_pend_curr (ObjQ 0) 5 booted) = Some k \<and>
     5 \<in> set (runq k) \<and> swap_retval (threads k 5) = - EAGAIN"
  using pend_times_out [OF _ _ _ refl order_refl, of booted 5 "ObjQ 0"] by auto

section \<open>Threads\<close>

text \<open>Aborting in terms of \<open>killed\<close>: what it leaves of every thread and queue.\<close>

lemma abort_killed:
  assumes "kernel_inv k" "t \<noteq> idle_thread k" "z_thread_abort t k = Some k'"
    "THREAD_DEAD \<notin> thread_state (threads k t)"
  shows "sched_inv k'" "waitqs k' = waitqs (killed t k)"
    "x \<noteq> t \<Longrightarrow> x \<noteq> thread_dummy k \<Longrightarrow> threads k' x = threads (killed t k) x"
    "pended_on (threads k' t) = None" "THREAD_DEAD \<in> thread_state (threads k' t)"
    "deadline (tmo k') (ThreadTo x) = deadline (tmo (killed t k)) (ThreadTo x)"
proof -
  note D = kernel_invD [OF assms(1)]
  note kp = killed_props [OF D(1) assms(2)]
  let ?h = "halt_thread t THREAD_DEAD k"
  let ?u = "update_cache True (killed t k)"
  note h = halt_dead_eq [OF assms(4)]
  show "sched_inv k'" "THREAD_DEAD \<in> thread_state (threads k' t)" using abort_inv [OF D(1) assms(2) D(2) assms(3)] .
  have ks: "k' = (if t = current ?h \<and> \<not> in_isr ?h then do_swap ?h else ?h)"
    using assms(3,4) by (auto simp: z_thread_abort_def z_thread_halt_def Let_def split: if_splits)
  have ess: "\<not> essential (threads k t)"
    using assms(3) by (auto simp: z_thread_abort_def z_is_thread_essential_def split: if_splits)
  have "t \<noteq> thread_dummy k" using D(2) ess by (auto simp: dummy_ok_def)
  have ti: "timeouts_inv (tmo ?u)" using inv_butD(2) [OF update_cache_inv [OF kp(1)]] .
  have dd: "thread_dummy ?u = thread_dummy k" using env_dummy [OF kp(7)] by simp
  have hf: "waitqs ?h = waitqs (killed t k)" "tmo ?h = tmo ?u"
    "x \<noteq> t \<Longrightarrow> x \<noteq> thread_dummy k \<Longrightarrow> threads ?h x = threads (killed t k) x"
    "pended_on (threads ?h t) = None" for x
    using kp(4) dd \<open>t \<noteq> thread_dummy k\<close>
    by (auto simp: h clear_halting_def z_dummy_thread_init_def threads_upd_thread)
  show "waitqs k' = waitqs (killed t k)" using hf by (simp add: ks)
  show "threads k' x = threads (killed t k) x" if "x \<noteq> t" "x \<noteq> thread_dummy k"
    using hf that by (simp add: ks do_swap_threads)
  show "pended_on (threads k' t) = None" using hf(4) by (simp add: ks do_swap_threads)
  show "deadline (tmo k') (ThreadTo x) = deadline (tmo (killed t k)) (ThreadTo x)"
    using hf(2) ti update_cache_tmo [OF inv_butD(2) [OF kp(1)]] by (simp add: ks do_swap_tmo)
qed

text \<open>
  C21. Aborting a thread that is not essential ends it for good: it is dead, in no queue and without a
  timeout. Every thread that had joined it is out of its join queue with the result 0, and no
  other thread is touched.
\<close>

theorem abort_ends_thread:
  assumes "kernel_inv k" "t \<noteq> idle_thread k" "z_thread_abort t k = Some k'"
    "THREAD_DEAD \<notin> thread_state (threads k t)"
  shows "THREAD_DEAD \<in> thread_state (threads k' t) \<and> t \<notin> set (runq k') \<and> (\<forall>w. t \<notin> set (waitqs k' w)) \<and>
    deadline (tmo k') (ThreadTo t) = None \<and> waitqs k' (JoinQ t) = [] \<and>
    (\<forall>x. x \<noteq> t \<and> x \<noteq> thread_dummy k \<longrightarrow>
      (if x \<in> set (waitqs k (JoinQ t)) then swap_retval (threads k' x) = 0
       else threads k' x = threads k x \<and> deadline (tmo k') (ThreadTo x) = deadline (tmo k) (ThreadTo x)))"
proof -
  note D = kernel_invD [OF assms(1)]
  note a = abort_killed [OF assms]
  note kp = killed_props [OF D(1) assms(2)]
  have "\<not> z_is_thread_ready k' t" using a(5) by (auto simp: ready_iff)
  then have "t \<notin> set (runq k')" using a(1) by (simp add: not_queued_not_ready)
  moreover have "\<forall>w. t \<notin> set (waitqs k' w)" using waitq_member [OF a(1)] a(4) by simp
  moreover have "if x \<in> set (waitqs k (JoinQ t)) then swap_retval (threads k' x) = 0
       else threads k' x = threads k x \<and> deadline (tmo k') (ThreadTo x) = deadline (tmo k) (ThreadTo x)"
    if "x \<noteq> t" "x \<noteq> thread_dummy k" for x
    using a(3) [OF that] a(6) [of x] kp(8-10) [OF that(1)] waitq_member [OF D(1), of x "JoinQ t"] by simp
  moreover have "waitqs k' (JoinQ t) = []" "deadline (tmo k') (ThreadTo t) = None" using a(2,6) kp(2,5) by simp_all
  ultimately show ?thesis using a(5) by blast
qed

lemma worker_facts:
  "kernel_inv with_worker" "threads with_worker 2 = (threads with_worker 2)\<lparr>essential := False\<rparr>"
  "THREAD_DEAD \<notin> thread_state (threads with_worker 2)" "idle_thread with_worker = 0"
proof -
  show "kernel_inv with_worker" using sched_step_inv [OF with_worker_sched] by simp
  show "threads with_worker 2 = (threads with_worker 2)\<lparr>essential := False\<rparr>"
    "THREAD_DEAD \<notin> thread_state (threads with_worker 2)" "idle_thread with_worker = 0"
    using booted_facts(1)
    by (simp_all add: with_worker_def z_impl_k_thread_create_def thread_schedule_new_def z_sched_start_def Let_def
        z_reschedule_def do_swap_threads ready_thread_threads threads_upd_thread z_setup_new_thread_def
        z_init_thread_base_def z_mark_thread_as_started_def)
qed

theorem abort_ends_thread_witness:
  "\<exists>k'. z_thread_abort 2 with_worker = Some k' \<and> THREAD_DEAD \<in> thread_state (threads k' 2) \<and> 2 \<notin> set (runq k')"
proof -
  have e: "\<not> essential (threads with_worker 2)" using worker_facts(2) by (metis k_thread.select_convs(4) k_thread.surjective k_thread.update_convs(4))
  then obtain k' where "z_thread_abort 2 with_worker = Some k'"
    using worker_facts(3) by (simp add: z_thread_abort_def z_is_thread_essential_def)
  with abort_ends_thread [OF worker_facts(1) _ this worker_facts(3)] worker_facts(4) show ?thesis by auto
qed

text \<open>
  A thread that joins a live thread and blocks gets the result 0 when that thread is aborted.
\<close>

theorem join_returns_after_abort:
  assumes "kernel_inv k" "running k" "z_impl_k_thread_join t n k = (Blocked, k1)" "t \<noteq> idle_thread k"
    "t \<noteq> current k" "z_thread_abort t k1 = Some k2"
  shows "current k \<in> set (waitqs k1 (JoinQ t)) \<and> swap_retval (threads k1 (current k)) = - EAGAIN \<and>
    swap_retval (threads k2 (current k)) = 0 \<and> waitqs k2 (JoinQ t) = []"
proof -
  let ?c = "current k"
  note D = kernel_invD [OF assms(1)]
  have dead: "THREAD_DEAD \<notin> thread_state (threads k t)" and k1: "k1 = z_pend_curr (JoinQ t) n k"
    using assms(3) by (auto simp: z_impl_k_thread_join_def z_pend_curr_def pend_locked_def split: if_splits)
  have inv1: "kernel_inv k1" using pend_curr_kernel_inv [OF assms(1,2)] k1 by simp
  have e: "env k1 = env k" by (simp add: k1)
  have c: "?c \<noteq> thread_dummy k1" using running_not_dummy [OF assms(1,2)] env_dummy [OF e] by simp
  have t1: "t \<noteq> idle_thread k1" using assms(4) env_idle [OF e] by simp
  have "THREAD_DEAD \<notin> thread_state (threads k1 t)" using dead assms(5) by (simp add: k1 z_pend_curr_threads)
  note a = abort_killed [OF inv1 t1 assms(6) this]
  note kp = killed_props [OF kernel_invD(1) [OF inv1] t1]
  have j: "?c \<in> set (waitqs k1 (JoinQ t))" using sch.pend_joins k1 by simp
  then have p: "pended_on (threads k1 ?c) = Some (JoinQ t)" using waitq_member [OF kernel_invD(1) [OF inv1]] by simp
  have "swap_retval (threads k2 ?c) = 0" using a(3) [of ?c] kp(9) [OF _ p] assms(5) c by simp
  moreover have "waitqs k2 (JoinQ t) = []" using a(2) kp(2) by simp
  moreover have "swap_retval (threads k1 ?c) = - EAGAIN" using sch.pend_default_retval k1 by simp
  ultimately show ?thesis using j by blast
qed

definition with_helper :: kernel where
  "with_helper = z_impl_k_thread_create 3 5 False K_NO_WAIT booted"

lemma helper_facts:
  "threads with_helper = (threads booted)(3 := blank_thread\<lparr>prio := 5, thread_state := {THREAD_QUEUED}\<rparr>)"
  "runq with_helper = [5, 3]" "current with_helper = 5" "cache with_helper = 5" "env with_helper = env booted"
  "waitqs with_helper = (\<lambda>_. [])"
proof -
  let ?s = "upd_thread 3 z_mark_thread_as_started (z_setup_new_thread 3 5 False booted)"
  have th: "threads ?s = (threads booted)(3 := blank_thread\<lparr>prio := 5, thread_state := {}\<rparr>)"
    using booted_facts(1)
    by (simp add: fun_eq_iff threads_upd_thread z_setup_new_thread_def z_init_thread_base_def
        z_mark_thread_as_started_def blank_thread_def boot_image_def)
  have r: "z_is_thread_ready ?s 3" "\<not> z_is_thread_queued (threads ?s 3)"
    by (simp_all add: ready_iff th z_is_thread_queued_def)
  have q: "runq (queue_thread 3 ?s) = [5, 3]"
    by (simp add: th) (simp add: z_setup_new_thread_def)
  have m: "\<not> metairq_tracked (queue_thread 3 ?s)"
    using kernel_invD(4) [of booted] tracked_env [of "queue_thread 3 ?s" booted] by simp
  have b: "best_thread (queue_thread 3 ?s) = 5" unfolding best_thread_def q by simp
  have c: "cache (ready_thread 3 ?s) = 5"
    using r b by (simp add: ready_thread_def cache_update_cache [OF m])
  have n: "\<not> need_swap (ready_thread 3 ?s)" using c by (simp add: need_swap_def)
  have w: "with_helper = ready_thread 3 ?s"
    using n by (simp add: with_helper_def z_impl_k_thread_create_def thread_schedule_new_def z_sched_start_def
        Let_def z_reschedule_def z_has_thread_started_def)
  show "threads with_helper = (threads booted)(3 := blank_thread\<lparr>prio := 5, thread_state := {THREAD_QUEUED}\<rparr>)"
    using r(1) by (simp add: w fun_eq_iff ready_thread_threads th)
  show "runq with_helper = [5, 3]" using r q by (simp add: w ready_thread_def)
  show "current with_helper = 5" "cache with_helper = 5" "env with_helper = env booted"
    by (simp_all add: w c)
  show "waitqs with_helper = (\<lambda>_. [])"  by (simp add: w z_setup_new_thread_def fun_eq_iff)
qed

lemma helper_run: "kernel_inv with_helper" "running with_helper" "idle_thread with_helper = 0" "thread_dummy with_helper = 9"
proof -
  have "unused 3 booted" using booted_facts by (simp add: unused_def ready_iff blank_thread_def boot_image_def)
  then have "sched_step booted with_helper" unfolding with_helper_def by (intro sched_step.create) simp_all
  then show "kernel_inv with_helper" by (rule sched_step_inv) simp
  show "running with_helper" by (simp add: running_def helper_facts)
  show "idle_thread with_helper = 0" "thread_dummy with_helper = 9"
    using env_idle [OF helper_facts(5)] env_dummy [OF helper_facts(5)] by simp_all
qed

theorem join_returns_after_abort_witness:
  "\<exists>k1 k2. z_impl_k_thread_join 3 K_FOREVER with_helper = (Blocked, k1) \<and> z_thread_abort 3 k1 = Some k2 \<and>
     swap_retval (threads k1 5) = - EAGAIN \<and> swap_retval (threads k2 5) = 0"
proof -
  let ?k1 = "z_pend_curr (JoinQ 3) K_FOREVER with_helper"
  have j: "z_impl_k_thread_join 3 K_FOREVER with_helper = (Blocked, ?k1)"
    by (simp add: z_impl_k_thread_join_def helper_facts blank_thread_def z_pend_curr_def pend_locked_def)
  obtain k2 where "z_thread_abort 3 ?k1 = Some k2"
    by (simp add: z_thread_abort_def z_is_thread_essential_def z_pend_curr_threads helper_facts blank_thread_def)
  with join_returns_after_abort [OF helper_run(1,2) j _ _ this] j show ?thesis by (simp add: helper_run helper_facts)
qed

text \<open>
  C22. A yield puts the running thread behind the ready threads of its priority, and another thread
  runs whenever one of the same or a higher priority is ready.
\<close>

theorem yield_gives_way:
  assumes "kernel_inv k" "running k" "k' = z_impl_k_yield k"
  shows "runq k' = z_priq_dumb_add (threads k) (remove1 (current k) (runq k)) (current k) \<and>
    current k' = hd (runq k') \<and>
    (\<forall>t \<in> set (runq k). t \<noteq> current k \<and> prio (threads k t) \<le> prio (threads k (current k)) \<longrightarrow>
       current k' \<noteq> current k)"
proof -
  let ?c = "current k"
  note D = kernel_invD [OF assms(1)]
  let ?q = "queue_thread ?c (dequeue_thread ?c k)"
  have rq: "runq ?q = z_priq_dumb_add (threads k) (remove1 ?c (runq k)) ?c"
    by (simp add: z_priq_dumb_remove_def runq_remove_def dequeue_thread_def) (rule dumb_add_cong, simp add: threads_upd_thread)
  have "\<not> metairq_tracked ?q" using D(4) tracked_env [of ?q k] by simp
  then have c': "current k' = best_thread ?q"
    by (simp add: assms(3) z_impl_k_yield_def swap_current cache_update_True)
  have hd: "hd (z_priq_dumb_add th xs c) \<noteq> c" if "t \<in> set xs" "prio (th t) \<le> prio (th c)" "c \<notin> set xs"
    "sorted_wrt (by_prio th) xs" for th xs c t
    using that by (cases xs) auto
  have "sorted_wrt (by_prio (threads k)) (remove1 ?c (runq k))"
    using inv_butD(1) [OF D(1)] by (simp add: wf_queues_def tprio_def sorted_wrt_remove1)
  then have "hd (runq ?q) \<noteq> ?c" if "t \<in> set (runq k)" "t \<noteq> ?c" "prio (threads k t) \<le> prio (threads k ?c)" for t
    using that inv_distinct [OF D(1)] hd [of t "remove1 ?c (runq k)" "threads k" ?c] unfolding rq by simp
  moreover have "best_thread ?q = hd (runq ?q)" using rq by (simp add: best_thread_def split: list.split)
  moreover have "runq k' = runq ?q" by (simp add: assms(3) z_impl_k_yield_def)
  ultimately show ?thesis using c' rq by auto
qed

theorem yield_gives_way_witness:
  "runq (z_impl_k_yield with_helper) = [5, 3]"
  using yield_gives_way [OF helper_run(1,2) refl]
  by (simp add: helper_facts blank_thread_def)

section \<open>The scheduler lock\<close>

text \<open>The running thread holds the lock, can run, and no other thread has been selected.\<close>

definition held :: "kernel \<Rightarrow> bool" where
  "held k \<longleftrightarrow> sched_locked (threads k (current k)) \<noteq> 0 \<and> \<not> z_is_thread_prevented_from_running (threads k (current k)) \<and>
     num_metairq k = 0 \<and> cache k = current k"

definition keeps_held :: "kernel \<Rightarrow> kernel \<Rightarrow> bool" where
  "keeps_held k k' \<longleftrightarrow> (held k \<longrightarrow> held k' \<and> current k' = current k)"

lemma keeps_held_refl: "keeps_held k k" and keeps_held_trans: "keeps_held k k' \<Longrightarrow> keeps_held k' k'' \<Longrightarrow> keeps_held k k''"
  by (simp_all add: keeps_held_def)

lemma keeps_heldI:
  assumes "current k' = current k" "env k' = env k" "held k \<Longrightarrow> cache k' = current k"
    and "sched_locked (threads k' (current k)) = sched_locked (threads k (current k))"
    and "z_is_thread_prevented_from_running (threads k' (current k)) \<Longrightarrow>
      z_is_thread_prevented_from_running (threads k (current k))"
  shows "keeps_held k k'"
  using assms by (auto simp: keeps_held_def held_def env_def)

lemma held_update_cache: "keeps_held k (update_cache False k)"
proof (rule keeps_heldI)
  assume k: "held k"
  then have "\<not> metairq_tracked k" by (simp add: held_def metairq_tracked_def)
  moreover have "\<not> should_preempt k x False" for x
    using k locked_not_preemptible by (auto simp: should_preempt_def held_def thread_is_metairq_def)
  ultimately show "cache (update_cache False k) = current k" by (simp add: cache_update_cache)
qed simp_all

lemma held_upd_thread:
  assumes "\<And>th. sched_locked (f th) = sched_locked th"
    "\<And>th. z_is_thread_prevented_from_running (f th) \<Longrightarrow> z_is_thread_prevented_from_running th"
  shows "keeps_held k (upd_thread t f k)"
  by (rule keeps_heldI) (use assms in \<open>auto simp: threads_upd_thread held_def split: if_splits\<close>)

lemma held_ready: "keeps_held k (ready_thread t k)"
proof -
  have "keeps_held k (queue_thread t k)"
    by (rule keeps_heldI) (auto simp: queue_threads held_def z_is_thread_prevented_from_running_def split: if_splits)
  then have "keeps_held k (update_cache False (queue_thread t k))" using held_update_cache by (rule keeps_held_trans)
  then show ?thesis by (simp add: ready_thread_def keeps_held_refl)
qed

lemma held_abort_timeout: "keeps_held k (snd (z_abort_thread_timeout t k))"
  by (rule keeps_heldI) (simp_all add: held_def)

lemma held_unpend: "keeps_held k (unpend_thread_no_timeout t k)"
  by (rule keeps_heldI) (auto simp: unpend_threads held_def z_is_thread_prevented_from_running_def split: if_splits)

lemma held_woken:
  assumes f: "swap_fn f"
  shows "keeps_held k (woken_with f t k)"
proof -
  have "sched_locked (f th) = sched_locked th" "thread_state (f th) = thread_state th" for th using swap_fnD [OF f] by simp_all
  then have u: "keeps_held K (upd_thread t f K)" for K
    by (intro held_upd_thread) (simp_all add: z_is_thread_prevented_from_running_def)
  show ?thesis
    unfolding woken_with_def
    by (rule keeps_held_trans [OF keeps_held_trans [OF keeps_held_trans [OF held_unpend held_abort_timeout] u] held_ready])
qed

lemma held_reschedule: "keeps_held k (z_reschedule k)"
  by (simp add: keeps_held_def z_reschedule_def need_swap_def held_def)

lemma held_marks:
  "keeps_held k (upd_thread t z_mark_thread_as_started k)" "keeps_held k (upd_thread t z_mark_thread_as_not_suspended k)"
  "keeps_held k (upd_thread t (\<lambda>th. th\<lparr>no_wake_on_timeout := b\<rparr>) k)"
  by (rule held_upd_thread; auto simp: z_mark_thread_as_started_def z_mark_thread_as_not_suspended_def
      z_is_thread_prevented_from_running_def)+

lemma held_fields [simp]:
  "keeps_held k (k\<lparr>tmo := x\<rparr>)" "keeps_held k (k\<lparr>slice_expired := b\<rparr>)" "keeps_held k (k\<lparr>in_isr := b\<rparr>)"
  "keeps_held k (z_get_next_switch_handle k)"
  by (simp_all add: keeps_held_def held_def z_get_next_switch_handle_def)

lemma held_wake_thread: "keeps_held k (z_sched_wake_thread t True k)"
proof -
  let ?a = "upd_thread t (\<lambda>th. th\<lparr>no_wake_on_timeout := False\<rparr>) k"
  let ?d = "ready_thread t (upd_thread t z_mark_thread_as_not_suspended (upd_thread t z_mark_thread_as_started (unpend_thread_no_timeout t ?a)))"
  have "keeps_held ?a ?d"
    by (rule keeps_held_trans [OF keeps_held_trans [OF keeps_held_trans [OF held_unpend held_marks(1)] held_marks(2)] held_ready])
  then have "keeps_held k ?d" using held_marks(3) by (rule keeps_held_trans [rotated])
  then show ?thesis using held_marks(3) by (simp add: z_sched_wake_thread_def Let_def z_unpend_no_timeout_eq)
qed

lemma held_announce_pass: "keeps_held k (announce_pass e k)"
proof -
  let ?k1 = "k\<lparr>tmo := announce_pop e (tmo k)\<rparr>"
  have "keeps_held ?k1 (run_timeout e ?k1)"
    by (simp add: run_timeout_def z_thread_timeout_def slice_timeout_def held_wake_thread keeps_held_refl
        split: timeout_fn.split timeout_id.split)
  then have "keeps_held k (run_timeout e ?k1)" by (rule keeps_held_trans [rotated]) simp
  then show ?thesis unfolding announce_pass_def Let_def by (rule keeps_held_trans) simp
qed

lemma held_announce_loop: "announce_loop n k = Some k' \<Longrightarrow> keeps_held k k'"
proof (induction n arbitrary: k)
  case (Suc n)
  show ?case
  proof (cases "announce_due (tmo k)")
    case None
    with Suc.prems show ?thesis by (simp add: announce_loop_Suc keeps_held_refl)
  next
    case (Some e)
    then have "keeps_held (announce_pass e k) k'" using Suc by (simp add: announce_loop_Suc)
    then show ?thesis by (rule keeps_held_trans [OF held_announce_pass])
  qed
qed simp

lemma held_time_slice: "keeps_held k (z_time_slice k)"
  using locked_not_preemptible
  by (auto simp: keeps_held_def z_time_slice_def Let_def thread_is_sliceable_def held_def)

lemma held_announce:
  assumes "sys_clock_announce n k = Some k'"
  shows "keeps_held k k'"
proof -
  let ?k0 = "k\<lparr>tmo := announce_begin n (tmo k)\<rparr>"
  obtain k1 where l: "announce_loop (announce_fuel k) ?k0 = Some k1" "k' = z_time_slice (k1\<lparr>tmo := announce_end (tmo k1)\<rparr>)"
    using assms by (auto simp: sys_clock_announce_def split: option.splits)
  have "keeps_held k k1" using held_announce_loop [OF l(1)] by (rule keeps_held_trans [OF held_fields(1)])
  then have "keeps_held k (k1\<lparr>tmo := announce_end (tmo k1)\<rparr>)" by (rule keeps_held_trans) simp
  then show ?thesis unfolding l(2) using held_time_slice by (rule keeps_held_trans)
qed

text \<open>The steps that make threads ready: calls of the running thread, interrupts, and timeouts that expire.\<close>

inductive wake_step :: "kernel \<Rightarrow> kernel \<Rightarrow> bool" where
  wake: "waitqs k w = t # ts \<Longrightarrow> swap_fn f \<Longrightarrow> wake_step k (z_reschedule (woken_with f t k))"
| start: "wake_step k (z_sched_start t k)"
| resume: "wake_step k (z_impl_k_thread_resume t k)"
| wakeup: "wake_step k (z_impl_k_wakeup t k)"
| isr_enter: "wake_step k (k\<lparr>in_isr := True\<rparr>)"
| isr_exit: "wake_step k ((z_get_next_switch_handle k)\<lparr>in_isr := False\<rparr>)"
| tick: "in_isr k \<Longrightarrow> sys_clock_announce n k = Some k' \<Longrightarrow> wake_step k k'"

lemma held_wake_step: "wake_step k k' \<Longrightarrow> keeps_held k k'"
proof (induction rule: wake_step.induct)
  case (wake k w t ts f)
  then show ?case using keeps_held_trans [OF held_woken held_reschedule] by blast
next
  case (start k t)
  then show ?case
    using keeps_held_trans [OF keeps_held_trans [OF held_marks(1) held_ready] held_reschedule]
    by (simp add: z_sched_start_def keeps_held_refl)
next
  case (resume k t)
  then show ?case
    using keeps_held_trans [OF keeps_held_trans [OF held_marks(2) held_ready] held_reschedule]
    by (simp add: z_impl_k_thread_resume_def keeps_held_refl)
next
  case (wakeup k t)
  have r: "keeps_held k (ready_thread t (upd_thread t z_mark_thread_as_not_suspended (snd (z_abort_thread_timeout t k))))"
    by (rule keeps_held_trans [OF keeps_held_trans [OF held_abort_timeout held_marks(2)] held_ready])
  then show ?case
    using keeps_held_trans [OF r held_reschedule] held_abort_timeout
    by (simp add: z_impl_k_wakeup_def Let_def case_prod_beta keeps_held_refl)
next
  case (isr_exit k)
  show ?case by (rule keeps_held_trans [OF held_fields(4,3)])
qed (simp_all add: held_announce)

lemma held_wake_steps: "wake_step\<^sup>*\<^sup>* k k' \<Longrightarrow> keeps_held k k'"
  by (induction rule: rtranclp_induct) (auto intro: keeps_held_refl keeps_held_trans held_wake_step)

text \<open>The main thread waits in a queue and the helper runs.\<close>

definition main_waits :: kernel where
  "main_waits = z_pend_curr (ObjQ 0) K_FOREVER with_helper"

lemma main_waits_facts:
  "kernel_inv main_waits" "current main_waits = 3" "cache main_waits = 3" "runq main_waits = [3]"
  "waitqs main_waits = (\<lambda>_. [])(ObjQ 0 := [5])" "env main_waits = env booted"
  "sched_locked (threads main_waits 3) = 0" "\<not> in_isr main_waits" "running main_waits"
proof -
  let ?p = "pend_locked 5 (Some (ObjQ 0)) K_FOREVER with_helper"
  have p: "main_waits = do_swap ?p" by (simp add: main_waits_def z_pend_curr_def helper_facts)
  show "kernel_inv main_waits" unfolding main_waits_def by (rule pend_curr_kernel_inv) (rule helper_run)+
  show e: "env main_waits = env booted" by (simp add: p helper_facts)
  show "runq main_waits = [3]"
    using unready_runq [OF kernel_invD(1) [OF helper_run(1)], of 5]
    by (simp add: p pend_locked_def add_thread_timeout_def add_to_waitq_locked_def Let_def helper_facts)
  moreover have "cache ?p = best_thread ?p"
    using pend_locked_cache [of with_helper "Some (ObjQ 0)" K_FOREVER] kernel_invD(4) [OF helper_run(1)]
    by (simp add: helper_facts)
  ultimately show c: "current main_waits = 3" "cache main_waits = 3"
    by (simp_all add: p swap_current best_thread_def)
  show "waitqs main_waits = (\<lambda>_. [])(ObjQ 0 := [5])"
    by (simp add: p add_to_waitq_waitqs helper_facts)
  show "sched_locked (threads main_waits 3) = 0"
    by (simp add: main_waits_def z_pend_curr_threads helper_facts blank_thread_def)
  show "\<not> in_isr main_waits" using env_isr [OF e] by simp
  show "running main_waits" using \<open>runq main_waits = [3]\<close> c by (simp add: running_def)
qed



text \<open>
  C24. The lock does not hold against a change of priority: raising another ready thread over all others
  puts it in the cache, and the next interrupt switches to it although the running thread holds the
  scheduler lock.
\<close>

theorem priority_set_defeats_lock:
  assumes "kernel_inv k" "\<not> in_isr k" "sched_locked (threads k (current k)) \<noteq> 0"
    "t \<in> set (runq k)" "t \<noteq> current k" "\<forall>x \<in> set (runq k). x \<noteq> t \<longrightarrow> p < prio (threads k x)"
    "k1 = z_impl_k_thread_priority_set t p k"
  shows "current k1 = current k \<and> current (z_get_next_switch_handle (k1\<lparr>in_isr := True\<rparr>)) = t"
proof -
  note D = kernel_invD [OF assms(1)]
  have ti: "t \<noteq> idle_thread k" using D(1) assms(4) by (auto simp: sched_inv_but_def)
  note f = prio_set_frame [OF D(1) ti]
  let ?s = "snd (z_thread_prio_set t p k)"
  have "sched_locked (threads ?s (current ?s)) \<noteq> 0" using assms(3,5) by (simp add: f)
  then have k1: "k1 = ?s" by (simp add: assms(7) z_impl_k_thread_priority_set_def Let_def case_prod_beta)
  then have c: "current k1 = current k" by (simp add: f)
  let ?q = "queue_thread t (set_prio t p (dequeue_thread t k))"
  have eq: "?s = update_cache True ?q"
    using assms(4) D(1) ti by (simp add: z_thread_prio_set_def Let_def ready_runq)
  have "\<not> metairq_tracked ?q" using D(4) tracked_env [of ?q k] by (simp add: set_prio_def)
  then have "cache ?s = best_thread ?q" by (simp add: eq cache_update_True)
  moreover have "hd (z_priq_dumb_add th xs t) = t" if "\<forall>x \<in> set xs. prio (th t) < prio (th x)" for th xs
    using that by (cases xs) auto
  then have "hd (runq ?q) = t"
    using assms(6) inv_distinct [OF D(1)]
    by (simp add: set_prio_def threads_upd_thread z_priq_dumb_remove_def runq_remove_def dequeue_thread_def)
  moreover have "runq ?q \<noteq> []" by simp
  ultimately have "cache ?s = t" by (cases "runq ?q") (simp_all add: best_thread_def)
  with c show ?thesis by (simp add: k1 z_get_next_switch_handle_def)
qed

theorem priority_set_defeats_lock_witness:
  "\<exists>k1. k1 = z_impl_k_thread_priority_set 3 (-1) (k_sched_lock with_helper) \<and> current k1 = 5 \<and>
     current (z_get_next_switch_handle (k1\<lparr>in_isr := True\<rparr>)) = 3"
proof -
  let ?k = "k_sched_lock with_helper"
  have "env ?k = env booted" using helper_facts(5) by (simp add: k_sched_lock_def)
  then have e: "\<not> in_isr ?k" using env_isr [of ?k booted] by simp
  have "\<not> in_isr with_helper" using env_isr [OF helper_facts(5)] by simp
  then have k: "kernel_inv ?k"
    using helper_run(1) by (intro sched_lock_kernel_inv) (simp_all add: helper_facts)
  show ?thesis
    using priority_set_defeats_lock [OF k e _ _ _ _ refl, of 3 "-1"]
    by (simp add: k_sched_lock_def helper_facts threads_upd_thread)
qed

end
