(* ===== verification/Sem.thy ===== *)
theory Sem
  imports Sched_Props
begin

text \<open>
  Counting semaphores, \<open>kernel/sem.c\<close> (without \<open>CONFIG_POLL\<close>, so that \<open>handle_poll_events\<close> returns
  false). The semaphore is a record of its own; its wait queue lives in the kernel state. A blocked
  \<open>k_sem_take\<close> returns the value its waker left in the thread (\<open>k_sem_take_resume\<close>).
\<close>

section \<open>State and operations\<close>

record k_sem =
  sem_wait_q :: wait_q
  sem_count :: u32
  sem_limit :: u32

definition z_waitq_init :: "wait_q \<Rightarrow> kernel \<Rightarrow> kernel" where
  "z_waitq_init w k = k\<lparr>waitqs := (waitqs k)(w := [])\<rparr>"

definition z_impl_k_sem_init :: "u32 \<Rightarrow> u32 \<Rightarrow> k_sem \<Rightarrow> kernel \<Rightarrow> int \<times> k_sem \<times> kernel" where
  "z_impl_k_sem_init initial_count limit sem k =
     (if limit = 0 \<or> initial_count > limit then (- EINVAL, sem, k)
      else (0, sem\<lparr>sem_count := initial_count, sem_limit := limit\<rparr>, z_waitq_init (sem_wait_q sem) k))"

definition z_impl_k_sem_give :: "k_sem \<Rightarrow> kernel \<Rightarrow> k_sem \<times> kernel" where
  "z_impl_k_sem_give sem k =
     (case z_unpend_first_thread (sem_wait_q sem) k of
        (Some thread, k1) \<Rightarrow>
          (sem, z_reschedule (z_ready_thread thread (arch_thread_return_value_set thread 0 k1)))
      | (None, k1) \<Rightarrow>
          (sem\<lparr>sem_count := sem_count sem + (if sem_count sem \<noteq> sem_limit sem then 1 else 0)\<rparr>, k1))"

definition z_impl_k_sem_take :: "k_ticks_t \<Rightarrow> k_sem \<Rightarrow> kernel \<Rightarrow> int outcome \<times> k_sem \<times> kernel" where
  "z_impl_k_sem_take timeout sem k =
     (if sem_count sem > 0 then (Done 0, sem\<lparr>sem_count := sem_count sem - 1\<rparr>, k)
      else if timeout = K_NO_WAIT then (Done (- EBUSY), sem, k)
      else (Blocked, sem, z_pend_curr (sem_wait_q sem) timeout k))"

definition k_sem_take_resume :: "kernel \<Rightarrow> int" where
  "k_sem_take_resume k = swap_retval (threads k (current k))"

definition z_impl_k_sem_reset :: "k_sem \<Rightarrow> kernel \<Rightarrow> k_sem \<times> kernel" where
  "z_impl_k_sem_reset sem k =
     (let (_, k1) = wake_all (- EAGAIN) (sem_wait_q sem) k
      in (sem\<lparr>sem_count := 0\<rparr>, z_reschedule k1))"

definition z_impl_k_sem_count_get :: "k_sem \<Rightarrow> u32" where
  "z_impl_k_sem_count_get sem = sem_count sem"

section \<open>The invariant\<close>

text \<open>The count stays within the limit, and nobody waits while the count is positive.\<close>

definition sem_inv :: "k_sem \<Rightarrow> kernel \<Rightarrow> bool" where
  "sem_inv sem k \<longleftrightarrow>
     0 < sem_limit sem \<and> sem_count sem \<le> sem_limit sem \<and>
     (waitqs k (sem_wait_q sem) \<noteq> [] \<longrightarrow> sem_count sem = 0)"

lemma sem_give_waiter:
  assumes "waitqs k (sem_wait_q sem) = t # ts"
  shows "z_impl_k_sem_give sem k = (sem, z_reschedule (woken t 0 k))"
  by (simp add: z_impl_k_sem_give_def unpend_first_eq [OF assms] z_ready_thread_def woken_eq)

lemma sem_give_no_waiter:
  assumes "waitqs k (sem_wait_q sem) = []"
  shows "z_impl_k_sem_give sem k =
    (sem\<lparr>sem_count := sem_count sem + (if sem_count sem \<noteq> sem_limit sem then 1 else 0)\<rparr>, k)"
  by (simp add: z_impl_k_sem_give_def assms)

lemma sem_give_cases:
  obtains (waiter) t ts where "waitqs k (sem_wait_q sem) = t # ts"
      "z_impl_k_sem_give sem k = (sem, z_reschedule (woken t 0 k))"
  | (free) "waitqs k (sem_wait_q sem) = []"
      "z_impl_k_sem_give sem k =
        (sem\<lparr>sem_count := sem_count sem + (if sem_count sem \<noteq> sem_limit sem then 1 else 0)\<rparr>, k)"
  using sem_give_waiter sem_give_no_waiter by (metis list.exhaust)

lemma sem_give_inv:
  assumes k: "kernel_pre k" and s: "sem_inv sem k" and g: "z_impl_k_sem_give sem k = (sem', k')"
  shows "advances k k' \<and> sem_inv sem' k'"
proof (cases rule: sem_give_cases [of k sem])
  case (waiter t ts)
  with g s show ?thesis
    using advancesI [OF pre_reschedule [OF woken_pre [OF k]]] woken_props(2) [OF kernel_preD(1) [OF k]]
    by (auto simp: sem_inv_def)
next
  case free
  then show ?thesis using g k s word_incr_below [of "sem_count sem" "sem_limit sem"] by (auto simp: sem_inv_def advances_refl)
qed

lemma sem_take_cases:
  assumes "z_impl_k_sem_take timeout sem k = (r, sem', k')"
  obtains (taken) "0 < sem_count sem" "r = Done 0" "sem' = sem\<lparr>sem_count := sem_count sem - 1\<rparr>" "k' = k"
  | (busy) "sem_count sem = 0" "timeout = K_NO_WAIT" "r = Done (- EBUSY)" "sem' = sem" "k' = k"
  | (wait) "sem_count sem = 0" "timeout \<noteq> K_NO_WAIT" "r = Blocked" "sem' = sem"
      "k' = z_pend_curr (sem_wait_q sem) timeout k"
  using assms word_gt_0 [of "sem_count sem"] by (auto simp: z_impl_k_sem_take_def split: if_splits)

lemma sem_take_inv:
  assumes k: "kernel_pre k" and s: "sem_inv sem k" and run: "timeout = K_NO_WAIT \<or> running k"
    and t: "z_impl_k_sem_take timeout sem k = (r, sem', k')"
  shows "advances k k' \<and> sem_inv sem' k'"
  using t
proof (cases rule: sem_take_cases)
  case taken
  then show ?thesis using k s word_decr [of "sem_count sem"] by (auto simp: sem_inv_def advances_refl)
next
  case wait
  then show ?thesis using s run advancesI [OF pend_curr_pre [OF k]] by (auto simp: sem_inv_def)
qed (use k s in \<open>simp_all add: advances_refl\<close>)

lemma sem_reset_eq:
  "z_impl_k_sem_reset sem k =
     (sem\<lparr>sem_count := 0\<rparr>, z_reschedule (snd (wake_all (- EAGAIN) (sem_wait_q sem) k)))"
  by (simp add: z_impl_k_sem_reset_def case_prod_beta)

lemma sem_reset_inv:
  assumes k: "kernel_pre k" and s: "sem_inv sem k" and r: "z_impl_k_sem_reset sem k = (sem', k')"
  shows "advances k k' \<and> sem_inv sem' k'"
proof
  have eq: "sem' = sem\<lparr>sem_count := 0\<rparr>" "k' = z_reschedule (snd (wake_all (- EAGAIN) (sem_wait_q sem) k))"
    using r by (simp_all add: sem_reset_eq)
  show "advances k k'"
    unfolding eq wake_all_def by (intro advancesI pre_reschedule wake_loop_pre k)
  show "sem_inv sem' k'" using s by (simp add: sem_inv_def eq)
qed

section \<open>The contract of a semaphore\<close>

text \<open>
  A semaphore seen from outside: a number of tokens up to a limit, and the threads waiting for one
  in order. The counts are natural numbers; that the 32-bit counter never wraps is part of what the
  refinement shows.
\<close>

record sem_spec =
  tokens :: nat
  max_tokens :: nat
  takers :: "tid list"

definition sem_abs :: "k_sem \<Rightarrow> kernel \<Rightarrow> sem_spec" where
  "sem_abs sem k = \<lparr>tokens = unat (sem_count sem), max_tokens = unat (sem_limit sem),
     takers = waitqs k (sem_wait_q sem)\<rparr>"

definition give_spec :: "sem_spec \<Rightarrow> sem_spec" where
  "give_spec a = (case takers a of
       [] \<Rightarrow> a\<lparr>tokens := min (tokens a + 1) (max_tokens a)\<rparr>
     | _ # ts \<Rightarrow> a\<lparr>takers := ts\<rparr>)"

definition take_spec :: "(tid \<Rightarrow> k_thread) \<Rightarrow> tid \<Rightarrow> bool \<Rightarrow> sem_spec \<Rightarrow> int outcome \<times> sem_spec" where
  "take_spec th me may_wait a =
     (if tokens a > 0 then (Done 0, a\<lparr>tokens := tokens a - 1\<rparr>)
      else if may_wait then (Blocked, a\<lparr>takers := z_priq_dumb_add th (takers a) me\<rparr>)
      else (Done (- EBUSY), a))"

lemma sem_give_abs:
  assumes k: "kernel_pre k" and s: "sem_inv sem k" and g: "z_impl_k_sem_give sem k = (sem', k')"
  shows "sem_abs sem' k' = give_spec (sem_abs sem k)"
proof (cases rule: sem_give_cases [of k sem])
  case (waiter t ts)
  then show ?thesis
    using g woken_props(2) [OF kernel_preD(1) [OF k] waiter(1)] by (simp add: sem_abs_def give_spec_def)
next
  case free
  have le: "unat (sem_count sem) \<le> unat (sem_limit sem)" using s by (simp add: sem_inv_def word_le_nat_alt)
  show ?thesis
  proof (cases "sem_count sem = sem_limit sem")
    case True
    then show ?thesis using g free by (auto simp: sem_abs_def give_spec_def)
  next
    case False
    then have "sem_count sem < sem_limit sem" using s by (simp add: sem_inv_def order.strict_iff_order)
    then show ?thesis
      using False g free word_incr_below [of "sem_count sem" "sem_limit sem"]
      by (auto simp: sem_abs_def give_spec_def word_less_nat_alt)
  qed
qed

lemma sem_take_abs:
  assumes t: "z_impl_k_sem_take timeout sem k = (r, sem', k')"
  shows "(r, sem_abs sem' k') = take_spec (threads k) (current k) (timeout \<noteq> K_NO_WAIT) (sem_abs sem k)"
  using t
proof (cases rule: sem_take_cases)
  case taken
  then show ?thesis using word_decr [of "sem_count sem"] by (simp add: sem_abs_def take_spec_def word_less_nat_alt)
next
  case wait
  then show ?thesis by (simp add: sem_abs_def take_spec_def z_pend_curr_waitqs)
qed (simp add: sem_abs_def take_spec_def)

text \<open>Runs of the kernel with a semaphore, counting the gives and the takes that succeed.\<close>

inductive sem_run :: "k_sem \<Rightarrow> kernel \<Rightarrow> nat \<Rightarrow> nat \<Rightarrow> k_sem \<Rightarrow> kernel \<Rightarrow> bool" for s0 k0 where
  start: "sem_run s0 k0 0 0 s0 k0"
| give: "sem_run s0 k0 g n s k \<Longrightarrow> z_impl_k_sem_give s k = (s', k') \<Longrightarrow>
    sem_run s0 k0 (Suc g) (if waitqs k (sem_wait_q s) = [] then n else Suc n) s' k'"
| take: "sem_run s0 k0 g n s k \<Longrightarrow> timeout = K_NO_WAIT \<or> running k \<Longrightarrow>
    z_impl_k_sem_take timeout s k = (r, s', k') \<Longrightarrow> sem_run s0 k0 g (if r = Done 0 then Suc n else n) s' k'"
| reset: "sem_run s0 k0 g n s k \<Longrightarrow> z_impl_k_sem_reset s k = (s', k') \<Longrightarrow> sem_run s0 k0 g n s' k'"
| other: "sem_run s0 k0 g n s k \<Longrightarrow> kstep k k' \<Longrightarrow>
    set (waitqs k' (sem_wait_q s)) \<subseteq> set (waitqs k (sem_wait_q s)) \<Longrightarrow> sem_run s0 k0 g n s k'"

lemma sem_run_inv:
  assumes "sem_run s0 k0 g n s k" "kernel_inv k0" "sem_inv s0 k0"
  shows "kernel_pre k \<and> sem_inv s k"
  using assms
proof (induction rule: sem_run.induct)
  case (other g n s k k')
  then show ?case using kstep_pre by (auto simp: sem_inv_def)
qed (use kernel_inv_pre advancesD(1) sem_give_inv sem_take_inv sem_reset_inv in blast)+

lemma give_tokens:
  "tokens (give_spec a) \<le> (if takers a = [] then Suc (tokens a) else tokens a)"
  by (simp add: give_spec_def split: list.split)

lemma take_tokens:
  "(r, b) = take_spec th me w a \<Longrightarrow> tokens a = (if r = Done 0 then Suc (tokens b) else tokens b)"
  by (simp add: take_spec_def split: if_splits)

lemma sem_abs_simps [simp]:
  "tokens (sem_abs s k) = unat (sem_count s)" "takers (sem_abs s k) = waitqs k (sem_wait_q s)"
  by (simp_all add: sem_abs_def)

lemma sem_run_tokens:
  assumes "sem_run s0 k0 g n s k" "kernel_inv k0" "sem_inv s0 k0"
  shows "unat (sem_count s) + n \<le> unat (sem_count s0) + g"
  using assms
proof (induction rule: sem_run.induct)
  case (give g n s k s' k')
  then have "sem_abs s' k' = give_spec (sem_abs s k)" using sem_run_inv sem_give_abs by blast
  then have "tokens (sem_abs s' k') \<le>
      (if takers (sem_abs s k) = [] then Suc (tokens (sem_abs s k)) else tokens (sem_abs s k))"
    using give_tokens by metis
  then show ?case using give.IH [OF give.prems] by (auto split: if_splits)
next
  case (take g n s k timeout r s' k')
  then show ?case using take_tokens [OF sem_take_abs [OF take.hyps(3)]] by (auto split: if_splits)
next
  case (reset g n s k s' k')
  then show ?case by (simp add: sem_reset_eq) auto
qed simp_all

section \<open>Properties\<close>

text \<open>
  C4. Giving and taking a semaphore implement the bounded token counter with its queue of takers:
  the 32-bit count never wraps and never exceeds the limit, a token given while threads wait goes
  to the first of them with the result 0, and the invariants of the kernel and of the semaphore are
  kept.
\<close>

theorem sem_refines_tokens:
  assumes "kernel_inv k" "sem_inv sem k" "timeout = K_NO_WAIT \<or> running k"
    and "z_impl_k_sem_give sem k = (sem1, k1)" "z_impl_k_sem_take timeout sem k = (r, sem2, k2)"
  shows "kernel_inv k1 \<and> sem_inv sem1 k1 \<and> sem_abs sem1 k1 = give_spec (sem_abs sem k) \<and>
    (\<forall>t ts. waitqs k (sem_wait_q sem) = t # ts \<longrightarrow> swap_retval (threads k1 t) = 0) \<and>
    kernel_inv k2 \<and> sem_inv sem2 k2 \<and>
    (r, sem_abs sem2 k2) = take_spec (threads k) (current k) (timeout \<noteq> K_NO_WAIT) (sem_abs sem k)"
proof -
  note k = kernel_inv_pre [OF assms(1)]
  have "swap_retval (threads k1 t) = 0" if "waitqs k (sem_wait_q sem) = t # ts" for t ts
    using handoff_retval [OF assms(1) that, of 0] assms(4) sem_give_waiter [OF that] by simp
  then show ?thesis
    using sem_give_inv [OF k assms(2,4)] sem_give_abs [OF k assms(2,4)] sem_take_inv [OF k assms(2,3,5)]
      sem_take_abs [OF assms(5)] advancesD(2) assms(1) by blast
qed

definition sample_sem :: k_sem where
  "sample_sem = \<lparr>sem_wait_q = ObjQ 0, sem_count = 0, sem_limit = 3\<rparr>"

lemma sample_sem_inv: "sem_inv sample_sem k"
  by (simp add: sem_inv_def sample_sem_def)

theorem sem_refines_tokens_witness:
  "swap_retval (threads (snd (z_impl_k_sem_give sample_sem main_waits)) 5) = 0 \<and>
   takers (sem_abs sample_sem main_waits) = [5]"
proof -
  obtain s1 k1 r s2 k2 where "z_impl_k_sem_give sample_sem main_waits = (s1, k1)"
    "z_impl_k_sem_take K_NO_WAIT sample_sem main_waits = (r, s2, k2)" by (metis prod.exhaust)
  from sem_refines_tokens [OF main_waits_facts(1) sample_sem_inv _ this] this show ?thesis
    by (simp add: main_waits_facts sample_sem_def)
qed

text \<open>
  C2. In every run from an initialised semaphore, the tokens in the semaphore and the takes that
  succeeded so far (at once or by a hand-over) never exceed the initial count and the gives, the
  count stays within the limit, and no thread waits while there is a token.
\<close>

theorem sem_tokens_conserved:
  assumes "kernel_inv k0" "sem_inv s0 k0" "sem_run s0 k0 gives takes s k"
  shows "unat (sem_count s) + takes \<le> unat (sem_count s0) + gives \<and> sem_count s \<le> sem_limit s \<and>
    (sem_count s > 0 \<longrightarrow> waitqs k (sem_wait_q s) = [])"
  using sem_run_tokens [OF assms(3,1,2)] sem_run_inv [OF assms(3,1,2)] by (auto simp: sem_inv_def)

theorem sem_tokens_conserved_witness:
  "\<exists>s k. sem_run sample_sem main_waits 1 1 s k \<and> unat (sem_count s) + 1 \<le> 1"
proof -
  obtain s k where "z_impl_k_sem_give sample_sem main_waits = (s, k)" by fastforce
  then have "sem_run sample_sem main_waits 1 1 s k"
    using sem_run.give [OF sem_run.start, of sample_sem main_waits s k] by (simp add: sample_sem_def main_waits_facts)
  with sem_tokens_conserved [OF main_waits_facts(1) sample_sem_inv this] show ?thesis
    by (auto simp: sample_sem_def)
qed

text \<open>
  A thread that blocks in a take and is given the semaphore before its timeout returns 0; the
  count is not changed by the hand-over.
\<close>

theorem sem_take_then_give:
  assumes "kernel_inv k" "sem_inv sem k" "running k" "waitqs k (sem_wait_q sem) = []"
    and "z_impl_k_sem_take timeout sem k = (Blocked, sem1, k1)" "z_impl_k_sem_give sem1 k1 = (sem2, k2)"
  shows "swap_retval (threads k2 (current k)) = 0 \<and> waitqs k2 (sem_wait_q sem) = [] \<and> sem2 = sem \<and>
    deadline (tmo k2) (ThreadTo (current k)) = None"
proof -
  let ?c = "current k"
  note D = kernel_invD [OF assms(1)]
  from sem_take_cases [OF assms(5)] have eq: "sem1 = sem" "k1 = z_pend_curr (sem_wait_q sem) timeout k" by auto
  have k1: "kernel_inv k1" using pend_curr_kernel_inv [OF assms(1,3)] eq(2) by simp
  have q: "waitqs k1 (sem_wait_q sem) = [?c]" by (simp add: eq(2) z_pend_curr_waitqs assms(4))
  then have g: "sem2 = sem" "k2 = z_reschedule (woken ?c 0 k1)" using assms(6) sem_give_waiter [of k1 sem] eq(1) by auto
  note w = woken_props [OF kernel_invD(1) [OF k1] q]
  have "deadline (tmo (z_reschedule (woken ?c 0 k1))) (ThreadTo ?c) = None"
    using w(7) inv_butD(2) [OF w(1)] by (simp add: z_reschedule_def do_swap_tmo)
  with g w(2) handoff_retval [OF k1 q] show ?thesis by simp
qed

theorem sem_take_then_give_witness:
  "\<exists>k1 k2. z_impl_k_sem_take K_FOREVER sample_sem with_helper = (Blocked, sample_sem, k1) \<and>
     z_impl_k_sem_give sample_sem k1 = (sample_sem, k2) \<and> swap_retval (threads k2 5) = 0"
proof -
  have t: "z_impl_k_sem_take K_FOREVER sample_sem with_helper = (Blocked, sample_sem, main_waits)"
    by (simp add: z_impl_k_sem_take_def sample_sem_def main_waits_def)
  obtain s2 k2 where g: "z_impl_k_sem_give sample_sem main_waits = (s2, k2)" by fastforce
  from sem_take_then_give [OF helper_run(1) sample_sem_inv helper_run(2) _ t g] t g show ?thesis
    by (simp add: helper_facts)
qed

text \<open>
  A reset empties the semaphore and its queue: every waiting thread is woken with \<open>-EAGAIN\<close>.
\<close>

theorem sem_reset_wakes_all:
  assumes "kernel_inv k" "sem_inv sem k" "z_impl_k_sem_reset sem k = (sem', k')"
  shows "kernel_inv k' \<and> sem_inv sem' k' \<and> sem_count sem' = 0 \<and> waitqs k' = (waitqs k)(sem_wait_q sem := []) \<and>
    (\<forall>t \<in> set (waitqs k (sem_wait_q sem)). swap_retval (threads k' t) = - EAGAIN \<and> pended_on (threads k' t) = None)"
proof -
  have eq: "sem' = sem\<lparr>sem_count := 0\<rparr>" "k' = z_reschedule (snd (wake_all (- EAGAIN) (sem_wait_q sem) k))"
    using assms(3) by (simp_all add: sem_reset_eq)
  then show ?thesis using sem_reset_inv [OF kernel_inv_pre [OF assms(1)] assms(2-)] advancesD(2) [OF _ assms(1)] wake_all_effect [OF assms(1) eq(2)] by simp
qed

theorem sem_reset_wakes_all_witness:
  "swap_retval (threads (snd (z_impl_k_sem_reset sample_sem main_waits)) 5) = - EAGAIN"
proof -
  obtain s k where r: "z_impl_k_sem_reset sample_sem main_waits = (s, k)" by fastforce
  from sem_reset_wakes_all [OF main_waits_facts(1) sample_sem_inv r] r show ?thesis
    by (simp add: sample_sem_def main_waits_facts)
qed

end
