(* ===== verification/Mutex.thy ===== *)
theory Mutex
  imports Sem
begin

text \<open>
  Mutexes, \<open>kernel/mutex.c\<close>: recursive locks with an owner, priority inheritance, and a hand-over
  to the first waiting thread. A blocked \<open>k_mutex_lock\<close> keeps its local variable \<open>resched\<close>, which
  is therefore part of what the call returns and an argument of \<open>k_mutex_lock_resume\<close>.
\<close>

section \<open>State and operations\<close>

record k_mutex =
  mutex_wait_q :: wait_q
  owner :: "tid option"
  lock_count :: u32
  owner_orig_prio :: int

definition z_impl_k_mutex_init :: "k_mutex \<Rightarrow> kernel \<Rightarrow> int \<times> k_mutex \<times> kernel" where
  "z_impl_k_mutex_init mutex k =
     (0, mutex\<lparr>owner := None, lock_count := 0\<rparr>, z_waitq_init (mutex_wait_q mutex) k)"

definition new_prio_for_inheritance :: "int \<Rightarrow> int \<Rightarrow> kernel \<Rightarrow> int" where
  "new_prio_for_inheritance target limit k =
     (let new_prio = (if z_is_prio_higher target limit then target else limit)
      in z_get_new_prio_with_ceiling new_prio k)"

text \<open>The callers have checked that there is an owner.\<close>

definition adjust_owner_prio :: "tid \<Rightarrow> int \<Rightarrow> kernel \<Rightarrow> bool \<times> kernel" where
  "adjust_owner_prio own new_prio k =
     (if prio (threads k own) \<noteq> new_prio then z_thread_prio_set own new_prio k else (False, k))"

definition z_impl_k_mutex_lock ::
  "k_ticks_t \<Rightarrow> k_mutex \<Rightarrow> kernel \<Rightarrow> int outcome \<times> bool \<times> k_mutex \<times> kernel" where
  "z_impl_k_mutex_lock timeout mutex k =
     (if lock_count mutex = 0 \<or> owner mutex = Some (current k)
      then (Done 0, False,
            mutex\<lparr>owner_orig_prio := (if lock_count mutex = 0 then prio (threads k (current k))
                                      else owner_orig_prio mutex),
                  lock_count := lock_count mutex + 1, owner := Some (current k)\<rparr>, k)
      else if timeout = K_NO_WAIT then (Done (- EBUSY), False, mutex, k)
      else
        let own = the (owner mutex);
            new_prio = new_prio_for_inheritance (prio (threads k (current k))) (prio (threads k own)) k;
            (need_resched, k1) = (if z_is_prio_higher new_prio (prio (threads k own))
                             then adjust_owner_prio own new_prio k else (False, k))
        in (Blocked, need_resched, mutex, z_pend_curr (mutex_wait_q mutex) timeout k1))"

definition k_mutex_lock_resume :: "bool \<Rightarrow> k_mutex \<Rightarrow> kernel \<Rightarrow> int \<times> kernel" where
  "k_mutex_lock_resume need_resched mutex k =
     (if swap_retval (threads k (current k)) = 0 then (0, k)
      else
        let (r, k1) =
          (case owner mutex of
             None \<Rightarrow> (need_resched, k)
           | Some own \<Rightarrow>
               let new_prio = (case z_waitq_head (mutex_wait_q mutex) k of
                                 Some waiter \<Rightarrow>
                                   new_prio_for_inheritance (prio (threads k waiter)) (owner_orig_prio mutex) k
                               | None \<Rightarrow> owner_orig_prio mutex);
                   (a, k') = adjust_owner_prio own new_prio k
               in (a \<or> need_resched, k'))
        in (- EAGAIN, if r then z_reschedule k1 else k1))"

definition z_impl_k_mutex_unlock :: "k_mutex \<Rightarrow> kernel \<Rightarrow> int \<times> k_mutex \<times> kernel" where
  "z_impl_k_mutex_unlock mutex k =
     (case owner mutex of
        None \<Rightarrow> (- EINVAL, mutex, k)
      | Some own \<Rightarrow>
          if own \<noteq> current k then (- EPERM, mutex, k)
          else if lock_count mutex > 1 then (0, mutex\<lparr>lock_count := lock_count mutex - 1\<rparr>, k)
          else
            let k1 = snd (adjust_owner_prio own (owner_orig_prio mutex) k)
            in case z_unpend_first_thread (mutex_wait_q mutex) k1 of
                 (Some new_owner, k2) \<Rightarrow>
                   (0, mutex\<lparr>owner := Some new_owner, owner_orig_prio := prio (threads k2 new_owner)\<rparr>,
                    z_reschedule (z_ready_thread new_owner (arch_thread_return_value_set new_owner 0 k2)))
               | (None, k2) \<Rightarrow> (0, mutex\<lparr>owner := None, lock_count := 0\<rparr>, k2))"

section \<open>The invariant\<close>

text \<open>
  A mutex is owned exactly when its count is positive, only an owned mutex has waiters, and the
  owner is a thread that may run and does not wait for the mutex.
\<close>

definition mutex_inv :: "k_mutex \<Rightarrow> kernel \<Rightarrow> bool" where
  "mutex_inv mutex k \<longleftrightarrow>
     (owner mutex = None \<longleftrightarrow> lock_count mutex = 0) \<and>
     (waitqs k (mutex_wait_q mutex) \<noteq> [] \<longrightarrow> owner mutex \<noteq> None) \<and>
     (\<forall>own. owner mutex = Some own \<longrightarrow> own \<noteq> idle_thread k \<and> own \<noteq> thread_dummy k \<and>
       own \<notin> set (waitqs k (mutex_wait_q mutex)))"

lemma adjust_frame:
  assumes k: "kernel_pre k" and isr: "\<not> in_isr k" and t: "t \<noteq> idle_thread k" "t \<noteq> thread_dummy k"
  shows "kernel_pre (snd (adjust_owner_prio t p k))" "waitqs (snd (adjust_owner_prio t p k)) = waitqs k"
    "current (snd (adjust_owner_prio t p k)) = current k" "env (snd (adjust_owner_prio t p k)) = env k"
    "set (runq (snd (adjust_owner_prio t p k))) = set (runq k)"
    "threads (snd (adjust_owner_prio t p k)) x = (if x = t then (threads k t)\<lparr>prio := p\<rparr> else threads k x)"
    "deadline (tmo (snd (adjust_owner_prio t p k))) (ThreadTo x) = deadline (tmo k) (ThreadTo x)"
proof -
  note D = kernel_preD [OF k]
  note f = prio_set_frame [OF D(1) t(1)]
  have w: "waitqs (snd (z_thread_prio_set t p k)) = waitqs k"
    by (simp add: z_thread_prio_set_def Let_def set_prio_def)
  show "kernel_pre (snd (adjust_owner_prio t p k))" "waitqs (snd (adjust_owner_prio t p k)) = waitqs k"
    "current (snd (adjust_owner_prio t p k)) = current k" "env (snd (adjust_owner_prio t p k)) = env k"
    "set (runq (snd (adjust_owner_prio t p k))) = set (runq k)"
    "deadline (tmo (snd (adjust_owner_prio t p k))) (ThreadTo x) = deadline (tmo k) (ThreadTo x)"
    using k prio_set_pre [OF k isr t] f w by (simp_all add: adjust_owner_prio_def)
  show "threads (snd (adjust_owner_prio t p k)) x = (if x = t then (threads k t)\<lparr>prio := p\<rparr> else threads k x)"
    using f(8) by (simp add: adjust_owner_prio_def)
qed

text \<open>A change of priority that reports no need for scheduling keeps the whole invariant.\<close>

lemma adjust_kernel_inv:
  assumes k: "kernel_inv k" and isr: "\<not> in_isr k" and t: "t \<noteq> idle_thread k" "t \<noteq> thread_dummy k"
    and n: "\<not> fst (adjust_owner_prio t p k)"
  shows "kernel_inv (snd (adjust_owner_prio t p k))"
  using n k priority_set_kernel_inv [OF k isr t, of p]
  by (auto simp: adjust_owner_prio_def z_impl_k_thread_priority_set_def Let_def case_prod_beta split: if_splits)

text \<open>The boost of the owner's priority before the caller waits.\<close>

definition boost :: "tid \<Rightarrow> kernel \<Rightarrow> bool \<times> kernel" where
  "boost own k =
     (let new_prio = new_prio_for_inheritance (prio (threads k (current k))) (prio (threads k own)) k
      in if z_is_prio_higher new_prio (prio (threads k own)) then adjust_owner_prio own new_prio k else (False, k))"

lemma mutex_lock_taken:
  "lock_count mutex = 0 \<or> owner mutex = Some (current k) \<Longrightarrow>
     z_impl_k_mutex_lock timeout mutex k =
       (Done 0, False,
        mutex\<lparr>owner_orig_prio := (if lock_count mutex = 0 then prio (threads k (current k)) else owner_orig_prio mutex),
              lock_count := lock_count mutex + 1, owner := Some (current k)\<rparr>, k)"
  unfolding z_impl_k_mutex_lock_def by simp

lemma mutex_lock_busy:
  "\<not> (lock_count mutex = 0 \<or> owner mutex = Some (current k)) \<Longrightarrow>
     z_impl_k_mutex_lock K_NO_WAIT mutex k = (Done (- EBUSY), False, mutex, k)"
  unfolding z_impl_k_mutex_lock_def by simp

lemma mutex_lock_wait:
  "\<not> (lock_count mutex = 0 \<or> owner mutex = Some (current k)) \<Longrightarrow> timeout \<noteq> K_NO_WAIT \<Longrightarrow>
     z_impl_k_mutex_lock timeout mutex k =
       (Blocked, fst (boost (the (owner mutex)) k), mutex,
        z_pend_curr (mutex_wait_q mutex) timeout (snd (boost (the (owner mutex)) k)))"
  unfolding z_impl_k_mutex_lock_def boost_def Let_def by (simp add: case_prod_beta)

lemma mutex_lock_cases:
  obtains (taken) "lock_count mutex = 0 \<or> owner mutex = Some (current k)"
  | (busy) "\<not> (lock_count mutex = 0 \<or> owner mutex = Some (current k))" "timeout = K_NO_WAIT"
  | (wait) "\<not> (lock_count mutex = 0 \<or> owner mutex = Some (current k))" "timeout \<noteq> K_NO_WAIT"
  by blast

lemma boost_frame:
  assumes k: "kernel_pre k" and isr: "\<not> in_isr k" and t: "t \<noteq> idle_thread k" "t \<noteq> thread_dummy k"
  shows "kernel_pre (snd (boost t k))" "waitqs (snd (boost t k)) = waitqs k" "current (snd (boost t k)) = current k"
    "env (snd (boost t k)) = env k" "set (runq (snd (boost t k))) = set (runq k)"
    "x \<noteq> t \<Longrightarrow> threads (snd (boost t k)) x = threads k x"
    "deadline (tmo (snd (boost t k))) (ThreadTo x) = deadline (tmo k) (ThreadTo x)"
  using k adjust_frame [OF k isr t] by (simp_all add: boost_def Let_def)

text \<open>After the boost the owner runs at the caller's priority or above, up to the ceiling.\<close>

lemma boost_prio:
  assumes "kernel_pre k" "\<not> in_isr k" "t \<noteq> idle_thread k" "t \<noteq> thread_dummy k"
  shows "prio (threads (snd (boost t k)) t) =
    min (prio (threads k t)) (max (prio_ceiling k) (min (prio (threads k (current k))) (prio (threads k t))))"
  using adjust_frame(6) [OF assms, of _ t]
  by (simp add: boost_def Let_def new_prio_for_inheritance_def z_get_new_prio_with_ceiling_def z_is_prio_higher_def)

section \<open>Operations keep the invariants\<close>

lemma mutex_lock_inv:
  assumes k: "kernel_inv k" and m: "mutex_inv mutex k" and run: "running k" and isr: "\<not> in_isr k"
    and max: "lock_count mutex \<noteq> - 1" and l: "z_impl_k_mutex_lock timeout mutex k = (r, rs, mutex', k')"
  shows "kernel_inv k' \<and> mutex_inv mutex' k'"
proof (cases rule: mutex_lock_cases [where mutex = mutex and k = k and timeout = timeout])
  case taken
  have "current k \<noteq> idle_thread k" using run kernel_invD(1) [OF k] by (auto simp: running_def sched_inv_but_def)
  moreover have "lock_count mutex + 1 \<noteq> 0" using max by (metis add_eq_0_iff2 minus_minus)
  ultimately show ?thesis
    using l mutex_lock_taken [OF taken, of timeout] k running_not_dummy [OF k run]
      sch.running_not_waiter [OF kernel_invD(1) [OF k] run]
    by (auto simp: mutex_inv_def)
next
  case busy
  then show ?thesis using l mutex_lock_busy [OF busy(1)] k m by simp
next
  case wait
  let ?o = "the (owner mutex)"
  from wait(1) m obtain own where own: "owner mutex = Some own" "own \<noteq> idle_thread k" "own \<noteq> thread_dummy k"
    by (auto simp: mutex_inv_def)
  note b = boost_frame [OF kernel_inv_pre [OF k] isr own(2,3)]
  have "running (snd (boost own k))" using run b(3,5) by (simp add: running_def)
  then have i: "kernel_inv (z_pend_curr (mutex_wait_q mutex) timeout (snd (boost own k)))"
    using b(1) by (intro pend_curr_pre)
  have eq: "mutex' = mutex" "k' = z_pend_curr (mutex_wait_q mutex) timeout (snd (boost own k))"
    using l mutex_lock_wait [OF wait] own(1) by auto
  have e: "env k' = env k" using b(4) by (simp add: eq)
  then show ?thesis
    using i eq m own env_idle [OF e] env_dummy [OF e] wait(1) b(2,3)
    by (auto simp: mutex_inv_def z_pend_curr_waitqs)
qed

text \<open>Unlocking the last level: the owner's priority is put back, then the mutex is handed over.\<close>

definition restored :: "k_mutex \<Rightarrow> kernel \<Rightarrow> kernel" where
  "restored mutex k = snd (adjust_owner_prio (current k) (owner_orig_prio mutex) k)"

lemma mutex_unlock_waiter:
  assumes "owner mutex = Some (current k)" "\<not> lock_count mutex > 1"
    "waitqs (restored mutex k) (mutex_wait_q mutex) = t # ts"
  shows "z_impl_k_mutex_unlock mutex k =
    (0, mutex\<lparr>owner := Some t, owner_orig_prio := prio (threads (restored mutex k) t)\<rparr>,
     z_reschedule (woken t 0 (restored mutex k)))"
proof -
  have "prio (threads (snd (z_abort_thread_timeout t (unpend_thread_no_timeout t k1))) t) = prio (threads k1 t)" for k1
    by (simp add: unpend_threads)
  then show ?thesis
    using assms unpend_first_eq [OF assms(3)]
    by (simp add: z_impl_k_mutex_unlock_def Let_def restored_def woken_eq z_ready_thread_def)
qed

lemma mutex_unlock_free:
  assumes "owner mutex = Some (current k)" "\<not> lock_count mutex > 1"
    "waitqs (restored mutex k) (mutex_wait_q mutex) = []"
  shows "z_impl_k_mutex_unlock mutex k = (0, mutex\<lparr>owner := None, lock_count := 0\<rparr>, restored mutex k)"
  using assms unpend_first_None [OF assms(3)]
  by (simp add: z_impl_k_mutex_unlock_def Let_def restored_def)

lemma mutex_unlock_cases:
  assumes "z_impl_k_mutex_unlock mutex k = (r, mutex', k')"
  obtains (unowned) "owner mutex = None" "r = - EINVAL" "mutex' = mutex" "k' = k"
  | (foreign) own where "owner mutex = Some own" "own \<noteq> current k" "r = - EPERM" "mutex' = mutex" "k' = k"
  | (nested) "owner mutex = Some (current k)" "lock_count mutex > 1" "r = 0"
      "mutex' = mutex\<lparr>lock_count := lock_count mutex - 1\<rparr>" "k' = k"
  | (handed) t ts where "owner mutex = Some (current k)" "\<not> lock_count mutex > 1" "r = 0"
      "waitqs (restored mutex k) (mutex_wait_q mutex) = t # ts"
      "mutex' = mutex\<lparr>owner := Some t, owner_orig_prio := prio (threads (restored mutex k) t)\<rparr>"
      "k' = z_reschedule (woken t 0 (restored mutex k))"
  | (freed) "owner mutex = Some (current k)" "\<not> lock_count mutex > 1" "r = 0"
      "waitqs (restored mutex k) (mutex_wait_q mutex) = []"
      "mutex' = mutex\<lparr>owner := None, lock_count := 0\<rparr>" "k' = restored mutex k"
proof (cases "owner mutex")
  case None
  with assms show ?thesis by (intro unowned) (simp_all add: z_impl_k_mutex_unlock_def)
next
  case (Some own)
  consider "own \<noteq> current k" | "own = current k" "lock_count mutex > 1" | "own = current k" "\<not> lock_count mutex > 1"
    by blast
  then show ?thesis
  proof cases
    case 1
    with assms Some show ?thesis by (intro foreign) (simp_all add: z_impl_k_mutex_unlock_def)
  next
    case 2
    with assms Some show ?thesis by (intro nested) (simp_all add: z_impl_k_mutex_unlock_def)
  next
    case 3
    show ?thesis
    proof (cases "waitqs (restored mutex k) (mutex_wait_q mutex)")
      case Nil
      with assms 3 Some mutex_unlock_free [of mutex k] show ?thesis by (intro freed) simp_all
    next
      case (Cons t ts)
      with assms 3 Some mutex_unlock_waiter [of mutex k t ts] show ?thesis by (intro handed) auto
    qed
  qed
qed

lemma restored_frame:
  assumes "kernel_inv k" "mutex_inv mutex k" "\<not> in_isr k" "owner mutex = Some (current k)"
  shows "kernel_pre (restored mutex k)" "waitqs (restored mutex k) = waitqs k"
    "current (restored mutex k) = current k" "env (restored mutex k) = env k"
    "threads (restored mutex k) x =
       (if x = current k then (threads k x)\<lparr>prio := owner_orig_prio mutex\<rparr> else threads k x)"
  using assms adjust_frame [OF kernel_inv_pre [OF assms(1)] assms(3), of "current k" "owner_orig_prio mutex"]
  by (simp_all add: restored_def mutex_inv_def)

lemma mutex_unlock_inv:
  assumes k: "kernel_inv k" and m: "mutex_inv mutex k" and isr: "\<not> in_isr k"
    and u: "z_impl_k_mutex_unlock mutex k = (r, mutex', k')"
  shows "kernel_pre k' \<and> mutex_inv mutex' k'"
    "waitqs k (mutex_wait_q mutex) \<noteq> [] \<or> prio (threads k (current k)) = owner_orig_prio mutex \<Longrightarrow> kernel_inv k'"
proof -
  show "kernel_pre k' \<and> mutex_inv mutex' k'"
    using u
  proof (cases rule: mutex_unlock_cases)
    case nested
    then have "lock_count mutex - 1 \<noteq> 0" by auto
    with nested show ?thesis using k m kernel_inv_pre by (auto simp: mutex_inv_def)
  next
    case (handed t ts)
    note f = restored_frame [OF k m isr handed(1)]
    have p: "kernel_pre (woken t 0 (restored mutex k))" using woken_pre [OF f(1) handed(4)] .
    note w = woken_props [OF kernel_preD(1) [OF f(1)] handed(4), of 0]
    have e: "env k' = env k" using w(4) f(4) by (simp add: handed(6))
    have "t \<noteq> idle_thread k" "t \<noteq> thread_dummy k"
      using waiter_not_dummy [OF f(1) handed(4)] env_idle [OF f(4)] env_dummy [OF f(4)] by simp_all
    moreover have "lock_count mutex \<noteq> 0" using m handed(1) by (auto simp: mutex_inv_def)
    moreover have "distinct (t # ts)"
      using sch.waiters_distinct [OF kernel_preD(1) [OF f(1)], of "mutex_wait_q mutex"] handed(4) by simp
    ultimately show ?thesis
      using kernel_inv_pre [OF pre_reschedule [OF p]] env_idle [OF e] env_dummy [OF e] w(2)
      by (simp add: handed mutex_inv_def)
  next
    case freed
    note f = restored_frame [OF k m isr freed(1)]
    then show ?thesis using freed by (simp add: mutex_inv_def)
  qed (use k m kernel_inv_pre in simp_all)
  assume c: "waitqs k (mutex_wait_q mutex) \<noteq> [] \<or> prio (threads k (current k)) = owner_orig_prio mutex"
  show "kernel_inv k'"
    using u
  proof (cases rule: mutex_unlock_cases)
    case (handed t ts)
    note f = restored_frame [OF k m isr handed(1)]
    show ?thesis unfolding handed(6) using woken_pre [OF f(1) handed(4)] by (rule pre_reschedule)
  next
    case freed
    then have "prio (threads k (current k)) = owner_orig_prio mutex"
      using c restored_frame(2) [OF k m isr freed(1)] by simp
    then show ?thesis using freed(6) k by (simp add: restored_def adjust_owner_prio_def)
  qed (use k in simp_all)
qed

lemma mutex_resume_inv:
  assumes k: "kernel_inv k" and m: "mutex_inv mutex k" and isr: "\<not> in_isr k"
    and l: "k_mutex_lock_resume rs mutex k = (r, k')"
  shows "kernel_inv k' \<and> mutex_inv mutex k' \<and> waitqs k' = waitqs k"
proof (cases "swap_retval (threads k (current k)) = 0 \<or> owner mutex = None")
  case True
  then show ?thesis
    using l k m pre_reschedule [OF kernel_inv_pre [OF k]] keeps_env(1,2) [OF keeps_reschedule, of k]
    by (auto simp: k_mutex_lock_resume_def mutex_inv_def split: if_splits)
next
  case False
  then obtain own where own: "owner mutex = Some own" "own \<noteq> idle_thread k" "own \<noteq> thread_dummy k"
    using m by (auto simp: mutex_inv_def)
  obtain p where eq: "k' = (let (a, k1) = adjust_owner_prio own p k in if a \<or> rs then z_reschedule k1 else k1)"
    using l False own(1) by (auto simp: k_mutex_lock_resume_def Let_def case_prod_beta)
  let ?k1 = "snd (adjust_owner_prio own p k)"
  note f = adjust_frame [OF kernel_inv_pre [OF k] isr own(2,3), of p]
  have "kernel_inv k'"
    using eq pre_reschedule [OF f(1)] adjust_kernel_inv [OF k isr own(2,3), of p]
    by (auto simp: case_prod_beta split: if_splits)
  moreover have "env k' = env k" "waitqs k' = waitqs k" using eq f(2,4) by (simp_all add: case_prod_beta)
  ultimately show ?thesis using m env_idle [of k' k] env_dummy [of k' k] by (auto simp: mutex_inv_def)
qed

section \<open>The contract of a mutex\<close>

text \<open>A recursive lock with a queue, without priorities and with a nesting depth that is not bounded.\<close>

record mutex_spec =
  holder :: "tid option"
  depth :: nat
  lockers :: "tid list"

definition mutex_abs :: "k_mutex \<Rightarrow> kernel \<Rightarrow> mutex_spec" where
  "mutex_abs mutex k = \<lparr>holder = owner mutex, depth = unat (lock_count mutex), lockers = waitqs k (mutex_wait_q mutex)\<rparr>"

definition lock_spec :: "(tid \<Rightarrow> k_thread) \<Rightarrow> tid \<Rightarrow> bool \<Rightarrow> mutex_spec \<Rightarrow> int outcome \<times> mutex_spec" where
  "lock_spec th me may_wait a =
     (if depth a = 0 \<or> holder a = Some me then (Done 0, a\<lparr>holder := Some me, depth := depth a + 1\<rparr>)
      else if may_wait then (Blocked, a\<lparr>lockers := z_priq_dumb_add th (lockers a) me\<rparr>)
      else (Done (- EBUSY), a))"

definition unlock_spec :: "tid \<Rightarrow> mutex_spec \<Rightarrow> int \<times> mutex_spec" where
  "unlock_spec me a =
     (case holder a of
        None \<Rightarrow> (- EINVAL, a)
      | Some own \<Rightarrow>
          if own \<noteq> me then (- EPERM, a)
          else if depth a > 1 then (0, a\<lparr>depth := depth a - 1\<rparr>)
          else (case lockers a of
                  [] \<Rightarrow> (0, a\<lparr>holder := None, depth := 0\<rparr>)
                | t # ts \<Rightarrow> (0, a\<lparr>holder := Some t, lockers := ts\<rparr>)))"

lemma mutex_lock_abs:
  assumes k: "kernel_inv k" and m: "mutex_inv mutex k" and isr: "\<not> in_isr k"
    and max: "lock_count mutex \<noteq> - 1" and l: "z_impl_k_mutex_lock timeout mutex k = (r, rs, mutex', k')"
  shows "(r, mutex_abs mutex' k') = lock_spec (threads k) (current k) (timeout \<noteq> K_NO_WAIT) (mutex_abs mutex k)"
proof (cases rule: mutex_lock_cases [where mutex = mutex and k = k and timeout = timeout])
  case taken
  have "unat (lock_count mutex + 1) = unat (lock_count mutex) + 1"
    using word_incr_below [of "lock_count mutex" "- 1"] max by (simp add: order.strict_iff_order word_order.extremum)
  then show ?thesis
    using l mutex_lock_taken [OF taken, of timeout] taken by (auto simp: mutex_abs_def lock_spec_def unat_eq_0)
next
  case busy
  then show ?thesis using l mutex_lock_busy [OF busy(1)] by (simp add: mutex_abs_def lock_spec_def unat_eq_0)
next
  case wait
  from wait(1) m obtain own where own: "owner mutex = Some own" "own \<noteq> idle_thread k" "own \<noteq> thread_dummy k"
      "own \<notin> set (waitqs k (mutex_wait_q mutex))" "own \<noteq> current k"
    by (auto simp: mutex_inv_def)
  note b = boost_frame [OF kernel_inv_pre [OF k] isr own(2,3)]
  have "z_priq_dumb_add (threads (snd (boost own k))) (waitqs k (mutex_wait_q mutex)) (current k) =
      z_priq_dumb_add (threads k) (waitqs k (mutex_wait_q mutex)) (current k)"
    by (rule dumb_add_cong) (metis b(6) own(4,5) insert_iff)
  then show ?thesis
    using l mutex_lock_wait [OF wait] own(1) wait b(2,3)
    by (auto simp: mutex_abs_def lock_spec_def unat_eq_0 z_pend_curr_waitqs)
qed

lemma mutex_unlock_abs:
  assumes k: "kernel_inv k" and m: "mutex_inv mutex k" and isr: "\<not> in_isr k"
    and u: "z_impl_k_mutex_unlock mutex k = (r, mutex', k')"
  shows "(r, mutex_abs mutex' k') = unlock_spec (current k) (mutex_abs mutex k)"
  using u
proof (cases rule: mutex_unlock_cases)
  case nested
  then show ?thesis
    using word_decr [of "lock_count mutex"]
    by (auto simp: mutex_abs_def unlock_spec_def word_less_nat_alt)
next
  case (handed t ts)
  note f = restored_frame [OF k m isr handed(1)]
  show ?thesis
    using handed woken_props(2) [OF kernel_preD(1) [OF f(1)] handed(4)] f(2)
    by (simp add: mutex_abs_def unlock_spec_def word_less_nat_alt)
next
  case freed
  then show ?thesis
    using restored_frame(2) [OF k m isr freed(1)]
    by (simp add: mutex_abs_def unlock_spec_def word_less_nat_alt)
qed (simp_all add: mutex_abs_def unlock_spec_def)

lemma mutex_lock_blocked:
  assumes "z_impl_k_mutex_lock timeout mutex k = (Blocked, rs, mutex', k')"
  shows "swap_retval (threads k' (current k)) = - EAGAIN"
proof -
  have w: "\<not> (lock_count mutex = 0 \<or> owner mutex = Some (current k))" "timeout \<noteq> K_NO_WAIT"
    using assms by (auto simp: z_impl_k_mutex_lock_def split: if_splits)
  let ?b = "snd (boost (the (owner mutex)) k)"
  have "current ?b = current k"
    by (simp add: boost_def Let_def adjust_owner_prio_def z_thread_prio_set_def set_prio_def)
  moreover have "k' = z_pend_curr (mutex_wait_q mutex) timeout ?b" using assms mutex_lock_wait [OF w] by auto
  ultimately show ?thesis using sch.pend_default_retval [of "mutex_wait_q mutex" timeout ?b] by simp
qed

lemma mutex_handed_result:
  assumes k: "kernel_inv k" and m: "mutex_inv mutex k" and isr: "\<not> in_isr k"
    and u: "z_impl_k_mutex_unlock mutex k = (r, mutex', k')" and t: "owner mutex' = Some t" "t \<noteq> current k" "r = 0"
  shows "swap_retval (threads k' t) = 0 \<and> pended_on (threads k' t) = None"
  using u
proof (cases rule: mutex_unlock_cases)
  case (handed u ts)
  note f = restored_frame [OF k m isr handed(1)]
  note w = woken_props [OF kernel_preD(1) [OF f(1)] handed(4), of 0]
  have ut: "u = t" using handed(5) t(1) by simp
  have "threads k' t = threads (woken t 0 (restored mutex k)) t"
    unfolding handed(6) ut
    by (rule reschedule_waiter [OF k, of _ "mutex_wait_q mutex"]) (use handed(4) f w ut in simp_all)
  then show ?thesis unfolding woken_def by (subst (asm) woken_with_thread) (simp add: Let_def unpend_threads)
qed (use t in auto)

lemma mutex_resume_abs:
  assumes "kernel_inv k" "mutex_inv mutex k" "\<not> in_isr k" "k_mutex_lock_resume rs mutex k = (r, k')"
  shows "r = (if swap_retval (threads k (current k)) = 0 then 0 else - EAGAIN) \<and> mutex_abs mutex k' = mutex_abs mutex k \<and>
    kernel_inv k' \<and> mutex_inv mutex k'"
  using assms(4) mutex_resume_inv [OF assms] by (auto simp: k_mutex_lock_resume_def Let_def case_prod_beta mutex_abs_def split: if_splits)

section \<open>Properties\<close>

text \<open>
  C25. Locking and unlocking implement a recursive lock with a queue of lockers, whatever the priorities do, as long as the
  nesting stays below the range of the 32-bit count; every result of a call that returns at once is the one of the
  specification. A call that blocks will return \<open>-EAGAIN\<close> unless the mutex is handed to it; the thread that an unlock
  hands the mutex to is out of the wait queue with the result 0. Returning from the wait gives the result that the
  thread was left with and does not change the lock. Both operations keep the invariant of the mutex; locking keeps the
  invariant of the kernel, and so does unlocking when a thread waits or the owner runs at its own priority.
\<close>

theorem mutex_refines_lock:
  assumes "kernel_inv k" "mutex_inv mutex k" "running k" "\<not> in_isr k" "lock_count mutex \<noteq> - 1"
    and "z_impl_k_mutex_lock timeout mutex k = (r1, rs, m1, k1)" "z_impl_k_mutex_unlock mutex k = (r2, m2, k2)"
  shows "(r1, mutex_abs m1 k1) = lock_spec (threads k) (current k) (timeout \<noteq> K_NO_WAIT) (mutex_abs mutex k) \<and>
    (r2, mutex_abs m2 k2) = unlock_spec (current k) (mutex_abs mutex k) \<and>
    kernel_inv k1 \<and> mutex_inv m1 k1 \<and> mutex_inv m2 k2 \<and>
    (waitqs k (mutex_wait_q mutex) = [] \<and> prio (threads k (current k)) \<noteq> owner_orig_prio mutex \<or> kernel_inv k2) \<and>
    (r1 = Blocked \<longrightarrow> swap_retval (threads k1 (current k)) = - EAGAIN) \<and>
    (\<forall>t. owner m2 = Some t \<and> t \<noteq> current k \<and> r2 = 0 \<longrightarrow> swap_retval (threads k2 t) = 0 \<and> pended_on (threads k2 t) = None) \<and>
    (\<forall>rs j r j'. kernel_inv j \<and> mutex_inv mutex j \<and> \<not> in_isr j \<and> k_mutex_lock_resume rs mutex j = (r, j') \<longrightarrow>
      r = (if swap_retval (threads j (current j)) = 0 then 0 else - EAGAIN) \<and> mutex_abs mutex j' = mutex_abs mutex j \<and>
      kernel_inv j' \<and> mutex_inv mutex j')"
proof (intro conjI)
  show "kernel_inv k1" "mutex_inv m1 k1" using mutex_lock_inv [OF assms(1-6)] by blast+
  show "mutex_inv m2 k2" using mutex_unlock_inv(1) [OF assms(1,2,4,7)] by blast
  show "waitqs k (mutex_wait_q mutex) = [] \<and> prio (threads k (current k)) \<noteq> owner_orig_prio mutex \<or> kernel_inv k2"
    using mutex_unlock_inv(2) [OF assms(1,2,4,7)] by blast
  show "r1 = Blocked \<longrightarrow> swap_retval (threads k1 (current k)) = - EAGAIN" using mutex_lock_blocked assms(6) by blast
  show "\<forall>t. owner m2 = Some t \<and> t \<noteq> current k \<and> r2 = 0 \<longrightarrow> swap_retval (threads k2 t) = 0 \<and> pended_on (threads k2 t) = None"
    using mutex_handed_result [OF assms(1,2,4,7)] by blast
qed (use mutex_lock_abs [OF assms(1,2,4,5,6)] mutex_unlock_abs [OF assms(1,2,4,7)] mutex_resume_abs in blast)+

definition sample_mutex :: k_mutex where
  "sample_mutex = \<lparr>mutex_wait_q = ObjQ 0, owner = Some 3, lock_count = 1, owner_orig_prio = 5\<rparr>"

lemma sample_mutex_inv: "mutex_inv sample_mutex main_waits" "mutex_inv sample_mutex with_helper"
  using env_idle [OF main_waits_facts(6)] env_dummy [OF main_waits_facts(6)]
  by (simp_all add: mutex_inv_def sample_mutex_def main_waits_facts helper_facts helper_run)

lemma helper_isr: "\<not> in_isr with_helper" "prio_ceiling with_helper = -127"
  using env_isr [OF helper_facts(5)] helper_facts(5) booted_simps(13) unfolding env_def by simp_all

theorem mutex_refines_lock_witness:
  "\<exists>m k. z_impl_k_mutex_unlock sample_mutex main_waits = (0, m, k) \<and> owner m = Some 5 \<and>
     lockers (mutex_abs m k) = [] \<and> swap_retval (threads k 5) = 0"
proof -
  obtain r1 rs m1 k1 r2 m2 k2 where l: "z_impl_k_mutex_lock K_NO_WAIT sample_mutex main_waits = (r1, rs, m1, k1)"
    "z_impl_k_mutex_unlock sample_mutex main_waits = (r2, m2, k2)" by (metis prod.exhaust)
  have c: "lock_count sample_mutex \<noteq> - 1" by (simp add: sample_mutex_def)
  from mutex_refines_lock [OF main_waits_facts(1) sample_mutex_inv(1) main_waits_facts(9,8) c l]
  have u: "(r2, mutex_abs m2 k2) = unlock_spec (current main_waits) (mutex_abs sample_mutex main_waits)"
    and h: "\<forall>t. owner m2 = Some t \<and> t \<noteq> current main_waits \<and> r2 = 0 \<longrightarrow> swap_retval (threads k2 t) = 0 \<and> pended_on (threads k2 t) = None"
    by blast+
  from u have o: "r2 = 0" "owner m2 = Some 5" "waitqs k2 (mutex_wait_q m2) = []"
    by (simp_all add: unlock_spec_def mutex_abs_def sample_mutex_def main_waits_facts)
  moreover have "swap_retval (threads k2 5) = 0" using h o by (simp add: main_waits_facts)
  ultimately show ?thesis using l(2) by (simp add: mutex_abs_def)
qed

text \<open>
  C27. Priority inheritance (a smaller number is a higher priority): a caller that waits for the mutex gives the owner its own
  priority, cut at the ceiling, unless the owner has a higher one already, which it then keeps; no other thread's
  priority changes. The unlock of the last level gives the owner its original priority.
\<close>

theorem mutex_inherits_priority:
  assumes "kernel_inv k" "mutex_inv mutex k" "running k" "\<not> in_isr k" "owner mutex = Some own" "own \<noteq> current k"
    and "z_impl_k_mutex_lock timeout mutex k = (Blocked, rs, mutex', k')"
  shows "prio (threads k' own) = min (prio (threads k own)) (max (prio_ceiling k) (prio (threads k (current k)))) \<and>
    (\<forall>x. x \<noteq> own \<longrightarrow> prio (threads k' x) = prio (threads k x)) \<and>
    (\<forall>j m1 j1 r. kernel_inv j \<and> mutex_inv mutex j \<and> \<not> in_isr j \<and> current j = own \<and> lock_count mutex = 1 \<and>
       z_impl_k_mutex_unlock mutex j = (r, m1, j1) \<longrightarrow> prio (threads j1 own) = owner_orig_prio mutex)"
proof -
  have o: "own \<noteq> idle_thread k" "own \<noteq> thread_dummy k" using assms(2,5) by (auto simp: mutex_inv_def)
  have w1: "\<not> (lock_count mutex = 0 \<or> owner mutex = Some (current k))"
    using assms(7) mutex_lock_taken [of mutex k timeout] by auto
  have w: "timeout \<noteq> K_NO_WAIT" using assms(7) mutex_lock_busy [OF w1] by auto
  have k': "k' = z_pend_curr (mutex_wait_q mutex) timeout (snd (boost own k))"
    using assms(5,7) mutex_lock_wait [OF w1 w] by auto
  note b = boost_frame [OF kernel_inv_pre [OF assms(1)] assms(4) o]
  have p: "prio (threads k' x) = prio (threads (snd (boost own k)) x)" for x by (simp add: k' z_pend_curr_threads)
  have u: "prio (threads j1 own) = owner_orig_prio mutex"
    if j: "kernel_inv j" "mutex_inv mutex j" "\<not> in_isr j" "current j = own" "lock_count mutex = 1"
      "z_impl_k_mutex_unlock mutex j = (r, m1, j1)" for j m1 j1 r
    using j(6)
  proof (cases rule: mutex_unlock_cases)
    case (handed t ts)
    note f = restored_frame [OF j(1-3) handed(1)]
    have "t \<noteq> own" using handed(4) f(2) j(2) assms(5) by (auto simp: mutex_inv_def)
    then have "threads (woken t 0 (restored mutex j)) own = threads (restored mutex j) own"
      using woken_props(5) [OF kernel_preD(1) [OF f(1)] handed(4)] by simp
    then show ?thesis using f(5) j(4) by (auto simp: handed(6) z_reschedule_def do_swap_threads)
  next
    case freed
    then show ?thesis using restored_frame(5) [OF j(1-3) freed(1)] j(4) by simp
  qed (use assms(5) j in simp_all)
  show ?thesis
    using boost_prio [OF kernel_inv_pre [OF assms(1)] assms(4) o] b(6) u by (auto simp: p)
qed

theorem mutex_inherits_priority_witness:
  "\<exists>rs m k. z_impl_k_mutex_lock K_FOREVER sample_mutex with_helper = (Blocked, rs, m, k) \<and>
     prio (threads with_helper 3) = 5 \<and> prio (threads k 3) = 0"
proof -
  have "\<not> (lock_count sample_mutex = 0 \<or> owner sample_mutex = Some (current with_helper))"
    by (simp add: sample_mutex_def helper_facts)
  from mutex_lock_wait [OF this, of K_FOREVER] obtain rs m k where
    l: "z_impl_k_mutex_lock K_FOREVER sample_mutex with_helper = (Blocked, rs, m, k)" by simp
  have "owner sample_mutex = Some 3" "3 \<noteq> current with_helper" by (simp_all add: sample_mutex_def helper_facts)
  from mutex_inherits_priority [OF helper_run(1) sample_mutex_inv(2) helper_run(2) helper_isr(1) this l]
  show ?thesis using l by (simp add: helper_facts blank_thread_def helper_isr)
qed

text \<open>
  A lock that times out returns \<open>-EAGAIN\<close> and puts the owner at the priority it would have with
  the remaining waiters: its original one when none is left.
\<close>

theorem mutex_timeout_restores_priority:
  assumes "kernel_inv k" "mutex_inv mutex k" "\<not> in_isr k" "owner mutex = Some own"
    and "swap_retval (threads k (current k)) = - EAGAIN" "k_mutex_lock_resume rs mutex k = (r, k')"
  shows "r = - EAGAIN \<and> kernel_inv k' \<and> mutex_inv mutex k' \<and> waitqs k' = waitqs k \<and>
    prio (threads k' own) =
      (case waitqs k (mutex_wait_q mutex) of
         [] \<Rightarrow> owner_orig_prio mutex
       | waiter # _ \<Rightarrow> max (prio_ceiling k) (min (prio (threads k waiter)) (owner_orig_prio mutex)))"
proof -
  have o: "own \<noteq> idle_thread k" "own \<noteq> thread_dummy k" using assms(2,4) by (auto simp: mutex_inv_def)
  note f = adjust_frame [OF kernel_inv_pre [OF assms(1)] assms(3) o]
  have "prio (threads (z_reschedule j) x) = prio (threads j x)" for j x
    by (simp add: z_reschedule_def do_swap_threads)
  then have "r = - EAGAIN \<and> prio (threads k' own) =
      (case waitqs k (mutex_wait_q mutex) of
         [] \<Rightarrow> owner_orig_prio mutex
       | waiter # _ \<Rightarrow> max (prio_ceiling k) (min (prio (threads k waiter)) (owner_orig_prio mutex)))"
    using assms(4-6) f(6)
    by (auto simp: k_mutex_lock_resume_def Let_def case_prod_beta z_waitq_head_def new_prio_for_inheritance_def
        z_get_new_prio_with_ceiling_def z_is_prio_higher_def split: list.splits if_splits)
  then show ?thesis using mutex_resume_inv [OF assms(1,2,3,6)] by blast
qed

lemma yielded_facts:
  "kernel_inv (z_impl_k_yield with_helper)" "current (z_impl_k_yield with_helper) = 5"
  "swap_retval (threads (z_impl_k_yield with_helper) 5) = - EAGAIN" "env (z_impl_k_yield with_helper) = env booted"
  "waitqs (z_impl_k_yield with_helper) = (\<lambda>_. [])"
proof -
  let ?q = "queue_thread 5 (dequeue_thread 5 with_helper)"
  show "kernel_inv (z_impl_k_yield with_helper)" using yield_kernel_inv [OF helper_run(1,2)] .
  have "\<not> metairq_tracked ?q" using kernel_invD(4) [OF helper_run(1)] tracked_env [of ?q with_helper] by simp
  moreover have "runq ?q = [5, 3]"
    by (simp add: helper_facts dequeue_thread_def runq_remove_def z_priq_dumb_remove_def threads_upd_thread blank_thread_def)
  then have "best_thread ?q = 5" by (simp add: best_thread_def)
  ultimately show "current (z_impl_k_yield with_helper) = 5"
    by (simp add: z_impl_k_yield_def helper_facts(3) swap_current cache_update_True)
  show "swap_retval (threads (z_impl_k_yield with_helper) 5) = - EAGAIN"
    by (simp add: z_impl_k_yield_def helper_facts(3) do_swap_threads)
  show "env (z_impl_k_yield with_helper) = env booted" "waitqs (z_impl_k_yield with_helper) = (\<lambda>_. [])"
    by (simp_all add: z_impl_k_yield_def helper_facts)
qed

theorem mutex_timeout_restores_priority_witness:
  "\<exists>k. k_mutex_lock_resume False sample_mutex (z_impl_k_yield with_helper) = (- EAGAIN, k) \<and>
     prio (threads k 3) = 5 \<and> kernel_inv k"
proof -
  let ?k = "z_impl_k_yield with_helper"
  have m: "mutex_inv sample_mutex ?k"
    using env_idle [OF yielded_facts(4)] env_dummy [OF yielded_facts(4)]
    by (simp add: mutex_inv_def sample_mutex_def yielded_facts)
  have i: "\<not> in_isr ?k" using env_isr [OF yielded_facts(4)] by simp
  obtain r k' where l: "k_mutex_lock_resume False sample_mutex ?k = (r, k')" by fastforce
  have "owner sample_mutex = Some 3" by (simp add: sample_mutex_def)
  from mutex_timeout_restores_priority [OF yielded_facts(1) m i this _ l] l show ?thesis
    by (simp add: yielded_facts sample_mutex_def)
qed

text \<open>
  C28. An unlock that lowers the owner's priority and finds no waiter does not reach a scheduling
  point: the preemptible owner goes on running although a ready thread has a higher priority.
\<close>

theorem mutex_unlock_skips_scheduling:
  assumes "kernel_inv k" "mutex_inv mutex k" "\<not> in_isr k" "owner mutex = Some (current k)" "lock_count mutex = 1"
    and "waitqs k (mutex_wait_q mutex) = []" "t \<in> set (runq k)" "t \<noteq> current k"
    and "prio (threads k t) < owner_orig_prio mutex" "0 \<le> owner_orig_prio mutex" "owner_orig_prio mutex < 128"
    and "sched_locked (threads k (current k)) = 0" "z_impl_k_mutex_unlock mutex k = (r, mutex', k')"
  shows "r = 0 \<and> current k' = current k \<and> thread_is_preemptible (threads k' (current k')) \<and>
    z_is_thread_ready k' t \<and> prio (threads k' t) < prio (threads k' (current k'))"
proof -
  note f = restored_frame [OF assms(1-4)]
  have k': "r = 0" "k' = restored mutex k"
    using assms(13) mutex_unlock_free [OF assms(4)] assms(5,6) f(2) by simp_all
  have o: "current k \<noteq> idle_thread k" "current k \<noteq> thread_dummy k" using assms(2,4) by (auto simp: mutex_inv_def)
  have "t \<in> set (runq k')"
    using adjust_frame(5) [OF kernel_inv_pre [OF assms(1)] assms(3) o] assms(7) by (simp add: k' restored_def)
  then have "z_is_thread_ready k' t" using runq_ready [OF kernel_preD(1) [OF f(1)]] k' by simp
  then show ?thesis
    using assms(8-12) f(3,5) k' by (simp add: thread_is_preemptible_def preempt_def)
qed

theorem mutex_unlock_skips_scheduling_witness:
  "\<exists>m k. z_impl_k_mutex_unlock (sample_mutex\<lparr>owner := Some 5, owner_orig_prio := 7\<rparr>) with_helper = (0, m, k) \<and>
     current k = 5 \<and> thread_is_preemptible (threads k 5) \<and> z_is_thread_ready k 3 \<and>
     prio (threads k 3) < prio (threads k 5)"
proof -
  let ?m = "sample_mutex\<lparr>owner := Some 5, owner_orig_prio := 7\<rparr>"
  have m: "mutex_inv ?m with_helper"
    by (simp add: mutex_inv_def sample_mutex_def helper_facts helper_run)
  obtain r m' k' where u: "z_impl_k_mutex_unlock ?m with_helper = (r, m', k')" by (metis prod.exhaust)
  from mutex_unlock_skips_scheduling [OF helper_run(1) m helper_isr(1) _ _ _ _ _ _ _ _ _ u, of 3] u
  show ?thesis by (auto simp: sample_mutex_def helper_facts blank_thread_def)
qed

end
