(* ===== verification/Condvar.thy ===== *)
theory Condvar
  imports Mutex
begin

text \<open>
  Condition variables, \<open>kernel/condvar.c\<close>. \<open>k_condvar_wait\<close> unlocks the mutex while it holds its own
  spin lock, so with interrupts masked: the scheduling point inside the unlock does nothing, and the
  caller is in the wait queue before any other thread runs. After the wake-up it locks the mutex
  again (\<open>k_condvar_wait_resume\<close>), which may block in its turn.
\<close>

section \<open>State and operations\<close>

record k_condvar =
  condvar_wait_q :: wait_q

definition z_impl_k_condvar_init :: "k_condvar \<Rightarrow> kernel \<Rightarrow> int \<times> kernel" where
  "z_impl_k_condvar_init condvar k = (0, z_waitq_init (condvar_wait_q condvar) k)"

definition z_impl_k_condvar_signal :: "k_condvar \<Rightarrow> kernel \<Rightarrow> int \<times> kernel" where
  "z_impl_k_condvar_signal condvar k =
     (case z_unpend_first_thread (condvar_wait_q condvar) k of
        (Some thread, k1) \<Rightarrow>
          (0, z_reschedule (z_ready_thread thread (arch_thread_return_value_set thread 0 k1)))
      | (None, k1) \<Rightarrow> (0, k1))"

definition z_impl_k_condvar_broadcast :: "k_condvar \<Rightarrow> kernel \<Rightarrow> int \<times> kernel" where
  "z_impl_k_condvar_broadcast condvar k =
     (let (woke, k1) = wake_all 0 (condvar_wait_q condvar) k in (int woke, z_reschedule k1))"

definition z_impl_k_condvar_wait ::
  "k_ticks_t \<Rightarrow> k_condvar \<Rightarrow> k_mutex \<Rightarrow> kernel \<Rightarrow> int outcome \<times> k_mutex \<times> kernel" where
  "z_impl_k_condvar_wait timeout condvar mutex k =
     (let (_, m1, k1) = z_impl_k_mutex_unlock mutex (k\<lparr>irq_locked := True\<rparr>)
      in (Blocked, m1, z_pend_curr (condvar_wait_q condvar) timeout (k1\<lparr>irq_locked := irq_locked k\<rparr>)))"

definition k_condvar_wait_resume ::
  "k_mutex \<Rightarrow> kernel \<Rightarrow> int \<times> int outcome \<times> bool \<times> k_mutex \<times> kernel" where
  "k_condvar_wait_resume mutex k =
     (swap_retval (threads k (current k)), z_impl_k_mutex_lock K_FOREVER mutex k)"

section \<open>Lemmas\<close>

text \<open>Masking interrupts changes nothing the invariants read.\<close>

lemma irq_frame [simp]:
  "sched_inv_but X (k\<lparr>irq_locked := b\<rparr>) = sched_inv_but X k" "kernel_pre (k\<lparr>irq_locked := b\<rparr>) = kernel_pre k"
  "mutex_inv m (k\<lparr>irq_locked := b\<rparr>) = mutex_inv m k" "running (k\<lparr>irq_locked := b\<rparr>) = running k"
proof -
  show s: "sched_inv_but X (k\<lparr>irq_locked := b\<rparr>) = sched_inv_but X k" for X
    by (auto simp: sched_inv_but_def wf_queues_def tprio_def ready_iff)
  have c: "best_thread (k\<lparr>irq_locked := b\<rparr>) = best_thread k" "runnable (k\<lparr>irq_locked := b\<rparr>) = runnable k"
    by (simp_all add: best_thread_def runnable_def split: list.split)
  then show "kernel_pre (k\<lparr>irq_locked := b\<rparr>) = kernel_pre k"
    by (simp add: kernel_pre_def s dummy_ok_def dummy_idle_def metairq_tracked_def cache_ok_def)
  show "mutex_inv m (k\<lparr>irq_locked := b\<rparr>) = mutex_inv m k" "running (k\<lparr>irq_locked := b\<rparr>) = running k"
    by (simp_all add: mutex_inv_def running_def)
qed

lemma kernel_inv_irq_locked: "kernel_pre k \<Longrightarrow> irq_locked k \<Longrightarrow> kernel_inv k"
  by (simp add: kernel_inv_def kernel_pre_def cpu_ok_def)

lemma condvar_signal_waiter:
  "waitqs k (condvar_wait_q cv) = t # ts \<Longrightarrow> z_impl_k_condvar_signal cv k = (0, z_reschedule (woken t 0 k))"
  by (simp add: z_impl_k_condvar_signal_def unpend_first_eq z_ready_thread_def woken_eq)

lemma condvar_signal_none:
  "waitqs k (condvar_wait_q cv) = [] \<Longrightarrow> z_impl_k_condvar_signal cv k = (0, k)"
  by (simp add: z_impl_k_condvar_signal_def)

lemma condvar_broadcast_eq:
  "z_impl_k_condvar_broadcast cv k =
     (int (fst (wake_all 0 (condvar_wait_q cv) k)), z_reschedule (snd (wake_all 0 (condvar_wait_q cv) k)))"
  by (simp add: z_impl_k_condvar_broadcast_def case_prod_beta)

text \<open>The last unlock with interrupts masked hands the mutex over without switching.\<close>

lemma unlock_masked:
  assumes i: "kernel_inv i" "irq_locked i" and m: "mutex_inv mutex i" "\<not> in_isr i" "owner mutex = Some (current i)"
    and c: "lock_count mutex = 1" and run: "running i" and u: "z_impl_k_mutex_unlock mutex i = (r, m1, k1)"
  shows "kernel_pre k1 \<and> mutex_inv m1 k1 \<and> current k1 = current i \<and> running k1 \<and> env k1 = env i \<and>
    mutex_wait_q m1 = mutex_wait_q mutex \<and>
    (case waitqs i (mutex_wait_q mutex) of
       [] \<Rightarrow> owner m1 = None \<and> waitqs k1 = waitqs i
     | t # ts \<Rightarrow> owner m1 = Some t \<and> t \<noteq> current i \<and> waitqs k1 = (waitqs i)(mutex_wait_q mutex := ts) \<and>
                 swap_retval (threads k1 t) = 0)"
proof -
  let ?r = "restored mutex i"
  note f = restored_frame [OF i(1) m]
  have o: "current i \<noteq> idle_thread i" "current i \<noteq> thread_dummy i" using m by (auto simp: mutex_inv_def)
  have rq: "current i \<in> set (runq ?r)"
    using adjust_frame(5) [OF kernel_inv_pre [OF i(1)] m(2) o] run by (simp add: restored_def running_def)
  have I: "kernel_pre k1" "mutex_inv m1 k1" using mutex_unlock_inv(1) [OF i(1) m(1,2) u] by simp_all
  show ?thesis
    using u
  proof (cases rule: mutex_unlock_cases)
    case (handed t ts)
    note w = woken_props [OF kernel_preD(1) [OF f(1)] handed(4), where v = 0]
    have "irq_locked (woken t 0 ?r)" using w(4) f(4) i(2) by (simp add: env_def)
    then have k1: "k1 = woken t 0 ?r" by (simp add: handed(6) z_reschedule_def resched_def)
    have q: "waitqs i (mutex_wait_q mutex) = t # ts" using handed(4) f(2) by simp
    have "current i \<in> set (runq k1)" using rq woken_runq_mono k1 by blast
    moreover have "t \<noteq> current i" using q m by (auto simp: mutex_inv_def)
    ultimately show ?thesis using I w f q by (simp add: k1 handed(5) running_def)
  next
    case freed
    then show ?thesis using I f rq by (simp add: running_def)
  qed (use m(3) c in simp_all)
qed

section \<open>Properties\<close>

text \<open>
  C29. Waiting on a condition variable releases the mutex and enters the wait queue in one step: a
  caller that holds the mutex once no longer owns it, the first locker (if any) owns it and will
  return 0 from its lock, and the caller is in the queue of the condition variable.
\<close>

theorem condvar_wait_is_atomic:
  assumes "kernel_inv k" "mutex_inv mutex k" "running k" "\<not> in_isr k" "owner mutex = Some (current k)"
    and "lock_count mutex = 1" "condvar_wait_q cv \<noteq> mutex_wait_q mutex"
    and "z_impl_k_condvar_wait timeout cv mutex k = (r, mutex', k')"
  shows "r = Blocked \<and> kernel_inv k' \<and> mutex_inv mutex' k' \<and> current k \<in> set (waitqs k' (condvar_wait_q cv)) \<and>
    (case waitqs k (mutex_wait_q mutex) of
       [] \<Rightarrow> owner mutex' = None
     | t # ts \<Rightarrow> owner mutex' = Some t \<and> t \<noteq> current k \<and> swap_retval (threads k' t) = 0 \<and>
                 waitqs k' (mutex_wait_q mutex) = ts)"
proof -
  let ?i = "k\<lparr>irq_locked := True\<rparr>" and ?q = "condvar_wait_q cv"
  obtain r1 m1 k1 where u: "z_impl_k_mutex_unlock mutex ?i = (r1, m1, k1)" by (metis prod.exhaust)
  let ?j = "k1\<lparr>irq_locked := irq_locked k\<rparr>"
  have eq: "r = Blocked" "mutex' = m1" "k' = z_pend_curr ?q timeout ?j"
    using assms(8) u by (simp_all add: z_impl_k_condvar_wait_def)
  have i: "kernel_inv ?i" using kernel_inv_irq_locked [of ?i] kernel_inv_pre [OF assms(1)] by simp
  have U: "kernel_pre k1" "mutex_inv m1 k1" "current k1 = current k" "running k1" "mutex_wait_q m1 = mutex_wait_q mutex"
    and C: "case waitqs k (mutex_wait_q mutex) of [] \<Rightarrow> owner m1 = None \<and> waitqs k1 = waitqs k
       | t # ts \<Rightarrow> owner m1 = Some t \<and> t \<noteq> current k \<and> waitqs k1 = (waitqs k)(mutex_wait_q mutex := ts) \<and>
                   swap_retval (threads k1 t) = 0"
    using unlock_masked [OF i _ _ _ _ assms(6) _ u] assms(2-5) by (simp_all split: list.splits)
  have k': "kernel_inv k'" unfolding eq(3) by (rule pend_curr_pre) (use U in simp_all)
  have e: "idle_thread k' = idle_thread k1" "thread_dummy k' = thread_dummy k1"
    using env_idle [of k' ?j] env_dummy [of k' ?j] by (simp_all add: eq(3))
  have wq: "waitqs k' = (waitqs k1)(?q := z_priq_dumb_add (threads k1) (waitqs k1 ?q) (current k))"
    by (simp add: eq(3) z_pend_curr_waitqs U(3))
  have "mutex_inv mutex' k'" using U(2,5) e assms(7) by (auto simp: mutex_inv_def eq(2) wq)
  moreover have "swap_retval (threads k' t) = swap_retval (threads k1 t)" if "t \<noteq> current k" for t
    using that by (simp add: eq(3) z_pend_curr_threads U(3))
  ultimately show ?thesis using C k' eq(1,2) wq assms(7) by (auto split: list.splits)
qed

definition sample_condvar :: k_condvar where
  "sample_condvar = \<lparr>condvar_wait_q = ObjQ 1\<rparr>"

theorem condvar_wait_is_atomic_witness:
  "\<exists>m k. z_impl_k_condvar_wait K_FOREVER sample_condvar (sample_mutex\<lparr>owner := Some 5\<rparr>) with_helper = (Blocked, m, k) \<and>
     owner m = None \<and> 5 \<in> set (waitqs k (ObjQ 1))"
proof -
  let ?m = "sample_mutex\<lparr>owner := Some 5\<rparr>"
  have m: "mutex_inv ?m with_helper" by (simp add: mutex_inv_def sample_mutex_def helper_facts helper_run)
  obtain r m' k' where w: "z_impl_k_condvar_wait K_FOREVER sample_condvar ?m with_helper = (r, m', k')"
    by (metis prod.exhaust)
  from condvar_wait_is_atomic [OF helper_run(1) m helper_run(2) helper_isr(1) _ _ _ w] w show ?thesis
    by (simp add: sample_mutex_def sample_condvar_def helper_facts)
qed

text \<open>
  A signal wakes the first waiting thread, which returns 0 from the pend, and does nothing when
  there is none; a broadcast wakes every waiting thread with 0 and returns their number. Both keep
  the invariant of the kernel and touch no other queue.
\<close>

theorem condvar_wakes:
  assumes "kernel_inv k" "z_impl_k_condvar_signal cv k = (r1, k1)" "z_impl_k_condvar_broadcast cv k = (r2, k2)"
  shows "kernel_inv k1 \<and> r1 = 0 \<and> waitqs k1 = (waitqs k)(condvar_wait_q cv := tl (waitqs k (condvar_wait_q cv))) \<and>
    (\<forall>t ts. waitqs k (condvar_wait_q cv) = t # ts \<longrightarrow> swap_retval (threads k1 t) = 0) \<and>
    kernel_inv k2 \<and> r2 = int (length (waitqs k (condvar_wait_q cv))) \<and>
    waitqs k2 = (waitqs k)(condvar_wait_q cv := []) \<and>
    (\<forall>t \<in> set (waitqs k (condvar_wait_q cv)). swap_retval (threads k2 t) = 0 \<and> pended_on (threads k2 t) = None)"
proof -
  have b: "r2 = int (fst (wake_all 0 (condvar_wait_q cv) k))" "k2 = z_reschedule (snd (wake_all 0 (condvar_wait_q cv) k))"
    using assms(3) by (simp_all add: condvar_broadcast_eq)
  note e = wake_all_effect [OF assms(1) b(2)]
  have "kernel_inv k1 \<and> r1 = 0 \<and> waitqs k1 = (waitqs k)(condvar_wait_q cv := tl (waitqs k (condvar_wait_q cv))) \<and>
    (\<forall>t ts. waitqs k (condvar_wait_q cv) = t # ts \<longrightarrow> swap_retval (threads k1 t) = 0)"
  proof (cases "waitqs k (condvar_wait_q cv)")
    case Nil
    then show ?thesis using assms(1,2) condvar_signal_none by (simp add: fun_upd_idem)
  next
    case (Cons t ts)
    have s: "k1 = z_reschedule (woken t 0 k)" "r1 = 0" using assms(2) condvar_signal_waiter [OF Cons] by auto
    have "waitqs k1 = (waitqs k)(condvar_wait_q cv := ts)"
      using woken_props(2) [OF kernel_invD(1) [OF assms(1)] Cons] by (simp add: s(1))
    then show ?thesis
      using wake_first_kernel_inv [OF assms(1) Cons] handoff_retval [OF assms(1) Cons] s Cons by simp
  qed
  then show ?thesis using e(1-3) b(1) by (simp add: e(4))
qed

theorem condvar_wakes_witness:
  "fst (z_impl_k_condvar_broadcast \<lparr>condvar_wait_q = ObjQ 0\<rparr> main_waits) = 1 \<and>
   swap_retval (threads (snd (z_impl_k_condvar_signal \<lparr>condvar_wait_q = ObjQ 0\<rparr> main_waits)) 5) = 0"
proof -
  obtain r1 k1 r2 k2 where "z_impl_k_condvar_signal \<lparr>condvar_wait_q = ObjQ 0\<rparr> main_waits = (r1, k1)"
    "z_impl_k_condvar_broadcast \<lparr>condvar_wait_q = ObjQ 0\<rparr> main_waits = (r2, k2)" by (metis prod.exhaust)
  from condvar_wakes [OF main_waits_facts(1) this] this show ?thesis by (simp add: main_waits_facts)
qed

end
