(* ===== verification/Stack.thy ===== *)
theory Stack
  imports Sched_Props
begin

text \<open>
  LIFO stacks of words, \<open>kernel/stack.c\<close>. The buffer is word memory (\<open>pmem\<close> of the kernel state, one
  address per \<open>stack_data_t\<close>), so that pointer arithmetic is the source's. The heap is a parameter:
  what \<open>z_thread_malloc\<close> returned is an argument of \<open>k_stack_alloc_init\<close>, and \<open>k_stack_cleanup\<close> says
  which buffer it frees.
\<close>

section \<open>State and operations\<close>

record k_stack =
  stack_wait_q :: wait_q
  stack_base :: addr
  stack_next :: addr
  stack_top :: addr
  stack_alloc :: bool

definition k_stack_init :: "addr \<Rightarrow> nat \<Rightarrow> k_stack \<Rightarrow> kernel \<Rightarrow> k_stack \<times> kernel" where
  "k_stack_init buffer num_entries stack k =
     (stack\<lparr>stack_next := buffer, stack_base := buffer, stack_top := buffer + num_entries\<rparr>,
      k\<lparr>waitqs := (waitqs k)(stack_wait_q stack := [])\<rparr>)"

definition z_impl_k_stack_alloc_init ::
  "addr option \<Rightarrow> nat \<Rightarrow> k_stack \<Rightarrow> kernel \<Rightarrow> int \<times> k_stack \<times> kernel" where
  "z_impl_k_stack_alloc_init malloced num_entries stack k =
     (case malloced of
        Some buffer \<Rightarrow>
          let (stack1, k1) = k_stack_init buffer num_entries stack k in (0, stack1\<lparr>stack_alloc := True\<rparr>, k1)
      | None \<Rightarrow> (- ENOMEM, stack, k))"

definition k_stack_cleanup :: "k_stack \<Rightarrow> kernel \<Rightarrow> int \<times> addr option \<times> k_stack" where
  "k_stack_cleanup stack k =
     (if z_waitq_head (stack_wait_q stack) k \<noteq> None then (- EAGAIN, None, stack)
      else if stack_alloc stack then (0, Some (stack_base stack), stack\<lparr>stack_base := 0, stack_alloc := False\<rparr>)
      else (0, None, stack))"

definition z_impl_k_stack_push :: "addr \<Rightarrow> k_stack \<Rightarrow> kernel \<Rightarrow> int \<times> k_stack \<times> kernel" where
  "z_impl_k_stack_push data stack k =
     (if stack_next stack = stack_top stack then (- ENOMEM, stack, k)
      else
        case z_unpend_first_thread (stack_wait_q stack) k of
          (Some first_pending_thread, k1) \<Rightarrow>
            (0, stack, z_reschedule (z_ready_thread first_pending_thread
               (z_thread_return_value_set_with_data first_pending_thread 0 data k1)))
        | (None, k1) \<Rightarrow>
            (0, stack\<lparr>stack_next := stack_next stack + 1\<rparr>, k1\<lparr>pmem := (pmem k1)(stack_next stack := data)\<rparr>))"

text \<open>The value that \<open>k_stack_pop\<close> stores through its argument comes with the return value.\<close>

definition z_impl_k_stack_pop ::
  "k_ticks_t \<Rightarrow> k_stack \<Rightarrow> kernel \<Rightarrow> (int \<times> addr option) outcome \<times> k_stack \<times> kernel" where
  "z_impl_k_stack_pop timeout stack k =
     (if stack_next stack > stack_base stack
      then (Done (0, Some (pmem k (stack_next stack - 1))), stack\<lparr>stack_next := stack_next stack - 1\<rparr>, k)
      else if timeout = K_NO_WAIT then (Done (- EBUSY, None), stack, k)
      else (Blocked, stack, z_pend_curr (stack_wait_q stack) timeout k))"

definition k_stack_pop_resume :: "kernel \<Rightarrow> int \<times> addr option" where
  "k_stack_pop_resume k =
     (let th = threads k (current k)
      in if swap_retval th = - EAGAIN then (- EAGAIN, None) else (0, Some (swap_data th)))"

section \<open>The invariant and the contract\<close>

definition stack_inv :: "k_stack \<Rightarrow> kernel \<Rightarrow> bool" where
  "stack_inv stack k \<longleftrightarrow>
     stack_base stack \<le> stack_next stack \<and> stack_next stack \<le> stack_top stack \<and> stack_base stack < stack_top stack \<and>
     (waitqs k (stack_wait_q stack) \<noteq> [] \<longrightarrow> stack_next stack = stack_base stack)"

text \<open>The values on the stack, the last one pushed first.\<close>

definition stack_list :: "k_stack \<Rightarrow> kernel \<Rightarrow> addr list" where
  "stack_list stack k = rev (map (pmem k) [stack_base stack..<stack_next stack])"

definition stack_capacity :: "k_stack \<Rightarrow> nat" where
  "stack_capacity stack = stack_top stack - stack_base stack"

lemma stack_push_waiter:
  assumes "stack_next stack \<noteq> stack_top stack" "waitqs k (stack_wait_q stack) = t # ts"
  shows "z_impl_k_stack_push data stack k = (0, stack, z_reschedule (handed t 0 data k))"
  using assms unpend_first_eq [OF assms(2)]
  by (simp add: z_impl_k_stack_push_def z_ready_thread_def handed_eq)

lemma stack_push_store:
  assumes "stack_next stack \<noteq> stack_top stack" "waitqs k (stack_wait_q stack) = []"
  shows "z_impl_k_stack_push data stack k =
    (0, stack\<lparr>stack_next := stack_next stack + 1\<rparr>, k\<lparr>pmem := (pmem k)(stack_next stack := data)\<rparr>)"
  using assms by (simp add: z_impl_k_stack_push_def)

lemma stack_list_length: "length (stack_list stack k) = stack_next stack - stack_base stack"
  by (simp add: stack_list_def)

lemma stack_list_cong: "(\<And>a. stack_base stack \<le> a \<Longrightarrow> a < stack_next stack \<Longrightarrow> pmem k' a = pmem k a) \<Longrightarrow>
    stack_list stack k' = stack_list stack k"
  by (simp add: stack_list_def)

lemma stack_full: "stack_inv stack k \<Longrightarrow> stack_next stack = stack_top stack \<longleftrightarrow>
    length (stack_list stack k) = stack_capacity stack"
  by (auto simp: stack_list_length stack_capacity_def stack_inv_def)

text \<open>
  The reference stack: a bounded list whose head is the top, and the threads waiting for a value. A push also says
  which thread it delivers which value to, if any.
\<close>

definition push_spec :: "nat \<Rightarrow> addr \<Rightarrow> addr list \<times> tid list \<Rightarrow> int \<times> (tid \<times> addr) option \<times> addr list \<times> tid list" where
  "push_spec cap d a =
     (case a of (xs, q) \<Rightarrow>
        if length xs = cap then (- ENOMEM, None, xs, q)
        else case q of t # ts \<Rightarrow> (0, Some (t, d), xs, ts) | [] \<Rightarrow> (0, None, d # xs, []))"

text \<open>The thread \<open>t\<close> waits no more, and its pop returns the value when it runs next.\<close>

definition pop_gets :: "kernel \<Rightarrow> tid \<times> addr \<Rightarrow> bool" where
  "pop_gets k td = (case td of (t, d) \<Rightarrow>
     pended_on (threads k t) = None \<and> deadline (tmo k) (ThreadTo t) = None \<and>
     k_stack_pop_resume (k\<lparr>current := t\<rparr>) = (0, Some d))"

definition pop_spec :: "(tid \<Rightarrow> k_thread) \<Rightarrow> tid \<Rightarrow> bool \<Rightarrow> addr list \<times> tid list \<Rightarrow>
    (int \<times> addr option) outcome \<times> addr list \<times> tid list" where
  "pop_spec th me may_wait a =
     (case a of (x # xs, q) \<Rightarrow> (Done (0, Some x), xs, q)
      | ([], q) \<Rightarrow> if may_wait then (Blocked, [], z_priq_dumb_add th q me) else (Done (- EBUSY, None), [], q))"

definition stack_abs :: "k_stack \<Rightarrow> kernel \<Rightarrow> addr list \<times> tid list" where
  "stack_abs stack k = (stack_list stack k, waitqs k (stack_wait_q stack))"

lemma stack_push_abs:
  assumes k: "kernel_inv k" and s: "stack_inv stack k" and p: "z_impl_k_stack_push d stack k = (r, stack', k')"
  shows "\<exists>dl. (r, dl, stack_abs stack' k') = push_spec (stack_capacity stack) d (stack_abs stack k) \<and> pred_option (pop_gets k') dl \<and>
    kernel_inv k' \<and> stack_inv stack' k' \<and> stack_capacity stack' = stack_capacity stack"
proof (cases "stack_next stack = stack_top stack")
  case True
  then show ?thesis
    using p k s stack_full [OF s] by (simp add: z_impl_k_stack_push_def push_spec_def stack_abs_def)
next
  case full: False
  show ?thesis
  proof (cases "waitqs k (stack_wait_q stack)")
    case Nil
    note eq = stack_push_store [OF full Nil, of d]
    show ?thesis
      using p k s stack_full [OF s] full Nil unfolding eq
      by (auto simp: push_spec_def stack_abs_def stack_list_def stack_inv_def stack_capacity_def)
  next
    case (Cons t ts)
    note eq = stack_push_waiter [OF full Cons, of d]
    note h = handoff_data [OF k Cons refl, of 0 d]
    have "stack_list stack (z_reschedule (handed t 0 d k)) = stack_list stack k"
      using h(3) by (simp add: stack_list_def env_def)
    moreover have "pop_gets (z_reschedule (handed t 0 d k)) (t, d)" using h by (simp add: pop_gets_def k_stack_pop_resume_def)
    ultimately show ?thesis
      using p s stack_full [OF s] full Cons h(1,2) unfolding eq
      by (auto simp: push_spec_def stack_abs_def stack_inv_def)
  qed
qed

lemma stack_pop_abs:
  assumes k: "kernel_inv k" and s: "stack_inv stack k" and run: "timeout = K_NO_WAIT \<or> running k"
    and p: "z_impl_k_stack_pop timeout stack k = (r, stack', k')"
  shows "(r, stack_abs stack' k') = pop_spec (threads k) (current k) (timeout \<noteq> K_NO_WAIT) (stack_abs stack k) \<and>
    (r = Blocked \<longrightarrow> k_stack_pop_resume (k'\<lparr>current := current k\<rparr>) = (- EAGAIN, None)) \<and> kernel_inv k' \<and> stack_inv stack' k'"
proof (cases "stack_next stack > stack_base stack")
  case True
  then obtain n where n: "stack_next stack = Suc n" "stack_base stack \<le> n" by (cases "stack_next stack") auto
  have "stack_list stack k = pmem k n # stack_list (stack\<lparr>stack_next := n\<rparr>) k"
    using n by (simp add: stack_list_def)
  then show ?thesis
    using p k s True n by (auto simp: z_impl_k_stack_pop_def pop_spec_def stack_abs_def stack_inv_def)
next
  case False
  then have e: "stack_list stack k = []" "stack_next stack = stack_base stack"
    using s by (simp_all add: stack_list_def stack_inv_def)
  have "pmem (z_pend_curr (stack_wait_q stack) timeout k) = pmem k"
    using z_pend_curr_frame [of "stack_wait_q stack" timeout k] by (simp add: env_def)
  then have "stack_list stack (z_pend_curr (stack_wait_q stack) timeout k) = []"
    using e by (simp add: stack_list_def)
  moreover have "k_stack_pop_resume ((z_pend_curr (stack_wait_q stack) timeout k)\<lparr>current := current k\<rparr>) = (- EAGAIN, None)"
    using sch.pend_default_retval [of "stack_wait_q stack" timeout k] by (simp add: k_stack_pop_resume_def)
  ultimately show ?thesis
    using p k s False e run pend_curr_kernel_inv [OF k]
    by (auto simp: z_impl_k_stack_pop_def pop_spec_def stack_abs_def stack_inv_def z_pend_curr_waitqs split: if_splits)
qed

section \<open>Properties\<close>

text \<open>
  C30. Pushing and popping implement a bounded last-in first-out list with a queue of waiting
  threads, on the words of the buffer: a push on a full stack is refused; a push while threads wait
  goes to the first of them, whose pop then returns the value; a pop that waits returns \<open>-EAGAIN\<close> if nothing is pushed
  to it; and both operations keep the invariants.
\<close>

theorem stack_refines_list:
  assumes "kernel_inv k" "stack_inv stack k" "timeout = K_NO_WAIT \<or> running k"
    and "z_impl_k_stack_push d stack k = (r1, s1, k1)" "z_impl_k_stack_pop timeout stack k = (r2, s2, k2)"
  shows "(\<exists>dl. (r1, dl, stack_abs s1 k1) = push_spec (stack_capacity stack) d (stack_abs stack k) \<and> pred_option (pop_gets k1) dl) \<and>
    (r2 = Blocked \<longrightarrow> k_stack_pop_resume (k2\<lparr>current := current k\<rparr>) = (- EAGAIN, None)) \<and>
    (r2, stack_abs s2 k2) = pop_spec (threads k) (current k) (timeout \<noteq> K_NO_WAIT) (stack_abs stack k) \<and>
    kernel_inv k1 \<and> stack_inv s1 k1 \<and> kernel_inv k2 \<and> stack_inv s2 k2"
  using stack_push_abs [OF assms(1,2,4)] stack_pop_abs [OF assms(1,2,3,5)] by blast

definition sample_stack :: k_stack where
  "sample_stack = \<lparr>stack_wait_q = ObjQ 0, stack_base = 100, stack_next = 100, stack_top = 104, stack_alloc = False\<rparr>"

lemma sample_stack_inv: "stack_inv sample_stack k"
  by (simp add: stack_inv_def sample_stack_def)

theorem stack_refines_list_witness:
  "\<exists>k. z_impl_k_stack_push 42 sample_stack main_waits = (0, sample_stack, k) \<and> k_stack_pop_resume (k\<lparr>current := 5\<rparr>) = (0, Some 42)"
proof -
  obtain r1 s1 k1 r2 s2 k2 where p: "z_impl_k_stack_push 42 sample_stack main_waits = (r1, s1, k1)"
    "z_impl_k_stack_pop K_NO_WAIT sample_stack main_waits = (r2, s2, k2)" by (metis prod.exhaust)
  have "waitqs main_waits (stack_wait_q sample_stack) = 5 # []" by (simp add: main_waits_facts sample_stack_def)
  from stack_push_waiter [OF _ this, of 42] p(1) have "s1 = sample_stack" by (simp add: sample_stack_def)
  then show ?thesis
    using stack_refines_list [OF main_waits_facts(1) sample_stack_inv _ p] p(1)
    by (auto simp: push_spec_def stack_abs_def stack_list_def sample_stack_def main_waits_facts stack_capacity_def pop_gets_def)
qed

lemma stack_push_pop:
  assumes "kernel_inv k" "stack_inv stack k"
  shows "z_impl_k_stack_push d stack k = (0, s1, k1) \<and> waitqs k (stack_wait_q stack) = [] \<Longrightarrow>
      z_impl_k_stack_pop timeout s1 k1 = (Done (0, Some d), stack, k1)"
    and "running k \<and> waitqs k (stack_wait_q stack) = [] \<and> z_impl_k_stack_pop timeout stack k = (Blocked, s1, k1) \<Longrightarrow>
      \<exists>k2. z_impl_k_stack_push d s1 k1 = (0, stack, k2) \<and> swap_retval (threads k2 (current k)) = 0 \<and>
        swap_data (threads k2 (current k)) = d"
proof -
  assume a: "z_impl_k_stack_push d stack k = (0, s1, k1) \<and> waitqs k (stack_wait_q stack) = []"
  then have n: "stack_next stack \<noteq> stack_top stack" by (auto simp: z_impl_k_stack_push_def)
  show "z_impl_k_stack_pop timeout s1 k1 = (Done (0, Some d), stack, k1)"
    using a assms(2) stack_push_store [OF n, of k d] by (auto simp: z_impl_k_stack_pop_def stack_inv_def)
next
  assume a: "running k \<and> waitqs k (stack_wait_q stack) = [] \<and> z_impl_k_stack_pop timeout stack k = (Blocked, s1, k1)"
  then have e: "s1 = stack" "k1 = z_pend_curr (stack_wait_q stack) timeout k" "stack_next stack = stack_base stack"
    using assms(2) by (auto simp: z_impl_k_stack_pop_def stack_inv_def split: if_splits)
  have n: "stack_next stack \<noteq> stack_top stack" using assms(2) e(3) by (auto simp: stack_inv_def)
  have k1: "kernel_inv k1" using pend_curr_kernel_inv [OF assms(1)] a e(2) by simp
  have q: "waitqs k1 (stack_wait_q stack) = [current k]" using a by (simp add: e(2) z_pend_curr_waitqs)
  show "\<exists>k2. z_impl_k_stack_push d s1 k1 = (0, stack, k2) \<and> swap_retval (threads k2 (current k)) = 0 \<and>
        swap_data (threads k2 (current k)) = d"
    using stack_push_waiter [OF n q] handoff_data(4,5) [OF k1 q refl] e(1) by simp
qed

text \<open>
  What is pushed is what the next pop returns: on an empty stack a pop that blocks returns the
  value of the push that wakes it, and a push that stores its value is undone by a pop, which
  returns it.
\<close>

theorem stack_push_pop_roundtrip:
  assumes "kernel_inv k" "stack_inv stack k" "running k" "waitqs k (stack_wait_q stack) = []"
  shows "(z_impl_k_stack_push d stack k = (0, s1, k1) \<longrightarrow>
      z_impl_k_stack_pop timeout s1 k1 = (Done (0, Some d), stack, k1)) \<and>
    (z_impl_k_stack_pop timeout stack k = (Blocked, s2, k2) \<longrightarrow>
      (\<exists>k3. z_impl_k_stack_push d s2 k2 = (0, stack, k3) \<and> swap_retval (threads k3 (current k)) = 0 \<and>
        swap_data (threads k3 (current k)) = d))"
  using stack_push_pop [OF assms(1,2)] assms(3,4) by blast

theorem stack_push_pop_roundtrip_witness:
  "\<exists>s k. z_impl_k_stack_push 42 sample_stack with_helper = (0, s, k) \<and>
     z_impl_k_stack_pop K_NO_WAIT s k = (Done (0, Some 42), sample_stack, k)"
proof -
  have w: "waitqs with_helper (stack_wait_q sample_stack) = []" by (simp add: helper_facts)
  obtain s1 k1 where p: "z_impl_k_stack_push 42 sample_stack with_helper = (0, s1, k1)"
    using stack_push_store [OF _ w] by (simp add: sample_stack_def)
  with stack_push_pop_roundtrip [OF helper_run(1) sample_stack_inv helper_run(2) w, of 42 s1 k1 K_NO_WAIT] show ?thesis
    by blast
qed

end
