(* ===== verification/Msgq.thy ===== *)
theory Msgq
  imports Sched_Props
begin

text \<open>
  Message queues, \<open>kernel/msg_q.c\<close>: a ring of fixed-size messages in byte memory (\<open>bmem\<close> of the kernel
  state), with one wait queue for the readers of an empty ring and the writers of a full one. A waiting
  thread leaves the address of its message buffer in \<open>swap_data\<close>. The heap is a parameter: what
  \<open>z_thread_malloc\<close> returned is an argument of \<open>z_impl_k_msgq_alloc_init\<close>, and \<open>k_msgq_cleanup\<close> says which
  buffer it frees. \<open>size_t\<close> and \<open>uint32_t\<close> have 32 bits.
\<close>

section \<open>State and operations\<close>

record k_msgq =
  msgq_wait_q :: wait_q
  msg_size :: nat
  max_msgs :: nat
  buffer_start :: addr
  buffer_end :: addr
  read_ptr :: addr
  write_ptr :: addr
  used_msgs :: nat
  msgq_alloc :: bool

record k_msgq_attrs =
  attr_msg_size :: nat
  attr_max_msgs :: nat
  attr_used_msgs :: nat

definition k_msgq_init :: "addr \<Rightarrow> nat \<Rightarrow> nat \<Rightarrow> k_msgq \<Rightarrow> kernel \<Rightarrow> k_msgq \<times> kernel" where
  "k_msgq_init buffer sz n msgq k =
     (msgq\<lparr>msg_size := sz, max_msgs := n, buffer_start := buffer, buffer_end := buffer + n * sz,
        read_ptr := buffer, write_ptr := buffer, used_msgs := 0, msgq_alloc := False\<rparr>,
      k\<lparr>waitqs := (waitqs k)(msgq_wait_q msgq := [])\<rparr>)"

definition size_mul_overflow :: "nat \<Rightarrow> nat \<Rightarrow> bool" where
  "size_mul_overflow a b \<longleftrightarrow> (let c = (a * b) mod 2 ^ 32 in a \<noteq> 0 \<and> c div a \<noteq> b)"

definition z_impl_k_msgq_alloc_init ::
  "(nat \<Rightarrow> addr option) \<Rightarrow> nat \<Rightarrow> nat \<Rightarrow> k_msgq \<Rightarrow> kernel \<Rightarrow> int \<times> k_msgq \<times> kernel" where
  "z_impl_k_msgq_alloc_init malloc sz n msgq k =
     (if size_mul_overflow sz n then (- EINVAL, msgq, k)
      else case malloc (sz * n) of
        Some buffer \<Rightarrow>
          let (msgq1, k1) = k_msgq_init buffer sz n msgq k in (0, msgq1\<lparr>msgq_alloc := True\<rparr>, k1)
      | None \<Rightarrow> (- ENOMEM, msgq, k))"

definition k_msgq_cleanup :: "k_msgq \<Rightarrow> kernel \<Rightarrow> int \<times> addr option \<times> k_msgq" where
  "k_msgq_cleanup msgq k =
     (if z_waitq_head (msgq_wait_q msgq) k \<noteq> None then (- EBUSY, None, msgq)
      else if msgq_alloc msgq then (0, Some (buffer_start msgq), msgq\<lparr>msgq_alloc := False\<rparr>)
      else (0, None, msgq))"

definition msgq_advance :: "k_msgq \<Rightarrow> addr \<Rightarrow> addr" where
  "msgq_advance msgq ptr =
     (let p = ptr + msg_size msgq in if p = buffer_end msgq then buffer_start msgq else p)"

definition msgq_write :: "addr \<Rightarrow> k_msgq \<Rightarrow> kernel \<Rightarrow> k_msgq \<times> kernel" where
  "msgq_write src msgq k =
     (msgq\<lparr>write_ptr := msgq_advance msgq (write_ptr msgq), used_msgs := used_msgs msgq + 1\<rparr>,
      k\<lparr>bmem := memcpy (write_ptr msgq) src (msg_size msgq) (bmem k)\<rparr>)"

definition z_impl_k_msgq_put ::
  "addr \<Rightarrow> k_ticks_t \<Rightarrow> k_msgq \<Rightarrow> kernel \<Rightarrow> int outcome \<times> k_msgq \<times> kernel" where
  "z_impl_k_msgq_put data timeout msgq k =
     (if used_msgs msgq < max_msgs msgq
      then case z_unpend_first_thread (msgq_wait_q msgq) k of
          (Some pending_thread, k1) \<Rightarrow>
            let k2 = k1\<lparr>bmem := memcpy (swap_data (threads k1 pending_thread)) data (msg_size msgq) (bmem k1)\<rparr>
            in (Done 0, msgq,
                z_reschedule (z_ready_thread pending_thread (arch_thread_return_value_set pending_thread 0 k2)))
        | (None, k1) \<Rightarrow> (Done 0, msgq_write data msgq k1)
      else if timeout = K_NO_WAIT then (Done (- ENOMSG), msgq, k)
      else (Blocked, msgq,
            z_pend_curr (msgq_wait_q msgq) timeout (upd_thread (current k) (\<lambda>th. th\<lparr>swap_data := data\<rparr>) k)))"

definition z_impl_k_msgq_get_attrs :: "k_msgq \<Rightarrow> k_msgq_attrs" where
  "z_impl_k_msgq_get_attrs msgq =
     \<lparr>attr_msg_size = msg_size msgq, attr_max_msgs = max_msgs msgq, attr_used_msgs = used_msgs msgq\<rparr>"

definition z_impl_k_msgq_get ::
  "addr \<Rightarrow> k_ticks_t \<Rightarrow> k_msgq \<Rightarrow> kernel \<Rightarrow> int outcome \<times> k_msgq \<times> kernel" where
  "z_impl_k_msgq_get data timeout msgq k =
     (if used_msgs msgq > 0
      then let k1 = k\<lparr>bmem := memcpy data (read_ptr msgq) (msg_size msgq) (bmem k)\<rparr>;
               msgq1 = msgq\<lparr>read_ptr := msgq_advance msgq (read_ptr msgq), used_msgs := used_msgs msgq - 1\<rparr>
        in case z_unpend_first_thread (msgq_wait_q msgq1) k1 of
          (Some pending_thread, k2) \<Rightarrow>
            let (msgq2, k3) = msgq_write (swap_data (threads k2 pending_thread)) msgq1 k2
            in (Done 0, msgq2,
                z_reschedule (z_ready_thread pending_thread (arch_thread_return_value_set pending_thread 0 k3)))
        | (None, k2) \<Rightarrow> (Done 0, msgq1, k2)
      else if timeout = K_NO_WAIT then (Done (- ENOMSG), msgq, k)
      else (Blocked, msgq,
            z_pend_curr (msgq_wait_q msgq) timeout (upd_thread (current k) (\<lambda>th. th\<lparr>swap_data := data\<rparr>) k)))"

text \<open>A call of \<open>k_msgq_put\<close> or \<open>k_msgq_get\<close> that blocked returns what woke it.\<close>

definition k_msgq_resume :: "kernel \<Rightarrow> int" where
  "k_msgq_resume k = swap_retval (threads k (current k))"

definition z_impl_k_msgq_peek :: "addr \<Rightarrow> k_msgq \<Rightarrow> kernel \<Rightarrow> int \<times> kernel" where
  "z_impl_k_msgq_peek data msgq k =
     (if used_msgs msgq > 0 then (0, k\<lparr>bmem := memcpy data (read_ptr msgq) (msg_size msgq) (bmem k)\<rparr>)
      else (- ENOMSG, k))"

definition z_impl_k_msgq_peek_at :: "addr \<Rightarrow> nat \<Rightarrow> k_msgq \<Rightarrow> kernel \<Rightarrow> int \<times> kernel" where
  "z_impl_k_msgq_peek_at data idx msgq k =
     (if used_msgs msgq > idx
      then let bytes_to_end = (buffer_end msgq - read_ptr msgq) mod 2 ^ 32;
               byte_offset = (idx * msg_size msgq) mod 2 ^ 32;
               src = if bytes_to_end \<le> byte_offset then buffer_start msgq + (byte_offset - bytes_to_end)
                     else read_ptr msgq + byte_offset
        in (0, k\<lparr>bmem := memcpy data src (msg_size msgq) (bmem k)\<rparr>)
      else (- ENOMSG, k))"

definition z_impl_k_msgq_purge :: "k_msgq \<Rightarrow> kernel \<Rightarrow> k_msgq \<times> kernel" where
  "z_impl_k_msgq_purge msgq k =
     (let (_, k1) = wake_all (- ENOMSG) (msgq_wait_q msgq) k
      in (msgq\<lparr>used_msgs := 0, read_ptr := write_ptr msgq\<rparr>, z_reschedule k1))"

definition z_impl_k_msgq_num_free_get :: "k_msgq \<Rightarrow> nat" where
  "z_impl_k_msgq_num_free_get msgq = max_msgs msgq - used_msgs msgq"

definition z_impl_k_msgq_num_used_get :: "k_msgq \<Rightarrow> nat" where
  "z_impl_k_msgq_num_used_get msgq = used_msgs msgq"

text \<open>The division test finds exactly the products that do not fit.\<close>

lemma size_mul_overflow_iff: "size_mul_overflow a b \<longleftrightarrow> a * b \<ge> 2 ^ 32"
proof (cases "a * b < 2 ^ 32")
  case True
  then show ?thesis by (simp add: size_mul_overflow_def)
next
  case False
  have "(a * b) mod 2 ^ 32 < 2 ^ 32" by simp
  with False have "(a * b) mod 2 ^ 32 < a * b" by linarith
  then have "(a * b) mod 2 ^ 32 div a \<noteq> b" by (metis div_times_less_eq_dividend mult.commute not_less)
  moreover have "a \<noteq> 0" using False by (cases a) simp_all
  ultimately show ?thesis using False by (simp add: size_mul_overflow_def Let_def)
qed

section \<open>The ring\<close>

definition slot :: "k_msgq \<Rightarrow> nat \<Rightarrow> addr" where
  "slot m j = buffer_start m + (j mod max_msgs m) * msg_size m"

definition read_index :: "k_msgq \<Rightarrow> nat" where
  "read_index m = (read_ptr m - buffer_start m) div msg_size m"

definition ring_ok :: "k_msgq \<Rightarrow> bool" where
  "ring_ok m \<longleftrightarrow>
     0 < msg_size m \<and> 0 < max_msgs m \<and> max_msgs m * msg_size m < 2 ^ 32 \<and> used_msgs m \<le> max_msgs m \<and>
     buffer_end m = buffer_start m + max_msgs m * msg_size m \<and>
     read_index m < max_msgs m \<and> read_ptr m = slot m (read_index m) \<and> write_ptr m = slot m (read_index m + used_msgs m)"

text \<open>The messages in the ring, the oldest first.\<close>

definition msgq_list :: "k_msgq \<Rightarrow> (addr \<Rightarrow> byte) \<Rightarrow> byte list list" where
  "msgq_list m b = map (\<lambda>i. mem_read b (slot m (read_index m + i)) (msg_size m)) [0..<used_msgs m]"

text \<open>A caller's buffer lies outside the ring.\<close>

definition outside :: "k_msgq \<Rightarrow> addr \<Rightarrow> bool" where
  "outside m a \<longleftrightarrow> a + msg_size m \<le> buffer_start m \<or> buffer_end m \<le> a"

lemma ring_okD:
  assumes "ring_ok m"
  shows "0 < msg_size m" "0 < max_msgs m" "max_msgs m * msg_size m < 2 ^ 32" "used_msgs m \<le> max_msgs m"
    "buffer_end m = buffer_start m + max_msgs m * msg_size m" "read_index m < max_msgs m"
    "read_ptr m = slot m (read_index m)" "write_ptr m = slot m (read_index m + used_msgs m)"
  using assms by (simp_all add: ring_ok_def)

lemma slot_mod [simp]: "slot m (j mod max_msgs m) = slot m j"
  by (simp add: slot_def)

lemma ring_upd [simp]:
  "slot (m\<lparr>write_ptr := a\<rparr>) = slot m" "slot (m\<lparr>read_ptr := a\<rparr>) = slot m" "slot (m\<lparr>used_msgs := n\<rparr>) = slot m"
  "read_index (m\<lparr>write_ptr := a\<rparr>) = read_index m" "read_index (m\<lparr>used_msgs := n\<rparr>) = read_index m"
  "outside (m\<lparr>write_ptr := a\<rparr>) = outside m" "outside (m\<lparr>read_ptr := a\<rparr>) = outside m"
  "outside (m\<lparr>used_msgs := n\<rparr>) = outside m"
  by (simp_all add: fun_eq_iff slot_def read_index_def outside_def)

lemma slot_inside: "ring_ok m \<Longrightarrow> buffer_start m \<le> slot m j \<and> slot m j + msg_size m \<le> buffer_end m"
proof -
  assume m: "ring_ok m"
  then have "Suc (j mod max_msgs m) \<le> max_msgs m" using ring_okD(2) [OF m] by (simp add: Suc_le_eq)
  then have "Suc (j mod max_msgs m) * msg_size m \<le> max_msgs m * msg_size m" by (rule mult_le_mono1)
  then show ?thesis using ring_okD(5) [OF m] by (simp add: slot_def)
qed

lemma slot_apart:
  assumes "i mod max_msgs m \<noteq> j mod max_msgs m"
  shows "slot m i + msg_size m \<le> slot m j \<or> slot m j + msg_size m \<le> slot m i"
proof -
  have *: "x * msg_size m + msg_size m \<le> y * msg_size m" if "x < y" for x y :: nat
    using mult_le_mono1 [of "Suc x" y "msg_size m"] that by simp
  from assms consider "i mod max_msgs m < j mod max_msgs m" | "j mod max_msgs m < i mod max_msgs m" by linarith
  then show ?thesis by cases (use * in \<open>auto simp: slot_def add.assoc\<close>)
qed

lemma advance_slot:
  assumes m: "ring_ok m"
  shows "msgq_advance m (slot m j) = slot m (Suc j)"
proof (cases "Suc (j mod max_msgs m) = max_msgs m")
  case True
  then have "(j mod max_msgs m) * msg_size m + msg_size m = max_msgs m * msg_size m"
    by (metis add.commute mult_Suc)
  then show ?thesis
    using True ring_okD(5) [OF m] by (simp add: msgq_advance_def slot_def mod_Suc Let_def)
next
  case False
  then have "Suc (j mod max_msgs m) * msg_size m \<noteq> max_msgs m * msg_size m"
    using ring_okD(1) [OF m] by (metis mult_cancel2 less_not_refl)
  then show ?thesis
    using False ring_okD(5) [OF m] by (simp add: msgq_advance_def slot_def mod_Suc Let_def)
qed

lemma read_index_slot:
  assumes "ring_ok m" "read_ptr m' = slot m j" "buffer_start m' = buffer_start m" "msg_size m' = msg_size m"
  shows "read_index m' = j mod max_msgs m"
  using assms ring_okD(1) [OF assms(1)] by (simp add: read_index_def slot_def)

lemma msgq_list_outside:
  assumes m: "ring_ok m" and a: "outside m a"
  shows "msgq_list m (memcpy a src (msg_size m) b) = msgq_list m b"
proof -
  have "mem_read (memcpy a src (msg_size m) b) (slot m j) (msg_size m) = mem_read b (slot m j) (msg_size m)" for j
    by (rule mem_read_memcpy_other) (use slot_inside [OF m, of j] a in \<open>auto simp: outside_def\<close>)
  then show ?thesis by (simp add: msgq_list_def)
qed

lemma ring_write:
  assumes m: "ring_ok m" and u: "used_msgs m < max_msgs m" and w: "msgq_write src m k = (m', k')"
  shows "ring_ok m'" "msgq_list m' (bmem k') = msgq_list m (bmem k) @ [mem_read (bmem k) src (msg_size m)]"
    "msg_size m' = msg_size m" "max_msgs m' = max_msgs m" "msgq_wait_q m' = msgq_wait_q m" "outside m' = outside m"
    "used_msgs m' = used_msgs m + 1" "k' = k\<lparr>bmem := memcpy (write_ptr m) src (msg_size m) (bmem k)\<rparr>"
proof -
  note D = ring_okD [OF m]
  let ?w = "write_ptr m"
  have m': "m' = m\<lparr>write_ptr := slot m (Suc (read_index m + used_msgs m)), used_msgs := used_msgs m + 1\<rparr>"
    and k': "k' = k\<lparr>bmem := memcpy ?w src (msg_size m) (bmem k)\<rparr>"
    using w advance_slot [OF m] D(8) by (simp_all add: msgq_write_def)
  then show "msg_size m' = msg_size m" "max_msgs m' = max_msgs m" "msgq_wait_q m' = msgq_wait_q m"
    "used_msgs m' = used_msgs m + 1" "k' = k\<lparr>bmem := memcpy ?w src (msg_size m) (bmem k)\<rparr>" by simp_all
  show "outside m' = outside m" by (simp add: m')
  show "ring_ok m'" using D u by (simp add: ring_ok_def m')
  have old: "mem_read (bmem k') (slot m (read_index m + i)) (msg_size m) =
      mem_read (bmem k) (slot m (read_index m + i)) (msg_size m)" if "i < used_msgs m" for i
  proof -
    have "(read_index m + i) mod max_msgs m \<noteq> (read_index m + used_msgs m) mod max_msgs m"
      using that u D(6) by (auto simp: mod_if split: if_splits)
    from slot_apart [OF this] show ?thesis by (auto simp: k' D(8) intro: mem_read_memcpy_other)
  qed
  show "msgq_list m' (bmem k') = msgq_list m (bmem k) @ [mem_read (bmem k) src (msg_size m)]"
    using old mem_read_memcpy_dst [of ?w src "msg_size m" "bmem k"] by (simp add: msgq_list_def m' D(8) k')
qed

lemma ring_read:
  assumes m: "ring_ok m" and u: "0 < used_msgs m"
    and m': "m' = m\<lparr>read_ptr := msgq_advance m (read_ptr m), used_msgs := used_msgs m - 1\<rparr>"
  shows "ring_ok m'" "msgq_list m b = mem_read b (read_ptr m) (msg_size m) # msgq_list m' b" "outside m' = outside m"
proof -
  note D = ring_okD [OF m]
  have s: "slot m' = slot m" by (simp add: m')
  show "outside m' = outside m" by (simp add: m')
  have rp: "read_ptr m' = slot m (Suc (read_index m))" using advance_slot [OF m] D(7) by (simp add: m')
  have ri: "read_index m' = Suc (read_index m) mod max_msgs m"
    using read_index_slot [OF m rp] by (simp add: m')
  have step: "slot m (read_index m' + i) = slot m (read_index m + Suc i)" for i
    by (simp add: slot_def ri mod_add_left_eq)
  have "write_ptr m' = slot m' (read_index m' + used_msgs m')"
    using step [of "used_msgs m - 1"] u D(8) by (simp add: m')
  then show "ring_ok m'" using D u rp ri s by (simp add: ring_ok_def m')
  have "[0..<used_msgs m] = 0 # map Suc [0..<used_msgs m - 1]"
    using u by (simp add: map_Suc_upt upt_conv_Cons)
  then show "msgq_list m b = mem_read b (read_ptr m) (msg_size m) # msgq_list m' b"
    using step by (simp add: msgq_list_def s D(7)) (simp add: m')
qed

section \<open>Waiting threads\<close>

lemma unpend_bmem:
  "unpend_thread_no_timeout t (k\<lparr>bmem := b\<rparr>) = (unpend_thread_no_timeout t k)\<lparr>bmem := b\<rparr>"
  "snd (z_abort_thread_timeout t (k\<lparr>bmem := b\<rparr>)) = (snd (z_abort_thread_timeout t k))\<lparr>bmem := b\<rparr>"
  by (simp_all add: unpend_thread_no_timeout_def upd_thread_def z_abort_thread_timeout_def case_prod_beta split: option.split)

lemma unpend_swap_data [simp]:
  "swap_data (threads (unpend_thread_no_timeout t k) x) = swap_data (threads k x)"
  by (simp add: unpend_thread_no_timeout_def upd_thread_def z_abort_thread_timeout_def case_prod_beta
      z_mark_thread_as_not_pending_def split: option.split)

lemma unpend_bmem_same [simp]:
  "bmem (snd (z_abort_thread_timeout t (unpend_thread_no_timeout t k))) = bmem k"
  by (simp add: unpend_thread_no_timeout_def upd_thread_def z_abort_thread_timeout_def case_prod_beta split: option.split)

lemma woken_bmem:
  "ready_thread t (arch_thread_return_value_set t v
     ((snd (z_abort_thread_timeout t (unpend_thread_no_timeout t k)))\<lparr>bmem := b\<rparr>)) = woken t v (k\<lparr>bmem := b\<rparr>)"
  by (simp add: woken_eq unpend_bmem)

text \<open>What waking the first waiter does after memory was written.\<close>

lemma woken_mem:
  assumes k: "kernel_inv k" and q: "waitqs k w = t # ts" and k': "k' = z_reschedule (woken t v (k\<lparr>bmem := b\<rparr>))"
  shows "kernel_inv k'" "waitqs k' = (waitqs k)(w := ts)" "bmem k' = b" "swap_retval (threads k' t) = v"
    "x \<in> set ts \<Longrightarrow> swap_data (threads k' x) = swap_data (threads k x)" "pended_on (threads k' t) = None"
proof -
  let ?k = "k\<lparr>bmem := b\<rparr>"
  have i: "kernel_inv ?k" and q': "waitqs ?k w = t # ts" using k q by simp_all
  note p = woken_props [OF kernel_invD(1) [OF i] q', where v = v]
  show "kernel_inv k'" unfolding k' by (rule wake_first_kernel_inv [OF i q'])
  show "waitqs k' = (waitqs k)(w := ts)" using p(2) by (simp add: k')
  have "env k' = env ?k" using p(4) by (simp add: k')
  then show "bmem k' = b" by (simp add: env_def)
  show "swap_retval (threads k' t) = v" using handoff_retval [OF i q', of v] by (simp add: k')
  have "threads k' t = threads (woken t v ?k) t"
    using reschedule_waiter [OF i, of t w "woken t v ?k"] q' p(3,4) by (simp add: k')
  then show "pended_on (threads k' t) = None"
    unfolding woken_def by (subst (asm) woken_with_thread) (simp add: Let_def unpend_threads)
  show "swap_data (threads k' x) = swap_data (threads k x)" if "x \<in> set ts"
  proof -
    have "x \<noteq> t" using that sch.waiters_distinct [OF kernel_invD(1) [OF i], of w] q' by auto
    then show ?thesis
      using reschedule_waiter [OF i, of x w "woken t v ?k"] that q' p(3,4) p(5) [where x = x] by (simp add: k')
  qed
qed

text \<open>Recording the buffer of a call in its thread and pending it.\<close>

definition pended_with :: "wait_q \<Rightarrow> k_ticks_t \<Rightarrow> addr \<Rightarrow> kernel \<Rightarrow> kernel" where
  "pended_with w n d k = z_pend_curr w n (upd_thread (current k) (\<lambda>th. th\<lparr>swap_data := d\<rparr>) k)"

lemma pended_with_props:
  assumes k: "kernel_inv k" and run: "running k"
  shows "kernel_inv (pended_with w n d k)" "bmem (pended_with w n d k) = bmem k"
    "waitqs (pended_with w n d k) = (waitqs k)(w := z_priq_dumb_add (threads k) (waitqs k w) (current k))"
    "swap_data (threads (pended_with w n d k) x) = (if x = current k then d else swap_data (threads k x))"
proof -
  let ?k = "upd_thread (current k) (\<lambda>th. th\<lparr>swap_data := d\<rparr>) k"
  have i: "kernel_inv ?k"
    using k running_not_dummy [OF k run] by (rule upd_kernel_inv) (simp_all add: sched_view_def)
  have "running ?k" using run by (simp add: running_def)
  with i show "kernel_inv (pended_with w n d k)" unfolding pended_with_def by (rule pend_curr_kernel_inv)
  have "env (pended_with w n d k) = env k" by (simp add: pended_with_def)
  then show "bmem (pended_with w n d k) = bmem k" by (simp add: env_def)
  have "z_priq_dumb_add (threads ?k) (waitqs k w) (current k) = z_priq_dumb_add (threads k) (waitqs k w) (current k)"
    by (rule dumb_add_cong) (auto simp: threads_upd_thread)
  then show "waitqs (pended_with w n d k) = (waitqs k)(w := z_priq_dumb_add (threads k) (waitqs k w) (current k))"
    by (simp add: pended_with_def z_pend_curr_waitqs)
  show "swap_data (threads (pended_with w n d k) x) = (if x = current k then d else swap_data (threads k x))"
    by (simp add: pended_with_def z_pend_curr_threads threads_upd_thread)
qed

section \<open>The operations, branch by branch\<close>

lemma msgq_put_reader:
  assumes "used_msgs m < max_msgs m" "waitqs k (msgq_wait_q m) = t # ts"
  shows "z_impl_k_msgq_put data n m k = (Done 0, m, z_reschedule (woken t 0
    (k\<lparr>bmem := memcpy (swap_data (threads k t)) data (msg_size m) (bmem k)\<rparr>)))"
  using assms by (simp add: z_impl_k_msgq_put_def unpend_first_eq z_ready_thread_def woken_bmem Let_def)

lemma msgq_put_store:
  assumes "used_msgs m < max_msgs m" "waitqs k (msgq_wait_q m) = []"
  shows "z_impl_k_msgq_put data n m k = (Done 0, msgq_write data m k)"
  using assms by (simp add: z_impl_k_msgq_put_def)

lemma msgq_put_full:
  assumes "\<not> used_msgs m < max_msgs m"
  shows "z_impl_k_msgq_put data n m k =
    (if n = K_NO_WAIT then (Done (- ENOMSG), m, k) else (Blocked, m, pended_with (msgq_wait_q m) n data k))"
  using assms by (simp add: z_impl_k_msgq_put_def pended_with_def)

definition msgq_taken :: "k_msgq \<Rightarrow> k_msgq" where
  "msgq_taken m = m\<lparr>read_ptr := msgq_advance m (read_ptr m), used_msgs := used_msgs m - 1\<rparr>"

lemma msgq_get_writer:
  assumes "0 < used_msgs m" "waitqs k (msgq_wait_q m) = t # ts"
    and w: "msgq_write (swap_data (threads k t)) (msgq_taken m)
      (k\<lparr>bmem := memcpy data (read_ptr m) (msg_size m) (bmem k)\<rparr>) = (m', k')"
  shows "z_impl_k_msgq_get data n m k = (Done 0, m', z_reschedule (woken t 0 (k\<lparr>bmem := bmem k'\<rparr>)))"
  using assms unfolding msgq_taken_def
  by (auto simp: z_impl_k_msgq_get_def unpend_first_eq z_ready_thread_def woken_bmem Let_def msgq_write_def unpend_bmem)

lemma msgq_get_plain:
  assumes "0 < used_msgs m" "waitqs k (msgq_wait_q m) = []"
  shows "z_impl_k_msgq_get data n m k =
    (Done 0, msgq_taken m, k\<lparr>bmem := memcpy data (read_ptr m) (msg_size m) (bmem k)\<rparr>)"
  using assms by (simp add: z_impl_k_msgq_get_def msgq_taken_def Let_def)

lemma msgq_get_empty:
  assumes "used_msgs m = 0"
  shows "z_impl_k_msgq_get data n m k =
    (if n = K_NO_WAIT then (Done (- ENOMSG), m, k) else (Blocked, m, pended_with (msgq_wait_q m) n data k))"
  using assms by (simp add: z_impl_k_msgq_get_def pended_with_def)

section \<open>The invariant and the contract\<close>

text \<open>
  Threads wait only on an empty ring, as readers, or on a full one, as writers; their buffers are
  outside the ring.
\<close>

definition msgq_inv :: "k_msgq \<Rightarrow> kernel \<Rightarrow> bool" where
  "msgq_inv m k \<longleftrightarrow>
     ring_ok m \<and>
     (waitqs k (msgq_wait_q m) \<noteq> [] \<longrightarrow> used_msgs m = 0 \<or> used_msgs m = max_msgs m) \<and>
     (\<forall>t \<in> set (waitqs k (msgq_wait_q m)). outside m (swap_data (threads k t)))"

definition msgq_abs :: "k_msgq \<Rightarrow> kernel \<Rightarrow> byte list list \<times> tid list" where
  "msgq_abs m k = (msgq_list m (bmem k), waitqs k (msgq_wait_q m))"

definition buffer_of :: "k_msgq \<Rightarrow> kernel \<Rightarrow> addr \<Rightarrow> byte list" where
  "buffer_of m k a = mem_read (bmem k) a (msg_size m)"

text \<open>
  The reference: a bounded first-in first-out list, and the waiting threads. A put also says which thread it delivers
  the message to, if any; a get which message it returns, and which writer it releases.
\<close>

definition msgq_put_spec :: "nat \<Rightarrow> (tid \<Rightarrow> k_thread) \<Rightarrow> tid \<Rightarrow> bool \<Rightarrow> byte list \<Rightarrow>
    byte list list \<times> tid list \<Rightarrow> int outcome \<times> (tid \<times> byte list) option \<times> byte list list \<times> tid list" where
  "msgq_put_spec cap th me may_wait x a =
     (case a of (xs, q) \<Rightarrow>
        if length xs < cap
        then case q of [] \<Rightarrow> (Done 0, None, xs @ [x], []) | t # ts \<Rightarrow> (Done 0, Some (t, x), xs, ts)
        else if may_wait then (Blocked, None, xs, z_priq_dumb_add th q me) else (Done (- ENOMSG), None, xs, q))"

definition msgq_get_spec :: "(tid \<Rightarrow> byte list) \<Rightarrow> (tid \<Rightarrow> k_thread) \<Rightarrow> tid \<Rightarrow> bool \<Rightarrow>
    byte list list \<times> tid list \<Rightarrow> int outcome \<times> (byte list \<times> tid option) option \<times> byte list list \<times> tid list" where
  "msgq_get_spec msg th me may_wait a =
     (case a of
        (x # xs, []) \<Rightarrow> (Done 0, Some (x, None), xs, [])
      | (x # xs, t # ts) \<Rightarrow> (Done 0, Some (x, Some t), xs @ [msg t], ts)
      | ([], q) \<Rightarrow> if may_wait then (Blocked, None, [], z_priq_dumb_add th q me) else (Done (- ENOMSG), None, [], q))"

text \<open>A waiting thread is off its queue and its call returns 0 when it runs next; it has the message in its buffer.\<close>

definition released :: "kernel \<Rightarrow> tid \<Rightarrow> bool" where
  "released k t \<longleftrightarrow> pended_on (threads k t) = None \<and> k_msgq_resume (k\<lparr>current := t\<rparr>) = 0"

definition got_message :: "k_msgq \<Rightarrow> kernel \<Rightarrow> kernel \<Rightarrow> tid \<times> byte list \<Rightarrow> bool" where
  "got_message m k k' tx = (case tx of (t, x) \<Rightarrow> released k' t \<and> buffer_of m k' (swap_data (threads k t)) = x)"

lemma msgq_list_length [simp]: "length (msgq_list m b) = used_msgs m"
  by (simp add: msgq_list_def)

lemma msgq_blocked:
  assumes k: "kernel_inv k" and m: "msgq_inv m k" and run: "running k" and d: "outside m d"
    and u: "used_msgs m = 0 \<or> used_msgs m = max_msgs m" and k': "k' = pended_with (msgq_wait_q m) n d k"
  shows "kernel_inv k' \<and> msgq_inv m k' \<and> k_msgq_resume (k'\<lparr>current := current k\<rparr>) = - EAGAIN \<and>
    msgq_abs m k' = (msgq_list m (bmem k), z_priq_dumb_add (threads k) (waitqs k (msgq_wait_q m)) (current k))"
proof -
  have "swap_retval (threads k' (current k)) = - EAGAIN"
    using sch.pend_default_retval [of "msgq_wait_q m" n "upd_thread (current k) (\<lambda>th. th\<lparr>swap_data := d\<rparr>) k"]
    by (simp add: k' pended_with_def)
  then show ?thesis
    using m u d pended_with_props [OF k run] by (auto simp: k' msgq_inv_def msgq_abs_def k_msgq_resume_def)
qed

lemma msgq_put_abs:
  assumes k: "kernel_inv k" and m: "msgq_inv m k" and run: "n = K_NO_WAIT \<or> running k" and d: "outside m d"
    and p: "z_impl_k_msgq_put d n m k = (r, m', k')"
  shows "(\<exists>dl. (r, dl, msgq_abs m' k') =
      msgq_put_spec (max_msgs m) (threads k) (current k) (n \<noteq> K_NO_WAIT) (buffer_of m k d) (msgq_abs m k) \<and>
      pred_option (got_message m k k') dl) \<and>
    (r = Blocked \<longrightarrow> k_msgq_resume (k'\<lparr>current := current k\<rparr>) = - EAGAIN) \<and>
    kernel_inv k' \<and> msgq_inv m' k' \<and> max_msgs m' = max_msgs m"
proof (cases "used_msgs m < max_msgs m")
  case False
  have ok: "ring_ok m" using m by (simp add: msgq_inv_def)
  then have u: "used_msgs m = max_msgs m" using False ring_okD(4) by fastforce
  show ?thesis
  proof (cases "n = K_NO_WAIT")
    case True
    then show ?thesis using p k m u by (auto simp: msgq_put_full msgq_put_spec_def msgq_abs_def)
  next
    case n: False
    then show ?thesis
      using p u msgq_blocked [OF k m _ d, of _ n] run
      by (auto simp: msgq_put_full msgq_put_spec_def) (simp_all add: msgq_abs_def)
  qed
next
  case space: True
  have ok: "ring_ok m" using m by (simp add: msgq_inv_def)
  show ?thesis
  proof (cases "waitqs k (msgq_wait_q m)")
    case Nil
    note w = ring_write [OF ok space, of d k m' k']
    have e: "r = Done 0" "msgq_write d m k = (m', k')" using p msgq_put_store [OF space Nil, of d n] by simp_all
    show ?thesis
      using w [OF e(2)] k Nil space
      by (simp add: e(1) msgq_put_spec_def msgq_abs_def buffer_of_def msgq_inv_def)
  next
    case (Cons t ts)
    let ?b = "memcpy (swap_data (threads k t)) d (msg_size m) (bmem k)"
    have e: "r = Done 0" "m' = m" "k' = z_reschedule (woken t 0 (k\<lparr>bmem := ?b\<rparr>))"
      using p msgq_put_reader [OF space Cons, of d n] by auto
    note w = woken_mem [OF k Cons e(3)]
    have "msgq_list m ?b = msgq_list m (bmem k)"
      using m Cons by (intro msgq_list_outside [OF ok]) (simp add: msgq_inv_def)
    moreover have "got_message m k k' (t, buffer_of m k d)"
      using w(3,4,6) by (simp add: got_message_def released_def k_msgq_resume_def buffer_of_def mem_read_memcpy_dst)
    ultimately show ?thesis
      using w m Cons space by (auto simp: e(1,2) msgq_put_spec_def msgq_abs_def msgq_inv_def)
  qed
qed

lemma msgq_get_abs:
  assumes k: "kernel_inv k" and m: "msgq_inv m k" and run: "n = K_NO_WAIT \<or> running k" and d: "outside m d"
    and apart: "\<And>t. t \<in> set (waitqs k (msgq_wait_q m)) \<Longrightarrow>
      d + msg_size m \<le> swap_data (threads k t) \<or> swap_data (threads k t) + msg_size m \<le> d"
    and g: "z_impl_k_msgq_get d n m k = (r, m', k')"
  shows "(\<exists>dl. (r, dl, msgq_abs m' k') = msgq_get_spec (\<lambda>t. buffer_of m k (swap_data (threads k t))) (threads k) (current k)
      (n \<noteq> K_NO_WAIT) (msgq_abs m k) \<and>
      pred_option (\<lambda>(x, w). buffer_of m k' d = x \<and> pred_option (released k') w) dl) \<and>
    (r = Blocked \<longrightarrow> k_msgq_resume (k'\<lparr>current := current k\<rparr>) = - EAGAIN) \<and>
    kernel_inv k' \<and> msgq_inv m' k' \<and> max_msgs m' = max_msgs m"
proof (cases "used_msgs m = 0")
  case True
  then have e: "msgq_list m (bmem k) = []" by (simp add: msgq_list_def)
  show ?thesis
  proof (cases "n = K_NO_WAIT")
    case n: True
    then show ?thesis using g k m True e by (auto simp: msgq_get_empty msgq_get_spec_def msgq_abs_def)
  next
    case n: False
    then show ?thesis
      using g True e msgq_blocked [OF k m _ d, of _ n] run
      by (auto simp: msgq_get_empty msgq_get_spec_def) (simp_all add: msgq_abs_def)
  qed
next
  case some: False
  have ok: "ring_ok m" using m by (simp add: msgq_inv_def)
  let ?b = "memcpy d (read_ptr m) (msg_size m) (bmem k)"
  have u: "0 < used_msgs m" using some by simp
  note rd = ring_read [OF ok u msgq_taken_def]
  have hd: "mem_read ?b d (msg_size m) = hd (msgq_list m (bmem k))"
    using rd(2) [of "bmem k"] by (simp add: mem_read_memcpy_dst)
  have tk: "msg_size (msgq_taken m) = msg_size m" "max_msgs (msgq_taken m) = max_msgs m"
    "msgq_wait_q (msgq_taken m) = msgq_wait_q m" "used_msgs (msgq_taken m) = used_msgs m - 1"
    by (simp_all add: msgq_taken_def)
  have rest: "msgq_list (msgq_taken m) ?b = msgq_list (msgq_taken m) (bmem k)"
    using msgq_list_outside [OF rd(1), of d] d by (simp add: rd(3) tk)
  show ?thesis
  proof (cases "waitqs k (msgq_wait_q m)")
    case Nil
    have e: "r = Done 0" "m' = msgq_taken m" "k' = k\<lparr>bmem := ?b\<rparr>"
      using g msgq_get_plain [OF u Nil, of d n] by auto
    show ?thesis
      using k Nil hd rd(1) rest tk
      by (simp add: e msgq_get_spec_def msgq_abs_def buffer_of_def msgq_inv_def rd(2) [of "bmem k"])
  next
    case (Cons t ts)
    let ?a = "swap_data (threads k t)"
    obtain m1 k1 where w: "msgq_write ?a (msgq_taken m) (k\<lparr>bmem := ?b\<rparr>) = (m1, k1)" by (metis prod.exhaust)
    have full: "used_msgs m = max_msgs m" using m Cons u by (auto simp: msgq_inv_def)
    have lt: "used_msgs (msgq_taken m) < max_msgs (msgq_taken m)" using full u by (simp add: tk)
    note wr = ring_write [OF rd(1) lt w]
    have e: "r = Done 0" "m' = m1" "k' = z_reschedule (woken t 0 (k\<lparr>bmem := bmem k1\<rparr>))"
      using g msgq_get_writer [OF u Cons w, of n] by auto
    note wk = woken_mem [OF k Cons e(3)]
    have a: "mem_read ?b ?a (msg_size m) = mem_read (bmem k) ?a (msg_size m)"
      using apart [of t] Cons by (intro mem_read_memcpy_other) auto
    have wp: "write_ptr (msgq_taken m) = slot m (read_index (msgq_taken m) + used_msgs (msgq_taken m))"
      using ring_okD(8) [OF rd(1)] by (simp add: msgq_taken_def)
    have keep: "mem_read (bmem k1) d (msg_size m) = mem_read ?b d (msg_size m)"
      using slot_inside [OF ok, of "read_index (msgq_taken m) + used_msgs (msgq_taken m)"] d
      by (auto simp: wr(8) tk wp outside_def intro!: mem_read_memcpy_other)
    have "released k' t" using wk(4,6) by (simp add: released_def k_msgq_resume_def)
    then show ?thesis
      using wk wr(1-7) m Cons hd a keep rest full u
      by (auto simp: e(1,2) msgq_get_spec_def msgq_abs_def buffer_of_def msgq_inv_def rd tk)
  qed
qed

text \<open>The address that \<open>k_msgq_peek_at\<close> computes is the slot of the message.\<close>

lemma msgq_peek_at_eq:
  assumes m: "ring_ok m" and i: "idx < used_msgs m"
  shows "z_impl_k_msgq_peek_at d idx m k =
    (0, k\<lparr>bmem := memcpy d (slot m (read_index m + idx)) (msg_size m) (bmem k)\<rparr>)"
proof -
  note D = ring_okD [OF m]
  define r where "r = read_index m"
  have r: "r < max_msgs m" "read_ptr m = buffer_start m + r * msg_size m" using D(6,7) by (simp_all add: r_def slot_def)
  have x: "idx < max_msgs m" using i D(4) by linarith
  have "idx * msg_size m < 2 ^ 32" using D(3) x by (meson le_less_trans less_imp_le mult_le_mono1)
  moreover have "(max_msgs m - r) * msg_size m < 2 ^ 32"
    using D(3) by (meson diff_le_self le_less_trans mult_le_mono1)
  moreover have "buffer_end m - read_ptr m = (max_msgs m - r) * msg_size m"
    using D(5) r(2) by (simp add: diff_mult_distrib)
  ultimately have eq: "z_impl_k_msgq_peek_at d idx m k = (0, k\<lparr>bmem := memcpy d
      (if (max_msgs m - r) * msg_size m \<le> idx * msg_size m
       then buffer_start m + (idx * msg_size m - (max_msgs m - r) * msg_size m)
       else read_ptr m + idx * msg_size m) (msg_size m) (bmem k)\<rparr>)"
    using i by (simp add: z_impl_k_msgq_peek_at_def Let_def)
  have src: "slot m (r + idx) = (if max_msgs m - r \<le> idx
      then buffer_start m + (idx - (max_msgs m - r)) * msg_size m else read_ptr m + idx * msg_size m)"
  proof (cases "max_msgs m - r \<le> idx")
    case True
    then have sum: "r + idx = (idx - (max_msgs m - r)) + max_msgs m" using r(1) by linarith
    have "idx - (max_msgs m - r) < max_msgs m" using x by linarith
    then have "(r + idx) mod max_msgs m = idx - (max_msgs m - r)" by (simp only: sum mod_add_self2 mod_less)
    with True show ?thesis by (simp add: slot_def)
  next
    case False
    then have "(r + idx) mod max_msgs m = r + idx" by simp
    with False show ?thesis by (simp add: slot_def r(2) add_mult_distrib)
  qed
  have "(max_msgs m - r) * msg_size m \<le> idx * msg_size m \<longleftrightarrow> max_msgs m - r \<le> idx"
    using D(1) by (simp only: mult_le_cancel2) blast
  with eq src show ?thesis by (simp only: r_def diff_mult_distrib)
qed

section \<open>Properties\<close>

text \<open>
  C26. Putting and getting implement a bounded first-in first-out list of messages with a queue of
  waiting threads, on the bytes of the ring: the wrap-around of the two pointers is invisible. A
  message put while a reader waits is in the reader's buffer, and the reader's call returns 0. A get that returns has the
  oldest message in the caller's buffer; on a full ring it moves the first waiting writer's message to the end, and the
  writer's call returns 0. A call that waits returns \<open>-EAGAIN\<close> if it is not served. Both operations keep the invariants.
  The caller's buffer overlaps neither the ring nor the buffers of the waiting threads.
\<close>

theorem msgq_refines_fifo:
  assumes "kernel_inv k" "msgq_inv m k" "n = K_NO_WAIT \<or> running k" "outside m d"
    and "\<And>t. t \<in> set (waitqs k (msgq_wait_q m)) \<Longrightarrow>
      d + msg_size m \<le> swap_data (threads k t) \<or> swap_data (threads k t) + msg_size m \<le> d"
    and "z_impl_k_msgq_put d n m k = (r1, m1, k1)" "z_impl_k_msgq_get d n m k = (r2, m2, k2)"
  shows "(\<exists>dl. (r1, dl, msgq_abs m1 k1) =
      msgq_put_spec (max_msgs m) (threads k) (current k) (n \<noteq> K_NO_WAIT) (buffer_of m k d) (msgq_abs m k) \<and>
      pred_option (got_message m k k1) dl) \<and>
    (\<exists>dl. (r2, dl, msgq_abs m2 k2) = msgq_get_spec (\<lambda>t. buffer_of m k (swap_data (threads k t))) (threads k) (current k)
      (n \<noteq> K_NO_WAIT) (msgq_abs m k) \<and>
      pred_option (\<lambda>(x, w). buffer_of m k2 d = x \<and> pred_option (released k2) w) dl) \<and>
    (r1 = Blocked \<longrightarrow> k_msgq_resume (k1\<lparr>current := current k\<rparr>) = - EAGAIN) \<and>
    (r2 = Blocked \<longrightarrow> k_msgq_resume (k2\<lparr>current := current k\<rparr>) = - EAGAIN) \<and>
    kernel_inv k1 \<and> msgq_inv m1 k1 \<and> kernel_inv k2 \<and> msgq_inv m2 k2"
  using msgq_put_abs [OF assms(1-4,6)] msgq_get_abs [OF assms(1-5,7)] by simp

definition sample_msgq :: k_msgq where
  "sample_msgq = \<lparr>msgq_wait_q = ObjQ 0, msg_size = 4, max_msgs = 2, buffer_start = 100, buffer_end = 108,
     read_ptr = 104, write_ptr = 104, used_msgs = 0, msgq_alloc = False\<rparr>"

lemma sample_ring: "ring_ok sample_msgq" "outside sample_msgq 200"
  by (simp_all add: ring_ok_def sample_msgq_def read_index_def slot_def outside_def)

lemma sample_msgq_inv: "msgq_inv sample_msgq with_helper"
  using sample_ring by (simp add: msgq_inv_def helper_facts)

theorem msgq_refines_fifo_witness:
  "\<exists>m k. z_impl_k_msgq_put 200 K_NO_WAIT sample_msgq with_helper = (Done 0, m, k) \<and>
     msgq_list m (bmem k) = [buffer_of sample_msgq with_helper 200]"
proof -
  obtain r1 m1 k1 r2 m2 k2 where p: "z_impl_k_msgq_put 200 K_NO_WAIT sample_msgq with_helper = (r1, m1, k1)"
    "z_impl_k_msgq_get 200 K_NO_WAIT sample_msgq with_helper = (r2, m2, k2)" by (metis prod.exhaust)
  have "max_msgs sample_msgq = 2" "used_msgs sample_msgq = 0" by (simp_all add: sample_msgq_def)
  with msgq_refines_fifo [OF helper_run(1) sample_msgq_inv _ sample_ring(2) _ p] p(1) show ?thesis
    by (auto simp: msgq_put_spec_def msgq_abs_def helper_facts msgq_list_def)
qed

text \<open>
  A message reaches the thread that waits for it: when a get blocks on an empty queue and a put
  follows, the put succeeds without touching the ring, the bytes at the writer's address are in the
  reader's buffer, and the reader's call returns 0.
\<close>

theorem msgq_blocked_reader_gets_message:
  assumes "kernel_inv k" "msgq_inv m k" "running k" "outside m d" "used_msgs m = 0" "n \<noteq> K_NO_WAIT"
    and "waitqs k (msgq_wait_q m) = []"
    and "z_impl_k_msgq_get d n m k = (r1, m1, k1)" "z_impl_k_msgq_put src n2 m1 k1 = (r2, m2, k2)"
  shows "r1 = Blocked \<and> r2 = Done 0 \<and> m2 = m \<and> buffer_of m k2 d = buffer_of m k src \<and>
    swap_retval (threads k2 (current k)) = 0 \<and> waitqs k2 (msgq_wait_q m) = [] \<and> kernel_inv k2"
proof -
  note p = pended_with_props [OF assms(1,3)]
  have e: "r1 = Blocked" "m1 = m" "k1 = pended_with (msgq_wait_q m) n d k"
    using assms(6,8) msgq_get_empty [OF assms(5), of d n k] by auto
  have q: "waitqs k1 (msgq_wait_q m) = [current k]" using assms(7) p(3) by (simp add: e)
  have sp: "used_msgs m < max_msgs m" using assms(2,5) ring_okD(2) by (simp add: msgq_inv_def)
  have i: "kernel_inv k1" using p(1) e(3) by simp
  have f: "r2 = Done 0" "m2 = m" "k2 = z_reschedule (woken (current k) 0 (k1\<lparr>bmem := memcpy d src (msg_size m) (bmem k)\<rparr>))"
    using assms(9) msgq_put_reader [OF sp q, of src n2] p(2,4) by (auto simp: e)
  show ?thesis
    using woken_mem [OF i q f(3)] mem_read_memcpy_dst [of d src "msg_size m" "bmem k"]
    by (simp add: e(1) f(1,2) buffer_of_def)
qed

theorem msgq_blocked_reader_gets_message_witness:
  "\<exists>m1 k1 m2 k2. z_impl_k_msgq_get 200 K_FOREVER sample_msgq with_helper = (Blocked, m1, k1) \<and>
     z_impl_k_msgq_put 300 K_NO_WAIT m1 k1 = (Done 0, m2, k2) \<and>
     buffer_of sample_msgq k2 200 = buffer_of sample_msgq with_helper 300"
proof -
  obtain r1 m1 k1 r2 m2 k2 where p: "z_impl_k_msgq_get 200 K_FOREVER sample_msgq with_helper = (r1, m1, k1)"
    "z_impl_k_msgq_put 300 K_NO_WAIT m1 k1 = (r2, m2, k2)" by (metis prod.exhaust)
  have u: "used_msgs sample_msgq = 0" by (simp add: sample_msgq_def)
  show ?thesis
    using msgq_blocked_reader_gets_message [OF helper_run(1) sample_msgq_inv helper_run(2) sample_ring(2) u _ _ p] p
    by (simp add: helper_facts)
qed

text \<open>
  \<open>k_msgq_peek_at\<close> copies the message with the given index, counted from the oldest, to the
  caller's buffer, also when the message lies past the end of the ring, and \<open>k_msgq_peek\<close> copies the
  oldest one; an index with no message is refused. The queue keeps its messages.
\<close>

theorem msgq_peek_reads:
  assumes "ring_ok m" "outside m d" "z_impl_k_msgq_peek_at d idx m k = (r, k')"
  shows "(if idx < length (msgq_list m (bmem k))
      then r = 0 \<and> buffer_of m k' d = msgq_list m (bmem k) ! idx \<and> msgq_list m (bmem k') = msgq_list m (bmem k)
      else r = - ENOMSG \<and> k' = k) \<and>
    z_impl_k_msgq_peek d m k = z_impl_k_msgq_peek_at d 0 m k"
proof -
  have "z_impl_k_msgq_peek d m k = z_impl_k_msgq_peek_at d 0 m k"
    using msgq_peek_at_eq [OF assms(1), of 0 d k] ring_okD(7) [OF assms(1)]
    by (auto simp: z_impl_k_msgq_peek_def z_impl_k_msgq_peek_at_def)
  moreover have "r = - ENOMSG \<and> k' = k" if "\<not> idx < used_msgs m"
    using assms(3) that by (simp add: z_impl_k_msgq_peek_at_def)
  moreover have "r = 0 \<and> buffer_of m k' d = msgq_list m (bmem k) ! idx \<and> msgq_list m (bmem k') = msgq_list m (bmem k)"
    if "idx < used_msgs m"
  proof -
    have k': "r = 0" "k' = k\<lparr>bmem := memcpy d (slot m (read_index m + idx)) (msg_size m) (bmem k)\<rparr>"
      using assms(3) msgq_peek_at_eq [OF assms(1) that, of d k] by simp_all
    then show ?thesis
      using that msgq_list_outside [OF assms(1,2)] by (simp add: buffer_of_def mem_read_memcpy_dst msgq_list_def)
  qed
  ultimately show ?thesis by simp
qed

theorem msgq_peek_reads_witness:
  "\<exists>k. z_impl_k_msgq_peek_at 200 1 (sample_msgq\<lparr>used_msgs := 2\<rparr>) with_helper = (0, k) \<and>
     buffer_of sample_msgq k 200 = buffer_of sample_msgq with_helper 100"
proof -
  let ?m = "sample_msgq\<lparr>used_msgs := 2\<rparr>"
  obtain r k where p: "z_impl_k_msgq_peek_at 200 1 ?m with_helper = (r, k)" by (metis prod.exhaust)
  have m: "ring_ok ?m" "outside ?m 200"
    by (simp_all add: ring_ok_def sample_msgq_def read_index_def slot_def outside_def)
  have "msgq_list ?m (bmem with_helper) ! 1 = mem_read (bmem with_helper) 100 4"
    by (simp add: msgq_list_def sample_msgq_def read_index_def slot_def)
  with msgq_peek_reads [OF m p] p show ?thesis
    by (simp add: buffer_of_def) (simp add: sample_msgq_def)
qed

text \<open>
  Purging empties the queue: every waiting thread is woken with \<open>-ENOMSG\<close>, no message is left,
  all slots are free and the invariants hold after it.
\<close>

theorem msgq_purge_empties:
  assumes "kernel_inv k" "msgq_inv m k" "z_impl_k_msgq_purge m k = (m', k')"
  shows "kernel_inv k' \<and> msgq_inv m' k' \<and> msgq_abs m' k' = ([], []) \<and>
    z_impl_k_msgq_num_free_get m' = max_msgs m \<and>
    (\<forall>t \<in> set (waitqs k (msgq_wait_q m)). swap_retval (threads k' t) = - ENOMSG \<and> pended_on (threads k' t) = None)"
proof -
  note w = wake_all_effect [OF assms(1) refl, where v = "- ENOMSG" and w = "msgq_wait_q m"]
  have m': "m' = m\<lparr>used_msgs := 0, read_ptr := write_ptr m\<rparr>"
    and k': "k' = z_reschedule (snd (wake_all (- ENOMSG) (msgq_wait_q m) k))"
    using assms(3) by (auto simp: z_impl_k_msgq_purge_def case_prod_beta)
  have ok: "ring_ok m" using assms(2) by (simp add: msgq_inv_def)
  note D = ring_okD [OF ok]
  have i: "read_index m' = (read_index m + used_msgs m) mod max_msgs m"
    by (rule read_index_slot [OF ok]) (simp_all add: m' D(8))
  have "ring_ok m'" using D i by (simp add: ring_ok_def m')
  then show ?thesis
    using w k' by (simp add: msgq_inv_def msgq_abs_def msgq_list_def z_impl_k_msgq_num_free_get_def) (simp add: m')
qed

theorem msgq_purge_empties_witness:
  "\<exists>m k. z_impl_k_msgq_purge sample_msgq with_helper = (m, k) \<and> msgq_abs m k = ([], [])"
proof -
  obtain m k where p: "z_impl_k_msgq_purge sample_msgq with_helper = (m, k)" by (metis prod.exhaust)
  with msgq_purge_empties [OF helper_run(1) sample_msgq_inv p] show ?thesis by blast
qed

end
