(* ===== verification/Genlist.thy ===== *)
theory Genlist
  imports Prelude
begin

text \<open>
  The singly linked lists of \<open>include/zephyr/sys/list_gen.h\<close>, \<open>slist.h\<close> and \<open>sflist.h\<close>. The macros of
  \<open>list_gen.h\<close> are templates over two node operations, reading and setting the link of a node; here they
  are functions with these two operations as arguments. The locale \<open>genlist_nodes\<close> states what the
  macros rely on, and its lemmas show that each list operation implements the operation on
  mathematical lists, also where it follows links through memory. The plain list and the list with
  flag bits in its links are its two instances.
\<close>

section \<open>The templates\<close>

type_synonym links = "addr \<Rightarrow> addr"

abbreviation (input) NULL :: addr where "NULL \<equiv> 0"

record genlist =
  head :: addr
  tail :: addr

definition genlist_init :: genlist where
  "genlist_init = \<lparr>head = NULL, tail = NULL\<rparr>"

definition genlist_is_empty :: "genlist \<Rightarrow> bool" where
  "genlist_is_empty l \<longleftrightarrow> head l = NULL"

definition genlist_peek_next :: "(addr \<Rightarrow> links \<Rightarrow> addr) \<Rightarrow> addr \<Rightarrow> links \<Rightarrow> addr" where
  "genlist_peek_next npeek node m = (if node \<noteq> NULL then npeek node m else NULL)"

definition genlist_prepend ::
  "(addr \<Rightarrow> addr \<Rightarrow> links \<Rightarrow> links) \<Rightarrow> addr \<Rightarrow> genlist \<Rightarrow> links \<Rightarrow> genlist \<times> links" where
  "genlist_prepend nset node l m =
     (let m1 = nset node (head l) m; l1 = l\<lparr>head := node\<rparr>
      in (if tail l1 = NULL then l1\<lparr>tail := head l1\<rparr> else l1, m1))"

definition genlist_append ::
  "(addr \<Rightarrow> addr \<Rightarrow> links \<Rightarrow> links) \<Rightarrow> addr \<Rightarrow> genlist \<Rightarrow> links \<Rightarrow> genlist \<times> links" where
  "genlist_append nset node l m =
     (let m1 = nset node NULL m
      in if tail l = NULL then (l\<lparr>tail := node, head := node\<rparr>, m1)
         else (l\<lparr>tail := node\<rparr>, nset (tail l) node m1))"

definition genlist_append_list ::
  "(addr \<Rightarrow> addr \<Rightarrow> links \<Rightarrow> links) \<Rightarrow> addr \<Rightarrow> addr \<Rightarrow> genlist \<Rightarrow> links \<Rightarrow> genlist \<times> links" where
  "genlist_append_list nset h t l m =
     (if h \<noteq> NULL \<and> t \<noteq> NULL
      then if tail l = NULL then (l\<lparr>head := h, tail := t\<rparr>, m) else (l\<lparr>tail := t\<rparr>, nset (tail l) h m)
      else (l, m))"

definition genlist_merge_list ::
  "(addr \<Rightarrow> addr \<Rightarrow> links \<Rightarrow> links) \<Rightarrow> genlist \<Rightarrow> genlist \<Rightarrow> links \<Rightarrow> genlist \<times> genlist \<times> links" where
  "genlist_merge_list nset l to_append m =
     (let (l1, m1) = genlist_append_list nset (head to_append) (tail to_append) l m in (l1, genlist_init, m1))"

definition genlist_insert ::
  "(addr \<Rightarrow> links \<Rightarrow> addr) \<Rightarrow> (addr \<Rightarrow> addr \<Rightarrow> links \<Rightarrow> links) \<Rightarrow> addr \<Rightarrow> addr \<Rightarrow> genlist \<Rightarrow> links \<Rightarrow>
     genlist \<times> links" where
  "genlist_insert npeek nset prev node l m =
     (if prev = NULL then genlist_prepend nset node l m
      else if npeek prev m = NULL then genlist_append nset node l m
      else (l, nset prev node (nset node (npeek prev m) m)))"

definition genlist_get_not_empty :: "(addr \<Rightarrow> links \<Rightarrow> addr) \<Rightarrow> genlist \<Rightarrow> links \<Rightarrow> addr \<times> genlist" where
  "genlist_get_not_empty npeek l m =
     (let node = head l; l1 = l\<lparr>head := npeek node m\<rparr>
      in (node, if tail l1 = node then l1\<lparr>tail := head l1\<rparr> else l1))"

definition genlist_get :: "(addr \<Rightarrow> links \<Rightarrow> addr) \<Rightarrow> genlist \<Rightarrow> links \<Rightarrow> addr \<times> genlist" where
  "genlist_get npeek l m = (if genlist_is_empty l then (NULL, l) else genlist_get_not_empty npeek l m)"

definition genlist_remove ::
  "(addr \<Rightarrow> links \<Rightarrow> addr) \<Rightarrow> (addr \<Rightarrow> addr \<Rightarrow> links \<Rightarrow> links) \<Rightarrow> addr \<Rightarrow> addr \<Rightarrow> genlist \<Rightarrow> links \<Rightarrow>
     genlist \<times> links" where
  "genlist_remove npeek nset prev_node node l m =
     (let (l1, m1) =
        (if prev_node = NULL
         then let l0 = l\<lparr>head := npeek node m\<rparr> in (if tail l0 = node then l0\<lparr>tail := head l0\<rparr> else l0, m)
         else (if tail l = node then l\<lparr>tail := prev_node\<rparr> else l, nset prev_node (npeek node m) m))
      in (l1, nset node NULL m1))"

text \<open>
  The search of \<open>find\<close> and \<open>find_and_remove\<close>: it returns whether the node was found, and the node before
  it or the last one. The walk over the links ends when the list does.
\<close>

partial_function (option) genlist_search ::
  "(addr \<Rightarrow> links \<Rightarrow> addr) \<Rightarrow> addr \<Rightarrow> links \<Rightarrow> addr \<Rightarrow> addr \<Rightarrow> (bool \<times> addr) option" where
  "genlist_search npeek node m prev test =
     (if test = NULL then Some (False, prev)
      else if test = node then Some (True, prev)
      else genlist_search npeek node m test (genlist_peek_next npeek test m))"

definition genlist_find :: "(addr \<Rightarrow> links \<Rightarrow> addr) \<Rightarrow> addr \<Rightarrow> genlist \<Rightarrow> links \<Rightarrow> (bool \<times> addr) option" where
  "genlist_find npeek node l m = genlist_search npeek node m NULL (head l)"

definition genlist_find_and_remove ::
  "(addr \<Rightarrow> links \<Rightarrow> addr) \<Rightarrow> (addr \<Rightarrow> addr \<Rightarrow> links \<Rightarrow> links) \<Rightarrow> addr \<Rightarrow> genlist \<Rightarrow> links \<Rightarrow>
     (bool \<times> genlist \<times> links) option" where
  "genlist_find_and_remove npeek nset node l m =
     map_option (\<lambda>(found, prev). if found then (True, genlist_remove npeek nset prev node l m) else (False, l, m))
       (genlist_search npeek node m NULL (head l))"

partial_function (option) genlist_count ::
  "(addr \<Rightarrow> links \<Rightarrow> addr) \<Rightarrow> links \<Rightarrow> addr \<Rightarrow> nat \<Rightarrow> nat option" where
  "genlist_count npeek m node n =
     (if node = NULL then Some n else genlist_count npeek m (genlist_peek_next npeek node m) (n + 1))"

definition genlist_len :: "(addr \<Rightarrow> links \<Rightarrow> addr) \<Rightarrow> genlist \<Rightarrow> links \<Rightarrow> nat option" where
  "genlist_len npeek l m = genlist_count npeek m (head l) 0"

section \<open>The contract of the nodes\<close>

text \<open>A chain of nodes from one address to another, and what a list header stands for.\<close>

primrec gen_segment :: "(addr \<Rightarrow> links \<Rightarrow> addr) \<Rightarrow> (addr \<Rightarrow> bool) \<Rightarrow> links \<Rightarrow> addr \<Rightarrow> addr list \<Rightarrow> addr \<Rightarrow> bool" where
  "gen_segment npeek ok m p [] q \<longleftrightarrow> p = q"
| "gen_segment npeek ok m p (x # xs) q \<longleftrightarrow> p = x \<and> ok x \<and> gen_segment npeek ok m (npeek x m) xs q"

definition gen_rep :: "(addr \<Rightarrow> links \<Rightarrow> addr) \<Rightarrow> (addr \<Rightarrow> bool) \<Rightarrow> genlist \<Rightarrow> links \<Rightarrow> addr list \<Rightarrow> bool" where
  "gen_rep npeek ok l m xs \<longleftrightarrow>
     gen_segment npeek ok m (head l) xs NULL \<and> distinct xs \<and> tail l = (if xs = [] then NULL else last xs)"

locale genlist_nodes =
  fixes npeek :: "addr \<Rightarrow> links \<Rightarrow> addr"
    and nset :: "addr \<Rightarrow> addr \<Rightarrow> links \<Rightarrow> links"
    and ok :: "addr \<Rightarrow> bool"
  assumes ok_null: "\<not> ok NULL"
    and peek_set: "ok c \<or> c = NULL \<Longrightarrow> npeek p (nset p c m) = c"
    and peek_set_other: "p \<noteq> q \<Longrightarrow> npeek q (nset p c m) = npeek q m"
begin

abbreviation segment :: "links \<Rightarrow> addr \<Rightarrow> addr list \<Rightarrow> addr \<Rightarrow> bool" where
  "segment \<equiv> gen_segment npeek ok"

abbreviation rep :: "genlist \<Rightarrow> links \<Rightarrow> addr list \<Rightarrow> bool" where
  "rep \<equiv> gen_rep npeek ok"

lemma ok_pos [dest]: "ok x \<Longrightarrow> 0 < x"
  using ok_null by (cases x) auto

lemma segment_append: "segment m p (xs @ ys) r \<longleftrightarrow> (\<exists>q. segment m p xs q \<and> segment m q ys r)"
  by (induction xs arbitrary: p) auto

lemma segment_set: "y \<notin> set xs \<Longrightarrow> segment (nset y c m) p xs q = segment m p xs q"
  by (induction xs arbitrary: p) (auto simp: peek_set_other)

lemma segment_cong: "(\<And>x. x \<in> set xs \<Longrightarrow> npeek x m' = npeek x m) \<Longrightarrow> segment m' p xs q = segment m p xs q"
  by (induction xs arbitrary: p) auto

lemma segment_ok: "segment m p xs q \<Longrightarrow> x \<in> set xs \<Longrightarrow> ok x"
  by (induction xs arbitrary: p) auto

lemma segment_NULL: "segment m p xs NULL \<Longrightarrow> p = NULL \<longleftrightarrow> xs = []"
  using ok_null by (cases xs) (auto intro: gr0I)

text \<open>Redirecting the last link of a segment.\<close>

lemma segment_redirect:
  assumes "segment m p (xs @ [x]) q" "x \<notin> set xs" "ok c \<or> c = NULL"
  shows "segment (nset x c m) p (xs @ [x]) c"
  using assms by (auto simp: segment_append segment_set peek_set)

lemma rep_ok: "rep l m xs \<Longrightarrow> x \<in> set xs \<Longrightarrow> ok x"
  by (auto simp: gen_rep_def dest: segment_ok)

lemma rep_cong: "(\<And>x. x \<in> set xs \<Longrightarrow> npeek x m' = npeek x m) \<Longrightarrow> rep l m' xs = rep l m xs"
  using segment_cong [of xs m' m] by (simp add: gen_rep_def)

lemma tail_ok: "rep l m xs \<Longrightarrow> tail l = NULL \<or> tail l \<in> set xs"
  by (simp add: gen_rep_def)

lemma rep_empty: "rep l m xs \<Longrightarrow> genlist_is_empty l \<longleftrightarrow> xs = []"
  using segment_NULL [of m "head l" xs] by (simp add: gen_rep_def genlist_is_empty_def)

lemma rep_init: "rep genlist_init m []"
  by (simp add: gen_rep_def genlist_init_def)

lemma head_ok: "rep l m xs \<Longrightarrow> ok (head l) \<or> head l = NULL"
  by (cases xs) (auto simp: gen_rep_def)

lemma prepend_rep:
  assumes r: "rep l m xs" and n: "ok node" "node \<notin> set xs" and p: "genlist_prepend nset node l m = (l', m')"
  shows "rep l' m' (node # xs)"
proof -
  have "npeek node (nset node (head l) m) = head l" by (rule peek_set [OF head_ok [OF r]])
  moreover have "xs \<noteq> [] \<Longrightarrow> last xs \<noteq> NULL" using rep_ok [OF r] ok_null last_in_set by metis
  ultimately show ?thesis
    using r n p by (auto simp: gen_rep_def genlist_prepend_def segment_set)
qed

lemma append_list_rep:
  assumes r: "rep l m xs" and s: "segment m h ys NULL" "distinct ys" "t = last ys" "ys \<noteq> []" "set xs \<inter> set ys = {}"
    and p: "genlist_append_list nset h t l m = (l', m')"
  shows "rep l' m' (xs @ ys)"
proof -
  have okt: "ok h" "ok t" using s segment_ok [OF s(1)] by (cases ys; auto)+
  then have nn: "h \<noteq> NULL" "t \<noteq> NULL" using ok_null by metis+
  show ?thesis
  proof (cases xs rule: rev_cases)
    case Nil
    then show ?thesis using r s p nn by (auto simp: gen_rep_def genlist_append_list_def)
  next
    case (snoc zs x)
    have x: "tail l = x" "x \<noteq> NULL" "x \<notin> set zs" "x \<notin> set ys"
      using r snoc rep_ok [OF r, of x] ok_null s(5) by (auto simp: gen_rep_def)
    have e: "l' = l\<lparr>tail := t\<rparr>" "m' = nset x h m" using p x nn by (simp_all add: genlist_append_list_def)
    have "segment m' (head l) (zs @ [x]) h"
      unfolding e using r x(3) okt(1) by (intro segment_redirect [where q = NULL]) (simp_all add: gen_rep_def snoc)
    moreover have "segment m' h ys NULL" using s(1) x(4) by (simp add: e segment_set)
    ultimately have "segment m' (head l) (xs @ ys) NULL" unfolding snoc segment_append by blast
    then show ?thesis using r s by (simp add: gen_rep_def e)
  qed
qed

lemma append_rep:
  assumes r: "rep l m xs" and n: "ok node" "node \<notin> set xs" and p: "genlist_append nset node l m = (l', m')"
  shows "rep l' m' (xs @ [node])"
proof (rule append_list_rep [where h = node and t = node])
  let ?m = "nset node NULL m"
  show "rep l ?m xs" using r n by (simp add: gen_rep_def segment_set)
  show "segment ?m node [node] NULL" using n by (simp add: peek_set)
  have "node \<noteq> NULL" using n ok_null by metis
  then show "genlist_append_list nset node node l ?m = (l', m')"
    using p by (auto simp: genlist_append_list_def genlist_append_def Let_def split: if_splits)
qed (use n in auto)

lemma merge_rep:
  assumes "rep l m xs" "rep l2 m ys" "set xs \<inter> set ys = {}" "genlist_merge_list nset l l2 m = (l', l2', m')"
  shows "rep l' m' (xs @ ys)" "rep l2' m' []"
proof -
  obtain a b where p: "genlist_append_list nset (head l2) (tail l2) l m = (a, b)" by (metis prod.exhaust)
  then have e: "l' = a" "m' = b" "l2' = genlist_init" using assms(4) by (simp_all add: genlist_merge_list_def)
  show "rep l2' m' []" by (simp add: e rep_init)
  show "rep l' m' (xs @ ys)"
  proof (cases "ys = []")
    case True
    then show ?thesis using assms(1,2) p by (simp add: e gen_rep_def genlist_append_list_def)
  next
    case False
    then show ?thesis
      using append_list_rep [OF assms(1) _ _ _ _ assms(3) p] assms(2) by (simp add: e gen_rep_def)
  qed
qed

lemma insert_rep:
  assumes r: "rep l m (xs @ ys)" and n: "ok node" "node \<notin> set (xs @ ys)"
    and p: "genlist_insert npeek nset prev node l m = (l', m')"
    and prev: "prev = (if xs = [] then NULL else last xs)"
  shows "rep l' m' (xs @ node # ys)"
proof (cases xs rule: rev_cases)
  case Nil
  then show ?thesis using prepend_rep [OF r n] p prev by (simp add: genlist_insert_def)
next
  case (snoc zs x)
  have x: "prev = x" "ok x" "x \<noteq> NULL" using prev snoc rep_ok [OF r, of x] ok_null by (auto intro: ccontr)
  obtain q where q: "segment m (head l) (zs @ [x]) q" "segment m q ys NULL" "q = npeek x m"
    using r by (auto simp: gen_rep_def snoc segment_append)
  show ?thesis
  proof (cases "ys = []")
    case True
    then show ?thesis
      using append_rep [OF r n] p x q by (simp add: genlist_insert_def snoc)
  next
    case False
    then have qn: "q \<noteq> NULL" "ok q" using segment_NULL [OF q(2)] q(2) by (cases ys; auto)+
    let ?m = "nset node q m"
    have e: "l' = l" "m' = nset x node ?m" using p x q qn by (auto simp: genlist_insert_def)
    have d: "x \<notin> set zs" "x \<notin> set ys" "x \<noteq> node" "node \<notin> set ys" "node \<notin> set (zs @ [x])"
      using r n by (auto simp: gen_rep_def snoc)
    have "segment m' (head l) (zs @ [x]) node"
      unfolding e using q(1) d n(1) by (intro segment_redirect [where q = q]) (simp_all add: segment_set [OF d(5)])
    moreover have "segment m' node (node # ys) NULL"
      using q(2) d n(1) qn(2) by (simp add: e segment_set peek_set peek_set_other)
    ultimately have "segment m' (head l) ((zs @ [x]) @ node # ys) NULL" unfolding segment_append by blast
    then show ?thesis using r n False by (auto simp: gen_rep_def snoc e)
  qed
qed

lemma get_rep:
  assumes r: "rep l m (x # xs)" and g: "genlist_get_not_empty npeek l m = (node, l')"
  shows "node = x" "rep l' m xs"
proof -
  have x: "head l = x" "segment m (npeek x m) xs NULL" "x \<notin> set xs" "distinct xs" using r by (simp_all add: gen_rep_def)
  then show "node = x" using g by (auto simp: genlist_get_not_empty_def Let_def)
  show "rep l' m xs"
  proof (cases "xs = []")
    case True
    then show ?thesis using r g x by (auto simp: gen_rep_def genlist_get_not_empty_def Let_def)
  next
    case False
    then have "last xs \<noteq> x" using x(3) last_in_set by metis
    then show ?thesis using r g x False by (auto simp: gen_rep_def genlist_get_not_empty_def Let_def)
  qed
qed

lemma remove_rep:
  assumes r: "rep l m (xs @ node # ys)" and p: "genlist_remove npeek nset prev node l m = (l', m')"
    and prev: "prev = (if xs = [] then NULL else last xs)"
  shows "rep l' m' (xs @ ys)"
proof -
  obtain q where q: "segment m (head l) xs node" "segment m q ys NULL" "q = npeek node m"
    using r by (auto simp: gen_rep_def segment_append)
  have d: "node \<notin> set xs" "node \<notin> set ys" "distinct xs" "distinct ys" "set xs \<inter> set ys = {}"
    using r by (auto simp: gen_rep_def)
  have t: "tail l = node \<longleftrightarrow> ys = []"
    using r d(2) last_in_set [of ys] by (auto simp: gen_rep_def)
  have okq: "ok q \<or> q = NULL" using q(2) by (cases ys) auto
  show ?thesis
  proof (cases xs rule: rev_cases)
    case Nil
    have e: "m' = nset node NULL m" "head l' = q" "tail l' = (if ys = [] then q else tail l)"
      using p prev t q(3) Nil by (auto simp: genlist_remove_def Let_def)
    show ?thesis
      using r q(2) d t Nil by (auto simp: gen_rep_def e segment_set)
  next
    case (snoc zs x)
    have x: "prev = x" "x \<noteq> NULL" "x \<notin> set zs" "x \<notin> set ys"
      using prev snoc rep_ok [OF r, of x] ok_null d by auto
    have e: "m' = nset node NULL (nset x q m)" "head l' = head l" "tail l' = (if ys = [] then x else tail l)"
      using p x t q(3) by (auto simp: genlist_remove_def Let_def)
    have "segment (nset x q m) (head l) (zs @ [x]) q"
      using q(1) x(3) okq by (intro segment_redirect [where q = node]) (simp_all add: snoc)
    then have "segment m' (head l) xs q" using d(1) by (simp add: e snoc segment_set)
    moreover have "segment m' q ys NULL" using q(2) d(2) x(4) by (simp add: e segment_set)
    ultimately have "segment m' (head l') (xs @ ys) NULL" unfolding e(2) segment_append by blast
    then show ?thesis using r d t e(3) by (auto simp: gen_rep_def snoc)
  qed
qed

lemma search_end:
  "segment m test ys NULL \<Longrightarrow> node \<notin> set ys \<Longrightarrow>
     genlist_search npeek node m prev test = Some (False, if ys = [] then prev else last ys)"
proof (induction ys arbitrary: prev test)
  case Nil
  then show ?case by (simp add: genlist_search.simps)
next
  case (Cons y ys)
  have "y \<noteq> NULL" using Cons.prems ok_null by auto
  with Cons show ?case by (subst genlist_search.simps) (auto simp: genlist_peek_next_def)
qed

lemma search_found:
  "segment m test (xs @ node # ys) NULL \<Longrightarrow> node \<notin> set xs \<Longrightarrow>
     genlist_search npeek node m prev test = Some (True, if xs = [] then prev else last xs)"
proof (induction xs arbitrary: prev test)
  case Nil
  then show ?case using ok_null by (subst genlist_search.simps) auto
next
  case (Cons x xs)
  have "x \<noteq> NULL" using Cons.prems ok_null by auto
  with Cons show ?case by (subst genlist_search.simps) (auto simp: genlist_peek_next_def)
qed

text \<open>The search ends, and the node it finds is taken out.\<close>

lemma find_and_remove_rep:
  assumes r: "rep l m xs"
  obtains found l' m' where "genlist_find_and_remove npeek nset node l m = Some (found, l', m')"
    "found \<longleftrightarrow> node \<in> set xs" "rep l' m' (remove1 node xs)"
proof (cases "node \<in> set xs")
  case False
  with r have "genlist_search npeek node m NULL (head l) = Some (False, if xs = [] then NULL else last xs)"
    by (intro search_end) (simp_all add: gen_rep_def)
  then show ?thesis using that [of False l m] r False by (simp add: genlist_find_and_remove_def)
next
  case True
  then obtain ys zs where s: "xs = ys @ node # zs" "node \<notin> set ys" by (meson split_list_first)
  obtain l' m' where p: "genlist_remove npeek nset (if ys = [] then NULL else last ys) node l m = (l', m')"
    by (metis prod.exhaust)
  have "genlist_search npeek node m NULL (head l) = Some (True, if ys = [] then NULL else last ys)"
    using r s by (intro search_found [where ys = zs]) (simp_all add: gen_rep_def)
  moreover have "rep l' m' (ys @ zs)" using remove_rep [OF _ p refl] r s(1) by simp
  ultimately show ?thesis
    using that [of True l' m'] p True s by (simp add: genlist_find_and_remove_def remove1_append)
qed

lemma count_segment: "segment m node xs NULL \<Longrightarrow> genlist_count npeek m node n = Some (n + length xs)"
proof (induction xs arbitrary: node n)
  case Nil
  then show ?case by (simp add: genlist_count.simps)
next
  case (Cons x xs)
  have "x \<noteq> NULL" using Cons.prems ok_null by auto
  with Cons show ?case by (subst genlist_count.simps) (auto simp: genlist_peek_next_def)
qed

lemma len_rep: "rep l m xs \<Longrightarrow> genlist_len npeek l m = Some (length xs)"
  using count_segment [of m "head l" xs 0] by (simp add: genlist_len_def gen_rep_def)

end

section \<open>The plain list (slist.h)\<close>

definition z_snode_next_peek :: "addr \<Rightarrow> links \<Rightarrow> addr" where
  "z_snode_next_peek node m = m node"

definition z_snode_next_set :: "addr \<Rightarrow> addr \<Rightarrow> links \<Rightarrow> links" where
  "z_snode_next_set parent child m = m(parent := child)"

interpretation sl: genlist_nodes z_snode_next_peek z_snode_next_set "\<lambda>x. x \<noteq> NULL"
  by unfold_locales (simp_all add: z_snode_next_peek_def z_snode_next_set_def)

section \<open>The list with flags (sflist.h)\<close>

text \<open>Nodes are word aligned; the two low bits of a link hold the flags of the node.\<close>

definition SYS_SFLIST_FLAGS_MASK :: nat where
  "SYS_SFLIST_FLAGS_MASK = 3"

definition sys_sfnode_flags_get :: "addr \<Rightarrow> links \<Rightarrow> nat" where
  "sys_sfnode_flags_get node m = m node AND SYS_SFLIST_FLAGS_MASK"

definition z_sfnode_next_peek :: "addr \<Rightarrow> links \<Rightarrow> addr" where
  "z_sfnode_next_peek node m = m node - (m node AND SYS_SFLIST_FLAGS_MASK)"

definition z_sfnode_next_set :: "addr \<Rightarrow> addr \<Rightarrow> links \<Rightarrow> links" where
  "z_sfnode_next_set parent child m = m(parent := sys_sfnode_flags_get parent m OR child)"

definition sys_sfnode_init :: "addr \<Rightarrow> nat \<Rightarrow> links \<Rightarrow> links" where
  "sys_sfnode_init node flags m = m(node := flags)"

definition sys_sfnode_flags_set :: "addr \<Rightarrow> nat \<Rightarrow> links \<Rightarrow> links" where
  "sys_sfnode_flags_set node flags m = m(node := z_sfnode_next_peek node m OR flags)"

definition sfnode_ok :: "addr \<Rightarrow> bool" where
  "sfnode_ok a \<longleftrightarrow> a \<noteq> NULL \<and> a mod 4 = 0"

lemma and_mask: "(n :: nat) AND SYS_SFLIST_FLAGS_MASK = n mod 4"
  using take_bit_eq_mask [of 2 n] by (simp add: SYS_SFLIST_FLAGS_MASK_def take_bit_eq_mod mask_eq_exp_minus_1)

lemma flags_or:
  assumes "f < 4" "c mod 4 = (0::nat)"
  shows "f OR c = f + c"
proof -
  have "f = f AND SYS_SFLIST_FLAGS_MASK" using assms(1) by (simp add: and_mask)
  then have "f AND c = f AND (c AND SYS_SFLIST_FLAGS_MASK)" by (metis and.assoc and.commute)
  then have "f AND c = 0" using assms(2) by (simp add: and_mask)
  then show ?thesis by (simp add: disjunctive_add_eq_or)
qed

lemma sfnode_set_flags:
  assumes "sfnode_ok c \<or> c = NULL"
  shows "z_sfnode_next_peek p (z_sfnode_next_set p c m) = c"
    "sys_sfnode_flags_get x (z_sfnode_next_set p c m) = sys_sfnode_flags_get x m"
proof -
  have c: "c mod 4 = 0" using assms by (auto simp: sfnode_ok_def)
  have "(m p mod 4) OR c = m p mod 4 + c" using c by (intro flags_or) simp_all
  moreover have "(m p mod 4 + c) mod 4 = m p mod 4" using c by presburger
  ultimately show "z_sfnode_next_peek p (z_sfnode_next_set p c m) = c"
    "sys_sfnode_flags_get x (z_sfnode_next_set p c m) = sys_sfnode_flags_get x m"
    by (simp_all add: z_sfnode_next_peek_def z_sfnode_next_set_def sys_sfnode_flags_get_def and_mask)
qed

interpretation sf: genlist_nodes z_sfnode_next_peek z_sfnode_next_set sfnode_ok
  by unfold_locales (simp_all add: sfnode_set_flags, simp_all add: sfnode_ok_def z_sfnode_next_peek_def z_sfnode_next_set_def)

end
