(* ===== verification/Queue.thy ===== *)
theory Queue
  imports Genlist Sched_Props
begin

text \<open>
  Queues of the caller's own data items, \<open>kernel/queue.c\<close>, the basis of \<open>k_fifo\<close> and \<open>k_lifo\<close>. The items
  form a list with flags in word memory (\<open>pmem\<close> of the kernel state); an item with flag 1 is an
  \<open>alloc_node\<close>, which holds the address of the datum in its second word. The heap is a parameter: what
  \<open>z_thread_malloc\<close> returned is an argument, and the node that a get frees comes with its result.
\<close>

section \<open>State and operations\<close>

record k_queue =
  data_q :: genlist
  queue_wait_q :: wait_q

text \<open>\<open>struct alloc_node\<close>: the link, and the datum in the word after it.\<close>

definition anode_data :: "addr \<Rightarrow> addr" where
  "anode_data anode = anode + 4"

definition z_queue_node_peek :: "addr \<Rightarrow> bool \<Rightarrow> links \<Rightarrow> addr \<times> addr option" where
  "z_queue_node_peek node needs_free m =
     (if node \<noteq> NULL \<and> sys_sfnode_flags_get node m \<noteq> 0
      then (m (anode_data node), if needs_free then Some node else None)
      else (node, None))"

definition z_impl_k_queue_init :: "k_queue \<Rightarrow> kernel \<Rightarrow> k_queue \<times> kernel" where
  "z_impl_k_queue_init queue k =
     (queue\<lparr>data_q := genlist_init\<rparr>, k\<lparr>waitqs := (waitqs k)(queue_wait_q queue := [])\<rparr>)"

definition prepare_thread_to_run :: "tid \<Rightarrow> addr \<Rightarrow> kernel \<Rightarrow> kernel" where
  "prepare_thread_to_run thread data k =
     z_ready_thread thread (z_thread_return_value_set_with_data thread 0 data k)"

definition z_impl_k_queue_cancel_wait :: "k_queue \<Rightarrow> kernel \<Rightarrow> kernel" where
  "z_impl_k_queue_cancel_wait queue k =
     (case z_unpend_first_thread (queue_wait_q queue) k of
        (Some first_pending_thread, k1) \<Rightarrow> z_reschedule (prepare_thread_to_run first_pending_thread NULL k1)
      | (None, k1) \<Rightarrow> z_reschedule k1)"

definition queue_insert ::
  "addr option \<Rightarrow> addr \<Rightarrow> addr \<Rightarrow> bool \<Rightarrow> bool \<Rightarrow> k_queue \<Rightarrow> kernel \<Rightarrow> int \<times> k_queue \<times> kernel" where
  "queue_insert malloced prev0 data alloc is_append queue k =
     (let prev = if is_append then tail (data_q queue) else prev0
      in case z_unpend_first_thread (queue_wait_q queue) k of
          (Some first_pending_thread, k1) \<Rightarrow>
            (0, queue, z_reschedule (prepare_thread_to_run first_pending_thread data k1))
        | (None, k1) \<Rightarrow>
            (case (if alloc
                   then map_option (\<lambda>anode. (anode, sys_sfnode_init anode 1 ((pmem k1)(anode_data anode := data)))) malloced
                   else Some (data, sys_sfnode_init data 0 (pmem k1))) of
               None \<Rightarrow> (- ENOMEM, queue, k1)
             | Some (node, m) \<Rightarrow>
                 let (l, m1) = genlist_insert z_sfnode_next_peek z_sfnode_next_set prev node (data_q queue) m
                 in (0, queue\<lparr>data_q := l\<rparr>, z_reschedule (k1\<lparr>pmem := m1\<rparr>))))"

definition k_queue_insert :: "addr \<Rightarrow> addr \<Rightarrow> k_queue \<Rightarrow> kernel \<Rightarrow> k_queue \<times> kernel" where
  "k_queue_insert prev data queue k = snd (queue_insert None prev data False False queue k)"

definition k_queue_append :: "addr \<Rightarrow> k_queue \<Rightarrow> kernel \<Rightarrow> k_queue \<times> kernel" where
  "k_queue_append data queue k = snd (queue_insert None NULL data False True queue k)"

definition k_queue_prepend :: "addr \<Rightarrow> k_queue \<Rightarrow> kernel \<Rightarrow> k_queue \<times> kernel" where
  "k_queue_prepend data queue k = snd (queue_insert None NULL data False False queue k)"

definition z_impl_k_queue_alloc_append :: "addr option \<Rightarrow> addr \<Rightarrow> k_queue \<Rightarrow> kernel \<Rightarrow> int \<times> k_queue \<times> kernel" where
  "z_impl_k_queue_alloc_append malloced data queue k = queue_insert malloced NULL data True True queue k"

definition z_impl_k_queue_alloc_prepend :: "addr option \<Rightarrow> addr \<Rightarrow> k_queue \<Rightarrow> kernel \<Rightarrow> int \<times> k_queue \<times> kernel" where
  "z_impl_k_queue_alloc_prepend malloced data queue k = queue_insert malloced NULL data True False queue k"

text \<open>
  The loop of \<open>k_queue_append_list\<close>: each turn takes one thread off the wait queue, so the fuel given
  below, one more than the threads that wait, never runs out.
\<close>

fun append_list_loop :: "nat \<Rightarrow> wait_q \<Rightarrow> addr \<Rightarrow> tid option \<Rightarrow> kernel \<Rightarrow> addr \<times> kernel" where
  "append_list_loop 0 w h thread k = (h, k)"
| "append_list_loop (Suc n) w h thread k =
     (case thread of
        None \<Rightarrow> (h, k)
      | Some t \<Rightarrow>
          if h = NULL then (h, k)
          else let k1 = prepare_thread_to_run t h k; h1 = pmem k1 h; (next_thread, k2) = z_unpend_first_thread w k1
            in append_list_loop n w h1 next_thread k2)"

definition k_queue_append_list :: "addr \<Rightarrow> addr \<Rightarrow> k_queue \<Rightarrow> kernel \<Rightarrow> int \<times> k_queue \<times> kernel" where
  "k_queue_append_list h t queue k =
     (if h = NULL \<or> t = NULL then (- EINVAL, queue, k)
      else let (thread, k1) = z_unpend_first_thread (queue_wait_q queue) k;
               (h1, k2) = append_list_loop (Suc (length (waitqs k (queue_wait_q queue)))) (queue_wait_q queue) h thread k1
        in if h1 \<noteq> NULL
           then let (l, m) = genlist_append_list z_sfnode_next_set h1 t (data_q queue) (pmem k2)
             in (0, queue\<lparr>data_q := l\<rparr>, z_reschedule (k2\<lparr>pmem := m\<rparr>))
           else (0, queue, z_reschedule k2))"

definition k_queue_merge_slist :: "genlist \<Rightarrow> k_queue \<Rightarrow> kernel \<Rightarrow> int \<times> genlist \<times> k_queue \<times> kernel" where
  "k_queue_merge_slist list queue k =
     (if genlist_is_empty list then (- EINVAL, list, queue, k)
      else let (ret, queue1, k1) = k_queue_append_list (head list) (tail list) queue k
        in if ret \<noteq> 0 then (ret, list, queue1, k1) else (0, genlist_init, queue1, k1))"

definition z_impl_k_queue_get ::
  "k_ticks_t \<Rightarrow> k_queue \<Rightarrow> kernel \<Rightarrow> (addr \<times> addr option) outcome \<times> k_queue \<times> kernel" where
  "z_impl_k_queue_get timeout queue k =
     (if \<not> genlist_is_empty (data_q queue)
      then let (node, l) = genlist_get_not_empty z_sfnode_next_peek (data_q queue) (pmem k)
        in (Done (z_queue_node_peek node True (pmem k)), queue\<lparr>data_q := l\<rparr>, k)
      else if timeout = K_NO_WAIT then (Done (NULL, None), queue, k)
      else (Blocked, queue, z_pend_curr (queue_wait_q queue) timeout k))"

definition k_queue_get_resume :: "kernel \<Rightarrow> addr" where
  "k_queue_get_resume k =
     (let th = threads k (current k) in if swap_retval th \<noteq> 0 then NULL else swap_data th)"

definition k_queue_remove :: "addr \<Rightarrow> k_queue \<Rightarrow> kernel \<Rightarrow> (bool \<times> k_queue \<times> kernel) option" where
  "k_queue_remove data queue k =
     map_option (\<lambda>(ret, l, m). (ret, queue\<lparr>data_q := l\<rparr>, k\<lparr>pmem := m\<rparr>))
       (genlist_find_and_remove z_sfnode_next_peek z_sfnode_next_set data (data_q queue) (pmem k))"

definition k_queue_unique_append :: "addr \<Rightarrow> k_queue \<Rightarrow> kernel \<Rightarrow> (bool \<times> k_queue \<times> kernel) option" where
  "k_queue_unique_append data queue k =
     map_option (\<lambda>(found, _). if found then (False, queue, k) else (True, k_queue_append data queue k))
       (genlist_search z_sfnode_next_peek data (pmem k) NULL (head (data_q queue)))"

definition z_impl_k_queue_peek_head :: "k_queue \<Rightarrow> kernel \<Rightarrow> addr" where
  "z_impl_k_queue_peek_head queue k = fst (z_queue_node_peek (head (data_q queue)) False (pmem k))"

definition z_impl_k_queue_peek_tail :: "k_queue \<Rightarrow> kernel \<Rightarrow> addr" where
  "z_impl_k_queue_peek_tail queue k = fst (z_queue_node_peek (tail (data_q queue)) False (pmem k))"

definition z_impl_k_queue_is_empty :: "k_queue \<Rightarrow> bool" where
  "z_impl_k_queue_is_empty queue = genlist_is_empty (data_q queue)"

section \<open>The invariant and the contract\<close>

definition node_data :: "links \<Rightarrow> addr \<Rightarrow> addr" where
  "node_data m x = fst (z_queue_node_peek x False m)"

text \<open>
  The nodes of the queue, in order. The data word of an allocated node is not the link of another
  node, and threads wait only on an empty queue.
\<close>

definition queue_inv :: "k_queue \<Rightarrow> kernel \<Rightarrow> addr list \<Rightarrow> bool" where
  "queue_inv queue k nodes \<longleftrightarrow>
     gen_rep z_sfnode_next_peek sfnode_ok (data_q queue) (pmem k) nodes \<and>
     (\<forall>x \<in> set nodes. sys_sfnode_flags_get x (pmem k) \<noteq> 0 \<longrightarrow> anode_data x \<notin> set nodes) \<and>
     (waitqs k (queue_wait_q queue) \<noteq> [] \<longrightarrow> nodes = [])"

definition queue_abs :: "k_queue \<Rightarrow> kernel \<Rightarrow> addr list \<Rightarrow> addr list \<times> tid list" where
  "queue_abs queue k nodes = (map (node_data (pmem k)) nodes, waitqs k (queue_wait_q queue))"

text \<open>
  The reference: a list of data with an insertion point, and the threads waiting for one. A put says
  what it returns, the thread it gives the datum to, and the list after it; it fails only if there is
  no memory for a node (\<open>mem\<close> is false) and no thread waits.
\<close>

definition queue_put_spec :: "bool \<Rightarrow> bool \<Rightarrow> addr \<Rightarrow> addr list \<times> tid list \<Rightarrow>
    int \<times> (tid \<times> addr) option \<times> addr list \<times> tid list" where
  "queue_put_spec mem is_append d a =
     (case a of (xs, t # ts) \<Rightarrow> (0, Some (t, d), xs, ts)
      | (xs, []) \<Rightarrow> if mem then (0, None, if is_append then xs @ [d] else d # xs, []) else (- ENOMEM, None, xs, []))"

text \<open>The thread \<open>t\<close> waits no more, and its get returns the datum when it runs next.\<close>

definition queue_gets :: "kernel \<Rightarrow> tid \<times> addr \<Rightarrow> bool" where
  "queue_gets k td = (case td of (t, d) \<Rightarrow>
     pended_on (threads k t) = None \<and> deadline (tmo k) (ThreadTo t) = None \<and>
     k_queue_get_resume (k\<lparr>current := t\<rparr>) = d)"

definition queue_get_spec :: "(tid \<Rightarrow> k_thread) \<Rightarrow> tid \<Rightarrow> bool \<Rightarrow> addr list \<times> tid list \<Rightarrow>
    addr outcome \<times> addr list \<times> tid list" where
  "queue_get_spec th me may_wait a =
     (case a of (x # xs, q) \<Rightarrow> (Done x, xs, q)
      | ([], q) \<Rightarrow> if may_wait then (Blocked, [], z_priq_dumb_add th q me) else (Done NULL, [], q))"

text \<open>The node that an insertion puts into the list is fresh.\<close>

definition fresh_node :: "bool \<Rightarrow> addr \<Rightarrow> kernel \<Rightarrow> addr list \<Rightarrow> bool" where
  "fresh_node alloc x k nodes \<longleftrightarrow>
     sfnode_ok x \<and> x \<notin> set nodes \<and>
     (\<forall>y \<in> set nodes. sys_sfnode_flags_get y (pmem k) \<noteq> 0 \<longrightarrow> anode_data y \<noteq> x) \<and>
     (alloc \<longrightarrow> anode_data x \<notin> set nodes)"

text \<open>The node of a datum: its own, or the one the heap gave, if it gave one.\<close>

definition node_for :: "bool \<Rightarrow> addr option \<Rightarrow> addr \<Rightarrow> addr option" where
  "node_for alloc malloced d = (if alloc then malloced else Some d)"

section \<open>Lemmas\<close>

lemma sf_peek_cong: "m' x = m x \<Longrightarrow> z_sfnode_next_peek x m' = z_sfnode_next_peek x m"
  by (simp add: z_sfnode_next_peek_def)

text \<open>An insertion writes only the links of the new node and of nodes of the list, and keeps all flags.\<close>

lemma insert_frame:
  assumes r: "gen_rep z_sfnode_next_peek sfnode_ok l m nodes" and n: "sfnode_ok n" "n \<notin> set nodes"
    and prev: "prev = NULL \<or> prev \<in> set nodes"
    and i: "genlist_insert z_sfnode_next_peek z_sfnode_next_set prev n l m = (l', m')"
  shows "a \<noteq> n \<Longrightarrow> a \<notin> set nodes \<Longrightarrow> m' a = m a" "sys_sfnode_flags_get x m' = sys_sfnode_flags_get x m"
proof -
  have h: "sfnode_ok (head l) \<or> head l = NULL" by (rule sf.head_ok [OF r])
  have pk: "sfnode_ok (z_sfnode_next_peek prev m) \<or> z_sfnode_next_peek prev m = NULL" if "prev \<noteq> NULL"
  proof -
    have "prev \<in> set nodes" using prev that by simp
    then obtain xs ys where "nodes = xs @ prev # ys" by (meson split_list)
    then show ?thesis using r by (cases ys) (auto simp: gen_rep_def sf.segment_append)
  qed
  show "m' a = m a" if "a \<noteq> n" "a \<notin> set nodes"
    using i that prev sf.tail_ok [OF r]
    by (auto simp: genlist_insert_def genlist_prepend_def genlist_append_def Let_def z_sfnode_next_set_def split: if_splits)
  show "sys_sfnode_flags_get x m' = sys_sfnode_flags_get x m"
    using i n(1) h pk
    by (auto simp: genlist_insert_def genlist_prepend_def genlist_append_def Let_def sfnode_set_flags split: if_splits)
qed

text \<open>Storing a datum: in its own node, or in an allocated one.\<close>

lemma store_node:
  assumes r: "gen_rep z_sfnode_next_peek sfnode_ok l m nodes"
    and a: "\<And>x. x \<in> set nodes \<Longrightarrow> sys_sfnode_flags_get x m \<noteq> 0 \<Longrightarrow> anode_data x \<notin> set nodes \<and> anode_data x \<noteq> n"
    and n: "sfnode_ok n" "n \<notin> set nodes" "alloc \<Longrightarrow> anode_data n \<notin> set nodes" "alloc \<Longrightarrow> anode_data n \<noteq> n"
      "\<And>x. alloc \<Longrightarrow> x \<in> set nodes \<Longrightarrow> anode_data x \<noteq> anode_data n"
    and m0: "m0 = (if alloc then sys_sfnode_init n 1 (m(anode_data n := d)) else sys_sfnode_init n 0 m)"
    and d: "alloc \<or> d = n"
    and i: "genlist_insert z_sfnode_next_peek z_sfnode_next_set (if app then tail l else NULL) n l m0 = (l', m')"
  shows "gen_rep z_sfnode_next_peek sfnode_ok l' m' (if app then nodes @ [n] else n # nodes)"
    "node_data m' n = d" "x \<in> set nodes \<Longrightarrow> node_data m' x = node_data m x"
    "x \<in> insert n (set nodes) \<Longrightarrow> sys_sfnode_flags_get x m' \<noteq> 0 \<Longrightarrow> anode_data x \<notin> insert n (set nodes)"
proof -
  have same: "m0 x = m x" if "x \<in> set nodes" for x using that n(2,3) by (auto simp: m0 sys_sfnode_init_def)
  have r0: "gen_rep z_sfnode_next_peek sfnode_ok l m0 nodes"
    by (rule sf.rep_cong [THEN iffD2, OF _ r]) (rule sf_peek_cong, rule same)
  have prev: "(if app then tail l else NULL) = NULL \<or> (if app then tail l else NULL) \<in> set nodes"
    using sf.tail_ok [OF r] by simp
  note fr = insert_frame [OF r0 n(1,2) prev i]
  have m0n: "m0 n = (if alloc then 1 else 0)" by (simp add: m0 sys_sfnode_init_def)
  have fln: "sys_sfnode_flags_get n m' = (if alloc then 1 else 0)"
    using fr(2) [of n] m0n by (simp add: sys_sfnode_flags_get_def and_mask)
  have flx: "sys_sfnode_flags_get x m' = sys_sfnode_flags_get x m" if "x \<in> set nodes" for x
    using fr(2) [of x] same [OF that] by (simp add: sys_sfnode_flags_get_def)
  show "gen_rep z_sfnode_next_peek sfnode_ok l' m' (if app then nodes @ [n] else n # nodes)"
  proof (cases app)
    case True
    then have i': "genlist_insert z_sfnode_next_peek z_sfnode_next_set (tail l) n l m0 = (l', m')" using i by simp
    have "tail l = (if nodes = [] then NULL else last nodes)" using r by (simp add: gen_rep_def)
    from sf.insert_rep [OF _ n(1) _ i' this, of "[]"] r0 n(2) True show ?thesis by simp
  next
    case False
    then have i': "genlist_insert z_sfnode_next_peek z_sfnode_next_set NULL n l m0 = (l', m')" using i by simp
    from sf.insert_rep [OF _ n(1) _ i', of "[]" nodes] r0 n(2) False show ?thesis by simp
  qed
  show c: "anode_data x \<notin> insert n (set nodes)" if "x \<in> insert n (set nodes)" "sys_sfnode_flags_get x m' \<noteq> 0"
  proof (cases "x = n")
    case True
    then show ?thesis using that(2) fln n(3,4) by (simp split: if_splits)
  next
    case False
    then show ?thesis using that flx [of x] a [of x] by simp
  qed
  have nn: "n \<noteq> NULL" using n(1) by (simp add: sfnode_ok_def)
  show "node_data m' n = d"
  proof (cases alloc)
    case True
    then have "m' (anode_data n) = d" using fr(1) [of "anode_data n"] n(3,4) by (simp add: m0 sys_sfnode_init_def)
    with True nn fln show ?thesis by (simp add: node_data_def z_queue_node_peek_def)
  next
    case False
    then show ?thesis using fln d by (simp add: node_data_def z_queue_node_peek_def)
  qed
  show "node_data m' x = node_data m x" if "x \<in> set nodes"
  proof (cases "sys_sfnode_flags_get x m = 0")
    case True
    then show ?thesis using flx [OF that] by (simp add: node_data_def z_queue_node_peek_def)
  next
    case False
    then have "m' (anode_data x) = m0 (anode_data x)" using a [OF that] fr(1) [of "anode_data x"] by simp
    moreover have "m0 (anode_data x) = m (anode_data x)"
      using a [OF that False] n(5) [OF _ that] by (simp add: m0 sys_sfnode_init_def)
    ultimately show ?thesis using flx [OF that] by (simp add: node_data_def z_queue_node_peek_def)
  qed
qed

lemma queue_insert_waiter:
  assumes "waitqs k (queue_wait_q queue) = t # ts"
  shows "queue_insert malloced prev d alloc app queue k = (0, queue, z_reschedule (handed t 0 d k))"
  using assms unpend_first_eq [OF assms]
  by (simp add: queue_insert_def prepare_thread_to_run_def z_ready_thread_def handed_eq Let_def)

lemma queue_insert_store:
  assumes "waitqs k (queue_wait_q queue) = []" "node = (if alloc then the malloced else d)" "alloc \<Longrightarrow> malloced \<noteq> None"
    and "m0 = (if alloc then sys_sfnode_init node 1 ((pmem k)(anode_data node := d)) else sys_sfnode_init node 0 (pmem k))"
    and "genlist_insert z_sfnode_next_peek z_sfnode_next_set (if app then tail (data_q queue) else prev) node
      (data_q queue) m0 = (l, m1)"
  shows "queue_insert malloced prev d alloc app queue k = (0, queue\<lparr>data_q := l\<rparr>, z_reschedule (k\<lparr>pmem := m1\<rparr>))"
  using assms by (cases alloc) (auto simp: queue_insert_def Let_def)

lemma reschedule_pmem [simp]: "pmem (z_reschedule k) = pmem k"
proof -
  have "env (z_reschedule k) = env k" by simp
  then show ?thesis by (simp add: env_def)
qed

lemma queue_insert_enomem:
  assumes "waitqs k (queue_wait_q queue) = []"
  shows "queue_insert None prev d True app queue k = (- ENOMEM, queue, k)"
  using assms by (simp add: queue_insert_def Let_def)

text \<open>An append or a prepend does what the reference does.\<close>

lemma queue_put_store:
  assumes k: "kernel_inv k" and q: "queue_inv queue k nodes" and Nil: "waitqs k (queue_wait_q queue) = []"
    and fn: "fresh_node alloc node k nodes"
    and node: "node = (if alloc then the malloced else d)" "alloc \<Longrightarrow> malloced \<noteq> None"
    and p: "queue_insert malloced NULL d alloc app queue k = (r, queue', k')"
  obtains nodes' where "kernel_inv k'" "queue_inv queue' k' nodes'"
    "(r, None, queue_abs queue' k' nodes') = queue_put_spec True app d (queue_abs queue k nodes)"
proof -
  define m0 where "m0 = (if alloc then sys_sfnode_init node 1 ((pmem k)(anode_data node := d)) else sys_sfnode_init node 0 (pmem k))"
  obtain l m1 where i: "genlist_insert z_sfnode_next_peek z_sfnode_next_set (if app then tail (data_q queue) else NULL)
      node (data_q queue) m0 = (l, m1)" by (metis prod.exhaust)
  have e: "r = 0" "queue' = queue\<lparr>data_q := l\<rparr>" "k' = z_reschedule (k\<lparr>pmem := m1\<rparr>)"
    using p queue_insert_store [OF Nil node m0_def i] by auto
  let ?ns = "if app then nodes @ [node] else node # nodes"
  have r: "gen_rep z_sfnode_next_peek sfnode_ok (data_q queue) (pmem k) nodes" using q by (simp add: queue_inv_def)
  have a: "anode_data x \<notin> set nodes \<and> anode_data x \<noteq> node"
    if "x \<in> set nodes" "sys_sfnode_flags_get x (pmem k) \<noteq> 0" for x
    using that q fn by (simp add: queue_inv_def fresh_node_def)
  have nd: "sfnode_ok node" "node \<notin> set nodes" "alloc \<Longrightarrow> anode_data node \<notin> set nodes" "alloc \<Longrightarrow> anode_data node \<noteq> node"
    using fn by (simp_all add: fresh_node_def anode_data_def)
  have ne: "anode_data x \<noteq> anode_data node" if "x \<in> set nodes" for x using that nd(2) by (auto simp: anode_data_def)
  have dn: "alloc \<or> d = node" using node(1) by simp
  note st = store_node [OF r a nd ne m0_def dn i]
  have "kernel_inv (k\<lparr>pmem := m1\<rparr>)" using k by simp
  then have "kernel_inv k'" unfolding e by (intro pre_reschedule kernel_inv_pre)
  moreover have "queue_inv queue' k' ?ns" using st(1,4) Nil by (simp add: e queue_inv_def)
  moreover have "(r, None, queue_abs queue' k' ?ns) = queue_put_spec True app d (queue_abs queue k nodes)"
    using st(2,3) Nil by (simp add: e queue_abs_def queue_put_spec_def)
  ultimately show ?thesis by (rule that)
qed

lemma queue_put_abs:
  assumes k: "kernel_inv k" and q: "queue_inv queue k nodes"
    and n: "\<And>node. waitqs k (queue_wait_q queue) = [] \<Longrightarrow> node_for alloc malloced d = Some node \<Longrightarrow> fresh_node alloc node k nodes"
    and p: "queue_insert malloced NULL d alloc app queue k = (r, queue', k')"
  obtains nodes' dl where "kernel_inv k'" "queue_inv queue' k' nodes'" "pred_option (queue_gets k') dl"
    "(r, dl, queue_abs queue' k' nodes') = queue_put_spec (node_for alloc malloced d \<noteq> None) app d (queue_abs queue k nodes)"
proof (cases "waitqs k (queue_wait_q queue)")
  case (Cons t ts)
  note h = handoff_data [OF k Cons refl, of 0 d]
  have e: "r = 0" "queue' = queue" "k' = z_reschedule (handed t 0 d k)" using p queue_insert_waiter [OF Cons] by auto
  have "nodes = []" using q Cons by (simp add: queue_inv_def)
  moreover have "pmem k' = pmem k" using h(3) by (simp add: e env_def)
  moreover have "queue_gets k' (t, d)" using h by (simp add: e queue_gets_def k_queue_get_resume_def)
  ultimately show ?thesis
    using that [of "[]" "Some (t, d)"] q h(1,2) Cons by (simp add: e queue_inv_def queue_abs_def queue_put_spec_def)
next
  case Nil
  show ?thesis
  proof (cases "node_for alloc malloced d")
    case None
    then have "alloc" "malloced = None" by (auto simp: node_for_def split: if_splits)
    then have "r = - ENOMEM" "queue' = queue" "k' = k" using p queue_insert_enomem [OF Nil] by auto
    then show ?thesis using that [of nodes None] k q Nil None by (simp add: queue_abs_def queue_put_spec_def)
  next
    case (Some x)
    then have x: "x = (if alloc then the malloced else d)" "alloc \<Longrightarrow> malloced \<noteq> None"
      by (auto simp: node_for_def split: if_splits)
    obtain ns where "kernel_inv k'" "queue_inv queue' k' ns"
      "(r, None, queue_abs queue' k' ns) = queue_put_spec True app d (queue_abs queue k nodes)"
      by (rule queue_put_store [OF k q Nil n [OF Nil Some] x p])
    then show ?thesis using that [of ns None] Some by simp
  qed
qed

lemma pend_curr_pmem [simp]: "pmem (z_pend_curr w n k) = pmem k"
  using z_pend_curr_frame [of w n k] by (simp add: env_def)

lemma queue_get_abs:
  assumes k: "kernel_inv k" and q: "queue_inv queue k nodes" and run: "timeout = K_NO_WAIT \<or> running k"
    and g: "z_impl_k_queue_get timeout queue k = (r, queue', k')"
  obtains nodes' where "kernel_inv k'" "queue_inv queue' k' nodes'"
    "((case r of Done (d, _) \<Rightarrow> Done d | Blocked \<Rightarrow> Blocked), queue_abs queue' k' nodes') =
       queue_get_spec (threads k) (current k) (timeout \<noteq> K_NO_WAIT) (queue_abs queue k nodes)"
    "r = Blocked \<longrightarrow> k_queue_get_resume (k'\<lparr>current := current k\<rparr>) = NULL"
proof (cases nodes)
  case Nil
  have e: "genlist_is_empty (data_q queue)"
    using q Nil sf.rep_empty [of "data_q queue" "pmem k" nodes] by (simp add: queue_inv_def)
  show ?thesis
  proof (cases "timeout = K_NO_WAIT")
    case True
    then show ?thesis
      using that [of "[]"] g k q e Nil by (auto simp: z_impl_k_queue_get_def queue_abs_def queue_get_spec_def)
  next
    case False
    then have f: "r = Blocked" "queue' = queue" "k' = z_pend_curr (queue_wait_q queue) timeout k"
      using g e by (auto simp: z_impl_k_queue_get_def)
    have "kernel_inv k'" unfolding f using k run False by (intro pend_curr_kernel_inv) simp_all
    moreover have "k_queue_get_resume (k'\<lparr>current := current k\<rparr>) = NULL"
      using sch.pend_default_retval [of "queue_wait_q queue" timeout k] by (simp add: f k_queue_get_resume_def)
    ultimately show ?thesis
      using that [of "[]"] q Nil False
      by (simp add: f queue_inv_def queue_abs_def queue_get_spec_def z_pend_curr_waitqs)
  qed
next
  case (Cons x xs)
  have r: "gen_rep z_sfnode_next_peek sfnode_ok (data_q queue) (pmem k) (x # xs)"
    using q Cons by (simp add: queue_inv_def)
  obtain node l where i: "genlist_get_not_empty z_sfnode_next_peek (data_q queue) (pmem k) = (node, l)"
    by (metis prod.exhaust)
  note gr = sf.get_rep [OF r i]
  have e: "r = Done (z_queue_node_peek x True (pmem k))" "queue' = queue\<lparr>data_q := l\<rparr>" "k' = k"
    using g i gr(1) sf.rep_empty [OF r] by (auto simp: z_impl_k_queue_get_def)
  have "fst (z_queue_node_peek x True (pmem k)) = node_data (pmem k) x"
    by (simp add: node_data_def z_queue_node_peek_def)
  moreover have "queue_inv queue' k' xs" using q gr(2) Cons by (auto simp: queue_inv_def e)
  ultimately show ?thesis
    using that [of xs] k Cons
    by (simp add: e queue_abs_def queue_get_spec_def case_prod_beta)
qed

text \<open>
  Serving the waiting threads with a list that is long enough: every thread gets the node at its
  position, and the rest of the list is left.
\<close>

lemma append_loop_serves:
  assumes "kernel_pre k" "waitqs k w = ts" "gen_segment z_snode_next_peek (\<lambda>x. x \<noteq> NULL) (pmem k) h xs NULL"
    "length ts \<le> length xs" "length ts < n" "z_unpend_first_thread w k = (t, k1)" "append_list_loop n w h t k1 = (h', k')"
  shows "kernel_pre k' \<and> waitqs k' = (waitqs k)(w := []) \<and> env k' = env k \<and> current k' = current k \<and>
    gen_segment z_snode_next_peek (\<lambda>x. x \<noteq> NULL) (pmem k) h' (drop (length ts) xs) NULL \<and>
    (\<forall>x. x \<notin> set ts \<longrightarrow> threads k' x = threads k x) \<and>
    (\<forall>i < length ts. swap_retval (threads k' (ts ! i)) = 0 \<and> swap_data (threads k' (ts ! i)) = xs ! i)"
  using assms
proof (induction ts arbitrary: k h xs n t k1)
  case Nil
  then have "t = None" "k1 = k" by (auto simp: z_unpend_first_thread_def z_priq_dumb_best_def)
  then show ?case using Nil by (cases n) (auto simp: fun_eq_iff)
next
  case (Cons s ts)
  obtain m where n: "n = Suc m" "length ts < m" using Cons.prems(5) by (cases n) auto
  obtain x ys where xs: "xs = x # ys" "h = x" "x \<noteq> NULL" using Cons.prems(3,4) by (cases xs) auto
  let ?k = "handed s 0 x k"
  let ?f = "\<lambda>th. th\<lparr>swap_retval := 0, swap_data := x\<rparr>"
  have f: "swap_fn ?f" by simp
  note hp = woken_with_props [OF kernel_preD(1) [OF Cons.prems(1)] Cons.prems(2) f, folded handed_def]
  have e: "t = Some s" "prepare_thread_to_run s h k1 = ?k"
    using Cons.prems(6) unpend_first_eq [OF Cons.prems(2)]
    by (auto simp: prepare_thread_to_run_def z_ready_thread_def handed_eq xs(2))
  have pm: "pmem ?k = pmem k" using hp(4) by (simp add: env_def)
  obtain t2 k2 where u: "z_unpend_first_thread w ?k = (t2, k2)" by (metis prod.exhaust)
  have pre: "kernel_pre ?k" unfolding handed_def by (rule woken_with_pre [OF Cons.prems(1,2) f])
  have l: "append_list_loop m w (pmem k x) t2 k2 = (h', k')"
    using Cons.prems(7) e u xs pm by (simp add: n)
  have seg: "gen_segment z_snode_next_peek (\<lambda>x. x \<noteq> NULL) (pmem ?k) (pmem k x) ys NULL"
    using Cons.prems(3) xs pm z_snode_next_peek_def [of x "pmem k"] by simp
  have wq: "waitqs ?k w = ts" "length ts \<le> length ys" using hp(2) Cons.prems(4) xs by simp_all
  note IH = Cons.IH [OF pre wq(1) seg wq(2) n(2) u l]
  have d: "distinct (s # ts)" using inv_butD(1) [OF kernel_preD(1) [OF Cons.prems(1)]] Cons.prems(2)
    sch.waiters_distinct [OF kernel_preD(1) [OF Cons.prems(1)], of w] by simp
  have "swap_retval (threads k' s) = 0" "swap_data (threads k' s) = x"
    using IH d handed_values [where v = 0 and d = x and t = s and k = k] by (simp_all add: handed_def)
  then show ?case
    using IH hp d xs pm by (auto simp: nth_Cons split: nat.split)
qed

text \<open>A plain list of aligned nodes is a list with flags whose flags are 0.\<close>

lemma plain_segment:
  assumes "gen_segment z_snode_next_peek (\<lambda>x. x \<noteq> NULL) m h xs NULL" "\<And>x. x \<in> set xs \<Longrightarrow> sfnode_ok x"
  shows "gen_segment z_sfnode_next_peek sfnode_ok m h xs NULL \<and> (\<forall>x \<in> set xs. sys_sfnode_flags_get x m = 0)"
  using assms
proof (induction xs arbitrary: h)
  case (Cons x xs)
  have s: "h = x" "gen_segment z_snode_next_peek (\<lambda>x. x \<noteq> NULL) m (m x) xs NULL"
    using Cons.prems(1) z_snode_next_peek_def [of x m] by simp_all
  have "m x mod 4 = 0" using s(2) Cons.prems(2) by (cases xs) (auto simp: sfnode_ok_def)
  then have "z_sfnode_next_peek x m = m x" "sys_sfnode_flags_get x m = 0"
    by (simp_all add: z_sfnode_next_peek_def sys_sfnode_flags_get_def and_mask)
  then show ?case using Cons.IH [OF s(2)] Cons.prems(2) s(1) by simp
qed simp

section \<open>Properties\<close>

text \<open>
  C31. Appending, prepending and getting implement a list of data with a queue of waiting threads, on
  the linked nodes in memory and both for data queued by its own link and for allocated nodes. A datum
  given while threads wait goes to the first of them: that thread waits no more, and its get returns
  the datum. With no thread waiting, an insertion that needs a node and gets no memory returns
  \<open>-ENOMEM\<close> and changes nothing; every other one stores the datum and returns 0. A get that waits returns
  \<open>NULL\<close> unless something is put for it. The linked list stays well formed throughout.
\<close>

theorem queue_refines_list:
  assumes "kernel_inv k" "queue_inv queue k nodes" "timeout = K_NO_WAIT \<or> running k"
    and "\<And>node. waitqs k (queue_wait_q queue) = [] \<Longrightarrow> node_for alloc malloced d = Some node \<Longrightarrow> fresh_node alloc node k nodes"
    and "queue_insert malloced NULL d alloc app queue k = (r1, q1, k1)" "z_impl_k_queue_get timeout queue k = (r2, q2, k2)"
  shows "(\<exists>nodes1 dl. queue_inv q1 k1 nodes1 \<and> pred_option (queue_gets k1) dl \<and>
       (r1, dl, queue_abs q1 k1 nodes1) =
         queue_put_spec (node_for alloc malloced d \<noteq> None) app d (queue_abs queue k nodes)) \<and>
    (\<exists>nodes2. queue_inv q2 k2 nodes2 \<and>
       ((case r2 of Done (x, _) \<Rightarrow> Done x | Blocked \<Rightarrow> Blocked), queue_abs q2 k2 nodes2) =
         queue_get_spec (threads k) (current k) (timeout \<noteq> K_NO_WAIT) (queue_abs queue k nodes)) \<and>
    (r2 = Blocked \<longrightarrow> k_queue_get_resume (k2\<lparr>current := current k\<rparr>) = NULL) \<and> kernel_inv k1 \<and> kernel_inv k2"
proof -
  obtain n1 dl where "kernel_inv k1" "queue_inv q1 k1 n1" "pred_option (queue_gets k1) dl"
    "(r1, dl, queue_abs q1 k1 n1) = queue_put_spec (node_for alloc malloced d \<noteq> None) app d (queue_abs queue k nodes)"
    by (rule queue_put_abs [OF assms(1,2,4,5)])
  moreover obtain n2 where "kernel_inv k2" "queue_inv q2 k2 n2"
    "((case r2 of Done (x, _) \<Rightarrow> Done x | Blocked \<Rightarrow> Blocked), queue_abs q2 k2 n2) =
         queue_get_spec (threads k) (current k) (timeout \<noteq> K_NO_WAIT) (queue_abs queue k nodes)"
    "r2 = Blocked \<longrightarrow> k_queue_get_resume (k2\<lparr>current := current k\<rparr>) = NULL"
    by (rule queue_get_abs [OF assms(1-3,6)])
  ultimately show ?thesis by blast
qed

definition sample_queue :: k_queue where
  "sample_queue = \<lparr>data_q = genlist_init, queue_wait_q = ObjQ 0\<rparr>"

lemma sample_queue_inv: "queue_inv sample_queue k []"
  by (simp add: queue_inv_def sample_queue_def sf.rep_init)

theorem queue_refines_list_witness:
  "(\<exists>q k nodes. queue_insert (Some 400) NULL 42 True True sample_queue with_helper = (0, q, k) \<and>
     queue_inv q k nodes \<and> queue_abs q k nodes = ([42], [])) \<and>
   (\<exists>q k. queue_insert None NULL 42 True True sample_queue main_waits = (0, q, k) \<and> k_queue_get_resume (k\<lparr>current := 5\<rparr>) = 42)"
proof
  obtain r1 q1 k1 r2 q2 k2 where p: "queue_insert (Some 400) NULL 42 True True sample_queue with_helper = (r1, q1, k1)"
    "z_impl_k_queue_get K_NO_WAIT sample_queue with_helper = (r2, q2, k2)" by (metis prod.exhaust)
  have n: "fresh_node True node with_helper []" if "node_for True (Some 400) 42 = Some node" for node
    using that by (auto simp: fresh_node_def sfnode_ok_def node_for_def)
  have s: "queue_put_spec (node_for True (Some 400) 42 \<noteq> None) True 42 (queue_abs sample_queue with_helper []) = (0, None, [42], [])"
    by (simp add: queue_put_spec_def queue_abs_def sample_queue_def helper_facts node_for_def)
  have "\<exists>nodes1 dl. queue_inv q1 k1 nodes1 \<and> pred_option (queue_gets k1) dl \<and> (r1, dl, queue_abs q1 k1 nodes1) = (0, None, [42], [])"
    using queue_refines_list [OF helper_run(1) sample_queue_inv _ n p, THEN conjunct1] unfolding s by simp
  with p(1) show "\<exists>q k nodes. queue_insert (Some 400) NULL 42 True True sample_queue with_helper = (0, q, k) \<and>
     queue_inv q k nodes \<and> queue_abs q k nodes = ([42], [])" by auto
next
  obtain r1 q1 k1 r2 q2 k2 where p: "queue_insert None NULL 42 True True sample_queue main_waits = (r1, q1, k1)"
    "z_impl_k_queue_get K_NO_WAIT sample_queue main_waits = (r2, q2, k2)" by (metis prod.exhaust)
  have n: "fresh_node True node main_waits []" if "node_for True None 42 = Some node" for node
    using that by (simp add: node_for_def)
  have s: "queue_put_spec (node_for True None 42 \<noteq> None) True 42 (queue_abs sample_queue main_waits []) = (0, Some (5, 42), [], [])"
    by (simp add: queue_put_spec_def queue_abs_def sample_queue_def main_waits_facts node_for_def)
  have "\<exists>nodes1 dl. queue_inv q1 k1 nodes1 \<and> pred_option (queue_gets k1) dl \<and> (r1, dl, queue_abs q1 k1 nodes1) = (0, Some (5, 42), [], [])"
    using queue_refines_list [OF main_waits_facts(1) sample_queue_inv _ n p, THEN conjunct1] unfolding s by simp
  with p(1) show "\<exists>q k. queue_insert None NULL 42 True True sample_queue main_waits = (0, q, k) \<and>
     k_queue_get_resume (k\<lparr>current := 5\<rparr>) = 42" by (auto simp: queue_gets_def)
qed

lemma append_list_serves:
  assumes k: "kernel_inv k" and q: "queue_inv queue k nodes"
    and xs: "gen_segment z_snode_next_peek (\<lambda>x. x \<noteq> NULL) (pmem k) h xs NULL" "\<And>x. x \<in> set xs \<Longrightarrow> sfnode_ok x"
      "distinct xs" "xs \<noteq> []" "set xs \<inter> set nodes = {}"
      "\<And>x. x \<in> set nodes \<Longrightarrow> sys_sfnode_flags_get x (pmem k) \<noteq> 0 \<Longrightarrow> anode_data x \<notin> set xs"
    and len: "ts = waitqs k (queue_wait_q queue)" "length ts \<le> length xs"
    and p: "k_queue_append_list h (last xs) queue k = (r, queue', k')"
  shows "r = 0" "kernel_inv k'" "queue_inv queue' k' (nodes @ drop (length ts) xs)"
    "i < length ts \<Longrightarrow> swap_retval (threads k' (ts ! i)) = 0 \<and> swap_data (threads k' (ts ! i)) = xs ! i"
proof -
  let ?w = "queue_wait_q queue"
  let ?rest = "drop (length ts) xs"
  have nn: "h \<noteq> NULL" "last xs \<noteq> NULL"
    using xs(1,4) xs(2) [of "last xs"] by (cases xs; auto simp: sfnode_ok_def)+
  obtain t k1 where u: "z_unpend_first_thread ?w k = (t, k1)" by (metis prod.exhaust)
  obtain h1 k2 where l: "append_list_loop (Suc (length ts)) ?w h t k1 = (h1, k2)" by (metis prod.exhaust)
  note S = append_loop_serves [OF kernel_inv_pre [OF k] len(1) [symmetric] xs(1) len(2) lessI u l]
  have pm: "pmem k2 = pmem k" using S by (simp add: env_def)
  have seg: "gen_segment z_sfnode_next_peek sfnode_ok (pmem k) h1 ?rest NULL"
    "\<And>x. x \<in> set ?rest \<Longrightarrow> sys_sfnode_flags_get x (pmem k) = 0"
    using plain_segment [of "pmem k" h1 ?rest] S xs(2) by (meson in_set_dropD)+
  obtain l' m where a: "genlist_append_list z_sfnode_next_set h1 (last xs) (data_q queue) (pmem k) = (l', m)"
    by (metis prod.exhaust)
  have r: "gen_rep z_sfnode_next_peek sfnode_ok (data_q queue) (pmem k) nodes" using q by (simp add: queue_inv_def)
  have h1: "h1 = NULL \<longleftrightarrow> ?rest = []" by (rule sf.segment_NULL [OF seg(1)])
  define m' where "m' = (if h1 = NULL then pmem k else m)"
  have pmk: "k2\<lparr>pmem := pmem k\<rparr> = k2" using pm by (cases k2) simp
  have e: "r = 0" "queue' = queue\<lparr>data_q := if h1 = NULL then data_q queue else l'\<rparr>"
    "k' = z_reschedule (k2\<lparr>pmem := m'\<rparr>)"
    using p nn u l a pm by (auto simp: k_queue_append_list_def len(1) m'_def pmk simp del: append_list_loop.simps split: if_splits)
  show "r = 0" by (rule e)
  have pre: "kernel_pre (k2\<lparr>pmem := m'\<rparr>)" using S by simp
  then show "kernel_inv k'" unfolding e by (rule pre_reschedule)
  show "swap_retval (threads k' (ts ! i)) = 0 \<and> swap_data (threads k' (ts ! i)) = xs ! i" if "i < length ts"
  proof -
    have "ts ! i \<in> set (waitqs (k\<lparr>pmem := m'\<rparr>) ?w)" "kernel_inv (k\<lparr>pmem := m'\<rparr>)" using that len(1) k by simp_all
    moreover have "env (k2\<lparr>pmem := m'\<rparr>) = env (k\<lparr>pmem := m'\<rparr>)" using S by (simp add: env_def)
    ultimately show ?thesis
      using reschedule_waiter [of "k\<lparr>pmem := m'\<rparr>" "ts ! i" ?w "k2\<lparr>pmem := m'\<rparr>"] S that by (simp add: e)
  qed
  have rep: "gen_rep z_sfnode_next_peek sfnode_ok (data_q queue') m' (nodes @ ?rest)"
  proof (cases "?rest = []")
    case True
    then show ?thesis using r h1 by (simp add: e(2) m'_def)
  next
    case False
    have "distinct ?rest" "last xs = last ?rest" "set nodes \<inter> set ?rest = {}"
      using xs(3,5) False set_drop_subset [of "length ts" xs] by auto
    from sf.append_list_rep [OF r seg(1) this(1,2) False this(3) a] show ?thesis
      using False h1 by (simp add: e(2) m'_def)
  qed
  have fl: "sys_sfnode_flags_get x m' = sys_sfnode_flags_get x (pmem k)" for x
    using a sf.rep_ok [OF rep, of h1] seg(1) h1
    by (cases ?rest) (auto simp: m'_def genlist_append_list_def sfnode_set_flags split: if_splits)
  have "anode_data x \<notin> set (nodes @ ?rest)" if "x \<in> set (nodes @ ?rest)" "sys_sfnode_flags_get x m' \<noteq> 0" for x
    using that seg(2) [of x] xs(6) [of x] q in_set_dropD [of "anode_data x" "length ts" xs]
    unfolding fl queue_inv_def by auto
  then show "queue_inv queue' k' (nodes @ ?rest)"
    using rep S by (simp add: queue_inv_def e)
qed

lemma handed_pre:
  assumes "kernel_pre k" "waitqs k w = t # ts"
  shows "kernel_pre (handed t v d k)" "waitqs (handed t v d k) = (waitqs k)(w := ts)" "env (handed t v d k) = env k"
    "current (handed t v d k) = current k" "x \<noteq> t \<Longrightarrow> threads (handed t v d k) x = threads k x"
proof -
  have f: "swap_fn (\<lambda>th. th\<lparr>swap_retval := v, swap_data := d\<rparr>)" by simp
  show "kernel_pre (handed t v d k)" unfolding handed_def by (rule woken_with_pre [OF assms f])
  show "waitqs (handed t v d k) = (waitqs k)(w := ts)" "env (handed t v d k) = env k"
    "current (handed t v d k) = current k" "x \<noteq> t \<Longrightarrow> threads (handed t v d k) x = threads k x"
    using woken_with_props [OF kernel_preD(1) [OF assms(1)] assms(2) f] by (simp_all add: handed_def)
qed

lemma reschedule_deadline:
  "timeouts_inv (tmo k) \<Longrightarrow> deadline (tmo (z_reschedule k)) (ThreadTo t) = deadline (tmo k) (ThreadTo t)"
  by (simp add: z_reschedule_def do_swap_tmo)

lemma reschedule_not_current:
  assumes "cache k \<noteq> t" "current k \<noteq> t" "\<not> metairq_tracked k"
  shows "current (z_reschedule k) \<noteq> t"
  using assms swap_current [of k] by (auto simp: z_reschedule_def)

text \<open>A list that is too short for the waiting threads: the first thread without an item is taken off the queue.\<close>

lemma append_list_loses:
  assumes k: "kernel_inv k" and q: "waitqs k (queue_wait_q queue) = t1 # t2 # ts"
    and st: "thread_state (threads k t2) = {THREAD_PENDING}" "t2 \<noteq> current k"
    and x: "x \<noteq> NULL" "pmem k x = NULL" and p: "k_queue_append_list x x queue k = (r, queue', k')"
  shows "z_is_thread_ready k' t2" "t2 \<notin> set (runq k')" "t2 \<notin> set (waitqs k' w)" "current k' \<noteq> t2"
proof -
  let ?w = "queue_wait_q queue"
  let ?k1 = "handed t1 0 x k"
  note H = handed_pre [OF kernel_inv_pre [OF k] q, where v = 0 and d = x]
  note P = kernel_preD [OF H(1)]
  have q1: "waitqs ?k1 ?w = t2 # ts" using H(2) by simp
  have d: "t1 \<noteq> t2" "t2 \<notin> set ts" using sch.waiters_distinct [OF kernel_invD(1) [OF k], of ?w] q by auto
  obtain k2 where k2: "z_unpend_first_thread ?w ?k1 = (Some t2, k2)" "sched_inv_but {t2} k2" "waitqs k2 = (waitqs ?k1)(?w := ts)"
    "current k2 = current ?k1" "env k2 = env ?k1" "runq k2 = runq ?k1"
    "threads k2 t2 = (threads ?k1 t2)\<lparr>thread_state := thread_state (threads ?k1 t2) - {THREAD_PENDING}, pended_on := None\<rparr>"
    "deadline (tmo k2) (ThreadTo t2) = None"
    using unpend_first_Some [OF P(1) q1] by metis
  have c2: "cache k2 = cache ?k1" using k2(1) unpend_first_eq [OF q1] by auto
  have pm: "pmem ?k1 = pmem k" using H(3) by (simp add: env_def)
  have prep: "prepare_thread_to_run t1 x (snd (z_abort_thread_timeout t1 (unpend_thread_no_timeout t1 k))) = ?k1"
    by (simp add: prepare_thread_to_run_def z_ready_thread_def handed_eq)
  have loop: "append_list_loop (Suc n) ?w x (Some t1) (snd (z_abort_thread_timeout t1 (unpend_thread_no_timeout t1 k))) =
      append_list_loop n ?w NULL (Some t2) k2" for n
    using x k2(1) pm by (simp add: prep)
  have "append_list_loop (Suc (length (t1 # t2 # ts))) ?w x (Some t1)
      (snd (z_abort_thread_timeout t1 (unpend_thread_no_timeout t1 k))) = (NULL, k2)"
    unfolding loop by simp
  then have k': "k' = z_reschedule k2"
    using p x(1) unpend_first_eq [OF q] q by (simp add: k_queue_append_list_def del: append_list_loop.simps)
  have idle: "t2 \<noteq> idle_thread ?k1" using waiter_not_idle [OF P(1), of t2 ?w] q1 by simp
  have "\<not> z_is_thread_ready ?k1 t2" using st(1) H(5) [of t2] d(1) by (simp add: ready_iff)
  then have nr: "t2 \<notin> runnable ?k1" using runnable_ready [OF P(1)] by simp
  then show "t2 \<notin> set (runq k')" using k2(6) by (simp add: k' runnable_def)
  have "cache k2 \<noteq> t2" using cache_runnable [OF P(5)] nr c2 by auto
  moreover have "\<not> metairq_tracked k2" using P(4) tracked_env [OF k2(5)] by simp
  ultimately show "current k' \<noteq> t2"
    unfolding k' using k2(4) H(4) st(2) by (intro reschedule_not_current) simp_all
  have "threads k' t2 = threads k2 t2"
    unfolding k' using reschedule_waiter [OF k, of t2 ?w k2] q k2(4,5) H(3,4) by simp
  moreover have "deadline (tmo k') (ThreadTo t2) = None"
    using k2(8) reschedule_deadline [OF inv_butD(2) [OF k2(2)], of t2] by (simp add: k')
  ultimately show "z_is_thread_ready k' t2"
    using k2(7) H(5) [of t2] d(1) st(1) by (simp add: ready_iff)
  show "t2 \<notin> set (waitqs k' w)"
    using k2(3) d(2) sch.waiter_one_queue [OF P(1), of t2 ?w w] q1 by (auto simp: k')
qed

text \<open>
  Appending a list serves the waiting threads: when it has at least as many items as threads wait,
  every thread gets the item at its position with the result 0, and the remaining items are appended
  to the queue in their order.
\<close>

theorem queue_append_list_serves:
  assumes "kernel_inv k" "queue_inv queue k nodes"
    and "gen_segment z_snode_next_peek (\<lambda>x. x \<noteq> NULL) (pmem k) h xs NULL" "\<And>x. x \<in> set xs \<Longrightarrow> sfnode_ok x"
      "distinct xs" "xs \<noteq> []" "set xs \<inter> set nodes = {}"
      "\<And>x. x \<in> set nodes \<Longrightarrow> sys_sfnode_flags_get x (pmem k) \<noteq> 0 \<Longrightarrow> anode_data x \<notin> set xs"
    and "ts = waitqs k (queue_wait_q queue)" "length ts \<le> length xs"
    and "k_queue_append_list h (last xs) queue k = (r, queue', k')"
  shows "r = 0 \<and> kernel_inv k' \<and> queue_inv queue' k' (nodes @ drop (length ts) xs) \<and>
    (\<forall>i < length ts. swap_retval (threads k' (ts ! i)) = 0 \<and> swap_data (threads k' (ts ! i)) = xs ! i)"
  using append_list_serves [OF assms(1-11)] by simp

theorem queue_append_list_serves_witness:
  "\<exists>q k. k_queue_append_list 400 400 sample_queue main_waits = (0, q, k) \<and> swap_data (threads k 5) = 400"
proof -
  obtain r q k where p: "k_queue_append_list 400 (last [400]) sample_queue main_waits = (r, q, k)" by (metis prod.exhaust)
  have pm: "pmem main_waits = (\<lambda>_. 0)"
    using main_waits_facts(6) booted_facts by (simp add: env_def boot_image_def)
  have q: "[5] = waitqs main_waits (queue_wait_q sample_queue)" by (simp add: main_waits_facts sample_queue_def)
  have s: "gen_segment z_snode_next_peek (\<lambda>x. x \<noteq> NULL) (pmem main_waits) 400 [400] NULL"
    by (simp add: pm z_snode_next_peek_def)
  show ?thesis
    using queue_append_list_serves [OF main_waits_facts(1) sample_queue_inv s _ _ _ _ _ q _ p] p
    by (auto simp: sfnode_ok_def)
qed

text \<open>
  C32. Appending a list with fewer items than threads wait loses a thread. With two waiting threads and a
  single item the first thread gets it, but the second one is also taken off the wait queue and
  never made ready: it is pended nowhere, has no timeout, is not in the run queue and does not run.
\<close>

theorem queue_append_list_loses_waiter:
  assumes "kernel_inv k" "waitqs k (queue_wait_q queue) = t1 # t2 # ts"
    and "thread_state (threads k t2) = {THREAD_PENDING}" "t2 \<noteq> current k"
    and "x \<noteq> NULL" "pmem k x = NULL" "k_queue_append_list x x queue k = (r, queue', k')"
  shows "z_is_thread_ready k' t2 \<and> t2 \<notin> set (runq k') \<and> (\<forall>w. t2 \<notin> set (waitqs k' w)) \<and> current k' \<noteq> t2"
  using append_list_loses [OF assms] by simp

definition both_wait :: kernel where
  "both_wait = z_pend_curr (ObjQ 0) K_FOREVER main_waits"

theorem queue_append_list_loses_waiter_witness:
  "\<exists>r q k. k_queue_append_list 400 400 sample_queue both_wait = (r, q, k) \<and>
     z_is_thread_ready k 3 \<and> 3 \<notin> set (runq k) \<and> current k \<noteq> 3"
proof -
  obtain r q k where p: "k_queue_append_list 400 400 sample_queue both_wait = (r, q, k)" by (metis prod.exhaust)
  have i: "kernel_inv both_wait" unfolding both_wait_def by (rule pend_curr_kernel_inv) (rule main_waits_facts)+
  have th: "threads main_waits 3 = blank_thread\<lparr>prio := 5, thread_state := {THREAD_QUEUED}\<rparr>"
    "prio (threads main_waits 5) = 0"
    by (simp_all add: main_waits_def z_pend_curr_threads helper_facts)
  have q: "waitqs both_wait (queue_wait_q sample_queue) = [5, 3]"
    using th by (simp add: both_wait_def z_pend_curr_waitqs main_waits_facts sample_queue_def)
  have s: "thread_state (threads both_wait 3) = {THREAD_PENDING}"
    by (simp add: both_wait_def z_pend_curr_threads main_waits_facts th)
  have "env both_wait = env booted" by (simp add: both_wait_def main_waits_facts)
  then have e: "pmem both_wait 400 = NULL" "\<not> in_isr both_wait"
    using booted_facts by (simp_all add: env_def boot_image_def)
  have "3 \<noteq> current both_wait" using waiter_not_current [OF i e(2), of 3 "queue_wait_q sample_queue"] q by simp
  from queue_append_list_loses_waiter [OF i q s this _ e(1) p] p show ?thesis by auto
qed

end
