(* ===== verification/Mem_Slab.thy ===== *)
theory Mem_Slab
  imports Genlist Sched_Props
begin

text \<open>
  Memory slabs, \<open>kernel/mem_slab.c\<close>: blocks of one size in a buffer, the free ones linked through their
  first word (\<open>pmem\<close> of the kernel state, by byte address). \<open>CONFIG_MEM_SLAB_TRACE_MAX_UTILIZATION\<close> is on.
  The pointer of the loop that builds the free list is an \<open>int\<close>, so that stepping below the buffer does
  not wrap: the buffer does not lie within one block of address 0.
\<close>

section \<open>State and operations\<close>

record k_mem_slab =
  slab_wait_q :: wait_q
  slab_buffer :: addr
  block_size :: nat
  num_blocks :: nat
  num_used :: nat
  max_used :: nat
  free_list :: addr

record sys_memory_stats =
  free_bytes :: nat
  allocated_bytes :: nat
  max_allocated_bytes :: nat

partial_function (option) free_list_loop :: "int \<Rightarrow> int \<Rightarrow> int \<Rightarrow> addr \<Rightarrow> links \<Rightarrow> (addr \<times> links) option" where
  "free_list_loop buffer sz p fl m =
     (if p \<ge> buffer then free_list_loop buffer sz (p - sz) (nat p) (m(nat p := fl)) else Some (fl, m))"

definition create_free_list :: "k_mem_slab \<Rightarrow> links \<Rightarrow> (int \<times> k_mem_slab \<times> links) option" where
  "create_free_list slab m =
     (if (block_size slab OR slab_buffer slab) AND 3 \<noteq> 0 then Some (- EINVAL, slab, m)
      else map_option (\<lambda>(fl, m1). (0, slab\<lparr>free_list := fl\<rparr>, m1))
        (free_list_loop (int (slab_buffer slab)) (int (block_size slab))
          (int (slab_buffer slab) + int (block_size slab) * (int (num_blocks slab) - 1)) NULL m))"

fun init_mem_slab_obj_core_list :: "k_mem_slab list \<Rightarrow> links \<Rightarrow> (int \<times> k_mem_slab list \<times> links) option" where
  "init_mem_slab_obj_core_list [] m = Some (0, [], m)"
| "init_mem_slab_obj_core_list (slab # slabs) m =
     (case create_free_list slab m of
        None \<Rightarrow> None
      | Some (rc, slab1, m1) \<Rightarrow>
          if rc < 0 then Some (rc, slab1 # slabs, m1)
          else map_option (\<lambda>(rc2, slabs2, m2). (rc2, slab1 # slabs2, m2)) (init_mem_slab_obj_core_list slabs m1))"

definition k_mem_slab_init :: "addr \<Rightarrow> nat \<Rightarrow> nat \<Rightarrow> k_mem_slab \<Rightarrow> kernel \<Rightarrow> (int \<times> k_mem_slab \<times> kernel) option" where
  "k_mem_slab_init buffer sz n slab k =
     (let slab1 = slab\<lparr>num_blocks := n, block_size := sz, slab_buffer := buffer, num_used := 0, max_used := 0\<rparr>
      in case create_free_list slab1 (pmem k) of
          None \<Rightarrow> None
        | Some (rc, slab2, m) \<Rightarrow>
            if rc < 0 then Some (rc, slab2, k\<lparr>pmem := m\<rparr>)
            else Some (rc, slab2, k\<lparr>pmem := m, waitqs := (waitqs k)(slab_wait_q slab := [])\<rparr>))"

definition slab_ptr_is_good :: "k_mem_slab \<Rightarrow> addr \<Rightarrow> bool" where
  "slab_ptr_is_good slab ptr \<longleftrightarrow>
     (let offset = int ptr - int (slab_buffer slab)
      in offset \<ge> 0 \<and> offset < int (block_size slab * num_blocks slab) \<and> offset mod int (block_size slab) = 0)"

text \<open>The address stored through the argument \<open>mem\<close>, if any, comes with the return value.\<close>

definition k_mem_slab_alloc ::
  "k_ticks_t \<Rightarrow> k_mem_slab \<Rightarrow> kernel \<Rightarrow> (int \<times> addr) outcome \<times> k_mem_slab \<times> kernel" where
  "k_mem_slab_alloc timeout slab k =
     (if free_list slab \<noteq> NULL
      then (Done (0, free_list slab),
            slab\<lparr>free_list := pmem k (free_list slab), num_used := num_used slab + 1,
              max_used := max (num_used slab + 1) (max_used slab)\<rparr>, k)
      else if timeout = K_NO_WAIT then (Done (- ENOMEM, NULL), slab, k)
      else (Blocked, slab, z_pend_curr (slab_wait_q slab) timeout k))"

definition k_mem_slab_alloc_resume :: "kernel \<Rightarrow> int \<times> addr option" where
  "k_mem_slab_alloc_resume k =
     (let th = threads k (current k); result = swap_retval th
      in (result, if result = 0 then Some (swap_data th) else None))"

definition k_mem_slab_free :: "addr \<Rightarrow> k_mem_slab \<Rightarrow> kernel \<Rightarrow> k_mem_slab \<times> kernel" where
  "k_mem_slab_free mem slab k =
     (case (if free_list slab = NULL then z_unpend_first_thread (slab_wait_q slab) k else (None, k)) of
        (Some pending_thread, k1) \<Rightarrow>
          (slab, z_reschedule (z_ready_thread pending_thread
             (z_thread_return_value_set_with_data pending_thread 0 mem k1)))
      | (None, k1) \<Rightarrow>
          (slab\<lparr>free_list := mem, num_used := num_used slab - 1\<rparr>, k1\<lparr>pmem := (pmem k1)(mem := free_list slab)\<rparr>))"

definition k_mem_slab_runtime_stats_get :: "k_mem_slab option \<Rightarrow> sys_memory_stats option \<Rightarrow> int \<times> sys_memory_stats option" where
  "k_mem_slab_runtime_stats_get slab stats =
     (case (slab, stats) of
        (Some s, Some _) \<Rightarrow>
          (0, Some \<lparr>free_bytes = (num_blocks s - num_used s) * block_size s,
                   allocated_bytes = num_used s * block_size s, max_allocated_bytes = max_used s * block_size s\<rparr>)
      | _ \<Rightarrow> (- EINVAL, stats))"

definition k_mem_slab_runtime_stats_reset_max :: "k_mem_slab option \<Rightarrow> int \<times> k_mem_slab option" where
  "k_mem_slab_runtime_stats_reset_max slab =
     (case slab of None \<Rightarrow> (- EINVAL, None) | Some s \<Rightarrow> (0, Some (s\<lparr>max_used := num_used s\<rparr>)))"

section \<open>The free list\<close>

definition slab_block :: "k_mem_slab \<Rightarrow> nat \<Rightarrow> addr" where
  "slab_block slab i = slab_buffer slab + i * block_size slab"

definition slab_blocks :: "k_mem_slab \<Rightarrow> addr list" where
  "slab_blocks slab = map (slab_block slab) [0..<num_blocks slab]"

text \<open>The free blocks in the order of the list; the other blocks are the used ones.\<close>

definition slab_inv :: "k_mem_slab \<Rightarrow> kernel \<Rightarrow> addr list \<Rightarrow> bool" where
  "slab_inv slab k free \<longleftrightarrow>
     0 < slab_buffer slab \<and> 0 < block_size slab \<and> distinct free \<and> set free \<subseteq> set (slab_blocks slab) \<and>
     gen_segment z_snode_next_peek (\<lambda>x. x \<noteq> NULL) (pmem k) (free_list slab) free NULL \<and>
     num_used slab + length free = num_blocks slab \<and> num_used slab \<le> max_used slab \<and> max_used slab \<le> num_blocks slab \<and>
     (waitqs k (slab_wait_q slab) \<noteq> [] \<longrightarrow> free = [])"

lemma blocks_distinct: "0 < block_size slab \<Longrightarrow> distinct (slab_blocks slab)"
  by (auto simp: slab_blocks_def distinct_map inj_on_def slab_block_def)

lemma good_iff_block:
  assumes "0 < block_size slab"
  shows "slab_ptr_is_good slab ptr \<longleftrightarrow> ptr \<in> set (slab_blocks slab)"
proof
  assume g: "slab_ptr_is_good slab ptr"
  define d where "d = ptr - slab_buffer slab"
  have le: "slab_buffer slab \<le> ptr" using g by (simp add: slab_ptr_is_good_def Let_def)
  then have "int ptr - int (slab_buffer slab) = int d" by (simp add: d_def of_nat_diff)
  with g have "int d < int (block_size slab * num_blocks slab)" "int d mod int (block_size slab) = 0"
    unfolding slab_ptr_is_good_def Let_def by simp_all
  then have d: "slab_buffer slab \<le> ptr" "d < block_size slab * num_blocks slab" "d mod block_size slab = 0"
    using le by (simp_all only: of_nat_less_iff of_nat_mod [symmetric] of_nat_eq_0_iff)
  have "d div block_size slab < num_blocks slab" using d(2) by (simp add: less_mult_imp_div_less mult.commute)
  moreover have "ptr = slab_block slab (d div block_size slab)"
    using d(1,3) by (simp add: slab_block_def d_def) (metis add_diff_inverse_nat div_mult_mod_eq add.right_neutral not_less)
  ultimately show "ptr \<in> set (slab_blocks slab)" by (auto simp: slab_blocks_def)
next
  assume "ptr \<in> set (slab_blocks slab)"
  then obtain i where i: "i < num_blocks slab" "ptr = slab_block slab i" by (auto simp: slab_blocks_def)
  have "i * block_size slab < num_blocks slab * block_size slab" using i(1) assms by simp
  then show "slab_ptr_is_good slab ptr"
    using i(2) by (simp add: slab_ptr_is_good_def Let_def slab_block_def mult.commute flip: of_nat_mult)
qed

text \<open>The loop links the blocks from the last one down to the first.\<close>

lemma free_list_loop_links:
  assumes "0 < sz" "0 < buffer" "j \<le> n"
    and "gen_segment z_snode_next_peek (\<lambda>x. x \<noteq> NULL) m fl (map (\<lambda>i. buffer + i * sz) [j..<n]) NULL"
  shows "\<exists>fl' m'. free_list_loop (int buffer) (int sz) (int buffer + int sz * (int j - 1)) fl m = Some (fl', m') \<and>
    gen_segment z_snode_next_peek (\<lambda>x. x \<noteq> NULL) m' fl' (map (\<lambda>i. buffer + i * sz) [0..<n]) NULL \<and>
    (\<forall>a. a \<notin> set (map (\<lambda>i. buffer + i * sz) [0..<n]) \<longrightarrow> m' a = m a)"
  using assms(3,4)
proof (induction j arbitrary: fl m)
  case 0
  then show ?case using assms(1) by (subst free_list_loop.simps) simp
next
  case (Suc j)
  let ?p = "buffer + j * sz"
  let ?m = "m(?p := fl)"
  have p: "int buffer + int sz * (int (Suc j) - 1) = int ?p" by (simp add: algebra_simps)
  have nt: "nat (int buffer + int j * int sz) = ?p" by (metis nat_int of_nat_add of_nat_mult)
  have step: "free_list_loop (int buffer) (int sz) (int buffer + int sz * (int (Suc j) - 1)) fl m =
      free_list_loop (int buffer) (int sz) (int buffer + int sz * (int j - 1)) ?p ?m"
    unfolding p by (subst free_list_loop.simps) (simp add: algebra_simps nt)
  have "?p \<notin> set (map (\<lambda>i. buffer + i * sz) [Suc j..<n])" using assms(1) by auto
  then have "gen_segment z_snode_next_peek (\<lambda>x. x \<noteq> NULL) ?m fl (map (\<lambda>i. buffer + i * sz) [Suc j..<n]) NULL"
    using sl.segment_set [of ?p _ fl m] Suc.prems(2) by (simp add: z_snode_next_set_def)
  moreover have "[j..<n] = j # [Suc j..<n]" using Suc.prems(1) by (simp add: upt_conv_Cons)
  ultimately have "gen_segment z_snode_next_peek (\<lambda>x. x \<noteq> NULL) ?m ?p (map (\<lambda>i. buffer + i * sz) [j..<n]) NULL"
    using assms(2) z_snode_next_peek_def [of ?p ?m] by simp
  from Suc.IH [OF Suc_leD [OF Suc.prems(1)] this] obtain fl' m' where r:
    "free_list_loop (int buffer) (int sz) (int buffer + int sz * (int j - 1)) ?p ?m = Some (fl', m')"
    "gen_segment z_snode_next_peek (\<lambda>x. x \<noteq> NULL) m' fl' (map (\<lambda>i. buffer + i * sz) [0..<n]) NULL"
    "\<forall>a. a \<notin> set (map (\<lambda>i. buffer + i * sz) [0..<n]) \<longrightarrow> m' a = ?m a" by blast
  have "?p \<in> set (map (\<lambda>i. buffer + i * sz) [0..<n])" using Suc.prems(1) by auto
  then have "\<forall>a. a \<notin> set (map (\<lambda>i. buffer + i * sz) [0..<n]) \<longrightarrow> m' a = m a" using r(3) by (metis fun_upd_apply)
  with r(1,2) show ?case unfolding step by blast
qed

lemma create_free_list_blocks:
  assumes "0 < block_size slab" "0 < slab_buffer slab" "(block_size slab OR slab_buffer slab) AND 3 = 0"
  obtains fl m' where "create_free_list slab m = Some (0, slab\<lparr>free_list := fl\<rparr>, m')"
    "gen_segment z_snode_next_peek (\<lambda>x. x \<noteq> NULL) m' fl (slab_blocks slab) NULL"
    "\<And>a. a \<notin> set (slab_blocks slab) \<Longrightarrow> m' a = m a"
proof -
  have b: "slab_blocks slab = map (\<lambda>i. slab_buffer slab + i * block_size slab) [0..<num_blocks slab]"
    by (simp add: slab_blocks_def slab_block_def)
  from free_list_loop_links [OF assms(1,2), of "num_blocks slab" "num_blocks slab" m NULL]
  obtain fl m' where "free_list_loop (int (slab_buffer slab)) (int (block_size slab))
      (int (slab_buffer slab) + int (block_size slab) * (int (num_blocks slab) - 1)) NULL m = Some (fl, m')"
    "gen_segment z_snode_next_peek (\<lambda>x. x \<noteq> NULL) m' fl (slab_blocks slab) NULL"
    "\<forall>a. a \<notin> set (slab_blocks slab) \<longrightarrow> m' a = m a" unfolding b by auto
  then show ?thesis using that assms(3) by (simp add: create_free_list_def)
qed

section \<open>The contract\<close>

text \<open>The reference: the free blocks as a stack, and the threads that wait for a block.\<close>

definition slab_alloc_spec :: "(tid \<Rightarrow> k_thread) \<Rightarrow> tid \<Rightarrow> bool \<Rightarrow> addr list \<times> tid list \<Rightarrow>
    (int \<times> addr) outcome \<times> addr list \<times> tid list" where
  "slab_alloc_spec th me may_wait a =
     (case a of (x # xs, q) \<Rightarrow> (Done (0, x), xs, q)
      | ([], q) \<Rightarrow> if may_wait then (Blocked, [], z_priq_dumb_add th q me) else (Done (- ENOMEM, NULL), [], q))"

definition slab_free_spec :: "addr \<Rightarrow> addr list \<times> tid list \<Rightarrow> (tid \<times> addr) option \<times> addr list \<times> tid list" where
  "slab_free_spec x a = (case a of ([], t # ts) \<Rightarrow> (Some (t, x), [], ts) | (xs, q) \<Rightarrow> (None, x # xs, q))"

text \<open>The thread \<open>t\<close> waits no more, and its allocation returns the block when it runs next.\<close>

definition slab_gets :: "kernel \<Rightarrow> tid \<times> addr \<Rightarrow> bool" where
  "slab_gets k tx = (case tx of (t, x) \<Rightarrow>
     pended_on (threads k t) = None \<and> deadline (tmo k) (ThreadTo t) = None \<and>
     k_mem_slab_alloc_resume (k\<lparr>current := t\<rparr>) = (0, Some x))"

lemma slab_invD:
  assumes "slab_inv slab k free"
  shows "0 < slab_buffer slab" "0 < block_size slab" "distinct free" "set free \<subseteq> set (slab_blocks slab)"
    "gen_segment z_snode_next_peek (\<lambda>x. x \<noteq> NULL) (pmem k) (free_list slab) free NULL"
    "num_used slab + length free = num_blocks slab" "num_used slab \<le> max_used slab" "max_used slab \<le> num_blocks slab"
    "waitqs k (slab_wait_q slab) \<noteq> [] \<Longrightarrow> free = []"
  using assms by (simp_all add: slab_inv_def)

lemma slab_free_null: "slab_inv slab k free \<Longrightarrow> free_list slab = NULL \<longleftrightarrow> free = []"
  by (rule sl.segment_NULL [OF slab_invD(5)])

lemma slab_upd [simp]:
  "slab_blocks (slab\<lparr>free_list := a\<rparr>) = slab_blocks slab" "slab_blocks (slab\<lparr>num_used := n\<rparr>) = slab_blocks slab"
  "slab_blocks (slab\<lparr>max_used := n\<rparr>) = slab_blocks slab"
  by (simp_all add: slab_blocks_def slab_block_def)

lemma slab_alloc_abs:
  assumes k: "kernel_inv k" and s: "slab_inv slab k free" and run: "timeout = K_NO_WAIT \<or> running k"
    and a: "k_mem_slab_alloc timeout slab k = (r, slab', k')"
  obtains free' where "kernel_inv k'" "slab_inv slab' k' free'"
    "(r, free', waitqs k' (slab_wait_q slab')) =
       slab_alloc_spec (threads k) (current k) (timeout \<noteq> K_NO_WAIT) (free, waitqs k (slab_wait_q slab))"
    "r = Blocked \<longrightarrow> k_mem_slab_alloc_resume (k'\<lparr>current := current k\<rparr>) = (- EAGAIN, None)"
proof (cases free)
  case (Cons x xs)
  note D = slab_invD [OF s, unfolded Cons]
  have x: "free_list slab = x" "x \<noteq> NULL" "gen_segment z_snode_next_peek (\<lambda>x. x \<noteq> NULL) (pmem k) (pmem k x) xs NULL"
    using D(5) z_snode_next_peek_def [of x "pmem k"] by simp_all
  have e: "r = Done (0, x)" "k' = k" "slab' = slab\<lparr>free_list := pmem k x, num_used := num_used slab + 1,
      max_used := max (num_used slab + 1) (max_used slab)\<rparr>"
    using a x(1,2) by (auto simp: k_mem_slab_alloc_def)
  have "slab_inv slab' k' xs" using D x(3) by (auto simp: slab_inv_def e)
  then show ?thesis using that [of xs] k by (simp add: e slab_alloc_spec_def Cons)
next
  case Nil
  have n: "free_list slab = NULL" using slab_free_null [OF s] Nil by simp
  show ?thesis
  proof (cases "timeout = K_NO_WAIT")
    case True
    then show ?thesis using that [of "[]"] a n k s Nil by (auto simp: k_mem_slab_alloc_def slab_alloc_spec_def)
  next
    case False
    then have e: "r = Blocked" "slab' = slab" "k' = z_pend_curr (slab_wait_q slab) timeout k"
      using a n by (auto simp: k_mem_slab_alloc_def)
    have "kernel_inv k'" unfolding e using k run False by (intro pend_curr_kernel_inv) simp_all
    moreover have "slab_inv slab k' []" using slab_invD [OF s] Nil by (simp add: slab_inv_def e)
    moreover have "k_mem_slab_alloc_resume (k'\<lparr>current := current k\<rparr>) = (- EAGAIN, None)"
      using sch.pend_default_retval [of "slab_wait_q slab" timeout k] by (simp add: e k_mem_slab_alloc_resume_def)
    ultimately show ?thesis
      using that [of "[]"] False Nil by (simp add: e slab_alloc_spec_def z_pend_curr_waitqs)
  qed
qed

lemma slab_free_abs:
  assumes k: "kernel_inv k" and s: "slab_inv slab k free" and x: "x \<in> set (slab_blocks slab)" "x \<notin> set free"
    and f: "k_mem_slab_free x slab k = (slab', k')"
  obtains free' dl where "kernel_inv k'" "slab_inv slab' k' free'" "pred_option (slab_gets k') dl"
    "(dl, free', waitqs k' (slab_wait_q slab')) = slab_free_spec x (free, waitqs k (slab_wait_q slab))"
proof (cases "waitqs k (slab_wait_q slab)")
  case (Cons t ts)
  have n: "free = []" "free_list slab = NULL" using slab_invD(9) [OF s] slab_free_null [OF s] Cons by simp_all
  note h = handoff_data [OF k Cons refl, of 0 x]
  have e: "slab' = slab" "k' = z_reschedule (handed t 0 x k)"
    using f n unpend_first_eq [OF Cons] by (auto simp: k_mem_slab_free_def z_ready_thread_def handed_eq)
  have "pmem k' = pmem k" using h(3) by (simp add: e env_def)
  then have "slab_inv slab k' []" using slab_invD [OF s] n h(2) by (simp add: slab_inv_def e)
  moreover have "slab_gets k' (t, x)" using h by (simp add: e slab_gets_def k_mem_slab_alloc_resume_def)
  ultimately show ?thesis using that [of "[]" "Some (t, x)"] h n Cons by (simp add: e slab_free_spec_def)
next
  case Nil
  note D = slab_invD [OF s]
  have e: "slab' = slab\<lparr>free_list := x, num_used := num_used slab - 1\<rparr>" "k' = k\<lparr>pmem := (pmem k)(x := free_list slab)\<rparr>"
    using f Nil by (auto simp: k_mem_slab_free_def split: if_splits)
  have "x \<noteq> NULL" using x(1) D(1) by (auto simp: slab_blocks_def slab_block_def)
  moreover have "gen_segment z_snode_next_peek (\<lambda>x. x \<noteq> NULL) (pmem k') (free_list slab) free NULL"
    using D(5) sl.segment_set [OF x(2), of "free_list slab" "pmem k"] by (simp add: e z_snode_next_set_def)
  ultimately have seg: "gen_segment z_snode_next_peek (\<lambda>x. x \<noteq> NULL) (pmem k') x (x # free) NULL"
    using z_snode_next_peek_def [of x "pmem k'"] by (simp add: e)
  have "length (x # free) \<le> length (slab_blocks slab)"
    using x D(3,4) blocks_distinct [OF D(2)] by (metis card_mono distinct.simps(2) distinct_card finite_set insert_subset list.simps(15))
  then have "num_used slab > 0" using D(6) by (simp add: slab_blocks_def)
  then have "slab_inv slab' k' (x # free)" using D x seg Nil by (simp add: slab_inv_def e)
  then show ?thesis using that [of "x # free" None] k Nil by (cases free) (simp_all add: e slab_free_spec_def)
qed

section \<open>Properties\<close>

text \<open>
  Initialising a slab ends, and links every block of the buffer into the free list exactly once,
  in the order of the addresses, writing no memory outside the blocks; a block size or a buffer that
  is not word aligned is refused with \<open>-EINVAL\<close>.
\<close>

theorem slab_init_links_all_blocks:
  assumes "0 < sz" "0 < buffer" "slab1 = slab\<lparr>num_blocks := n, block_size := sz, slab_buffer := buffer\<rparr>"
  shows "if (sz OR buffer) AND 3 = 0
    then \<exists>slab' k'. k_mem_slab_init buffer sz n slab k = Some (0, slab', k') \<and> slab_inv slab' k' (slab_blocks slab1) \<and>
      (\<forall>a. a \<notin> set (slab_blocks slab1) \<longrightarrow> pmem k' a = pmem k a)
    else \<exists>slab'. k_mem_slab_init buffer sz n slab k = Some (- EINVAL, slab', k)"
proof (cases "(sz OR buffer) AND 3 = 0")
  case True
  let ?s = "slab\<lparr>num_blocks := n, block_size := sz, slab_buffer := buffer, num_used := 0, max_used := 0\<rparr>"
  have b: "slab_blocks ?s = slab_blocks slab1" by (simp add: assms(3) slab_blocks_def slab_block_def)
  obtain fl m' where c: "create_free_list ?s (pmem k) = Some (0, ?s\<lparr>free_list := fl\<rparr>, m')"
    "gen_segment z_snode_next_peek (\<lambda>x. x \<noteq> NULL) m' fl (slab_blocks slab1) NULL"
    "\<And>a. a \<notin> set (slab_blocks slab1) \<Longrightarrow> m' a = pmem k a"
    using create_free_list_blocks [of ?s "pmem k"] assms(1,2) True b by auto
  let ?k = "k\<lparr>pmem := m', waitqs := (waitqs k)(slab_wait_q slab := [])\<rparr>"
  have "k_mem_slab_init buffer sz n slab k = Some (0, ?s\<lparr>free_list := fl\<rparr>, ?k)" using c(1) by (simp add: k_mem_slab_init_def)
  moreover have "slab_inv (?s\<lparr>free_list := fl\<rparr>) ?k (slab_blocks slab1)"
    using assms(1,2) c(2) b blocks_distinct [of ?s]
    by (simp add: slab_inv_def) (simp add: slab_blocks_def assms(3))
  ultimately show ?thesis using True c(3) by auto
next
  case False
  then show ?thesis by (simp add: k_mem_slab_init_def create_free_list_def)
qed

definition blank_slab :: k_mem_slab where
  "blank_slab = \<lparr>slab_wait_q = ObjQ 0, slab_buffer = 0, block_size = 0, num_blocks = 0, num_used = 0, max_used = 0,
     free_list = 0\<rparr>"

theorem slab_init_links_all_blocks_witness:
  "\<exists>slab k. k_mem_slab_init 400 8 3 blank_slab with_helper = Some (0, slab, k) \<and> slab_inv slab k [400, 408, 416]"
proof -
  let ?s = "blank_slab\<lparr>num_blocks := 3, block_size := 8, slab_buffer := 400\<rparr>"
  have "slab_blocks ?s = [400, 408, 416]" by (simp add: slab_blocks_def slab_block_def upt_rec)
  moreover have "(8 OR 400) AND 3 = (0::nat)" by simp
  ultimately show ?thesis
    using slab_init_links_all_blocks [where sz = 8 and buffer = 400 and n = 3 and slab = blank_slab and k = with_helper,
      OF _ _ refl] by auto
qed

text \<open>
  C35. Allocating and freeing implement a stack of free blocks with a queue of waiting threads. An
  allocation hands out the first free block, and without one waits or returns \<open>-ENOMEM\<close>; one that waits
  returns \<open>-EAGAIN\<close> unless a block is freed for it. Freeing a block of the slab that is not free puts
  it first, or, while threads wait, gives it to the first of them: that thread waits no more, and its
  call returns the block. The free list stays a duplicate-free list of blocks of the slab, and the
  number of used blocks the number of the others.
\<close>

theorem slab_refines_free_stack:
  assumes "kernel_inv k" "slab_inv slab k free"
  shows "((timeout = K_NO_WAIT \<or> running k) \<and> k_mem_slab_alloc timeout slab k = (r, s1, k1) \<longrightarrow>
       kernel_inv k1 \<and> (r = Blocked \<longrightarrow> k_mem_slab_alloc_resume (k1\<lparr>current := current k\<rparr>) = (- EAGAIN, None)) \<and>
       (\<exists>free1. slab_inv s1 k1 free1 \<and> (r, free1, waitqs k1 (slab_wait_q s1)) =
          slab_alloc_spec (threads k) (current k) (timeout \<noteq> K_NO_WAIT) (free, waitqs k (slab_wait_q slab)))) \<and>
    (slab_ptr_is_good slab x \<and> x \<notin> set free \<and> k_mem_slab_free x slab k = (s2, k2) \<longrightarrow>
       kernel_inv k2 \<and>
       (\<exists>free2 dl. slab_inv s2 k2 free2 \<and> pred_option (slab_gets k2) dl \<and>
          (dl, free2, waitqs k2 (slab_wait_q s2)) = slab_free_spec x (free, waitqs k (slab_wait_q slab))))"
proof (rule conjI; rule impI; elim conjE)
  assume run: "timeout = K_NO_WAIT \<or> running k" and a: "k_mem_slab_alloc timeout slab k = (r, s1, k1)"
  obtain f1 where "kernel_inv k1" "slab_inv s1 k1 f1" "(r, f1, waitqs k1 (slab_wait_q s1)) =
      slab_alloc_spec (threads k) (current k) (timeout \<noteq> K_NO_WAIT) (free, waitqs k (slab_wait_q slab))"
    "r = Blocked \<longrightarrow> k_mem_slab_alloc_resume (k1\<lparr>current := current k\<rparr>) = (- EAGAIN, None)"
    by (rule slab_alloc_abs [OF assms run a])
  then show "kernel_inv k1 \<and> (r = Blocked \<longrightarrow> k_mem_slab_alloc_resume (k1\<lparr>current := current k\<rparr>) = (- EAGAIN, None)) \<and>
       (\<exists>free1. slab_inv s1 k1 free1 \<and> (r, free1, waitqs k1 (slab_wait_q s1)) =
          slab_alloc_spec (threads k) (current k) (timeout \<noteq> K_NO_WAIT) (free, waitqs k (slab_wait_q slab)))" by blast
next
  assume g: "slab_ptr_is_good slab x" "x \<notin> set free" "k_mem_slab_free x slab k = (s2, k2)"
  have x: "x \<in> set (slab_blocks slab)" using g(1) good_iff_block [OF slab_invD(2) [OF assms(2)]] by simp
  obtain f2 dl where "kernel_inv k2" "slab_inv s2 k2 f2" "pred_option (slab_gets k2) dl"
    "(dl, f2, waitqs k2 (slab_wait_q s2)) = slab_free_spec x (free, waitqs k (slab_wait_q slab))"
    by (rule slab_free_abs [OF assms x g(2,3)])
  then show "kernel_inv k2 \<and> (\<exists>free2 dl. slab_inv s2 k2 free2 \<and> pred_option (slab_gets k2) dl \<and>
      (dl, free2, waitqs k2 (slab_wait_q s2)) = slab_free_spec x (free, waitqs k (slab_wait_q slab)))" by blast
qed

definition full_slab :: k_mem_slab where
  "full_slab = \<lparr>slab_wait_q = ObjQ 0, slab_buffer = 400, block_size = 8, num_blocks = 2, num_used = 2, max_used = 2,
     free_list = 0\<rparr>"

lemma full_slab_inv: "slab_inv full_slab k []"
  by (simp add: slab_inv_def full_slab_def)

text \<open>A slab with both blocks free, whose links are the cleared memory with one link.\<close>

definition idle_slab :: k_mem_slab where
  "idle_slab = full_slab\<lparr>num_used := 0, free_list := 400\<rparr>"

definition idle_kernel :: kernel where
  "idle_kernel = with_helper\<lparr>pmem := (\<lambda>_. NULL)(400 := 408)\<rparr>"

lemma idle_slab_inv: "kernel_inv idle_kernel" "slab_inv idle_slab idle_kernel [400, 408]"
  using helper_run(1)
  by (simp_all add: slab_inv_def idle_slab_def full_slab_def idle_kernel_def slab_blocks_def slab_block_def upt_rec
    helper_facts z_snode_next_peek_def)

theorem slab_refines_free_stack_witness:
  "(\<exists>s k. k_mem_slab_free 408 full_slab main_waits = (s, k) \<and> k_mem_slab_alloc_resume (k\<lparr>current := 5\<rparr>) = (0, Some 408)) \<and>
   (\<exists>s k. k_mem_slab_alloc K_NO_WAIT idle_slab idle_kernel = (Done (0, 400), s, k) \<and> slab_inv s k [408])"
proof
  obtain s2 k2 where p: "k_mem_slab_free 408 full_slab main_waits = (s2, k2)" by (metis prod.exhaust)
  have g: "slab_ptr_is_good full_slab 408" by (simp add: slab_ptr_is_good_def full_slab_def)
  have q: "waitqs main_waits (slab_wait_q full_slab) = [5]" by (simp add: main_waits_facts full_slab_def)
  from slab_refines_free_stack [OF main_waits_facts(1) full_slab_inv, THEN conjunct2] g q p
  show "\<exists>s k. k_mem_slab_free 408 full_slab main_waits = (s, k) \<and> k_mem_slab_alloc_resume (k\<lparr>current := 5\<rparr>) = (0, Some 408)"
    by (auto simp: slab_free_spec_def slab_gets_def)
next
  obtain r s1 k1 where p: "k_mem_slab_alloc K_NO_WAIT idle_slab idle_kernel = (r, s1, k1)" by (metis prod.exhaust)
  from slab_refines_free_stack [OF idle_slab_inv, THEN conjunct1] p
  show "\<exists>s k. k_mem_slab_alloc K_NO_WAIT idle_slab idle_kernel = (Done (0, 400), s, k) \<and> slab_inv s k [408]"
    by (auto simp: slab_alloc_spec_def)
qed

text \<open>
  The statistics of a slab add up: the free and the allocated bytes are together the size of the
  buffer, and the allocated bytes are at most the recorded maximum, which is at most that size.
\<close>

theorem slab_stats_bounds:
  assumes "slab_inv slab k free" "k_mem_slab_runtime_stats_get (Some slab) (Some old) = (r, Some st)"
  shows "r = 0 \<and> free_bytes st + allocated_bytes st = num_blocks slab * block_size slab \<and>
    free_bytes st = length free * block_size slab \<and>
    allocated_bytes st \<le> max_allocated_bytes st \<and> max_allocated_bytes st \<le> num_blocks slab * block_size slab"
proof -
  note D = slab_invD [OF assms(1)]
  have st: "r = 0" "st = \<lparr>free_bytes = (num_blocks slab - num_used slab) * block_size slab,
      allocated_bytes = num_used slab * block_size slab, max_allocated_bytes = max_used slab * block_size slab\<rparr>"
    using assms(2) by (simp_all add: k_mem_slab_runtime_stats_get_def)
  have "num_blocks slab - num_used slab = length free" using D(6) by simp
  moreover have "num_blocks slab * block_size slab = length free * block_size slab + num_used slab * block_size slab"
    using D(6) by (metis add.commute add_mult_distrib)
  ultimately show ?thesis using D(7) mult_le_mono1 [OF D(8), of "block_size slab"] by (simp add: st)
qed

theorem slab_stats_bounds_witness:
  "\<exists>st. k_mem_slab_runtime_stats_get (Some full_slab) (Some \<lparr>free_bytes = 0, allocated_bytes = 0, max_allocated_bytes = 0\<rparr>) =
     (0, Some st) \<and> free_bytes st + allocated_bytes st = 16"
proof -
  let ?o = "\<lparr>free_bytes = 0, allocated_bytes = 0, max_allocated_bytes = 0\<rparr>"
  obtain st where st: "k_mem_slab_runtime_stats_get (Some full_slab) (Some ?o) = (0, Some st)"
    by (simp add: k_mem_slab_runtime_stats_get_def)
  have "num_blocks full_slab * block_size full_slab = 16" by (simp add: full_slab_def)
  with slab_stats_bounds [OF full_slab_inv st] st show ?thesis by auto
qed

end
