(* ===== verification/Futex.thy ===== *)
theory Futex
  imports Sched_Props
begin

text \<open>
  Futexes, \<open>kernel/futex.c\<close>. The table of kernel objects behind \<open>k_object_find\<close> is generated by the build:
  it is the parameter \<open>object_find\<close>, which gives the type of the object at an address and its wait queue. The
  futex values are the parameter \<open>val\<close>, the memory that the callers change. \<open>k_futex_wait\<close> reads the value
  before it takes its lock, so it is two steps, between which interrupts and other threads may run.
\<close>

section \<open>State and operations\<close>

datatype k_objects = K_OBJ_FUTEX | K_OBJ_OTHER

definition k_futex_find_data :: "(addr \<Rightarrow> (k_objects \<times> wait_q) option) \<Rightarrow> addr \<Rightarrow> wait_q option" where
  "k_futex_find_data object_find futex =
     (case object_find futex of
        None \<Rightarrow> None
      | Some (ty, futex_data) \<Rightarrow> if ty \<noteq> K_OBJ_FUTEX then None else Some futex_data)"

text \<open>The loop of \<open>k_futex_wake\<close>; every turn but the last one takes a thread off the queue.\<close>

fun futex_wake_loop :: "nat \<Rightarrow> bool \<Rightarrow> wait_q \<Rightarrow> nat \<Rightarrow> kernel \<Rightarrow> nat \<times> kernel" where
  "futex_wake_loop 0 all w cnt k = (cnt, k)"
| "futex_wake_loop (Suc n) all w cnt k =
     (case z_unpend_first_thread w k of
        (None, k1) \<Rightarrow> (cnt, k1)
      | (Some thread, k1) \<Rightarrow>
          let k2 = z_ready_thread thread (arch_thread_return_value_set thread 0 k1)
          in if all then futex_wake_loop n all w (cnt + 1) k2 else (cnt + 1, k2))"

definition z_impl_k_futex_wake ::
  "(addr \<Rightarrow> (k_objects \<times> wait_q) option) \<Rightarrow> addr \<Rightarrow> bool \<Rightarrow> kernel \<Rightarrow> int \<times> kernel" where
  "z_impl_k_futex_wake object_find futex all k =
     (case k_futex_find_data object_find futex of
        None \<Rightarrow> (- EINVAL, k)
      | Some w \<Rightarrow>
          let (cnt, k1) = futex_wake_loop (Suc (length (waitqs k w))) all w 0 k
          in (int cnt, z_reschedule k1))"

definition futex_wait_test ::
  "(addr \<Rightarrow> (k_objects \<times> wait_q) option) \<Rightarrow> (addr \<Rightarrow> int) \<Rightarrow> addr \<Rightarrow> int \<Rightarrow> int + wait_q" where
  "futex_wait_test object_find val futex expected =
     (case k_futex_find_data object_find futex of
        None \<Rightarrow> Inl (- EINVAL)
      | Some w \<Rightarrow> if val futex \<noteq> expected then Inl (- EAGAIN) else Inr w)"

definition futex_wait_pend :: "wait_q \<Rightarrow> k_ticks_t \<Rightarrow> kernel \<Rightarrow> kernel" where
  "futex_wait_pend w timeout k = z_pend_curr w timeout k"

definition z_impl_k_futex_wait :: "(addr \<Rightarrow> (k_objects \<times> wait_q) option) \<Rightarrow> (addr \<Rightarrow> int) \<Rightarrow> addr \<Rightarrow> int \<Rightarrow>
    k_ticks_t \<Rightarrow> kernel \<Rightarrow> int outcome \<times> kernel" where
  "z_impl_k_futex_wait object_find val futex expected timeout k =
     (case futex_wait_test object_find val futex expected of
        Inl err \<Rightarrow> (Done err, k)
      | Inr w \<Rightarrow> (Blocked, futex_wait_pend w timeout k))"

definition k_futex_wait_resume :: "kernel \<Rightarrow> int" where
  "k_futex_wait_resume k =
     (let ret = swap_retval (threads k (current k)) in if ret = - EAGAIN then - ETIMEDOUT else ret)"

section \<open>Lemmas\<close>

lemma futex_loop_all: "futex_wake_loop n True w c k = (c + fst (wake_loop n 0 w k), snd (wake_loop n 0 w k))"
  by (induction n arbitrary: c k) (auto simp: Let_def split: prod.split option.split)

lemma futex_wake_all_eq:
  assumes "k_futex_find_data object_find futex = Some w"
  shows "z_impl_k_futex_wake object_find futex True k =
    (int (fst (wake_all 0 w k)), z_reschedule (snd (wake_all 0 w k)))"
  using assms by (simp add: z_impl_k_futex_wake_def futex_loop_all wake_all_def case_prod_beta del: futex_wake_loop.simps wake_loop.simps)

lemma futex_wake_one_eq:
  assumes "k_futex_find_data object_find futex = Some w" "waitqs k w = t # ts"
  shows "z_impl_k_futex_wake object_find futex False k = (1, z_reschedule (woken t 0 k))"
  using assms unpend_first_eq [OF assms(2)]
  by (simp add: z_impl_k_futex_wake_def z_ready_thread_def woken_eq)

lemma futex_wake_none:
  assumes "k_futex_find_data object_find futex = Some w" "waitqs k w = []"
  shows "z_impl_k_futex_wake object_find futex all k = (0, z_reschedule k)"
  using assms by (simp add: z_impl_k_futex_wake_def)

lemma pend_curr_forever:
  assumes "kernel_inv k" "running k"
  shows "deadline (tmo (z_pend_curr w K_FOREVER k)) (ThreadTo (current k)) = None"
proof -
  note D = kernel_invD [OF assms(1)]
  have "timeouts_inv (tmo (pend_locked (current k) (Some w) K_FOREVER k))"
    using inv_butD(2) [OF D(1)] by (simp add: pend_locked_def add_thread_timeout_def unready_tmo)
  then show ?thesis
    using D(7) inv_butD(2) [OF D(1)]
    by (simp add: z_pend_curr_def do_swap_tmo) (simp add: pend_locked_def add_thread_timeout_def unready_tmo)
qed

section \<open>Properties\<close>

text \<open>
  Waking a futex wakes the first waiting thread or all of them, returns how many, and each of them
  returns 0 from its wait; an address that is no futex is refused.
\<close>

theorem futex_wake_counts:
  assumes "kernel_inv k" "z_impl_k_futex_wake object_find futex all k = (r, k')"
  shows "case k_futex_find_data object_find futex of
      None \<Rightarrow> r = - EINVAL \<and> k' = k
    | Some w \<Rightarrow> kernel_inv k' \<and> r = int (length (take (if all then length (waitqs k w) else 1) (waitqs k w))) \<and>
        waitqs k' w = drop (nat r) (waitqs k w) \<and>
        (\<forall>t \<in> set (take (nat r) (waitqs k w)). swap_retval (threads k' t) = 0)"
proof (cases "k_futex_find_data object_find futex")
  case None
  then show ?thesis using assms(2) by (simp add: z_impl_k_futex_wake_def)
next
  case (Some w)
  show ?thesis
  proof (cases all)
    case True
    note e = wake_all_effect [OF assms(1) refl, where v = 0 and w = w]
    have "r = int (fst (wake_all 0 w k))" "k' = z_reschedule (snd (wake_all 0 w k))"
      using assms(2) futex_wake_all_eq [OF Some, of k] True by simp_all
    then show ?thesis using e True Some by simp
  next
    case one: False
    show ?thesis
    proof (cases "waitqs k w")
      case Nil
      then show ?thesis
        using assms futex_wake_none [OF Some Nil] Some pre_reschedule [OF kernel_inv_pre [OF assms(1)]] by auto
    next
      case (Cons t ts)
      have e: "r = 1" "k' = z_reschedule (woken t 0 k)" using assms(2) futex_wake_one_eq [OF Some Cons] one by auto
      have "waitqs k' w = ts" using woken_props(2) [OF kernel_invD(1) [OF assms(1)] Cons] by (simp add: e)
      then show ?thesis
        using wake_first_kernel_inv [OF assms(1) Cons] handoff_retval [OF assms(1) Cons] Some Cons one by (simp add: e)
    qed
  qed
qed

theorem futex_wake_counts_witness:
  "\<exists>k. z_impl_k_futex_wake (\<lambda>a. if a = 700 then Some (K_OBJ_FUTEX, ObjQ 0) else None) 700 True main_waits = (1, k) \<and>
     swap_retval (threads k 5) = 0"
proof -
  let ?f = "\<lambda>a::addr. if a = 700 then Some (K_OBJ_FUTEX, ObjQ 0) else None"
  obtain r k where p: "z_impl_k_futex_wake ?f 700 True main_waits = (r, k)" by (metis prod.exhaust)
  have f: "k_futex_find_data ?f 700 = Some (ObjQ 0)" by (simp add: k_futex_find_data_def)
  have q: "waitqs main_waits (ObjQ 0) = [5]" by (simp add: main_waits_facts)
  from futex_wake_counts [OF main_waits_facts(1) p] show ?thesis unfolding f using q p by simp
qed

text \<open>
  C36. A wake-up can be missed. Between the test of the value and the entry in the wait queue an
  interrupt may change the value and wake the futex: it finds no thread, and the caller then
  pends without a timeout although the value is no longer the expected one. Had the test come after
  the change, the call would have returned \<open>-EAGAIN\<close>.
\<close>

theorem futex_wait_misses_wake:
  assumes "kernel_inv k" "running k" "k_futex_find_data object_find futex = Some w" "waitqs k w = []" "\<not> in_isr k"
    and "val futex = expected" "val' = val(futex := v)" "v \<noteq> expected"
    and "futex_wait_test object_find val futex expected = Inr w1"
    and "z_impl_k_futex_wake object_find futex True (k\<lparr>in_isr := True\<rparr>) = (n, k1)"
    and "k2 = futex_wait_pend w1 K_FOREVER (k1\<lparr>in_isr := False\<rparr>)"
  shows "n = 0 \<and> waitqs k2 w = [current k] \<and> deadline (tmo k2) (ThreadTo (current k)) = None \<and>
    z_impl_k_futex_wait object_find val' futex expected K_FOREVER k = (Done (- EAGAIN), k)"
proof -
  have w: "w1 = w" using assms(3,9) by (auto simp: futex_wait_test_def split: if_splits)
  have e: "n = 0" "k1 = k\<lparr>in_isr := True\<rparr>"
    using assms(10) futex_wake_none [OF assms(3), of "k\<lparr>in_isr := True\<rparr>" True] assms(4) by simp_all
  have same: "k\<lparr>in_isr := False\<rparr> = k" using assms(5) by (cases k) simp
  have k2: "k2 = z_pend_curr w K_FOREVER k" using assms(11) w e(2) by (simp add: futex_wait_pend_def same)
  have "deadline (tmo k2) (ThreadTo (current k)) = None"
    using pend_curr_forever [OF assms(1,2)] by (simp add: k2)
  then show ?thesis
    using assms(3-8) e(1)
    by (simp add: k2 z_pend_curr_waitqs z_impl_k_futex_wait_def futex_wait_test_def)
qed

theorem futex_wait_misses_wake_witness:
  "\<exists>k2 :: kernel. waitqs k2 (ObjQ 0) = [5] \<and> deadline (tmo k2) (ThreadTo 5) = None \<and>
     z_impl_k_futex_wait (\<lambda>a. if a = 700 then Some (K_OBJ_FUTEX, ObjQ 0) else None) (\<lambda>_. 1) 700 0 K_FOREVER with_helper =
       (Done (- EAGAIN), with_helper)"
proof -
  let ?f = "\<lambda>a::addr. if a = 700 then Some (K_OBJ_FUTEX, ObjQ 0) else None"
  let ?v = "(\<lambda>a::addr. if a = 700 then 0 else 1) :: addr \<Rightarrow> int"
  obtain n k1 where p: "z_impl_k_futex_wake ?f 700 True (with_helper\<lparr>in_isr := True\<rparr>) = (n, k1)" by (metis prod.exhaust)
  have f: "k_futex_find_data ?f 700 = Some (ObjQ 0)" by (simp add: k_futex_find_data_def)
  then have t: "futex_wait_test ?f ?v 700 0 = Inr (ObjQ 0)" by (simp add: futex_wait_test_def)
  have v: "(\<lambda>_. 1) = ?v(700 := 1)" by auto
  have q: "waitqs with_helper (ObjQ 0) = []" by (simp add: helper_facts)
  have i: "\<not> in_isr with_helper" using env_isr [OF helper_facts(5)] by simp
  have c: "current with_helper = 5" by (simp add: helper_facts)
  have z: "?v 700 = 0" "(1::int) \<noteq> 0" by simp_all
  from futex_wait_misses_wake [OF helper_run(1,2) f q i z(1) v z(2) t p refl] show ?thesis unfolding c by blast
qed

end
