(* ===== verification/Events.thy ===== *)
theory Events
  imports Sched_Props
begin

text \<open>
  Event objects, \<open>kernel/events.c\<close>: a word of event bits and the threads that wait for any or all of a
  set of them. A post first walks the wait queue and links the threads whose condition is met through
  \<open>next_event_link\<close>, with their timeouts aborted, and then wakes the linked threads. While it runs the
  linked threads carry \<open>no_wake_on_timeout\<close>, so the invariant between the two loops is the one of the
  scheduler without that flag.
\<close>

section \<open>State and operations\<close>

record k_event =
  ev_wait_q :: wait_q
  ev_events :: u32

abbreviation (input) K_EVENT_WAIT_ANY :: u32 where "K_EVENT_WAIT_ANY \<equiv> 0"
abbreviation (input) K_EVENT_WAIT_ALL :: u32 where "K_EVENT_WAIT_ALL \<equiv> 1"
abbreviation (input) K_EVENT_WAIT_MASK :: u32 where "K_EVENT_WAIT_MASK \<equiv> 1"
abbreviation (input) K_EVENT_WAIT_RESET :: u32 where "K_EVENT_WAIT_RESET \<equiv> 2"

definition z_impl_k_event_init :: "k_event \<Rightarrow> kernel \<Rightarrow> k_event \<times> kernel" where
  "z_impl_k_event_init event k =
     (event\<lparr>ev_events := 0\<rparr>, k\<lparr>waitqs := (waitqs k)(ev_wait_q event := [])\<rparr>)"

definition are_wait_conditions_met :: "u32 \<Rightarrow> u32 \<Rightarrow> u32 \<Rightarrow> bool" where
  "are_wait_conditions_met desired cur wait_condition \<longleftrightarrow>
     (let match = cur AND desired in if wait_condition = K_EVENT_WAIT_ALL then match = desired else match \<noteq> 0)"

definition event_walk_op :: "u32 \<Rightarrow> tid \<Rightarrow> tid option \<times> kernel \<Rightarrow> int \<times> tid option \<times> kernel" where
  "event_walk_op evs thread data =
     (let (list_head, k) = data; wait_condition = event_options (threads k thread) AND K_EVENT_WAIT_MASK
      in if are_wait_conditions_met (events (threads k thread)) evs wait_condition
         then let k1 = upd_thread thread (\<lambda>th. th\<lparr>no_wake_on_timeout := True, next_event_link := list_head\<rparr>) k
           in (0, Some thread, snd (z_abort_thread_timeout thread k1))
         else (0, list_head, k))"

text \<open>The loop over the linked threads; the wait queue held them all, so its length is enough fuel.\<close>

fun event_wake_loop :: "nat \<Rightarrow> u32 \<Rightarrow> tid option \<Rightarrow> kernel \<Rightarrow> kernel" where
  "event_wake_loop 0 evs list_head k = k"
| "event_wake_loop (Suc n) evs list_head k =
     (case list_head of
        None \<Rightarrow> k
      | Some thread \<Rightarrow>
          let k1 = upd_thread thread (\<lambda>th. th\<lparr>events := evs\<rparr>) (arch_thread_return_value_set thread 0 k);
              next_thread = next_event_link (threads k1 thread)
          in event_wake_loop n evs next_thread (z_sched_wake_thread thread False k1))"

definition k_event_post_internal :: "u32 \<Rightarrow> u32 \<Rightarrow> k_event \<Rightarrow> kernel \<Rightarrow> u32 \<times> k_event \<times> kernel" where
  "k_event_post_internal evs events_mask event k =
     (let previous_events = ev_events event AND events_mask;
          evs1 = (ev_events event AND NOT events_mask) OR (evs AND events_mask);
          event1 = event\<lparr>ev_events := evs1\<rparr>;
          (_, list_head, k1) = z_sched_waitq_walk (waitqs k (ev_wait_q event)) (event_walk_op evs1) (None, k);
          k2 = event_wake_loop (length (waitqs k (ev_wait_q event))) evs1 list_head k1
      in (previous_events, event1, z_reschedule k2))"

definition z_impl_k_event_post :: "u32 \<Rightarrow> k_event \<Rightarrow> kernel \<Rightarrow> u32 \<times> k_event \<times> kernel" where
  "z_impl_k_event_post evs = k_event_post_internal evs evs"

definition z_impl_k_event_set :: "u32 \<Rightarrow> k_event \<Rightarrow> kernel \<Rightarrow> u32 \<times> k_event \<times> kernel" where
  "z_impl_k_event_set evs = k_event_post_internal evs (NOT 0)"

definition z_impl_k_event_set_masked :: "u32 \<Rightarrow> u32 \<Rightarrow> k_event \<Rightarrow> kernel \<Rightarrow> u32 \<times> k_event \<times> kernel" where
  "z_impl_k_event_set_masked evs events_mask = k_event_post_internal evs events_mask"

definition z_impl_k_event_clear :: "u32 \<Rightarrow> k_event \<Rightarrow> kernel \<Rightarrow> u32 \<times> k_event \<times> kernel" where
  "z_impl_k_event_clear evs = k_event_post_internal 0 evs"

definition k_event_wait_internal :: "u32 \<Rightarrow> u32 \<Rightarrow> k_ticks_t \<Rightarrow> k_event \<Rightarrow> kernel \<Rightarrow> u32 outcome \<times> k_event \<times> kernel" where
  "k_event_wait_internal evs options timeout event k =
     (if evs = 0 then (Done 0, event, k)
      else
        let wait_condition = options AND K_EVENT_WAIT_MASK;
            event1 = (if options AND K_EVENT_WAIT_RESET \<noteq> 0 then event\<lparr>ev_events := 0\<rparr> else event)
        in if are_wait_conditions_met evs (ev_events event1) wait_condition
           then (Done (ev_events event1 AND evs), event1, k)
           else if timeout = K_NO_WAIT then (Done (0 AND evs), event1, k)
           else (Blocked, event1, z_pend_curr (ev_wait_q event1) timeout
             (upd_thread (current k) (\<lambda>th. th\<lparr>events := evs, event_options := options\<rparr>) k)))"

definition k_event_wait_resume :: "u32 \<Rightarrow> kernel \<Rightarrow> u32" where
  "k_event_wait_resume evs k =
     (let th = threads k (current k); rv = (if swap_retval th = 0 then events th else 0) in rv AND evs)"

definition z_impl_k_event_wait :: "u32 \<Rightarrow> bool \<Rightarrow> k_ticks_t \<Rightarrow> k_event \<Rightarrow> kernel \<Rightarrow> u32 outcome \<times> k_event \<times> kernel" where
  "z_impl_k_event_wait evs reset = k_event_wait_internal evs (if reset then K_EVENT_WAIT_RESET else 0)"

definition z_impl_k_event_wait_all :: "u32 \<Rightarrow> bool \<Rightarrow> k_ticks_t \<Rightarrow> k_event \<Rightarrow> kernel \<Rightarrow> u32 outcome \<times> k_event \<times> kernel" where
  "z_impl_k_event_wait_all evs reset =
     k_event_wait_internal evs (if reset then K_EVENT_WAIT_RESET OR K_EVENT_WAIT_ALL else K_EVENT_WAIT_ALL)"

section \<open>The invariant between the two loops\<close>

definition kernel_mid :: "kernel \<Rightarrow> bool" where
  "kernel_mid k \<longleftrightarrow>
     sched_inv k \<and> dummy_ok k \<and> dummy_idle k \<and> \<not> metairq_tracked k \<and> cache_ok k \<and>
     deadline (tmo k) (ThreadTo (current k)) = None \<and> (\<not> in_isr k \<longrightarrow> current k \<in> runnable k)"

lemma kernel_pre_mid: "kernel_pre k \<longleftrightarrow> kernel_mid k \<and> no_wakes k"
  by (auto simp: kernel_pre_def kernel_mid_def)

lemma kernel_midD:
  assumes "kernel_mid k"
  shows "sched_inv k" "dummy_ok k" "dummy_idle k" "\<not> metairq_tracked k" "cache_ok k"
    "deadline (tmo k) (ThreadTo (current k)) = None" "\<not> in_isr k \<Longrightarrow> current k \<in> runnable k"
  using assms by (simp_all add: kernel_mid_def)

text \<open>Whether the condition of a waiting thread is met.\<close>

definition event_met :: "u32 \<Rightarrow> k_thread \<Rightarrow> bool" where
  "event_met evs th \<longleftrightarrow> are_wait_conditions_met (events th) evs (event_options th AND K_EVENT_WAIT_MASK)"

definition event_marked :: "tid option \<Rightarrow> tid \<Rightarrow> kernel \<Rightarrow> kernel" where
  "event_marked h t k =
     snd (z_abort_thread_timeout t (upd_thread t (\<lambda>th. th\<lparr>no_wake_on_timeout := True, next_event_link := h\<rparr>) k))"

lemma event_walk_op_eq:
  "event_walk_op evs t (h, k) =
     (0, if event_met evs (threads k t) then (Some t, event_marked h t k) else (h, k))"
  by (simp add: event_walk_op_def event_met_def event_marked_def Let_def)

lemma marked_frame [simp]:
  "current (event_marked h t k) = current k" "runq (event_marked h t k) = runq k"
  "cache (event_marked h t k) = cache k" "waitqs (event_marked h t k) = waitqs k" "env (event_marked h t k) = env k"
  by (simp_all add: event_marked_def)

lemma marked_threads:
  "threads (event_marked h t k) x =
     (if x = t then (threads k t)\<lparr>no_wake_on_timeout := True, next_event_link := h\<rparr> else threads k x)"
  by (simp add: event_marked_def threads_upd_thread)

lemma marked_mid:
  assumes k: "kernel_mid k" and t: "t \<in> set (waitqs k w)"
  shows "kernel_mid (event_marked h t k)"
proof -
  note D = kernel_midD [OF k]
  let ?u = "upd_thread t (\<lambda>th. th\<lparr>no_wake_on_timeout := True, next_event_link := h\<rparr>) k"
  have i: "idle_thread (event_marked h t k) = idle_thread k" "thread_dummy (event_marked h t k) = thread_dummy k"
    "in_isr (event_marked h t k) = in_isr k"
    using marked_frame(5) [of h t k] by (simp_all only: env_def prod.inject)
  have "sched_inv ?u" using D(1) by (rule upd_thread_view_inv) (simp add: sched_view_def)
  from abort_timeout_inv [OF this, of t] have "sched_inv_but {t} (event_marked h t k)" by (simp add: event_marked_def)
  moreover have "\<not> z_is_thread_ready (event_marked h t k) t"
    using pended_pending [OF D(1), of t w] waitq_member [OF D(1), of t w] t
    by (intro pending_not_ready) (simp add: marked_threads)
  ultimately have s: "sched_inv (event_marked h t k)" by (rule inv_but_drop)
  have d: "deadline (tmo (event_marked h t k)) (ThreadTo x) = (if x = t then None else deadline (tmo k) (ThreadTo x))" for x
    using inv_butD(2) [OF D(1)] by (simp add: event_marked_def tq.due_abort)
  have "cache_ok (event_marked h t k)"
    by (rule cache_ok_cong [OF D(5)], simp_all add: i) (rule preemptible_cong, simp_all add: marked_threads)
  moreover have "dummy_ok (event_marked h t k)" using D(2) by (auto simp: dummy_ok_def i marked_threads)
  moreover have "dummy_idle (event_marked h t k)" using D(3) inv_butD(2) [OF s] by (simp add: dummy_idle_def i d)
  moreover have "runnable (event_marked h t k) = runnable k" by (simp add: runnable_def i)
  ultimately show ?thesis
    using s D(4,6,7) tracked_env [OF marked_frame(5)] by (simp add: kernel_mid_def i d)
qed

text \<open>The linked threads, from the last one linked to the first.\<close>

primrec event_chain :: "tcbs \<Rightarrow> tid option \<Rightarrow> tid list \<Rightarrow> bool" where
  "event_chain th h [] \<longleftrightarrow> h = None"
| "event_chain th h (x # xs) \<longleftrightarrow> h = Some x \<and> event_chain th (next_event_link (th x)) xs"

lemma event_chain_cong:
  "(\<And>x. x \<in> set xs \<Longrightarrow> next_event_link (th' x) = next_event_link (th x)) \<Longrightarrow> event_chain th' h xs = event_chain th h xs"
  by (induction xs arbitrary: h) auto

text \<open>A thread without the two fields that the walk changes.\<close>

definition event_view :: "k_thread \<Rightarrow> k_thread" where
  "event_view th = th\<lparr>no_wake_on_timeout := False, next_event_link := None\<rparr>"

text \<open>What the walk leaves: the threads whose condition is met are linked and marked, in reverse order.\<close>

lemma event_walk_links:
  assumes "kernel_mid k" "distinct ts" "set ts \<subseteq> set (waitqs k w)" "event_chain (threads k) h xs" "set xs \<inter> set ts = {}"
    and "z_sched_waitq_walk ts (event_walk_op evs) (h, k) = (st, h', k')"
  shows "kernel_mid k' \<and> waitqs k' = waitqs k \<and> current k' = current k \<and> env k' = env k \<and>
    event_chain (threads k') h' (rev (filter (\<lambda>t. event_met evs (threads k t)) ts) @ xs) \<and>
    (\<forall>x. event_view (threads k' x) = event_view (threads k x)) \<and>
    (\<forall>x. x \<notin> set (filter (\<lambda>t. event_met evs (threads k t)) ts) \<longrightarrow> threads k' x = threads k x)"
  using assms
proof (induction ts arbitrary: k h xs)
  case Nil
  then show ?case by simp
next
  case (Cons t ts)
  show ?case
  proof (cases "event_met evs (threads k t)")
    case False
    then have w: "z_sched_waitq_walk ts (event_walk_op evs) (h, k) = (st, h', k')"
      using Cons.prems(6) by (simp add: event_walk_op_eq)
    have "distinct ts" "set ts \<subseteq> set (waitqs k w)" "set xs \<inter> set ts = {}" using Cons.prems(2,3,5) by auto
    from Cons.IH [OF Cons.prems(1) this(1,2) Cons.prems(4) this(3) w] False show ?thesis by simp
  next
    case True
    let ?k = "event_marked h t k"
    have mid: "kernel_mid ?k" using Cons.prems(1,3) by (intro marked_mid [where w = w]) simp_all
    have "t \<notin> set xs" using Cons.prems(5) by auto
    then have "event_chain (threads ?k) h xs"
      by (intro event_chain_cong [THEN iffD2, OF _ Cons.prems(4)]) (auto simp: marked_threads)
    then have ch: "event_chain (threads ?k) (Some t) (t # xs)" by (simp add: marked_threads)
    have w: "z_sched_waitq_walk ts (event_walk_op evs) (Some t, ?k) = (st, h', k')"
      using Cons.prems(6) True by (simp add: event_walk_op_eq)
    have same: "filter (\<lambda>t. event_met evs (threads ?k t)) ts = filter (\<lambda>t. event_met evs (threads k t)) ts"
      using Cons.prems(2) by (auto intro!: filter_cong simp: marked_threads)
    have "distinct ts" "set ts \<subseteq> set (waitqs ?k w)" "set (t # xs) \<inter> set ts = {}" using Cons.prems(2,3,5) by auto
    note IH = Cons.IH [OF mid this(1,2) ch this(3) w, unfolded same marked_frame]
    have "event_view (threads ?k x) = event_view (threads k x)" for x by (simp add: marked_threads event_view_def)
    moreover have "threads ?k x = threads k x" if "x \<noteq> t" for x using that by (simp add: marked_threads)
    ultimately show ?thesis using IH True by simp
  qed
qed

text \<open>Waking one linked thread.\<close>

definition event_woken :: "u32 \<Rightarrow> tid \<Rightarrow> kernel \<Rightarrow> kernel" where
  "event_woken evs t k = z_sched_wake_thread t False
     (upd_thread t (\<lambda>th. th\<lparr>events := evs\<rparr>) (arch_thread_return_value_set t 0 k))"

lemma event_woken_eq:
  assumes "thread_state (threads k t) \<inter> {THREAD_DEAD, THREAD_ABORTING} = {}"
  shows "event_woken evs t k = ready_thread t (upd_thread t z_mark_thread_as_started (unpend_thread_no_timeout t
    (upd_thread t (\<lambda>th. th\<lparr>swap_retval := 0, events := evs, no_wake_on_timeout := False\<rparr>) k)))"
  using assms
  by (simp add: event_woken_def z_sched_wake_thread_def Let_def z_unpend_no_timeout_eq arch_thread_return_value_set_def
      upd_thread_def)

lemma event_woken_mid:
  assumes k: "kernel_mid k" and t: "t \<in> set (waitqs k w)" and a: "THREAD_DEAD \<notin> thread_state (threads k t)"
  shows "kernel_mid (event_woken evs t k)" "waitqs (event_woken evs t k) = (waitqs k)(w := remove1 t (waitqs k w))"
    "env (event_woken evs t k) = env k" "current (event_woken evs t k) = current k"
    "x \<noteq> t \<Longrightarrow> threads (event_woken evs t k) x = threads k x"
    "swap_retval (threads (event_woken evs t k) t) = 0" "events (threads (event_woken evs t k) t) = evs"
    "\<not> no_wake_on_timeout (threads (event_woken evs t k) t)" "pended_on (threads (event_woken evs t k) t) = None"
proof -
  note D = kernel_midD [OF k]
  let ?f = "\<lambda>th. th\<lparr>swap_retval := 0, events := evs, no_wake_on_timeout := False\<rparr>"
  let ?u = "upd_thread t ?f k"
  let ?k1 = "upd_thread t z_mark_thread_as_started (unpend_thread_no_timeout t ?u)"
  have p: "pended_on (threads k t) = Some w" using waitq_member [OF D(1), of t w] t by simp
  have idle: "t \<noteq> idle_thread k" using waiter_not_idle [OF D(1) t] .
  have dm: "t \<noteq> thread_dummy k" using D(2) p unfolding dummy_ok_def by force
  have e: "event_woken evs t k = ready_thread t ?k1"
    by (rule event_woken_eq) (use a not_aborting [OF D(1), of t] in simp)
  have u: "sched_inv ?u" using D(1) by (rule upd_thread_view_inv) (simp add: sched_view_def)
  from mark_started_inv [OF unpend_inv [OF u, of t], of t] have i1: "sched_inv_but {t} ?k1" by simp
  have th1: "threads ?k1 x = (if x = t then z_mark_thread_as_started ((?f (threads k t))\<lparr>thread_state :=
      thread_state (threads k t) - {THREAD_PENDING}, pended_on := None\<rparr>) else threads k x)" for x
    using p by (simp add: threads_upd_thread unpend_threads)
  show th: "x \<noteq> t \<Longrightarrow> threads (event_woken evs t k) x = threads k x"
    "swap_retval (threads (event_woken evs t k) t) = 0" "events (threads (event_woken evs t k) t) = evs"
    "\<not> no_wake_on_timeout (threads (event_woken evs t k) t)" "pended_on (threads (event_woken evs t k) t) = None"
    by (simp_all add: e ready_thread_threads th1 z_mark_thread_as_started_def)
  show env: "env (event_woken evs t k) = env k" and cur: "current (event_woken evs t k) = current k" by (simp_all add: e)
  show "waitqs (event_woken evs t k) = (waitqs k)(w := remove1 t (waitqs k w))"
    using p by (simp add: e fun_eq_iff unpend_waitqs threads_upd_thread)
  have id: "idle_thread ?k1 = idle_thread k" by simp
  have s: "sched_inv (event_woken evs t k)" using ready_thread_inv [OF i1, of t] idle by (simp add: e)
  have "cache_ok ?k1"
    by (rule cache_ok_cong [OF D(5)], simp_all)
      (rule preemptible_cong, simp_all add: th1 z_mark_thread_as_started_def)
  then have c: "cache_ok (event_woken evs t k)"
    unfolding e using i1 idle D(4,6) tracked_env [of ?k1 k] by (intro ready_cache_ok) simp_all
  have i: "idle_thread (event_woken evs t k) = idle_thread k" "thread_dummy (event_woken evs t k) = thread_dummy k"
    "in_isr (event_woken evs t k) = in_isr k"
    using env by (simp_all only: env_def prod.inject)
  have d: "deadline (tmo (event_woken evs t k)) (ThreadTo x) = deadline (tmo k) (ThreadTo x)" for x
    using inv_butD(2) [OF D(1)] by (simp add: e ready_thread_tmo)
  have "threads (event_woken evs t k) (thread_dummy k) = threads k (thread_dummy k)"
    using dm by (simp add: e ready_thread_threads th1)
  then have "dummy_ok (event_woken evs t k)" using D(2) by (simp add: dummy_ok_def i)
  moreover have "dummy_idle (event_woken evs t k)" using D(3) inv_butD(2) [OF s] by (simp add: dummy_idle_def i d)
  moreover have "runnable k \<subseteq> runnable (event_woken evs t k)"
    using ready_thread_runq_mono [of ?k1 t] by (auto simp: runnable_def i e)
  ultimately show "kernel_mid (event_woken evs t k)"
    using s c D(4,6,7) tracked_env [OF env] by (auto simp: kernel_mid_def i d cur)
qed

text \<open>The second loop wakes exactly the linked threads.\<close>

lemma event_wake_loop_wakes:
  assumes "kernel_mid k" "event_chain (threads k) h xs" "distinct xs" "set xs \<subseteq> set (waitqs k w)" "length xs \<le> n"
    and "\<And>t. t \<in> set xs \<Longrightarrow> THREAD_DEAD \<notin> thread_state (threads k t)" and "k' = event_wake_loop n evs h k"
  shows "kernel_mid k' \<and> waitqs k' = (waitqs k)(w := filter (\<lambda>t. t \<notin> set xs) (waitqs k w)) \<and> env k' = env k \<and>
    current k' = current k \<and> (\<forall>x. x \<notin> set xs \<longrightarrow> threads k' x = threads k x) \<and>
    (\<forall>x \<in> set xs. swap_retval (threads k' x) = 0 \<and> events (threads k' x) = evs \<and>
       \<not> no_wake_on_timeout (threads k' x) \<and> pended_on (threads k' x) = None)"
  using assms
proof (induction xs arbitrary: k h n)
  case Nil
  then have "k' = k" by (cases n) simp_all
  then show ?case using Nil by simp
next
  case (Cons t xs)
  obtain m where n: "n = Suc m" "length xs \<le> m" using Cons.prems(5) by (cases n) auto
  let ?k = "event_woken evs t k"
  have t: "t \<in> set (waitqs k w)" "THREAD_DEAD \<notin> thread_state (threads k t)" using Cons.prems(4,6) by simp_all
  note W = event_woken_mid [OF Cons.prems(1) t, where evs = evs]
  let ?l = "next_event_link (threads k t)"
  have k': "k' = event_wake_loop m evs ?l ?k"
    using Cons.prems(2,7)
    by (simp add: n event_woken_def Let_def arch_thread_return_value_set_def threads_upd_thread)
  have d: "t \<notin> set xs" "distinct xs" using Cons.prems(3) by simp_all
  have dis: "distinct (waitqs k w)" using sch.waiters_distinct [OF kernel_midD(1) [OF Cons.prems(1)]] .
  have wq: "waitqs ?k w = remove1 t (waitqs k w)" using W(2) by simp
  have "event_chain (threads k) ?l xs" using Cons.prems(2) by simp
  moreover have "next_event_link (threads ?k x) = next_event_link (threads k x)" if "x \<in> set xs" for x
    using that d(1) W(5) [of x] by (cases "x = t") simp_all
  ultimately have ch: "event_chain (threads ?k) ?l xs" using event_chain_cong [of xs "threads ?k" "threads k"] by blast
  have sub: "set xs \<subseteq> set (waitqs ?k w)" using Cons.prems(4) d(1) dis by (auto simp: wq)
  have al: "THREAD_DEAD \<notin> thread_state (threads ?k x)" if "x \<in> set xs" for x
    using Cons.prems(6) [of x] that d(1) W(5) [of x] by (cases "x = t") simp_all
  note IH = Cons.IH [OF W(1) ch d(2) sub n(2) al k']
  have f: "filter (\<lambda>x. x \<notin> set xs) (remove1 t (waitqs k w)) = filter (\<lambda>x. x \<notin> set (t # xs)) (waitqs k w)"
    by (simp add: distinct_remove1_removeAll [OF dis] removeAll_filter_not_eq conj_commute filter_filter)
      (metis (mono_tags, lifting) filter_cong)
  have tt: "threads k' t = threads ?k t" using IH d(1) by blast
  show ?case using IH W d tt by (auto simp: f wq fun_upd_def)
qed

section \<open>The operations\<close>

definition posted :: "u32 \<Rightarrow> u32 \<Rightarrow> u32 \<Rightarrow> u32" where
  "posted old evs events_mask = (old AND NOT events_mask) OR (evs AND events_mask)"

text \<open>
  No thread waits for a condition that is already met; the threads that wait are alive and wait for
  something.
\<close>

definition event_inv :: "k_event \<Rightarrow> kernel \<Rightarrow> bool" where
  "event_inv event k \<longleftrightarrow> (\<forall>t \<in> set (waitqs k (ev_wait_q event)).
     events (threads k t) \<noteq> 0 \<and> \<not> event_met (ev_events event) (threads k t) \<and> THREAD_DEAD \<notin> thread_state (threads k t))"

lemma event_post_effect:
  assumes k: "kernel_inv k" and e: "event_inv event k" and p: "k_event_post_internal evs m event k = (prev, event', k')"
    and new: "new = posted (ev_events event) evs m" and w: "w = ev_wait_q event"
  shows "prev = ev_events event AND m" "event' = event\<lparr>ev_events := new\<rparr>" "kernel_inv k'"
    "waitqs k' = (waitqs k)(w := filter (\<lambda>t. \<not> event_met new (threads k t)) (waitqs k w))"
    "t \<in> set (waitqs k w) \<Longrightarrow> event_met new (threads k t) \<Longrightarrow>
       swap_retval (threads k' t) = 0 \<and> events (threads k' t) = new \<and> pended_on (threads k' t) = None"
    "t \<in> set (waitqs k w) \<Longrightarrow> \<not> event_met new (threads k t) \<Longrightarrow> threads k' t = threads k t"
proof -
  obtain st h k1 where wk: "z_sched_waitq_walk (waitqs k w) (event_walk_op new) (None, k) = (st, h, k1)" by (metis prod.exhaust)
  define k2 where "k2 = event_wake_loop (length (waitqs k w)) new h k1"
  have eq: "prev = ev_events event AND m" "event' = event\<lparr>ev_events := new\<rparr>" "k' = z_reschedule k2"
    using p wk unfolding k_event_post_internal_def posted_def [symmetric] new [symmetric] w [symmetric] k2_def
    by (simp_all add: Let_def)
  then show "prev = ev_events event AND m" "event' = event\<lparr>ev_events := new\<rparr>" by simp_all
  let ?ms = "filter (\<lambda>t. event_met new (threads k t)) (waitqs k w)"
  have mid: "kernel_mid k" "no_wakes k" using kernel_inv_pre [OF k] by (simp_all add: kernel_pre_mid)
  have dis: "distinct (waitqs k w)" using sch.waiters_distinct [OF kernel_midD(1) [OF mid(1)]] .
  note L = event_walk_links [OF mid(1) dis subset_refl _ _ wk, of "[]", simplified]
  have dead: "THREAD_DEAD \<notin> thread_state (threads k1 t)" if "t \<in> set (rev ?ms)" for t
  proof -
    have "thread_state (event_view (threads k1 t)) = thread_state (event_view (threads k t))" using L by metis
    then show ?thesis using e that by (simp add: event_inv_def event_view_def w)
  qed
  have ch: "event_chain (threads k1) h (rev ?ms)" using L by simp
  have sub: "distinct (rev ?ms)" "set (rev ?ms) \<subseteq> set (waitqs k1 w)" "length (rev ?ms) \<le> length (waitqs k w)"
    using dis L by auto
  have W: "kernel_mid k2 \<and> waitqs k2 = (waitqs k1)(w := filter (\<lambda>t. t \<notin> set (rev ?ms)) (waitqs k1 w)) \<and> env k2 = env k1 \<and>
    current k2 = current k1 \<and> (\<forall>x. x \<notin> set (rev ?ms) \<longrightarrow> threads k2 x = threads k1 x) \<and>
    (\<forall>x \<in> set (rev ?ms). swap_retval (threads k2 x) = 0 \<and> events (threads k2 x) = new \<and>
       \<not> no_wake_on_timeout (threads k2 x) \<and> pended_on (threads k2 x) = None)"
    using event_wake_loop_wakes [OF _ ch sub dead k2_def] L by blast
  have f: "env k2 = env k" "current k2 = current k" using W L by simp_all
  have out: "threads k2 x = threads k x" if "x \<notin> set ?ms" for x using W L that by simp
  have "\<not> no_wake_on_timeout (threads k2 x)" for x using W out mid(2) by (cases "x \<in> set ?ms") simp_all
  then have pre: "kernel_pre k2" using W by (simp add: kernel_pre_mid)
  then show "kernel_inv k'" unfolding eq by (rule pre_reschedule)
  have "filter (\<lambda>t. t \<notin> set (rev ?ms)) (waitqs k w) = filter (\<lambda>t. \<not> event_met new (threads k t)) (waitqs k w)"
    by (rule filter_cong) auto
  then show "waitqs k' = (waitqs k)(w := filter (\<lambda>t. \<not> event_met new (threads k t)) (waitqs k w))"
    using W L by (simp add: eq)
  have th: "threads k' t = threads k2 t" if "t \<in> set (waitqs k w)" for t
    unfolding eq using reschedule_waiter [OF k that f] .
  show "swap_retval (threads k' t) = 0 \<and> events (threads k' t) = new \<and> pended_on (threads k' t) = None"
    if "t \<in> set (waitqs k w)" "event_met new (threads k t)" using W that th by simp
  show "threads k' t = threads k t" if "t \<in> set (waitqs k w)" "\<not> event_met new (threads k t)"
    using out [of t] that th by simp
qed

lemma event_post_inv:
  assumes "kernel_inv k" "event_inv event k" "k_event_post_internal evs m event k = (prev, event', k')"
  shows "kernel_inv k'" "event_inv event' k'"
proof -
  note E = event_post_effect [OF assms refl refl]
  show "kernel_inv k'" by (rule E)
  show "event_inv event' k'"
    unfolding event_inv_def
  proof
    fix t
    assume "t \<in> set (waitqs k' (ev_wait_q event'))"
    then have t: "t \<in> set (waitqs k (ev_wait_q event))" "\<not> event_met (posted (ev_events event) evs m) (threads k t)"
      using E(2,4) by simp_all
    show "events (threads k' t) \<noteq> 0 \<and> \<not> event_met (ev_events event') (threads k' t) \<and>
        THREAD_DEAD \<notin> thread_state (threads k' t)"
      using E(6) [OF t] assms(2) t E(2) by (simp add: event_inv_def)
  qed
qed

lemma reset_not_met: "events th \<noteq> 0 \<Longrightarrow> \<not> event_met 0 th"
  by (simp add: event_met_def are_wait_conditions_met_def)

text \<open>A wait that pends: the caller joins the queue with its condition recorded, the others stay.\<close>

lemma event_pended:
  assumes k: "kernel_inv k" and run: "running k"
    and k': "k' = z_pend_curr w n (upd_thread (current k) (\<lambda>th. th\<lparr>events := evs, event_options := opts\<rparr>) k)"
  shows "kernel_inv k'" "waitqs k' w = z_priq_dumb_add (threads k) (waitqs k w) (current k)"
    "t \<noteq> current k \<Longrightarrow> threads k' t = threads k t" "events (threads k' (current k)) = evs"
    "event_options (threads k' (current k)) = opts" "THREAD_DEAD \<notin> thread_state (threads k' (current k))"
proof -
  let ?u = "upd_thread (current k) (\<lambda>th. th\<lparr>events := evs, event_options := opts\<rparr>) k"
  have "kernel_inv ?u" by (rule upd_kernel_inv [OF k running_not_dummy [OF k run]]) (simp_all add: sched_view_def)
  then show "kernel_inv k'" unfolding k' using run by (intro pend_curr_kernel_inv) (simp_all add: running_def)
  have "z_priq_dumb_add (threads ?u) (waitqs k w) (current k) = z_priq_dumb_add (threads k) (waitqs k w) (current k)"
    by (rule dumb_add_cong) (auto simp: threads_upd_thread)
  then show "waitqs k' w = z_priq_dumb_add (threads k) (waitqs k w) (current k)" by (simp add: k' z_pend_curr_waitqs)
  show "t \<noteq> current k \<Longrightarrow> threads k' t = threads k t" "events (threads k' (current k)) = evs"
    "event_options (threads k' (current k)) = opts"
    by (simp_all add: k' z_pend_curr_threads threads_upd_thread)
  have "z_is_thread_ready k (current k)"
    using run runnable_ready [OF kernel_invD(1) [OF k], of "current k"] by (simp add: running_def runnable_def)
  then show "THREAD_DEAD \<notin> thread_state (threads k' (current k))"
    by (auto simp: ready_iff k' z_pend_curr_threads threads_upd_thread)
qed

lemma event_wait_inv:
  assumes k: "kernel_inv k" and e: "event_inv event k" and run: "timeout = K_NO_WAIT \<or> running k"
    and p: "k_event_wait_internal evs opts timeout event k = (r, event', k')"
  shows "kernel_inv k'" "event_inv event' k'"
proof -
  define event1 where "event1 = (if opts AND K_EVENT_WAIT_RESET \<noteq> 0 then event\<lparr>ev_events := 0\<rparr> else event)"
  have e1: "event_inv event1 k" "ev_wait_q event1 = ev_wait_q event"
    using e reset_not_met by (auto simp: event1_def event_inv_def)
  consider (returns) "event' \<in> {event, event1}" "k' = k"
    | (pend) "evs \<noteq> 0" "\<not> are_wait_conditions_met evs (ev_events event1) (opts AND K_EVENT_WAIT_MASK)" "timeout \<noteq> K_NO_WAIT"
        "event' = event1" "k' = z_pend_curr (ev_wait_q event) timeout
          (upd_thread (current k) (\<lambda>th. th\<lparr>events := evs, event_options := opts\<rparr>) k)"
    using p e1(2) unfolding k_event_wait_internal_def event1_def [symmetric] Let_def by (auto split: if_splits)
  then have "kernel_inv k' \<and> event_inv event' k'"
  proof cases
    case returns
    then show ?thesis using k e e1 by auto
  next
    case pend
    have r: "running k" using run pend(3) by simp
    note P = event_pended [OF k r pend(5)]
    have "events (threads k' t) \<noteq> 0 \<and> \<not> event_met (ev_events event1) (threads k' t) \<and>
        THREAD_DEAD \<notin> thread_state (threads k' t)" if "t \<in> set (waitqs k' (ev_wait_q event1))" for t
    proof (cases "t = current k")
      case True
      then show ?thesis using P(4,5,6) pend(1,2) by (simp add: event_met_def)
    next
      case False
      then have "t \<in> set (waitqs k (ev_wait_q event1))" using that P(2) e1(2) by simp
      then show ?thesis using P(3) [OF False] e1(1) by (simp add: event_inv_def)
    qed
    then show ?thesis using P(1) pend(4) by (simp add: event_inv_def)
  qed
  then show "kernel_inv k'" "event_inv event' k'" by simp_all
qed

section \<open>Properties\<close>

text \<open>
  C33. No thread waits for events that are there: after every post, set, clear and wait, the condition of
  each waiting thread is still unmet, and the kernel invariant holds.
\<close>

theorem event_no_satisfied_waiter:
  assumes "kernel_inv k" "event_inv event k" "timeout = K_NO_WAIT \<or> running k"
    and "k_event_post_internal evs m event k = (prev, e1, k1)" "k_event_wait_internal evs opts timeout event k = (r, e2, k2)"
  shows "kernel_inv k1 \<and> event_inv e1 k1 \<and> kernel_inv k2 \<and> event_inv e2 k2"
  using event_post_inv [OF assms(1,2,4)] event_wait_inv [OF assms(1,2,3,5)] by blast

definition sample_event :: k_event where
  "sample_event = \<lparr>ev_wait_q = ObjQ 0, ev_events = 0\<rparr>"

lemma sample_event_inv: "event_inv sample_event with_helper"
  by (simp add: event_inv_def sample_event_def helper_facts)

theorem event_no_satisfied_waiter_witness:
  "\<exists>e k. k_event_wait_internal 6 0 K_FOREVER sample_event with_helper = (Blocked, e, k) \<and> kernel_inv k \<and> event_inv e k"
proof -
  obtain prev e1 k1 r e2 k2 where p: "k_event_post_internal 6 6 sample_event with_helper = (prev, e1, k1)"
    "k_event_wait_internal 6 0 K_FOREVER sample_event with_helper = (r, e2, k2)" by (metis prod.exhaust)
  have "r = Blocked" using p(2) by (simp add: k_event_wait_internal_def are_wait_conditions_met_def sample_event_def)
  with event_no_satisfied_waiter [OF helper_run(1) sample_event_inv _ p] helper_run(2) p(2) show ?thesis by auto
qed

text \<open>
  C34. A post sets the masked bits, returns their previous values and wakes exactly the threads whose
  condition is now met. Such a thread's wait returns the events it asked for that are set, at least
  one of them; every other thread keeps waiting unchanged.
\<close>

theorem event_post_wakes_matching:
  assumes "kernel_inv k" "event_inv event k" "k_event_post_internal evs m event k = (prev, event', k')"
    and "w = ev_wait_q event" "new = (ev_events event AND NOT m) OR (evs AND m)"
  shows "prev = ev_events event AND m \<and> ev_events event' = new \<and>
    waitqs k' w = filter (\<lambda>t. \<not> event_met new (threads k t)) (waitqs k w) \<and>
    (\<forall>t \<in> set (waitqs k w). if event_met new (threads k t)
       then pended_on (threads k' t) = None \<and>
         k_event_wait_resume (events (threads k t)) (k'\<lparr>current := t\<rparr>) = new AND events (threads k t) \<and>
         new AND events (threads k t) \<noteq> 0
       else threads k' t = threads k t)"
proof -
  have new: "new = posted (ev_events event) evs m" by (simp add: posted_def assms(5))
  note E = event_post_effect [OF assms(1-3) new assms(4)]
  have "new AND events (threads k t) \<noteq> 0" if "t \<in> set (waitqs k w)" "event_met new (threads k t)" for t
    using that assms(2,4) by (auto simp: event_met_def are_wait_conditions_met_def event_inv_def Let_def split: if_splits)
  then show ?thesis using E by (simp add: k_event_wait_resume_def)
qed

theorem event_post_wakes_matching_witness:
  "\<exists>k1 e k. k_event_wait_internal 6 0 K_FOREVER sample_event with_helper = (Blocked, sample_event, k1) \<and>
     k_event_post_internal 4 4 sample_event k1 = (0, e, k) \<and> ev_events e = 4 \<and> waitqs k (ObjQ 0) = [] \<and>
     k_event_wait_resume 6 (k\<lparr>current := 5\<rparr>) = 4"
proof -
  let ?k1 = "z_pend_curr (ObjQ 0) K_FOREVER (upd_thread (current with_helper) (\<lambda>th. th\<lparr>events := 6, event_options := 0\<rparr>) with_helper)"
  note P = event_pended [OF helper_run(1,2), where k' = ?k1, OF refl]
  have w: "k_event_wait_internal 6 0 K_FOREVER sample_event with_helper = (Blocked, sample_event, ?k1)"
    by (simp add: k_event_wait_internal_def are_wait_conditions_met_def sample_event_def)
  have i: "event_inv sample_event ?k1" using event_wait_inv(2) [OF helper_run(1) sample_event_inv _ w] helper_run(2) by simp
  obtain prev e k where p: "k_event_post_internal 4 4 sample_event ?k1 = (prev, e, k)" by (metis prod.exhaust)
  have c: "current with_helper = 5" by (simp add: helper_facts)
  have q: "waitqs ?k1 (ev_wait_q sample_event) = [5]" using P(2) by (simp add: helper_facts sample_event_def)
  have th: "events (threads ?k1 5) = 6" "event_options (threads ?k1 5) = 0" using P(4,5) c by simp_all
  have "event_met 4 (threads ?k1 5)" unfolding event_met_def are_wait_conditions_met_def th by simp
  moreover have new: "4 = (ev_events sample_event AND NOT 4) OR (4 AND 4 :: u32)" by (simp add: sample_event_def)
  ultimately show ?thesis
    using event_post_wakes_matching [OF P(1) i p refl new] w p q th by (simp add: sample_event_def)
qed

end
