(* ===== verification/Bytes.thy ===== *)
theory Bytes
  imports Prelude
begin

text \<open>
  Byte memory beyond \<open>memcpy\<close>: storing a list of bytes at an address, and reading and writing a
  window of a ring of \<open>n\<close> bytes at base \<open>b\<close>. A position of a ring is any natural number; its
  address is taken modulo the size. Ring buffers and pipes share these lemmas.
\<close>

type_synonym mem = "addr \<Rightarrow> byte"

section \<open>Storing bytes\<close>

definition mem_write :: "addr \<Rightarrow> byte list \<Rightarrow> mem \<Rightarrow> mem" where
  "mem_write a xs m = (\<lambda>x. if a \<le> x \<and> x < a + length xs then xs ! (x - a) else m x)"

lemma mem_write_Nil [simp]: "mem_write a [] m = m"
  by (auto simp: mem_write_def intro!: ext)

lemma mem_write_Cons: "mem_write a (x # xs) m = mem_write (Suc a) xs (m(a := x))"
  by (auto simp: mem_write_def nth_Cons' intro!: ext)

lemma memcpy_write: "memcpy dst src n m = mem_write dst (mem_read m src n) m"
  by (auto simp: memcpy_def mem_write_def mem_read_nth intro!: ext)

lemma mem_write_append: "mem_write a (xs @ ys) m = mem_write (a + length xs) ys (mem_write a xs m)"
  by (auto simp: mem_write_def nth_append intro!: ext)

lemma mem_read_write [simp]: "mem_read (mem_write a xs m) a (length xs) = xs"
  by (auto simp: mem_read_nth mem_write_def intro!: nth_equalityI)

lemma mem_read_append: "mem_read m a (i + j) = mem_read m a i @ mem_read m (a + i) j"
  by (auto simp: mem_read_nth nth_append intro!: nth_equalityI)

lemma take_mem_read: "take k (mem_read m a n) = mem_read m a (min k n)"
  by (auto simp: mem_read_nth intro!: nth_equalityI)

lemma drop_mem_read: "drop k (mem_read m a n) = mem_read m (a + k) (n - k)"
  by (auto simp: mem_read_nth add.assoc intro!: nth_equalityI)

lemma mem_read_write_other:
  assumes "a + k \<le> b \<or> b + length xs \<le> a"
  shows "mem_read (mem_write b xs m) a k = mem_read m a k"
  by (rule mem_read_cong) (use assms in \<open>auto simp: mem_write_def\<close>)

section \<open>Rings\<close>

definition ring_read :: "addr \<Rightarrow> nat \<Rightarrow> nat \<Rightarrow> nat \<Rightarrow> mem \<Rightarrow> byte list" where
  "ring_read b n h k m = map (\<lambda>i. m (b + (h + i) mod n)) [0..<k]"

fun ring_write :: "addr \<Rightarrow> nat \<Rightarrow> nat \<Rightarrow> byte list \<Rightarrow> mem \<Rightarrow> mem" where
  "ring_write b n h [] m = m"
| "ring_write b n h (x # xs) m = ring_write b n (Suc h) xs (m(b + h mod n := x))"

lemma length_ring_read [simp]: "length (ring_read b n h k m) = k"
  by (simp add: ring_read_def)

lemma ring_read_0 [simp]: "ring_read b n h 0 m = []"
  by (simp add: ring_read_def)

lemma ring_read_nth: "i < k \<Longrightarrow> ring_read b n h k m ! i = m (b + (h + i) mod n)"
  by (simp add: ring_read_def)

lemma ring_read_append: "ring_read b n h (i + j) m = ring_read b n h i m @ ring_read b n (h + i) j m"
  by (auto simp: ring_read_nth nth_append intro!: nth_equalityI)

lemma take_ring_read: "take i (ring_read b n h k m) = ring_read b n h (min i k) m"
  by (auto simp: ring_read_nth intro!: nth_equalityI)

lemma drop_ring_read: "drop i (ring_read b n h k m) = ring_read b n (h + i) (k - i) m"
  by (auto simp: ring_read_nth add.assoc intro!: nth_equalityI)

lemma ring_read_mod [simp]: "ring_read b n (h mod n) k m = ring_read b n h k m"
  by (simp add: ring_read_def mod_simps)

lemma ring_write_mod [simp]: "ring_write b n (h mod n) xs m = ring_write b n h xs m"
proof (induction xs arbitrary: h m)
  case (Cons x xs)
  show ?case using Cons [of "Suc (h mod n)"] Cons [of "Suc h"] by (simp add: mod_simps fun_upd_def)
qed simp

lemma ring_write_append:
  "ring_write b n h (xs @ ys) m = ring_write b n (h + length xs) ys (ring_write b n h xs m)"
  by (induction xs arbitrary: h m) auto

lemma ring_write_outside:
  assumes "0 < n" "a < b \<or> b + n \<le> a"
  shows "ring_write b n h xs m a = m a"
  using assms
proof (induction xs arbitrary: h m)
  case (Cons x xs)
  moreover have "a \<noteq> b + h mod n" using Cons.prems mod_less_divisor [of n h] by linarith
  ultimately show ?case by simp
qed simp

text \<open>Two positions closer than the size are at different addresses.\<close>

lemma ring_addr_inj:
  fixes i j n :: nat
  assumes "i < j" "j < i + n"
  shows "i mod n \<noteq> j mod n"
proof
  assume "i mod n = j mod n"
  then have "n dvd j - i" using assms mod_eq_dvd_iff_nat [of i j n] by simp
  then show False using assms by (auto dest!: dvd_imp_le)
qed

lemma ring_write_before:
  assumes "p < h" "h + length xs \<le> p + n"
  shows "ring_write b n h xs m (b + p mod n) = m (b + p mod n)"
  using assms
proof (induction xs arbitrary: h m)
  case (Cons x xs)
  moreover have "p mod n \<noteq> h mod n" using Cons.prems ring_addr_inj [of p h n] by simp
  ultimately show ?case by simp
qed simp

lemma ring_write_nth:
  assumes "i < length xs" "length xs \<le> n"
  shows "ring_write b n h xs m (b + (h + i) mod n) = xs ! i"
  using assms
proof (induction xs arbitrary: h m i)
  case (Cons x xs)
  show ?case
  proof (cases i)
    case 0
    then show ?thesis using Cons.prems ring_write_before [of h "Suc h" xs n] by simp
  next
    case (Suc j)
    then show ?thesis using Cons.prems Cons.IH [of j "Suc h"] by simp
  qed
qed simp

lemma ring_read_write [simp]: "length xs \<le> n \<Longrightarrow> ring_read b n h (length xs) (ring_write b n h xs m) = xs"
  by (auto simp: ring_read_nth ring_write_nth intro!: nth_equalityI)

lemma ring_read_write_before:
  assumes "g + k \<le> h" "h + length xs \<le> g + n"
  shows "ring_read b n g k (ring_write b n h xs m) = ring_read b n g k m"
  using assms by (auto simp: ring_read_nth ring_write_before intro!: nth_equalityI)

text \<open>What is read behind a window followed by what was written into it.\<close>

lemma ring_read_write_after:
  assumes "u + length xs \<le> n"
  shows "ring_read b n g (u + length xs) (ring_write b n (g + u) xs m) = ring_read b n g u m @ xs"
  using assms by (simp add: ring_read_append ring_read_write_before)

lemma ring_read_mem_write:
  assumes "0 < n" "b + n \<le> a \<or> a + length xs \<le> b"
  shows "ring_read b n h k (mem_write a xs m) = ring_read b n h k m"
proof (rule nth_equalityI; simp)
  fix i
  assume "i < k"
  moreover have "(h + i) mod n < n" using assms(1) by simp
  ultimately show "ring_read b n h k (mem_write a xs m) ! i = ring_read b n h k m ! i"
    using assms(2) by (auto simp: ring_read_nth mem_write_def)
qed

lemma mem_read_ring_write:
  assumes "0 < n" "b + n \<le> a \<or> a + k \<le> b"
  shows "mem_read (ring_write b n h xs m) a k = mem_read m a k"
  by (rule mem_read_cong) (use assms in \<open>auto simp: ring_write_outside\<close>)

text \<open>A window that does not wrap is a stretch of memory.\<close>

lemma ring_write_contig:
  assumes "h mod n + length xs \<le> n"
  shows "ring_write b n h xs m = mem_write (b + h mod n) xs m"
  using assms
proof (induction xs arbitrary: h m)
  case (Cons x xs)
  have s: "Suc h mod n = (if Suc (h mod n) = n then 0 else Suc (h mod n))" by (rule mod_Suc)
  show ?case
  proof (cases "xs = []")
    case False
    then have "Suc h mod n = Suc (h mod n)" using Cons.prems s by (cases xs) auto
    then show ?thesis using Cons.prems Cons.IH [of "Suc h"] by (simp add: mem_write_Cons)
  qed (simp add: mem_write_Cons)
qed simp

lemma ring_read_contig:
  assumes "h mod n + k \<le> n"
  shows "ring_read b n h k m = mem_read m (b + h mod n) k"
proof (rule nth_equalityI; simp)
  fix i
  assume i: "i < k"
  then have "(h + i) mod n = h mod n + i"
    using assms by (metis add_less_mono1 add.commute mod_add_left_eq mod_less order_less_le_trans)
  with i show "ring_read b n h k m ! i = mem_read m (b + h mod n) k ! i"
    by (simp add: ring_read_nth mem_read_nth add.assoc)
qed

end
