(* ===== verification/Ring_Buffer.thy ===== *)
theory Ring_Buffer
  imports Bytes
begin

text \<open>
  The byte and item ring buffers of \<open>lib/utils/ring_buffer.c\<close> and
  \<open>include/zephyr/sys/ring_buffer.h\<close>. The six indices run freely over the 32-bit integers and
  wrap; they are words here. A position in the buffer is an index minus its base. Claiming hands
  out a stretch of the buffer, finishing commits a part of what is claimed. Assertions are off.
\<close>

abbreviation (input) EMSGSIZE :: int where "EMSGSIZE \<equiv> 122"

section \<open>Structure and operations\<close>

record ring_buf =
  rb_buffer :: addr
  put_head :: u32
  put_tail :: u32
  put_base :: u32
  get_head :: u32
  get_tail :: u32
  get_base :: u32
  rb_size :: u32

definition ring_buf_internal_reset :: "u32 \<Rightarrow> ring_buf \<Rightarrow> ring_buf" where
  "ring_buf_internal_reset v buf =
     buf\<lparr>put_head := v, put_tail := v, put_base := v, get_head := v, get_tail := v, get_base := v\<rparr>"

definition ring_buf_init :: "u32 \<Rightarrow> addr \<Rightarrow> ring_buf \<Rightarrow> ring_buf" where
  "ring_buf_init sz data buf = ring_buf_internal_reset 0 (buf\<lparr>rb_size := sz, rb_buffer := data\<rparr>)"

definition ring_buf_item_init :: "u32 \<Rightarrow> addr \<Rightarrow> ring_buf \<Rightarrow> ring_buf" where
  "ring_buf_item_init sz data buf = ring_buf_init (4 * sz) data buf"

definition ring_buf_reset :: "ring_buf \<Rightarrow> ring_buf" where
  "ring_buf_reset buf = ring_buf_internal_reset 0 buf"

definition ring_buf_is_empty :: "ring_buf \<Rightarrow> bool" where
  "ring_buf_is_empty buf \<longleftrightarrow> get_head buf = put_tail buf"

definition ring_buf_space_get :: "ring_buf \<Rightarrow> u32" where
  "ring_buf_space_get buf = rb_size buf - (put_head buf - get_tail buf)"

definition ring_buf_item_space_get :: "ring_buf \<Rightarrow> u32" where
  "ring_buf_item_space_get buf = ring_buf_space_get buf div 4"

definition ring_buf_capacity_get :: "ring_buf \<Rightarrow> u32" where
  "ring_buf_capacity_get buf = rb_size buf"

definition ring_buf_size_get :: "ring_buf \<Rightarrow> u32" where
  "ring_buf_size_get buf = put_tail buf - get_head buf"

definition ring_buf_put_claim :: "u32 \<Rightarrow> ring_buf \<Rightarrow> u32 \<times> addr \<times> ring_buf" where
  "ring_buf_put_claim sz buf =
     (let base = put_base buf;
          wrap_size = put_head buf - base;
          (wrap_size, base) = (if wrap_size \<ge> rb_size buf
                               then (wrap_size - rb_size buf, base + rb_size buf) else (wrap_size, base));
          wrap_size = rb_size buf - wrap_size;
          free_space = ring_buf_space_get buf;
          sz = min sz free_space;
          sz = min sz wrap_size
      in (sz, rb_buffer buf + unat (put_head buf - base), buf\<lparr>put_head := put_head buf + sz\<rparr>))"

definition ring_buf_put_finish :: "u32 \<Rightarrow> ring_buf \<Rightarrow> int \<times> ring_buf" where
  "ring_buf_put_finish sz buf =
     (let finish_space = put_head buf - put_tail buf
      in if sz > finish_space then (- EINVAL, buf)
         else
           let buf1 = buf\<lparr>put_tail := put_tail buf + sz\<rparr>;
               buf2 = buf1\<lparr>put_head := put_tail buf1\<rparr>;
               wrap_size = put_tail buf2 - put_base buf2
           in (0, if wrap_size \<ge> rb_size buf2 then buf2\<lparr>put_base := put_base buf2 + rb_size buf2\<rparr> else buf2))"

definition ring_buf_get_claim :: "u32 \<Rightarrow> ring_buf \<Rightarrow> u32 \<times> addr \<times> ring_buf" where
  "ring_buf_get_claim sz buf =
     (let base = get_base buf;
          wrap_size = get_head buf - base;
          (wrap_size, base) = (if wrap_size \<ge> rb_size buf
                               then (wrap_size - rb_size buf, base + rb_size buf) else (wrap_size, base));
          wrap_size = rb_size buf - wrap_size;
          available_size = ring_buf_size_get buf;
          sz = min sz available_size;
          sz = min sz wrap_size
      in (sz, rb_buffer buf + unat (get_head buf - base), buf\<lparr>get_head := get_head buf + sz\<rparr>))"

definition ring_buf_get_finish :: "u32 \<Rightarrow> ring_buf \<Rightarrow> int \<times> ring_buf" where
  "ring_buf_get_finish sz buf =
     (let finish_space = get_head buf - get_tail buf
      in if sz > finish_space then (- EINVAL, buf)
         else
           let buf1 = buf\<lparr>get_tail := get_tail buf + sz\<rparr>;
               buf2 = buf1\<lparr>get_head := get_tail buf1\<rparr>;
               wrap_size = get_tail buf2 - get_base buf2
           in (0, if wrap_size \<ge> rb_size buf2 then buf2\<lparr>get_base := get_base buf2 + rb_size buf2\<rparr> else buf2))"

text \<open>A claim is at most what was asked for, so the copying loops end.\<close>

lemma put_claim_le: "fst (ring_buf_put_claim sz buf) \<le> sz"
  by (simp add: ring_buf_put_claim_def Let_def min.coboundedI1 split: prod.splits)

lemma get_claim_le: "fst (ring_buf_get_claim sz buf) \<le> sz"
  by (simp add: ring_buf_get_claim_def Let_def min.coboundedI1 split: prod.splits)

lemma remaining_decreases: "p \<le> (sz::u32) \<Longrightarrow> p \<noteq> 0 \<Longrightarrow> unat (sz - p) < unat sz"
  by (metis unat_sub diff_less le_zero_eq nat_neq_iff unat_eq_zero unat_gt_0 word_le_nat_alt word_neq_0_conv
      zero_less_iff_neq_zero order_less_le_trans)

text \<open>
  The \<open>do ... while (size && partial_size)\<close> loops: claim a stretch, copy, go on with the rest.
  The same loop is in \<open>ring_buf_put\<close> and \<open>ring_buf_item_put\<close>; the other one, whose destination
  may be a null pointer, is in \<open>ring_buf_get\<close>, \<open>ring_buf_peek\<close> and \<open>ring_buf_item_get\<close>.
\<close>

function put_loop :: "addr \<Rightarrow> u32 \<Rightarrow> u32 \<Rightarrow> ring_buf \<Rightarrow> mem \<Rightarrow> u32 \<times> ring_buf \<times> mem" where
  "put_loop data sz total_size buf m =
     (let (partial_size, dst, buf1) = ring_buf_put_claim sz buf;
          m1 = memcpy dst data (unat partial_size) m
      in if sz - partial_size \<noteq> 0 \<and> partial_size \<noteq> 0
         then put_loop (data + unat partial_size) (sz - partial_size) (total_size + partial_size) buf1 m1
         else (total_size + partial_size, buf1, m1))"
  by pat_completeness auto
termination
  by (relation "measure (\<lambda>(_, sz, _, _, _). unat sz)")
    (use put_claim_le in \<open>auto intro!: remaining_decreases split: prod.splits, metis fst_conv\<close>)

function get_loop :: "addr option \<Rightarrow> u32 \<Rightarrow> u32 \<Rightarrow> ring_buf \<Rightarrow> mem \<Rightarrow> u32 \<times> ring_buf \<times> mem" where
  "get_loop data sz total_size buf m =
     (let (partial_size, src, buf1) = ring_buf_get_claim sz buf;
          (data1, m1) = (case data of None \<Rightarrow> (None, m)
             | Some d \<Rightarrow> (Some (d + unat partial_size), memcpy d src (unat partial_size) m))
      in if sz - partial_size \<noteq> 0 \<and> partial_size \<noteq> 0
         then get_loop data1 (sz - partial_size) (total_size + partial_size) buf1 m1
         else (total_size + partial_size, buf1, m1))"
  by pat_completeness auto
termination
  by (relation "measure (\<lambda>(_, sz, _, _, _). unat sz)")
    (use get_claim_le in \<open>auto intro!: remaining_decreases split: prod.splits, metis fst_conv\<close>)

declare put_loop.simps [simp del] get_loop.simps [simp del]

definition ring_buf_put :: "addr \<Rightarrow> u32 \<Rightarrow> ring_buf \<Rightarrow> mem \<Rightarrow> u32 \<times> ring_buf \<times> mem" where
  "ring_buf_put data sz buf m =
     (let (total_size, buf1, m1) = put_loop data sz 0 buf m;
          (_, buf2) = ring_buf_put_finish total_size buf1
      in (total_size, buf2, m1))"

definition ring_buf_get :: "addr option \<Rightarrow> u32 \<Rightarrow> ring_buf \<Rightarrow> mem \<Rightarrow> u32 \<times> ring_buf \<times> mem" where
  "ring_buf_get data sz buf m =
     (let (total_size, buf1, m1) = get_loop data sz 0 buf m;
          (_, buf2) = ring_buf_get_finish total_size buf1
      in (total_size, buf2, m1))"

definition ring_buf_peek :: "addr \<Rightarrow> u32 \<Rightarrow> ring_buf \<Rightarrow> mem \<Rightarrow> u32 \<times> ring_buf \<times> mem" where
  "ring_buf_peek data sz buf m =
     (let sz = min sz (ring_buf_size_get buf);
          (total_size, buf1, m1) = get_loop (Some data) sz 0 buf m;
          (_, buf2) = ring_buf_get_finish 0 buf1
      in (total_size, buf2, m1))"

subsection \<open>Items\<close>

text \<open>
  The header of an item, \<open>struct ring_element\<close>: the bit fields \<open>type\<close>, \<open>length\<close> and \<open>value\<close> in the
  order the compilers of the little-endian targets lay them out in memory.
\<close>

definition header_write :: "addr \<Rightarrow> 16 word \<Rightarrow> byte \<Rightarrow> byte \<Rightarrow> mem \<Rightarrow> mem" where
  "header_write p type len val m =
     m(p := ucast type, p + 1 := ucast (drop_bit 8 type), p + 2 := len, p + 3 := val)"

definition header_type :: "mem \<Rightarrow> addr \<Rightarrow> 16 word" where
  "header_type m p = ucast (m p) OR push_bit 8 (ucast (m (p + 1)))"

definition header_length :: "mem \<Rightarrow> addr \<Rightarrow> byte" where
  "header_length m p = m (p + 2)"

definition header_value :: "mem \<Rightarrow> addr \<Rightarrow> byte" where
  "header_value m p = m (p + 3)"

definition ring_buf_item_put ::
  "16 word \<Rightarrow> byte \<Rightarrow> addr \<Rightarrow> byte \<Rightarrow> ring_buf \<Rightarrow> mem \<Rightarrow> int \<times> ring_buf \<times> mem" where
  "ring_buf_item_put type val data32 size32 buf m =
     (let space = ring_buf_space_get buf;
          sz = ucast size32 * 4
      in if sz + 4 > space then (- EMSGSIZE, buf, m)
         else
           let (_, dst, buf1) = ring_buf_put_claim 4 buf;
               m1 = header_write dst type size32 val m;
               (total_size, buf2, m2) = put_loop data32 sz 4 buf1 m1;
               (_, buf3) = ring_buf_put_finish total_size buf2
           in (0, buf3, m2))"

text \<open>The results of a get are its return value, the type and value if it stored them, and the
  length it left in \<open>*size32\<close>.\<close>

definition ring_buf_item_get ::
  "addr option \<Rightarrow> byte \<Rightarrow> ring_buf \<Rightarrow> mem \<Rightarrow> int \<times> (16 word \<times> byte) option \<times> byte \<times> ring_buf \<times> mem" where
  "ring_buf_item_get data size32 buf m =
     (if ring_buf_is_empty buf then (- EAGAIN, None, size32, buf, m)
      else
        let (_, src, buf1) = ring_buf_get_claim 4 buf
        in if data \<noteq> None \<and> header_length m src > size32
           then (- EMSGSIZE, None, header_length m src, snd (ring_buf_get_finish 0 buf1), m)
           else
             let size32' = header_length m src;
                 (total_size, buf2, m2) = get_loop data (ucast size32' * 4) 4 buf1 m;
                 (_, buf3) = ring_buf_get_finish total_size buf2
             in (0, Some (header_type m src, header_value m src), size32', buf3, m2))"

section \<open>Representation\<close>

text \<open>
  The indices of a buffer of \<open>n\<close> bytes that holds \<open>u\<close> bytes from position \<open>g\<close> on, with \<open>gc\<close> of
  them claimed by the reader and \<open>pc\<close> bytes behind them claimed by the writer.
\<close>

definition rb_rep :: "ring_buf \<Rightarrow> nat \<Rightarrow> nat \<Rightarrow> nat \<Rightarrow> nat \<Rightarrow> nat \<Rightarrow> bool" where
  "rb_rep buf n g gc u pc \<longleftrightarrow>
     0 < n \<and> n < 2 ^ 31 \<and> g < n \<and> gc \<le> u \<and> u + pc \<le> n \<and> rb_size buf = of_nat n \<and>
     get_tail buf = get_base buf + of_nat g \<and> get_head buf = get_tail buf + of_nat gc \<and>
     put_tail buf = get_tail buf + of_nat u \<and> put_head buf = put_tail buf + of_nat pc \<and>
     get_base buf = put_base buf + of_nat ((g + u) mod n) - of_nat (g + u)"

lemma u32_unat_of_nat [simp]: "n < 2 ^ 32 \<Longrightarrow> unat (of_nat n :: u32) = n"
  by (simp add: unat_of_nat take_bit_nat_eq_self)

lemma u32_of_nat_le: "a < 2 ^ 32 \<Longrightarrow> b < 2 ^ 32 \<Longrightarrow> (of_nat a :: u32) \<le> of_nat b \<longleftrightarrow> a \<le> b"
  by (simp add: word_le_nat_alt)

lemma u32_of_nat_less: "a < 2 ^ 32 \<Longrightarrow> b < 2 ^ 32 \<Longrightarrow> (of_nat a :: u32) < of_nat b \<longleftrightarrow> a < b"
  by (simp add: word_less_nat_alt)

lemma u32_min_of_nat: "b < 2 ^ 32 \<Longrightarrow> min sz (of_nat b) = (of_nat (min (unat sz) b) :: u32)"
  by (cases "unat sz \<le> b") (auto simp: min_def word_le_nat_alt)

text \<open>Where a claim starts: the offset of an index, which may be one round ahead of its base.\<close>

lemma wrap_offset:
  assumes "a < 2 * n" "n < 2 ^ 31" "w = (of_nat a :: u32)" "s = of_nat n"
  shows "(if w \<ge> s then (w - s, base + s) else (w, base)) =
    (of_nat (a mod n), base + of_nat a - of_nat (a mod n))"
proof (cases "n \<le> a")
  case True
  then have m: "a mod n = a - n" using assms(1) by (metis le_mod_geq mod_less less_diff_conv2 mult_2)
  then show ?thesis using True assms by (simp add: u32_of_nat_le of_nat_diff)
next
  case False
  then show ?thesis using assms by (simp add: u32_of_nat_le)
qed

lemma mod_once: "(a::nat) < 2 * n \<Longrightarrow> a mod n = (if n \<le> a then a - n else a)"
  by (metis le_mod_geq mod_less less_diff_conv2 mult_2 not_le)

lemma rb_rep_bounds:
  assumes "rb_rep buf n g gc u pc"
  shows "0 < n" "n < 2 ^ 31" "g < n" "gc \<le> u" "u + pc \<le> n" "rb_size buf = of_nat n"
  using assms by (auto simp: rb_rep_def)

lemma rb_rep_indices:
  assumes "rb_rep buf n g gc u pc"
  shows "put_head buf = put_base buf + of_nat ((g + u) mod n + pc)"
    and "put_head buf = get_tail buf + of_nat (u + pc)"
    and "put_tail buf = get_head buf + of_nat (u - gc)"
    and "get_head buf = get_base buf + of_nat (g + gc)"
  using assms by (auto simp: rb_rep_def of_nat_diff)

text \<open>A claim starts behind what is stored and claimed and goes at most to the end of the buffer.\<close>

lemma put_claim_rep:
  fixes sz :: u32
  assumes "rb_rep buf n g gc u pc"
  defines "k \<equiv> min (min (unat sz) (n - (u + pc))) (n - (g + u + pc) mod n)"
  shows "ring_buf_put_claim sz buf =
    (of_nat k, rb_buffer buf + (g + u + pc) mod n, buf\<lparr>put_head := put_head buf + of_nat k\<rparr>)"
proof -
  note R = rb_rep_bounds [OF assms(1)] and I = rb_rep_indices [OF assms(1)]
  let ?a = "(g + u) mod n + pc"
  have lt: "?a < 2 * n" using R mod_less_divisor [of n "g + u"] by linarith
  have am: "?a mod n = (g + u + pc) mod n" by (simp add: mod_simps)
  have b: "n < 2 ^ 32" "?a mod n < n" using R by auto
  have w: "put_head buf - put_base buf = of_nat ?a" using I(1) by simp
  have sp: "ring_buf_space_get buf = of_nat (n - (u + pc))"
    using R I(2) by (simp add: ring_buf_space_get_def of_nat_diff)
  have ws: "of_nat n - of_nat (?a mod n) = (of_nat (n - ?a mod n) :: u32)"
    using b by (simp add: of_nat_diff)
  have off: "put_head buf - (put_base buf + of_nat ?a - of_nat (?a mod n)) = of_nat (?a mod n)"
    using I(1) by simp
  have "min (min sz (of_nat (n - (u + pc)))) (of_nat (n - ?a mod n)) = (of_nat k :: u32)"
    using b by (simp add: u32_min_of_nat k_def am del: of_nat_diff)
  moreover have "unat (of_nat (?a mod n) :: u32) = ?a mod n" using b by simp
  ultimately show ?thesis
    unfolding ring_buf_put_claim_def Let_def R(6) wrap_offset [OF lt R(2) w refl]
    by (simp add: sp ws [unfolded am] off [unfolded am] am del: of_nat_diff of_nat_add)
qed

lemma get_claim_rep:
  fixes sz :: u32
  assumes "rb_rep buf n g gc u pc"
  defines "k \<equiv> min (min (unat sz) (u - gc)) (n - (g + gc) mod n)"
  shows "ring_buf_get_claim sz buf =
    (of_nat k, rb_buffer buf + (g + gc) mod n, buf\<lparr>get_head := get_head buf + of_nat k\<rparr>)"
proof -
  note R = rb_rep_bounds [OF assms(1)] and I = rb_rep_indices [OF assms(1)]
  let ?a = "g + gc"
  have lt: "?a < 2 * n" using R by linarith
  have b: "n < 2 ^ 32" "?a mod n < n" using R by auto
  have w: "get_head buf - get_base buf = of_nat ?a" using I(4) by simp
  have sp: "ring_buf_size_get buf = of_nat (u - gc)"
    unfolding ring_buf_size_get_def I(3) by simp
  have ws: "of_nat n - of_nat (?a mod n) = (of_nat (n - ?a mod n) :: u32)"
    using b by (simp add: of_nat_diff)
  have off: "get_head buf - (get_base buf + of_nat ?a - of_nat (?a mod n)) = of_nat (?a mod n)"
    using I(4) by simp
  have "u - gc < 2 ^ 32" using R by simp
  then have "min (min sz (of_nat (u - gc))) (of_nat (n - ?a mod n)) = (of_nat k :: u32)"
    using b by (simp add: u32_min_of_nat k_def del: of_nat_diff)
  moreover have "unat (of_nat (?a mod n) :: u32) = ?a mod n" using b by simp
  ultimately show ?thesis
    unfolding ring_buf_get_claim_def Let_def R(6) wrap_offset [OF lt R(2) w refl]
    by (simp add: sp ws off del: of_nat_diff of_nat_add)
qed

lemma put_claimed_rep:
  "rb_rep buf n g gc u pc \<Longrightarrow> u + pc + k \<le> n \<Longrightarrow>
   rb_rep (buf\<lparr>put_head := put_head buf + of_nat k\<rparr>) n g gc u (pc + k)"
  by (simp add: rb_rep_def)

lemma get_claimed_rep:
  "rb_rep buf n g gc u pc \<Longrightarrow> gc + k \<le> u \<Longrightarrow>
   rb_rep (buf\<lparr>get_head := get_head buf + of_nat k\<rparr>) n g (gc + k) u pc"
  by (simp add: rb_rep_def)

text \<open>Finishing moves claimed bytes to the stored ones, or stored ones to the free ones.\<close>

lemma put_finish_rep:
  assumes "rb_rep buf n g gc u pc"
  shows "unat sz \<le> pc \<Longrightarrow> \<exists>buf'. ring_buf_put_finish sz buf = (0, buf') \<and>
      rb_rep buf' n g gc (u + unat sz) 0 \<and> rb_buffer buf' = rb_buffer buf"
    and "pc < unat sz \<Longrightarrow> ring_buf_put_finish sz buf = (- EINVAL, buf)"
proof -
  note R = rb_rep_bounds [OF assms(1)] and I = rb_rep_indices [OF assms(1)]
  have d: "put_head buf - put_tail buf = of_nat pc" using assms by (simp add: rb_rep_def)
  have pc: "unat (of_nat pc :: u32) = pc" using R by simp
  show "pc < unat sz \<Longrightarrow> ring_buf_put_finish sz buf = (- EINVAL, buf)"
    by (simp add: ring_buf_put_finish_def d word_less_nat_alt pc)
  assume le: "unat sz \<le> pc"
  let ?p = "(g + u) mod n" and ?k = "unat sz"
  have p: "?p < n" using R by simp
  have t: "put_tail buf + sz - put_base buf = of_nat (?p + ?k)" using assms by (simp add: rb_rep_def)
  have m: "(g + (u + ?k)) mod n = (if n \<le> ?p + ?k then ?p + ?k - n else ?p + ?k)"
  proof -
    have "(g + (u + ?k)) mod n = (?p + ?k) mod n" by (simp add: mod_simps add.assoc)
    also have "\<dots> = (if n \<le> ?p + ?k then ?p + ?k - n else ?p + ?k)"
      by (rule mod_once) (use p le R in linarith)
    finally show ?thesis .
  qed
  have "?p + ?k < n + n" "n + n < 2 ^ 32" using p le R by (linarith, simp)
  then have "?p + ?k < 2 ^ 32" by (rule less_trans)
  then have "of_nat n \<le> (of_nat (?p + ?k) :: u32) \<longleftrightarrow> n \<le> ?p + ?k"
    by (intro u32_of_nat_le) (use R in auto)
  then have c: "of_nat n \<le> (of_nat ?p + sz :: u32) \<longleftrightarrow> n \<le> ?p + ?k" by simp
  have "\<not> sz > of_nat pc" using le by (simp add: word_less_nat_alt pc)
  then show "\<exists>buf'. ring_buf_put_finish sz buf = (0, buf') \<and>
      rb_rep buf' n g gc (u + unat sz) 0 \<and> rb_buffer buf' = rb_buffer buf"
    using assms le R(5) by (auto simp: ring_buf_put_finish_def Let_def d t c rb_rep_def m of_nat_diff)
qed

lemma get_finish_rep:
  assumes "rb_rep buf n g gc u pc"
  shows "unat sz \<le> gc \<Longrightarrow> \<exists>buf'. ring_buf_get_finish sz buf = (0, buf') \<and>
      rb_rep buf' n ((g + unat sz) mod n) 0 (u - unat sz) pc \<and> rb_buffer buf' = rb_buffer buf"
    and "gc < unat sz \<Longrightarrow> ring_buf_get_finish sz buf = (- EINVAL, buf)"
proof -
  note R = rb_rep_bounds [OF assms(1)] and I = rb_rep_indices [OF assms(1)]
  have d: "get_head buf - get_tail buf = of_nat gc" using assms by (simp add: rb_rep_def)
  have gc: "unat (of_nat gc :: u32) = gc" using R by simp
  show "gc < unat sz \<Longrightarrow> ring_buf_get_finish sz buf = (- EINVAL, buf)"
    by (simp add: ring_buf_get_finish_def d word_less_nat_alt gc)
  assume le: "unat sz \<le> gc"
  let ?k = "unat sz"
  define g' where "g' = (g + ?k) mod n"
  have t: "get_tail buf + sz - get_base buf = of_nat g + sz" using assms by (simp add: rb_rep_def)
  have "g' = (if n \<le> g + ?k then g + ?k - n else g + ?k)"
    unfolding g'_def by (rule mod_once) (use le R in linarith)
  then have m: "(of_nat g' :: u32) = of_nat g + sz - (if n \<le> g + ?k then of_nat n else 0)"
    by (simp add: of_nat_diff)
  have "(g' + (u - ?k)) mod n = (g + ?k + (u - ?k)) mod n" by (simp add: g'_def mod_simps)
  then have p: "(g' + u - ?k) mod n = (g + u) mod n" using le R by simp
  have "g + ?k < n + n" "n + n < 2 ^ 32" using le R by (linarith, simp)
  then have "g + ?k < 2 ^ 32" by (rule less_trans)
  then have "of_nat n \<le> (of_nat (g + ?k) :: u32) \<longleftrightarrow> n \<le> g + ?k"
    by (intro u32_of_nat_le) (use R in auto)
  then have c: "of_nat n \<le> (sz + of_nat g :: u32) \<longleftrightarrow> n \<le> g + ?k" by (simp add: add.commute)
  have "\<not> sz > of_nat gc" using le by (simp add: word_less_nat_alt gc)
  moreover have "?k \<le> u" "u - ?k + pc \<le> n" "g' < n" using le R by (auto simp: g'_def)
  ultimately show "\<exists>buf'. ring_buf_get_finish sz buf = (0, buf') \<and>
      rb_rep buf' n ((g + unat sz) mod n) 0 (u - unat sz) pc \<and> rb_buffer buf' = rb_buffer buf"
    using assms le unfolding g'_def [symmetric]
    by (simp add: ring_buf_get_finish_def Let_def d t c rb_rep_def p of_nat_diff m)
qed

section \<open>The copying loops\<close>

text \<open>
  The loops copy as many bytes as fit and as there are, in order and around the end of the
  buffer. The user's buffer is not part of the ring's.
\<close>

definition apart :: "ring_buf \<Rightarrow> nat \<Rightarrow> addr \<Rightarrow> nat \<Rightarrow> bool" where
  "apart buf n a k \<longleftrightarrow> rb_buffer buf + n \<le> a \<or> a + k \<le> rb_buffer buf"

lemma put_loop_rep:
  assumes "rb_rep buf n g gc u pc" "apart buf n data (unat sz)" "put_loop data sz t buf m = (t', buf', m')"
    and "k = min (unat sz) (n - (u + pc))"
  shows "t' = t + of_nat k \<and> rb_rep buf' n g gc u (pc + k) \<and> rb_buffer buf' = rb_buffer buf \<and>
    m' = ring_write (rb_buffer buf) n (g + u + pc) (mem_read m data k) m"
  using assms
proof (induction data sz t buf m arbitrary: pc k rule: put_loop.induct)
  case (1 data sz t buf m)
  note R = rb_rep_bounds [OF 1(2)]
  let ?h = "g + u + pc" and ?b = "rb_buffer buf"
  define j where "j = min (min (unat sz) (n - (u + pc))) (n - ?h mod n)"
  have cl: "ring_buf_put_claim sz buf = (of_nat j, ?b + ?h mod n, buf\<lparr>put_head := put_head buf + of_nat j\<rparr>)"
    (is "_ = (_, _, ?buf1)") unfolding j_def by (rule put_claim_rep [OF 1(2)])
  have j: "j \<le> unat sz" "j \<le> n - (u + pc)" "j \<le> n - ?h mod n" by (simp_all add: j_def)
  then have j: "j \<le> unat sz" "j \<le> n - (u + pc)" "?h mod n + j \<le> n" "j < 2 ^ 32"
    using R mod_less_divisor [of n ?h] by (linarith, linarith, linarith, simp)
  have uj: "unat (of_nat j :: u32) = j" using j by simp
  have j0: "(of_nat j :: u32) = 0 \<longleftrightarrow> j = 0" unfolding unat_eq_0 [symmetric] uj ..
  have us: "unat (sz - of_nat j) = unat sz - j" using j by (simp add: unat_sub word_le_nat_alt)
  have r1: "rb_rep ?buf1 n g gc u (pc + j)" by (rule put_claimed_rep [OF 1(2)]) (use j R in linarith)
  let ?m1 = "ring_write ?b n ?h (mem_read m data j) m"
  have m1: "memcpy (?b + ?h mod n) data j m = ?m1"
    using j by (simp add: memcpy_write ring_write_contig)
  show ?case
  proof (cases "sz - of_nat j \<noteq> 0 \<and> j \<noteq> 0")
    case True
    define i where "i = min (unat (sz - of_nat j)) (n - (u + (pc + j)))"
    have i: "i \<le> unat sz - j" and k: "k = j + i" using j(1,2) unfolding i_def us 1(5) by linarith+
    have c: "sz - of_nat j \<noteq> 0 \<and> (of_nat j :: u32) \<noteq> 0" using True j0 by simp
    have ap: "apart ?buf1 n (data + j) (unat (sz - of_nat j))" using 1(3) j us by (auto simp: apart_def)
    have "put_loop (data + j) (sz - of_nat j) (t + of_nat j) ?buf1 ?m1 = (t', buf', m')"
      using 1(4) [unfolded put_loop.simps [of data sz] Let_def cl prod.case uj m1] c by simp
    note IH = 1(1) [OF cl [symmetric] refl refl, unfolded uj m1, OF refl c r1 ap this i_def]
    have "mem_read ?m1 (data + j) i = mem_read m (data + j) i"
      using R(1) 1(3) j(1) i by (intro mem_read_ring_write) (auto simp: apart_def)
    then show ?thesis using IH unfolding k mem_read_append ring_write_append
      by (simp add: add.assoc)
  next
    case False
    have "0 < n - ?h mod n" "unat sz = j \<or> j = 0" using R False uj by auto
    then have "k = j" using j(1,2) j_def 1(5) by linarith
    then show ?thesis using 1(4) [unfolded put_loop.simps [of data sz] Let_def cl prod.case uj m1] False r1 j0
      by (auto split: if_splits)
  qed
qed

text \<open>A read without a destination skips the bytes.\<close>

definition apart_dst :: "ring_buf \<Rightarrow> nat \<Rightarrow> addr option \<Rightarrow> nat \<Rightarrow> bool" where
  "apart_dst buf n data k \<longleftrightarrow> (case data of None \<Rightarrow> True | Some d \<Rightarrow> apart buf n d k)"

definition deliver :: "addr option \<Rightarrow> byte list \<Rightarrow> mem \<Rightarrow> mem" where
  "deliver data xs m = (case data of None \<Rightarrow> m | Some d \<Rightarrow> mem_write d xs m)"

lemma deliver_append:
  "deliver data (xs @ ys) m = deliver (map_option (\<lambda>d. d + length xs) data) ys (deliver data xs m)"
  by (cases data) (simp_all add: deliver_def mem_write_append)

lemma ring_read_deliver:
  "0 < n \<Longrightarrow> apart_dst buf n data (length xs) \<Longrightarrow>
   ring_read (rb_buffer buf) n h k (deliver data xs m) = ring_read (rb_buffer buf) n h k m"
  by (cases data) (auto simp: deliver_def apart_dst_def apart_def ring_read_mem_write)

lemma get_loop_rep:
  assumes "rb_rep buf n g gc u pc" "apart_dst buf n data (unat sz)" "get_loop data sz t buf m = (t', buf', m')"
    and "k = min (unat sz) (u - gc)"
  shows "t' = t + of_nat k \<and> rb_rep buf' n g (gc + k) u pc \<and> rb_buffer buf' = rb_buffer buf \<and>
    m' = deliver data (ring_read (rb_buffer buf) n (g + gc) k m) m"
  using assms
proof (induction data sz t buf m arbitrary: gc k rule: get_loop.induct)
  case (1 data sz t buf m)
  note R = rb_rep_bounds [OF 1(2)]
  let ?h = "g + gc" and ?b = "rb_buffer buf"
  define j where "j = min (min (unat sz) (u - gc)) (n - ?h mod n)"
  have cl: "ring_buf_get_claim sz buf = (of_nat j, ?b + ?h mod n, buf\<lparr>get_head := get_head buf + of_nat j\<rparr>)"
    (is "_ = (_, _, ?buf1)") unfolding j_def by (rule get_claim_rep [OF 1(2)])
  have j: "j \<le> unat sz" "j \<le> u - gc" "j \<le> n - ?h mod n" by (simp_all add: j_def)
  then have j: "j \<le> unat sz" "j \<le> u - gc" "?h mod n + j \<le> n" "j < 2 ^ 32"
    using R mod_less_divisor [of n ?h] by (linarith, linarith, linarith, simp)
  have uj: "unat (of_nat j :: u32) = j" using j by simp
  have j0: "(of_nat j :: u32) = 0 \<longleftrightarrow> j = 0" unfolding unat_eq_0 [symmetric] uj ..
  have us: "unat (sz - of_nat j) = unat sz - j" using j by (simp add: unat_sub word_le_nat_alt)
  have r1: "rb_rep ?buf1 n g (gc + j) u pc" by (rule get_claimed_rep [OF 1(2)]) (use j R in linarith)
  let ?xs = "ring_read ?b n ?h j m"
  let ?d1 = "map_option (\<lambda>d. d + j) data" and ?m1 = "deliver data ?xs m"
  have m1: "(case data of None \<Rightarrow> (None, m)
      | Some d \<Rightarrow> (Some (d + j), memcpy d (?b + ?h mod n) j m)) = (?d1, ?m1)"
    using j by (cases data) (simp_all add: memcpy_write ring_read_contig deliver_def)
  show ?case
  proof (cases "sz - of_nat j \<noteq> 0 \<and> j \<noteq> 0")
    case True
    define i where "i = min (unat (sz - of_nat j)) (u - (gc + j))"
    have k: "k = j + i" using j(1,2) unfolding i_def us 1(5) by linarith
    have c: "sz - of_nat j \<noteq> 0 \<and> (of_nat j :: u32) \<noteq> 0" using True j0 by simp
    have ap: "apart_dst ?buf1 n ?d1 (unat (sz - of_nat j))" "apart_dst buf n data j"
      using 1(3) j us by (auto simp: apart_dst_def apart_def split: option.splits)
    have "get_loop ?d1 (sz - of_nat j) (t + of_nat j) ?buf1 ?m1 = (t', buf', m')"
      using 1(4) [unfolded get_loop.simps [of data sz] Let_def cl prod.case uj m1] c by simp
    note IH = 1(1) [OF cl [symmetric] refl refl, unfolded uj m1, OF refl refl c r1 ap(1) this i_def]
    have "ring_read ?b n (?h + j) i ?m1 = ring_read ?b n (?h + j) i m"
      using R(1) ap(2) by (simp add: ring_read_deliver)
    then show ?thesis using IH unfolding k ring_read_append deliver_append
      by (simp add: add.assoc)
  next
    case False
    have "0 < n - ?h mod n" "unat sz = j \<or> j = 0" using R False uj by auto
    then have "k = j" using j(1,2) j_def 1(5) by linarith
    then show ?thesis using 1(4) [unfolded get_loop.simps [of data sz] Let_def cl prod.case uj m1] False r1 j0
      by (auto split: if_splits)
  qed
qed

section \<open>The buffer as a list of bytes\<close>

definition rb_cap :: "ring_buf \<Rightarrow> nat" where "rb_cap buf = unat (rb_size buf)"

definition rb_off :: "ring_buf \<Rightarrow> nat" where "rb_off buf = unat (get_tail buf - get_base buf)"

definition rb_used :: "ring_buf \<Rightarrow> nat" where "rb_used buf = unat (put_tail buf - get_tail buf)"

definition rb_inv :: "ring_buf \<Rightarrow> bool" where
  "rb_inv buf \<longleftrightarrow> rb_rep buf (rb_cap buf) (rb_off buf) (unat (get_head buf - get_tail buf)) (rb_used buf)
     (unat (put_head buf - put_tail buf))"

definition rb_idle :: "ring_buf \<Rightarrow> bool" where
  "rb_idle buf \<longleftrightarrow> get_head buf = get_tail buf \<and> put_head buf = put_tail buf"

definition rb_list :: "ring_buf \<Rightarrow> mem \<Rightarrow> byte list" where
  "rb_list buf m = ring_read (rb_buffer buf) (rb_cap buf) (rb_off buf) (rb_used buf) m"

lemma length_rb_list [simp]: "length (rb_list buf m) = rb_used buf"
  by (simp add: rb_list_def)

lemma rb_rep_unique:
  assumes "rb_rep buf n g gc u pc"
  shows "rb_cap buf = n" "rb_off buf = g" "rb_used buf = u"
    "unat (get_head buf - get_tail buf) = gc" "unat (put_head buf - put_tail buf) = pc"
  using assms by (auto simp: rb_rep_def rb_cap_def rb_off_def rb_used_def)

lemma rb_rep_inv: "rb_rep buf n g gc u pc \<Longrightarrow> rb_inv buf"
  by (simp add: rb_inv_def rb_rep_unique)

lemma rb_rep_list: "rb_rep buf n g gc u pc \<Longrightarrow> rb_list buf m = ring_read (rb_buffer buf) n g u m"
  by (simp add: rb_list_def rb_rep_unique)

lemma rb_rep_idle: "rb_rep buf n g 0 u 0 \<Longrightarrow> rb_inv buf \<and> rb_idle buf \<and> rb_cap buf = n"
  by (auto dest: rb_rep_inv rb_rep_unique(1)) (auto simp: rb_idle_def rb_rep_def)

lemma rb_idle_rep:
  assumes "rb_inv buf" "rb_idle buf"
  shows "rb_rep buf (rb_cap buf) (rb_off buf) 0 (rb_used buf) 0"
  using assms by (simp add: rb_inv_def rb_idle_def)

lemma rb_used_le: "rb_inv buf \<Longrightarrow> rb_used buf \<le> rb_cap buf"
  by (auto simp: rb_inv_def rb_rep_def)

text \<open>The bytes written behind the stored ones are what a later finish adds.\<close>

lemma rb_list_put:
  assumes "rb_rep buf n g gc u pc" "rb_rep buf' n g gc (u + k) pc'" "rb_buffer buf' = rb_buffer buf"
    and "length xs = k'" "k \<le> k'" "u + k' \<le> n"
  shows "rb_list buf' (ring_write (rb_buffer buf) n (g + u) xs m) = rb_list buf m @ take k xs"
proof -
  let ?w = "ring_write (rb_buffer buf) n (g + u) xs m"
  have "ring_read (rb_buffer buf) n g (u + k') ?w = ring_read (rb_buffer buf) n g u m @ xs"
    using ring_read_write_after [of u xs n] assms(4,6) by simp
  then have "take (u + k) (ring_read (rb_buffer buf) n g (u + k') ?w) = ring_read (rb_buffer buf) n g u m @ take k xs"
    by simp
  then show ?thesis using assms by (simp add: rb_rep_list take_ring_read)
qed

lemma ring_buf_put_correct:
  assumes "rb_inv buf" "rb_idle buf" "apart buf (rb_cap buf) data (unat sz)"
    and "ring_buf_put data sz buf m = (r, buf', m')"
  shows "unat r = min (unat sz) (rb_cap buf - rb_used buf)"
    and "rb_list buf' m' = rb_list buf m @ mem_read m data (unat r)"
    and "rb_inv buf'" "rb_idle buf'" "rb_cap buf' = rb_cap buf" "rb_buffer buf' = rb_buffer buf"
    and "a < rb_buffer buf \<or> rb_buffer buf + rb_cap buf \<le> a \<Longrightarrow> m' a = m a"
proof -
  let ?n = "rb_cap buf" and ?g = "rb_off buf" and ?u = "rb_used buf"
  define k where "k = min (unat sz) (?n - ?u)"
  note r0 = rb_idle_rep [OF assms(1,2)]
  note R = rb_rep_bounds [OF r0]
  obtain t1 buf1 m1 where l: "put_loop data sz 0 buf m = (t1, buf1, m1)" by (cases "put_loop data sz 0 buf m")
  have k: "k = min (unat sz) (?n - (?u + 0))" by (simp add: k_def)
  note P = put_loop_rep [OF r0 assms(3) l k]
  have kk: "k \<le> ?n - ?u" "k < 2 ^ 32" "?u + k \<le> ?n" using R(2,5) by (auto simp: k_def)
  then have t1: "unat t1 = k" using P by simp
  from put_finish_rep(1) [of buf1 _ _ _ _ _ t1] P obtain buf2
    where f: "ring_buf_put_finish t1 buf1 = (0, buf2)" "rb_rep buf2 ?n ?g 0 (?u + k) 0" "rb_buffer buf2 = rb_buffer buf"
    using t1 by fastforce
  have e: "r = t1" "buf' = buf2" "m' = m1" using assms(4) by (auto simp: ring_buf_put_def l f)
  show "unat r = min (unat sz) (rb_cap buf - rb_used buf)" by (simp add: e t1 k_def)
  show "rb_inv buf'" "rb_idle buf'" "rb_cap buf' = rb_cap buf" "rb_buffer buf' = rb_buffer buf"
    using rb_rep_idle [OF f(2)] f(3) by (simp_all add: e)
  show "rb_list buf' m' = rb_list buf m @ mem_read m data (unat r)"
    using rb_list_put [OF r0 f(2,3), of "mem_read m data k" k] P kk by (simp add: e t1)
  show "a < rb_buffer buf \<or> rb_buffer buf + rb_cap buf \<le> a \<Longrightarrow> m' a = m a"
    using P R(1) by (simp add: e ring_write_outside)
qed

lemma rb_list_get:
  assumes "rb_rep buf n g gc u pc" "rb_rep buf' n ((g + k) mod n) gc' (u - k) pc'" "rb_buffer buf' = rb_buffer buf"
  shows "rb_list buf' m = drop k (rb_list buf m)"
  using assms by (simp add: rb_rep_list drop_ring_read)

lemma get_loop_idle:
  assumes "rb_inv buf" "rb_idle buf" "apart_dst buf (rb_cap buf) data (unat sz)"
    and "get_loop data sz 0 buf m = (t, buf1, m1)"
  defines "k \<equiv> min (unat sz) (rb_used buf)"
  shows "unat t = k" "rb_rep buf1 (rb_cap buf) (rb_off buf) k (rb_used buf) 0" "rb_buffer buf1 = rb_buffer buf"
    and "m1 = deliver data (take k (rb_list buf m)) m" "rb_list buf m1 = rb_list buf m"
proof -
  note r0 = rb_idle_rep [OF assms(1,2)]
  note R = rb_rep_bounds [OF r0]
  have k: "k = min (unat sz) (rb_used buf - 0)" by (simp add: k_def)
  note P = get_loop_rep [OF r0 assms(3,4) k]
  have "k < 2 ^ 32" "k \<le> rb_used buf" using R(2,5) by (auto simp: k_def)
  moreover have ap: "apart_dst buf (rb_cap buf) data k"
    using assms(3) by (auto simp: k_def apart_dst_def apart_def split: option.splits)
  ultimately show "unat t = k" "rb_rep buf1 (rb_cap buf) (rb_off buf) k (rb_used buf) 0"
    "rb_buffer buf1 = rb_buffer buf" "m1 = deliver data (take k (rb_list buf m)) m"
    using P by (simp_all add: rb_list_def take_ring_read min_absorb1)
  then show "rb_list buf m1 = rb_list buf m"
    using R(1) ap by (simp add: rb_list_def ring_read_deliver take_ring_read k_def)
qed

lemma ring_buf_get_correct:
  assumes "rb_inv buf" "rb_idle buf" "apart_dst buf (rb_cap buf) data (unat sz)"
    and "ring_buf_get data sz buf m = (r, buf', m')"
  shows "unat r = min (unat sz) (rb_used buf)"
    and "m' = deliver data (take (unat r) (rb_list buf m)) m"
    and "rb_list buf' m' = drop (unat r) (rb_list buf m)"
    and "rb_inv buf'" "rb_idle buf'" "rb_cap buf' = rb_cap buf" "rb_buffer buf' = rb_buffer buf"
proof -
  obtain t buf1 m1 where l: "get_loop data sz 0 buf m = (t, buf1, m1)" by (cases "get_loop data sz 0 buf m")
  note P = get_loop_idle [OF assms(1-3) l]
  from get_finish_rep(1) [OF P(2), of t] P(1,3) obtain buf2 where f: "ring_buf_get_finish t buf1 = (0, buf2)"
    "rb_rep buf2 (rb_cap buf) ((rb_off buf + unat t) mod rb_cap buf) 0 (rb_used buf - unat t) 0"
    "rb_buffer buf2 = rb_buffer buf" by auto
  have e: "r = t" "buf' = buf2" "m' = m1" using assms(4) by (auto simp: ring_buf_get_def l f)
  show "unat r = min (unat sz) (rb_used buf)" "m' = deliver data (take (unat r) (rb_list buf m)) m"
    using P by (simp_all add: e)
  show "rb_inv buf'" "rb_idle buf'" "rb_cap buf' = rb_cap buf" "rb_buffer buf' = rb_buffer buf"
    using rb_rep_idle [OF f(2)] f(3) by (simp_all add: e)
  show "rb_list buf' m' = drop (unat r) (rb_list buf m)"
    using rb_list_get [OF rb_idle_rep [OF assms(1,2)] f(2,3)] P(5) by (simp add: e)
qed

lemma ring_buf_size_idle:
  assumes "rb_inv buf" "rb_idle buf"
  shows "unat (ring_buf_size_get buf) = rb_used buf" "unat (ring_buf_space_get buf) = rb_cap buf - rb_used buf"
    and "ring_buf_is_empty buf \<longleftrightarrow> rb_used buf = 0"
proof -
  note r0 = rb_idle_rep [OF assms]
  note R = rb_rep_bounds [OF r0] and I = rb_rep_indices [OF r0]
  show "unat (ring_buf_size_get buf) = rb_used buf" using I(3) R(2,5) by (simp add: ring_buf_size_get_def)
  have "ring_buf_space_get buf = of_nat (rb_cap buf - rb_used buf)"
    using R(5,6) I(2) by (simp add: ring_buf_space_get_def of_nat_diff)
  then show "unat (ring_buf_space_get buf) = rb_cap buf - rb_used buf" using R(2) by simp
  show "ring_buf_is_empty buf \<longleftrightarrow> rb_used buf = 0"
    using assms(2) by (auto simp: ring_buf_is_empty_def rb_used_def rb_idle_def unat_eq_0)
qed

lemma ring_buf_peek_correct:
  assumes "rb_inv buf" "rb_idle buf" "apart buf (rb_cap buf) data (unat sz)"
    and "ring_buf_peek data sz buf m = (r, buf', m')"
  shows "unat r = min (unat sz) (rb_used buf)" "m' = mem_write data (take (unat r) (rb_list buf m)) m"
    and "rb_list buf' m' = rb_list buf m"
    and "rb_inv buf'" "rb_idle buf'" "rb_cap buf' = rb_cap buf" "rb_buffer buf' = rb_buffer buf"
proof -
  let ?sz = "min sz (ring_buf_size_get buf)"
  obtain t buf1 m1 where l: "get_loop (Some data) ?sz 0 buf m = (t, buf1, m1)"
    by (cases "get_loop (Some data) ?sz 0 buf m")
  have us: "unat ?sz = min (unat sz) (rb_used buf)"
    using ring_buf_size_idle(1) [OF assms(1,2)] by (simp add: min_def word_le_nat_alt)
  have "apart_dst buf (rb_cap buf) (Some data) (unat ?sz)"
    unfolding us using assms(3) by (auto simp: apart_dst_def apart_def)
  note P = get_loop_idle [OF assms(1,2) this l]
  from get_finish_rep(1) [OF P(2), of 0] P(1,3) obtain buf2 where f: "ring_buf_get_finish 0 buf1 = (0, buf2)"
    "rb_rep buf2 (rb_cap buf) (rb_off buf mod rb_cap buf) 0 (rb_used buf) 0"
    "rb_buffer buf2 = rb_buffer buf" by auto
  have e: "r = t" "buf' = buf2" "m' = m1" using assms(4) by (auto simp: ring_buf_peek_def l f Let_def)
  show "unat r = min (unat sz) (rb_used buf)" "m' = mem_write data (take (unat r) (rb_list buf m)) m"
    using P us by (simp_all add: e deliver_def)
  show "rb_inv buf'" "rb_idle buf'" "rb_cap buf' = rb_cap buf" "rb_buffer buf' = rb_buffer buf"
    using rb_rep_idle [OF f(2)] f(3) by (simp_all add: e)
  show "rb_list buf' m' = rb_list buf m"
    using rb_list_get [OF rb_idle_rep [OF assms(1,2)], of buf2 0] f P(5) by (simp add: e)
qed

section \<open>Properties of the byte buffer\<close>

lemma ring_buf_init_empty:
  assumes "0 < sz" "sz < 2 ^ 31"
  shows "rb_inv (ring_buf_init sz data buf)" "rb_idle (ring_buf_init sz data buf)"
    "rb_list (ring_buf_init sz data buf) m = []"
proof -
  have "unat sz < 2 ^ 31" "0 < unat sz" using assms by (auto simp: word_less_nat_alt unat_gt_0)
  then have "rb_rep (ring_buf_init sz data buf) (unat sz) 0 0 0 0"
    by (simp add: rb_rep_def ring_buf_init_def ring_buf_internal_reset_def)
  then show "rb_inv (ring_buf_init sz data buf)" "rb_idle (ring_buf_init sz data buf)"
    "rb_list (ring_buf_init sz data buf) m = []"
    using rb_rep_idle rb_rep_list by force+
qed

definition fifo_put :: "nat \<Rightarrow> 'a list \<Rightarrow> 'a list \<Rightarrow> 'a list" where
  "fifo_put cap xs ys = xs @ take (cap - length xs) ys"

definition rb_state :: "ring_buf \<Rightarrow> nat \<Rightarrow> addr \<Rightarrow> bool" where
  "rb_state buf cap b \<longleftrightarrow> rb_inv buf \<and> rb_idle buf \<and> rb_cap buf = cap \<and> rb_buffer buf = b"

text \<open>
  C20. Between claims a ring buffer is a bounded first-in first-out list of bytes, wherever its
  free-running 32-bit indices are and whether or not they wrap. Putting appends as many bytes as
  fit and returns their number, getting removes and delivers as many as there are, without a
  destination it skips them, and peeking delivers them and keeps the list.
\<close>

theorem ring_buf_refines_fifo:
  assumes "rb_state buf cap b" "b + cap \<le> data \<or> data + unat sz \<le> b"
  shows "(case ring_buf_put data sz buf m of (r, buf', m') \<Rightarrow>
      rb_state buf' cap b \<and> rb_list buf' m' = fifo_put cap (rb_list buf m) (mem_read m data (unat sz)) \<and>
      length (rb_list buf' m') = length (rb_list buf m) + unat r) \<and>
    (case ring_buf_get (Some data) sz buf m of (r, buf', m') \<Rightarrow>
      rb_state buf' cap b \<and> rb_list buf' m' = drop (unat sz) (rb_list buf m) \<and>
      m' = mem_write data (take (unat sz) (rb_list buf m)) m \<and> unat r = min (unat sz) (length (rb_list buf m))) \<and>
    (case ring_buf_get None sz buf m of (r, buf', m') \<Rightarrow>
      rb_state buf' cap b \<and> rb_list buf' m' = drop (unat sz) (rb_list buf m) \<and> m' = m) \<and>
    (case ring_buf_peek data sz buf m of (r, buf', m') \<Rightarrow>
      rb_state buf' cap b \<and> rb_list buf' m' = rb_list buf m \<and>
      m' = mem_write data (take (unat sz) (rb_list buf m)) m \<and> unat r = min (unat sz) (length (rb_list buf m)))"
proof -
  have st: "rb_inv buf" "rb_idle buf" "rb_cap buf = cap" "rb_buffer buf = b"
    using assms(1) by (auto simp: rb_state_def)
  have ap: "apart buf (rb_cap buf) data (unat sz)" "apart_dst buf (rb_cap buf) (Some data) (unat sz)"
    "apart_dst buf (rb_cap buf) None (unat sz)"
    using assms(2) st by (auto simp: apart_def apart_dst_def)
  obtain r1 buf1 m1 where p: "ring_buf_put data sz buf m = (r1, buf1, m1)" by (cases "ring_buf_put data sz buf m")
  obtain r2 buf2 m2 where g: "ring_buf_get (Some data) sz buf m = (r2, buf2, m2)"
    by (cases "ring_buf_get (Some data) sz buf m")
  obtain r3 buf3 m3 where s: "ring_buf_get None sz buf m = (r3, buf3, m3)" by (cases "ring_buf_get None sz buf m")
  obtain r4 buf4 m4 where k: "ring_buf_peek data sz buf m = (r4, buf4, m4)" by (cases "ring_buf_peek data sz buf m")
  note P = ring_buf_put_correct [OF st(1,2) ap(1) p] and G = ring_buf_get_correct [OF st(1,2) ap(2) g]
    and S = ring_buf_get_correct [OF st(1,2) ap(3) s] and K = ring_buf_peek_correct [OF st(1,2) ap(1) k]
  have t: "take (min (unat sz) (rb_used buf)) (rb_list buf m) = take (unat sz) (rb_list buf m)"
    "drop (min (unat sz) (rb_used buf)) (rb_list buf m) = drop (unat sz) (rb_list buf m)"
    by (simp_all add: min_def)
  have "rb_list buf1 m1 = fifo_put cap (rb_list buf m) (mem_read m data (unat sz))"
    using P(1,2) st(3) by (simp add: fifo_put_def take_mem_read min.commute)
  moreover have "rb_used buf1 = rb_used buf + unat r1" using arg_cong [OF P(2), of length] by simp
  ultimately show ?thesis
    using st P(3-6) G S K by (simp add: p g s k rb_state_def deliver_def t)
qed

definition sample_ring :: ring_buf where
  "sample_ring = \<lparr>rb_buffer = 100, put_head = 1, put_tail = 1, put_base = - 2,
     get_head = - 1, get_tail = - 1, get_base = - 2, rb_size = 4\<rparr>"

text \<open>
  Two bytes are stored at the end of a buffer of four whose indices are about to wrap; two of
  three new bytes fit, at the end and at the start of the buffer.
\<close>

theorem ring_buf_refines_fifo_witness:
  "case ring_buf_put 0 3 sample_ring of_nat of (r, buf', m') \<Rightarrow>
     rb_state buf' 4 100 \<and> rb_list buf' m' = [101, 102, 0, 1] \<and> unat r = 2"
proof -
  have st: "rb_state sample_ring 4 100"
    by (simp add: rb_state_def rb_inv_def rb_rep_def rb_cap_def rb_off_def rb_used_def rb_idle_def sample_ring_def)
  moreover have "rb_list sample_ring of_nat = [101, 102]"
    by (simp add: rb_list_def rb_cap_def rb_off_def rb_used_def sample_ring_def ring_read_def upt_rec)
  moreover have "mem_read of_nat 0 3 = [0, 1, 2 :: byte]" by (simp add: mem_read_def upt_rec)
  ultimately show ?thesis
    using ring_buf_refines_fifo [OF st, of 0 3 of_nat]
    by (auto simp: fifo_put_def simp del: length_rb_list split: prod.splits)
qed

text \<open>
  A buffer with claims outstanding: it stores \<open>xs\<close>, the reader has claimed the first \<open>gc\<close> of them, and the
  bytes in what the writer has claimed behind them are \<open>ys\<close>. Without claims it is in \<open>rb_state\<close>.
\<close>

definition rb_view :: "ring_buf \<Rightarrow> nat \<Rightarrow> addr \<Rightarrow> mem \<Rightarrow> byte list \<Rightarrow> nat \<Rightarrow> byte list \<Rightarrow> bool" where
  "rb_view buf cap b m xs gc ys \<longleftrightarrow>
     rb_inv buf \<and> rb_cap buf = cap \<and> rb_buffer buf = b \<and> xs = rb_list buf m \<and> gc = unat (get_head buf - get_tail buf) \<and>
     ys = ring_read b cap (rb_off buf + rb_used buf) (unat (put_head buf - put_tail buf)) m"

lemma rb_viewD:
  assumes "rb_view buf cap b m xs gc ys"
  obtains g where "rb_rep buf cap g gc (length xs) (length ys)" "rb_buffer buf = b"
    "xs = ring_read b cap g (length xs) m" "ys = ring_read b cap (g + length xs) (length ys) m"
  using assms that [of "rb_off buf"] by (auto simp: rb_view_def rb_inv_def rb_list_def)

lemma rb_viewI:
  assumes "rb_rep buf cap g gc u pc" "rb_buffer buf = b" "xs = ring_read b cap g u m" "ys = ring_read b cap (g + u) pc m"
  shows "rb_view buf cap b m xs gc ys"
  using assms rb_rep_unique [OF assms(1)] rb_rep_inv [OF assms(1)] by (simp add: rb_view_def rb_list_def)

lemma rb_state_view: "rb_view buf cap b m xs gc ys \<Longrightarrow> rb_state buf cap b \<longleftrightarrow> gc = 0 \<and> ys = []"
  by (auto simp: rb_view_def rb_state_def rb_idle_def unat_eq_0 ring_read_def)

lemma put_claim_view:
  assumes v: "rb_view buf cap b m xs gc ys" and p: "ring_buf_put_claim sz buf = (k, dst, buf1)"
  shows "b \<le> dst \<and> dst + unat k \<le> b + cap" "k \<le> sz" "k = 0 \<Longrightarrow> sz = 0 \<or> length xs + length ys = cap"
    "length zs = unat k \<Longrightarrow> rb_view buf1 cap b (mem_write dst zs m) xs gc (ys @ zs)"
proof -
  let ?u = "length xs" and ?pc = "length ys"
  obtain g where r: "rb_rep buf cap g gc ?u ?pc" and b: "rb_buffer buf = b"
    and xs: "xs = ring_read b cap g ?u m" and ys: "ys = ring_read b cap (g + ?u) ?pc m" by (rule rb_viewD [OF v])
  note R = rb_rep_bounds [OF r]
  let ?h = "(g + ?u + ?pc) mod cap"
  define i where "i = min (min (unat sz) (cap - (?u + ?pc))) (cap - ?h)"
  have h: "?h < cap" using R by simp
  have "i \<le> unat sz" "i \<le> cap - (?u + ?pc)" "i \<le> cap - ?h" by (simp_all add: i_def)
  then have i: "i \<le> unat sz" "?u + ?pc + i \<le> cap" "?h + i \<le> cap" "i < 2 ^ 32"
    using R(2,5) h by (simp, linarith, linarith, simp)
  have c: "k = of_nat i" "dst = b + ?h" "buf1 = buf\<lparr>put_head := put_head buf + of_nat i\<rparr>"
    using put_claim_rep [OF r, of sz] p b by (simp_all add: i_def)
  have uk: "unat k = i" using i(4) by (simp add: c)
  show "b \<le> dst \<and> dst + unat k \<le> b + cap" "k \<le> sz" using i uk by (simp_all add: c word_le_nat_alt)
  show "sz = 0 \<or> ?u + ?pc = cap" if "k = 0"
  proof -
    have "i = 0" using that uk by simp
    then have "unat sz = 0 \<or> cap - (?u + ?pc) = 0" using h unfolding i_def by linarith
    then show ?thesis using R(5) by (auto simp: unat_eq_0)
  qed
  assume zs: "length zs = unat k"
  let ?m = "mem_write dst zs m"
  have m: "?m = ring_write b cap (g + (?u + ?pc)) zs m"
    using i(3) uk zs by (simp add: ring_write_contig c add.assoc)
  have "ring_read b cap g (?u + ?pc + i) ?m = ring_read b cap g (?u + ?pc) m @ zs"
    unfolding m using ring_read_write_after [of "?u + ?pc" zs cap b g m] zs uk i(2) by simp
  then have "ring_read b cap g ?u ?m @ ring_read b cap (g + ?u) (?pc + i) ?m = xs @ ys @ zs"
    using xs ys unfolding add.assoc [of ?u] ring_read_append [of b cap g ?u] by simp
  then have "xs = ring_read b cap g ?u ?m" "ys @ zs = ring_read b cap (g + ?u) (?pc + i) ?m"
    by (simp_all add: append_eq_append_conv)
  then show "rb_view buf1 cap b ?m xs gc (ys @ zs)"
    using put_claimed_rep [OF r i(2)] b by (intro rb_viewI) (simp_all add: c)
qed

lemma get_claim_view:
  assumes v: "rb_view buf cap b m xs gc ys" and p: "ring_buf_get_claim sz buf = (k, src, buf1)"
  shows "b \<le> src \<and> src + unat k \<le> b + cap" "k \<le> sz" "k = 0 \<Longrightarrow> sz = 0 \<or> gc = length xs"
    "mem_read m src (unat k) = take (unat k) (drop gc xs)" "rb_view buf1 cap b m xs (gc + unat k) ys"
proof -
  let ?u = "length xs" and ?pc = "length ys"
  obtain g where r: "rb_rep buf cap g gc ?u ?pc" and b: "rb_buffer buf = b"
    and xs: "xs = ring_read b cap g ?u m" and ys: "ys = ring_read b cap (g + ?u) ?pc m" by (rule rb_viewD [OF v])
  note R = rb_rep_bounds [OF r]
  let ?h = "(g + gc) mod cap"
  define i where "i = min (min (unat sz) (?u - gc)) (cap - ?h)"
  have h: "?h < cap" using R by simp
  have "i \<le> unat sz" "i \<le> ?u - gc" "i \<le> cap - ?h" by (simp_all add: i_def)
  then have i: "i \<le> unat sz" "gc + i \<le> ?u" "?h + i \<le> cap" "i < 2 ^ 32"
    using R(2,4,5) h by (simp, linarith, linarith, simp)
  have c: "k = of_nat i" "src = b + ?h" "buf1 = buf\<lparr>get_head := get_head buf + of_nat i\<rparr>"
    using get_claim_rep [OF r, of sz] p b by (simp_all add: i_def)
  have uk: "unat k = i" using i(4) by (simp add: c)
  show "b \<le> src \<and> src + unat k \<le> b + cap" "k \<le> sz" using i uk by (simp_all add: c word_le_nat_alt)
  show "sz = 0 \<or> gc = ?u" if "k = 0"
  proof -
    have "i = 0" using that uk by simp
    then have "unat sz = 0 \<or> ?u - gc = 0" using h unfolding i_def by linarith
    then show ?thesis using R(4) by (auto simp: unat_eq_0)
  qed
  have "take i (drop gc xs) = ring_read b cap (g + gc) i m"
    using i(2) by (subst xs) (simp add: drop_ring_read take_ring_read min_absorb1)
  then show "mem_read m src (unat k) = take (unat k) (drop gc xs)" using i(3) by (simp add: uk c(2) ring_read_contig)
  show "rb_view buf1 cap b m xs (gc + unat k) ys"
    using get_claimed_rep [OF r i(2)] b xs ys uk by (intro rb_viewI) (simp_all add: c)
qed

lemma put_finish_view:
  assumes v: "rb_view buf cap b m xs gc ys"
  shows "unat j \<le> length ys \<Longrightarrow> \<exists>buf'. ring_buf_put_finish j buf = (0, buf') \<and> rb_view buf' cap b m (xs @ take (unat j) ys) gc []"
    "length ys < unat j \<Longrightarrow> ring_buf_put_finish j buf = (- EINVAL, buf)"
proof -
  let ?u = "length xs" and ?pc = "length ys"
  obtain g where r: "rb_rep buf cap g gc ?u ?pc" and b: "rb_buffer buf = b"
    and xs: "xs = ring_read b cap g ?u m" and ys: "ys = ring_read b cap (g + ?u) ?pc m" by (rule rb_viewD [OF v])
  show "length ys < unat j \<Longrightarrow> ring_buf_put_finish j buf = (- EINVAL, buf)" by (rule put_finish_rep(2) [OF r])
  assume j: "unat j \<le> length ys"
  from put_finish_rep(1) [OF r j] b obtain buf' where f: "ring_buf_put_finish j buf = (0, buf')"
    "rb_rep buf' cap g gc (?u + unat j) 0" "rb_buffer buf' = b" by auto
  have "take (unat j) ys = ring_read b cap (g + ?u) (unat j) m" using j by (subst ys) (simp add: take_ring_read min_absorb1)
  then have "rb_view buf' cap b m (xs @ take (unat j) ys) gc []"
    using xs by (intro rb_viewI [OF f(2,3)]) (simp_all add: ring_read_append)
  then show "\<exists>buf'. ring_buf_put_finish j buf = (0, buf') \<and> rb_view buf' cap b m (xs @ take (unat j) ys) gc []"
    using f(1) by blast
qed

lemma get_finish_view:
  assumes v: "rb_view buf cap b m xs gc ys"
  shows "unat j \<le> gc \<Longrightarrow> \<exists>buf'. ring_buf_get_finish j buf = (0, buf') \<and> rb_view buf' cap b m (drop (unat j) xs) 0 ys"
    "gc < unat j \<Longrightarrow> ring_buf_get_finish j buf = (- EINVAL, buf)"
proof -
  let ?u = "length xs" and ?pc = "length ys"
  obtain g where r: "rb_rep buf cap g gc ?u ?pc" and b: "rb_buffer buf = b"
    and xs: "xs = ring_read b cap g ?u m" and ys: "ys = ring_read b cap (g + ?u) ?pc m" by (rule rb_viewD [OF v])
  show "gc < unat j \<Longrightarrow> ring_buf_get_finish j buf = (- EINVAL, buf)" by (rule get_finish_rep(2) [OF r])
  assume j: "unat j \<le> gc"
  from get_finish_rep(1) [OF r j] b obtain buf' where f: "ring_buf_get_finish j buf = (0, buf')"
    "rb_rep buf' cap ((g + unat j) mod cap) 0 (?u - unat j) ?pc" "rb_buffer buf' = b" by auto
  have e: "((g + unat j) mod cap + (?u - unat j)) mod cap = (g + ?u) mod cap"
    using j rb_rep_bounds(4) [OF r] mod_add_left_eq [of "g + unat j" cap "?u - unat j"] by (simp add: add.assoc)
  have "ys = ring_read b cap ((g + unat j) mod cap + (?u - unat j)) ?pc m"
    using ys ring_read_mod [of b cap "(g + unat j) mod cap + (?u - unat j)"] unfolding e ring_read_mod by simp
  moreover have "drop (unat j) xs = ring_read b cap ((g + unat j) mod cap) (?u - unat j) m"
    by (subst xs) (simp add: drop_ring_read)
  ultimately have "rb_view buf' cap b m (drop (unat j) xs) 0 ys" by (intro rb_viewI [OF f(2,3)])
  then show "\<exists>buf'. ring_buf_get_finish j buf = (0, buf') \<and> rb_view buf' cap b m (drop (unat j) xs) 0 ys"
    using f(1) by blast
qed

lemma get_claim_idle:
  assumes "rb_state buf cap b" "ring_buf_get_claim sz buf = (k, src, buf1)"
  shows "b \<le> src" "src + unat k \<le> b + cap" "k \<le> sz"
    and "rb_rep buf1 cap (rb_off buf) (unat k) (rb_used buf) 0" "rb_buffer buf1 = b"
    and "mem_read m src (unat k) = take (unat k) (rb_list buf m)"
proof -
  have st: "rb_inv buf" "rb_idle buf" "rb_cap buf = cap" "rb_buffer buf = b"
    using assms(1) by (auto simp: rb_state_def)
  let ?g = "rb_off buf" and ?u = "rb_used buf"
  have r0: "rb_rep buf cap ?g 0 ?u 0" using rb_idle_rep [OF st(1,2)] st(3) by simp
  note R = rb_rep_bounds [OF r0]
  define i where "i = min (min (unat sz) ?u) (cap - ?g mod cap)"
  have "i \<le> unat sz" "i \<le> ?u" "i \<le> cap - ?g mod cap" by (simp_all add: i_def)
  moreover have "?g mod cap < cap" using R by simp
  ultimately have i: "i \<le> unat sz" "i \<le> ?u" "?g mod cap + i \<le> cap" "i < 2 ^ 32"
    using R(2,5) by (simp, linarith, linarith, simp)
  have c: "k = of_nat i" "src = b + ?g mod cap" "buf1 = buf\<lparr>get_head := get_head buf + of_nat i\<rparr>"
    using get_claim_rep [OF r0, of sz] assms(2) st(4) by (simp_all add: i_def)
  have uk: "unat k = i" using i(4) by (simp add: c)
  show "b \<le> src" "src + unat k \<le> b + cap" "k \<le> sz" "rb_buffer buf1 = b"
    using i uk by (simp_all add: c st(4) word_le_nat_alt)
  show "rb_rep buf1 cap (rb_off buf) (unat k) (rb_used buf) 0"
    using get_claimed_rep [OF r0, of i] i(2) uk by (simp add: c)
  show "mem_read m src (unat k) = take (unat k) (rb_list buf m)"
    using i(2,3) st by (simp add: uk c(2) rb_list_def take_ring_read ring_read_contig min_absorb1)
qed

text \<open>
  C37. Claims give access to the buffer without copying, also while other claims of the reader or the
  writer are outstanding. What a put claim hands out lies inside the buffer, is no longer than asked
  for, holds neither a stored byte nor one of an earlier put claim, and is empty only when nothing was
  asked for or nothing is left; whatever is written there comes behind what earlier claims hold.
  Finishing with at most the claimed length appends exactly that many of the claimed bytes and gives the
  rest back; finishing with more is refused. What a get claim hands out are the first stored bytes
  that are not claimed yet, and finishing removes as many bytes as it is told, at most the claimed
  ones. No call on one end touches what is claimed at the other. With nothing claimed the buffer is in
  the state that the copying calls keep.
\<close>

theorem ring_buf_claims:
  assumes "rb_view buf cap b m xs gc ys"
    and "ring_buf_put_claim sz buf = (k, dst, buf1)" "ring_buf_get_claim sz buf = (k', src, buf2)"
  shows "(b \<le> dst \<and> dst + unat k \<le> b + cap \<and> k \<le> sz \<and> (k = 0 \<longrightarrow> sz = 0 \<or> length xs + length ys = cap) \<and>
      (\<forall>zs. length zs = unat k \<longrightarrow> rb_view buf1 cap b (mem_write dst zs m) xs gc (ys @ zs))) \<and>
    (if unat j \<le> length ys
     then \<exists>buf'. ring_buf_put_finish j buf = (0, buf') \<and> rb_view buf' cap b m (xs @ take (unat j) ys) gc []
     else ring_buf_put_finish j buf = (- EINVAL, buf)) \<and>
    (b \<le> src \<and> src + unat k' \<le> b + cap \<and> k' \<le> sz \<and> (k' = 0 \<longrightarrow> sz = 0 \<or> gc = length xs) \<and>
      mem_read m src (unat k') = take (unat k') (drop gc xs) \<and> rb_view buf2 cap b m xs (gc + unat k') ys) \<and>
    (if unat j \<le> gc
     then \<exists>buf'. ring_buf_get_finish j buf = (0, buf') \<and> rb_view buf' cap b m (drop (unat j) xs) 0 ys
     else ring_buf_get_finish j buf = (- EINVAL, buf)) \<and>
    (rb_state buf cap b \<longleftrightarrow> gc = 0 \<and> ys = [])"
proof (intro conjI)
  note P = put_claim_view [OF assms(1,2)] and G = get_claim_view [OF assms(1,3)]
  show "b \<le> dst" "dst + unat k \<le> b + cap" "k \<le> sz" "k = 0 \<longrightarrow> sz = 0 \<or> length xs + length ys = cap"
    "\<forall>zs. length zs = unat k \<longrightarrow> rb_view buf1 cap b (mem_write dst zs m) xs gc (ys @ zs)" using P by simp_all
  show "b \<le> src" "src + unat k' \<le> b + cap" "k' \<le> sz" "k' = 0 \<longrightarrow> sz = 0 \<or> gc = length xs"
    "mem_read m src (unat k') = take (unat k') (drop gc xs)" "rb_view buf2 cap b m xs (gc + unat k') ys" using G by simp_all
  show "if unat j \<le> length ys
     then \<exists>buf'. ring_buf_put_finish j buf = (0, buf') \<and> rb_view buf' cap b m (xs @ take (unat j) ys) gc []
     else ring_buf_put_finish j buf = (- EINVAL, buf)" using put_finish_view [OF assms(1), of j] by simp
  show "if unat j \<le> gc
     then \<exists>buf'. ring_buf_get_finish j buf = (0, buf') \<and> rb_view buf' cap b m (drop (unat j) xs) 0 ys
     else ring_buf_get_finish j buf = (- EINVAL, buf)" using get_finish_view [OF assms(1), of j] by simp
  show "rb_state buf cap b \<longleftrightarrow> gc = 0 \<and> ys = []" by (rule rb_state_view [OF assms(1)])
qed

text \<open>Two put claims, the second of which starts again at the front of the buffer, and a finish of both.\<close>

theorem ring_buf_claims_witness:
  "ring_buf_put_claim 3 sample_ring = (1, 103, sample_ring\<lparr>put_head := 2\<rparr>) \<and>
   ring_buf_put_claim 3 (sample_ring\<lparr>put_head := 2\<rparr>) = (1, 100, sample_ring\<lparr>put_head := 3\<rparr>) \<and>
   (\<exists>buf'. ring_buf_put_finish 2 (sample_ring\<lparr>put_head := 3\<rparr>) = (0, buf') \<and>
     rb_list buf' (mem_write 100 [8] (mem_write 103 [7] of_nat)) = [101, 102, 7, 8])"
proof -
  let ?b1 = "sample_ring\<lparr>put_head := 2\<rparr>" and ?b2 = "sample_ring\<lparr>put_head := 3\<rparr>"
  let ?m1 = "mem_write 103 [7] of_nat" and ?m2 = "mem_write 100 [8] (mem_write 103 [7] of_nat)"
  have v: "rb_view sample_ring 4 100 of_nat [101, 102] 0 []"
    by (simp add: rb_view_def rb_inv_def rb_rep_def rb_cap_def rb_off_def rb_used_def rb_list_def sample_ring_def
      ring_read_def upt_rec)
  have p: "ring_buf_put_claim 3 sample_ring = (1, 103, ?b1)" "ring_buf_put_claim 3 ?b1 = (1, 100, ?b2)"
    by (simp_all add: ring_buf_put_claim_def ring_buf_space_get_def sample_ring_def)
  obtain k1 a1 c1 k2 a2 c2 where g: "ring_buf_get_claim 3 sample_ring = (k1, a1, c1)" "ring_buf_get_claim 3 ?b1 = (k2, a2, c2)"
    by (metis prod.exhaust)
  have v1: "rb_view ?b1 4 100 ?m1 [101, 102] 0 [7]"
    using ring_buf_claims [OF v p(1) g(1), THEN conjunct1] by (auto dest!: spec [of _ "[7]"])
  have "rb_view ?b2 4 100 ?m2 [101, 102] 0 [7, 8]"
    using ring_buf_claims [OF v1 p(2) g(2), THEN conjunct1] by (auto dest!: spec [of _ "[8]"])
  then have "\<exists>buf'. ring_buf_put_finish 2 ?b2 = (0, buf') \<and> rb_view buf' 4 100 ?m2 [101, 102, 7, 8] 0 []"
    using put_finish_view(1) [of ?b2 4 100 ?m2 "[101, 102]" 0 "[7, 8]" 2] by simp
  then show ?thesis using p by (auto simp: rb_view_def)
qed

section \<open>Items\<close>

text \<open>An item is its type, its value and its data, whose length is a number of 32-bit words.\<close>

type_synonym item = "16 word \<times> byte \<times> byte list"

definition item_header :: "16 word \<Rightarrow> byte \<Rightarrow> byte \<Rightarrow> byte list" where
  "item_header type len val = [ucast type, ucast (drop_bit 8 type), len, val]"

fun item_ok :: "item \<Rightarrow> bool" where
  "item_ok (type, val, ds) \<longleftrightarrow> 4 dvd length ds \<and> length ds < 1024"

fun item_bytes :: "item \<Rightarrow> byte list" where
  "item_bytes (type, val, ds) = item_header type (of_nat (length ds div 4)) val @ ds"

definition rb_items :: "ring_buf \<Rightarrow> mem \<Rightarrow> item list \<Rightarrow> nat \<Rightarrow> addr \<Rightarrow> bool" where
  "rb_items buf m its cap b \<longleftrightarrow> rb_state buf cap b \<and> 4 dvd cap \<and> 4 dvd rb_off buf \<and>
     list_all item_ok its \<and> rb_list buf m = concat (map item_bytes its)"

lemma length_item_header [simp]: "length (item_header type len val) = 4"
  by (simp add: item_header_def)

lemma header_write_bytes: "header_write p type len val m = mem_write p (item_header type len val) m"
  by (simp add: header_write_def item_header_def mem_write_Cons fun_upd_twist numeral_eq_Suc)

lemma item_bytes_dvd: "list_all item_ok its \<Longrightarrow> 4 dvd length (concat (map item_bytes its))"
  by (induction its) auto

lemma rb_items_used:
  assumes "rb_items buf m its cap b"
  shows "4 dvd rb_used buf"
  using assms item_bytes_dvd [of its] length_rb_list [of buf m] unfolding rb_items_def by metis

lemma header_read:
  assumes "mem_read m p 4 = item_header type len val"
  shows "header_type m p = type" "header_length m p = len" "header_value m p = val"
proof -
  have h: "m p = ucast type" "m (p + 1) = ucast (drop_bit 8 type)" "m (p + 2) = len" "m (p + 3) = val"
    using assms by (simp_all add: mem_read_def item_header_def upt_rec numeral_eq_Suc)
  show "header_type m p = type"
    unfolding header_type_def h
    by (rule bit_word_eqI) (auto simp: bit_simps)
  show "header_length m p = len" "header_value m p = val" using h by (simp_all add: header_length_def header_value_def)
qed

lemma word4_room: "4 dvd a \<Longrightarrow> 4 dvd b \<Longrightarrow> a < b \<Longrightarrow> 4 \<le> b - (a::nat)"
  by (auto elim!: dvdE)

lemma item_size: "unat (ucast (len::byte) * 4 :: u32) = 4 * unat len" "unat (4 + ucast (len::byte) * 4 :: u32) = 4 + 4 * unat len"
proof -
  have "unat len < 256" using unsigned_less [of len] by simp
  then show "unat (ucast (len::byte) * 4 :: u32) = 4 * unat len" "unat (4 + ucast (len::byte) * 4 :: u32) = 4 + 4 * unat len"
    by (simp_all add: unat_word_ariths unsigned_ucast_eq take_bit_nat_eq_self)
qed

lemma item_put_appends:
  assumes "rb_items buf m its cap b" "b + cap \<le> data \<or> data + 4 * unat len \<le> b"
    and "4 + 4 * unat len \<le> cap - rb_used buf"
  shows "\<exists>buf' m'. ring_buf_item_put type val data len buf m = (0, buf', m') \<and>
    rb_items buf' m' (its @ [(type, val, mem_read m data (4 * unat len))]) cap b"
proof -
  have st: "rb_inv buf" "rb_idle buf" "rb_cap buf = cap" "rb_buffer buf = b" "4 dvd cap" "4 dvd rb_off buf"
    using assms(1) by (auto simp: rb_items_def rb_state_def)
  let ?g = "rb_off buf" and ?u = "rb_used buf" and ?k = "4 * unat len"
  let ?h = "item_header type len val" and ?d = "mem_read m data ?k"
  have r0: "rb_rep buf cap ?g 0 ?u 0" using rb_idle_rep [OF st(1,2)] st(3) by simp
  note R = rb_rep_bounds [OF r0]
  have "4 dvd (?g + ?u) mod cap" using st(5,6) rb_items_used [OF assms(1)] by (simp add: dvd_mod)
  then have room: "4 \<le> cap - (?g + ?u) mod cap" using st(5) R(1) by (simp add: word4_room)
  define buf1 where "buf1 = buf\<lparr>put_head := put_head buf + of_nat 4\<rparr>"
  have c: "ring_buf_put_claim 4 buf = (4, b + (?g + ?u) mod cap, buf1)"
    using put_claim_rep [OF r0, of 4] room assms(3) st(4) by (simp add: buf1_def)
  have r1: "rb_rep buf1 cap ?g 0 ?u 4" using put_claimed_rep [OF r0, of 4] assms(3) R(5) by (simp add: buf1_def)
  let ?m1 = "ring_write b cap (?g + ?u) ?h m"
  have m1: "header_write (b + (?g + ?u) mod cap) type len val m = ?m1"
    using room R(1) by (simp add: header_write_bytes ring_write_contig)
  obtain t buf2 m2 where l: "put_loop data (ucast len * 4) 4 buf1 ?m1 = (t, buf2, m2)"
    by (cases "put_loop data (ucast len * 4) 4 buf1 ?m1")
  have ap: "apart buf1 cap data (unat (ucast len * 4 :: u32))"
    using assms(2) st(4) by (simp add: apart_def item_size buf1_def)
  have kk: "?k = min (unat (ucast len * 4 :: u32)) (cap - (?u + 4))" using assms(3) by (simp add: item_size)
  note P = put_loop_rep [OF r1 ap l kk]
  have t: "unat t = 4 + ?k" using P item_size(2) [of len] by (simp add: ac_simps)
  from put_finish_rep(1) [of buf2 cap ?g 0 ?u "4 + ?k" t] P t st(4) obtain buf3 where
    f: "ring_buf_put_finish t buf2 = (0, buf3)" "rb_rep buf3 cap ?g 0 (?u + (4 + ?k)) 0" "rb_buffer buf3 = b"
    by (auto simp: buf1_def)
  have "mem_read ?m1 data ?k = ?d" using assms(2) R(1) by (simp add: mem_read_ring_write)
  then have m2: "m2 = ring_write b cap (?g + ?u) (?h @ ?d) m"
    using P st(4) by (simp add: ring_write_append buf1_def)
  have "rb_list buf3 m2 = rb_list buf m @ ?h @ ?d"
    using rb_list_put [OF r0 f(2), of "?h @ ?d" "4 + ?k"] f(3) st(4) assms(3) R(5) by (simp add: m2)
  moreover have "\<not> 4 + ucast len * 4 > ring_buf_space_get buf"
    using assms(3) st(3) by (simp add: word_less_nat_alt item_size ring_buf_size_idle [OF st(1,2)])
  then have "ring_buf_item_put type val data len buf m = (0, buf3, m2)"
    by (simp add: ring_buf_item_put_def Let_def c m1 l f(1) add.commute)
  moreover have "unat len < 256" using unsigned_less [of len] by simp
  ultimately show ?thesis
    using assms(1) rb_rep_idle [OF f(2)] rb_rep_unique(2) [OF f(2)] f(3)
    by (simp add: rb_items_def rb_state_def)
qed

text \<open>Claiming the header of the first item.\<close>

lemma item_get_claim:
  assumes "rb_items buf m (i # its) cap b"
  shows "\<exists>src buf1. ring_buf_get_claim 4 buf = (4, src, buf1) \<and> mem_read m src 4 = take 4 (item_bytes i) \<and>
    rb_rep buf1 cap (rb_off buf) 4 (rb_used buf) 0 \<and> rb_buffer buf1 = b"
proof -
  have st: "rb_state buf cap b" "4 dvd cap" "4 dvd rb_off buf" "rb_list buf m = item_bytes i @ concat (map item_bytes its)"
    using assms by (auto simp: rb_items_def)
  have r0: "rb_rep buf cap (rb_off buf) 0 (rb_used buf) 0"
    using st(1) rb_idle_rep [of buf] by (simp add: rb_state_def)
  note R = rb_rep_bounds [OF r0]
  have i4: "4 \<le> length (item_bytes i)" by (cases i) simp
  then have u4: "4 \<le> rb_used buf" using st(4) length_rb_list [of buf m] by (metis length_append trans_le_add1)
  have "4 \<le> cap - rb_off buf" using st(2,3) R(3) by (simp add: word4_room)
  then have "fst (ring_buf_get_claim 4 buf) = 4" using get_claim_rep [OF r0, of 4] u4 R(3) by simp
  then obtain src buf1 where c: "ring_buf_get_claim 4 buf = (4, src, buf1)" by (cases "ring_buf_get_claim 4 buf") auto
  note G = get_claim_idle [OF st(1) c]
  show ?thesis using c G(4,5) G(6) [of m] i4 st(4) by simp
qed

lemma item_get_removes:
  assumes "rb_items buf m ((type, val, ds) # its) cap b"
    and "case data of None \<Rightarrow> True | Some d \<Rightarrow> b + cap \<le> d \<or> d + length ds \<le> b"
    and "data = None \<or> length ds div 4 \<le> unat len"
  shows "\<exists>buf'. ring_buf_item_get data len buf m =
      (0, Some (type, val), of_nat (length ds div 4), buf', deliver data ds m) \<and>
    rb_items buf' (deliver data ds m) its cap b"
proof -
  let ?g = "rb_off buf" and ?u = "rb_used buf" and ?k = "length ds" and ?l = "of_nat (length ds div 4) :: byte"
  from item_get_claim [OF assms(1)] obtain src buf1 where c: "ring_buf_get_claim 4 buf = (4, src, buf1)"
    "mem_read m src 4 = item_header type ?l val" "rb_rep buf1 cap ?g 4 ?u 0" "rb_buffer buf1 = b" by auto
  note H = header_read [OF c(2)] and R = rb_rep_bounds [OF c(3)]
  have st: "rb_inv buf" "rb_idle buf" "rb_cap buf = cap" "rb_buffer buf = b" "4 dvd cap" "4 dvd ?g"
    and ds: "4 dvd ?k" "?k < 1024" "list_all item_ok its"
    and ls: "rb_list buf m = item_header type ?l val @ ds @ concat (map item_bytes its)"
    using assms(1) by (auto simp: rb_items_def rb_state_def)
  have u: "4 + ?k \<le> ?u" using arg_cong [OF ls, of length] by simp
  have ul: "4 * unat ?l = ?k" using ds by (auto simp: unat_of_nat elim!: dvdE)
  have ap: "apart_dst buf1 cap data (unat (ucast ?l * 4 :: u32))" "apart_dst buf cap data ?k"
    using assms(2) by (auto simp: apart_dst_def apart_def c(4) st(4) item_size ul split: option.splits)
  obtain t buf2 m2 where l: "get_loop data (ucast ?l * 4) 4 buf1 m = (t, buf2, m2)"
    by (cases "get_loop data (ucast ?l * 4) 4 buf1 m")
  have kk: "?k = min (unat (ucast ?l * 4 :: u32)) (?u - 4)" using u by (simp add: item_size ul)
  note P = get_loop_rep [OF c(3) ap(1) l kk]
  have "ring_read b cap (?g + 4) ?k m = take ?k (drop 4 (rb_list buf m))"
    using u by (simp add: rb_list_def st take_ring_read drop_ring_read min_absorb1)
  then have m2: "m2 = deliver data ds m" using P c(4) by (simp add: ls)
  have t: "unat t = 4 + ?k" using P ds(2) u32_unat_of_nat [of "4 + ?k"] by simp
  from get_finish_rep(1) [of buf2 cap ?g "4 + ?k" ?u 0 t] P t c(4) obtain buf3 where
    f: "ring_buf_get_finish t buf2 = (0, buf3)" "rb_rep buf3 cap ((?g + (4 + ?k)) mod cap) 0 (?u - (4 + ?k)) 0"
    "rb_buffer buf3 = b" by auto
  have r0: "rb_rep buf cap ?g 0 ?u 0" using rb_idle_rep [OF st(1,2)] st(3) by simp
  have "rb_list buf m2 = rb_list buf m"
    using R(1) ap(2) st(3) by (simp add: m2 rb_list_def ring_read_deliver)
  then have "rb_list buf3 m2 = concat (map item_bytes its)"
    using rb_list_get [OF r0 f(2)] f(3) st(4) by (simp add: ls)
  moreover have "4 dvd (?g + (4 + ?k)) mod cap" using st(5,6) ds(1) by (simp add: dvd_mod)
  ultimately have I: "rb_items buf3 m2 its cap b"
    using rb_rep_idle [OF f(2)] rb_rep_unique(2) [OF f(2)] f(3) st(5) ds(3)
    by (simp add: rb_items_def rb_state_def)
  have "\<not> ring_buf_is_empty buf" "\<not> (data \<noteq> None \<and> ?l > len)"
    using ring_buf_size_idle(3) [OF st(1,2)] u assms(3) ul by (auto simp: word_less_nat_alt)
  then have "ring_buf_item_get data len buf m = (0, Some (type, val), ?l, buf3, m2)"
    by (simp add: ring_buf_item_get_def c(1) H l f(1))
  then show ?thesis using I by (simp add: m2)
qed

lemma item_get_too_small:
  assumes "rb_items buf m ((type, val, ds) # its) cap b" "unat len < length ds div 4"
  shows "\<exists>buf'. ring_buf_item_get (Some d) len buf m =
      (- EMSGSIZE, None, of_nat (length ds div 4), buf', m) \<and> rb_items buf' m ((type, val, ds) # its) cap b"
proof -
  let ?g = "rb_off buf" and ?u = "rb_used buf" and ?l = "of_nat (length ds div 4) :: byte"
  from item_get_claim [OF assms(1)] obtain src buf1 where c: "ring_buf_get_claim 4 buf = (4, src, buf1)"
    "mem_read m src 4 = item_header type ?l val" "rb_rep buf1 cap ?g 4 ?u 0" "rb_buffer buf1 = b" by auto
  have st: "rb_inv buf" "rb_idle buf" "rb_cap buf = cap" "rb_buffer buf = b"
    and ds: "4 dvd length ds" "length ds < 1024"
    and ls: "rb_list buf m = item_header type ?l val @ ds @ concat (map item_bytes its)"
    using assms(1) by (auto simp: rb_items_def rb_state_def)
  have u: "0 < ?u" using arg_cong [OF ls, of length] by simp
  have "unat ?l = length ds div 4" using ds by (auto simp: unat_of_nat elim!: dvdE)
  then have "\<not> ring_buf_is_empty buf" "?l > len"
    using ring_buf_size_idle(3) [OF st(1,2)] u assms(2) by (auto simp: word_less_nat_alt)
  moreover from get_finish_rep(1) [OF c(3), of 0] c(4) obtain buf2 where f: "ring_buf_get_finish 0 buf1 = (0, buf2)"
    "rb_rep buf2 cap (?g mod cap) 0 ?u 0" "rb_buffer buf2 = b" by auto
  moreover have "?g mod cap = ?g" using rb_rep_bounds(3) [OF c(3)] by simp
  ultimately show ?thesis
    using assms(1) rb_rep_idle [OF f(2)] rb_rep_unique(2) [OF f(2)] rb_rep_list [OF f(2)] st
    by (auto simp: ring_buf_item_get_def c(1) header_read [OF c(2)] rb_items_def rb_state_def rb_list_def)
qed

text \<open>
  C38. An item buffer is a bounded queue of typed items. Putting an item that does not fit is
  refused with \<open>-EMSGSIZE\<close> and changes nothing; otherwise the item comes last. Getting from an
  empty buffer returns \<open>-EAGAIN\<close>; getting with a destination that is too small returns \<open>-EMSGSIZE\<close>
  and the length needed and keeps the item; otherwise the first item comes out with the type, value
  and data it was put in with.
\<close>

theorem ring_buf_item_roundtrip:
  assumes "rb_items buf m its cap b" "b + cap \<le> data \<or> data + 1020 \<le> b"
  shows "(case ring_buf_item_put type val data len buf m of (r, buf', m') \<Rightarrow>
      if cap < length (concat (map item_bytes its)) + 4 + 4 * unat len
      then r = - EMSGSIZE \<and> buf' = buf \<and> m' = m
      else r = 0 \<and> rb_items buf' m' (its @ [(type, val, mem_read m data (4 * unat len))]) cap b) \<and>
    (case ring_buf_item_get (Some data) len buf m of (r, tv, len', buf', m') \<Rightarrow>
      (case its of
        [] \<Rightarrow> r = - EAGAIN \<and> tv = None \<and> buf' = buf \<and> m' = m
      | (ty, v, ds) # rest \<Rightarrow> unat len' = length ds div 4 \<and>
          (if unat len < length ds div 4
           then r = - EMSGSIZE \<and> tv = None \<and> m' = m \<and> rb_items buf' m' its cap b
           else r = 0 \<and> tv = Some (ty, v) \<and> m' = mem_write data ds m \<and> rb_items buf' m' rest cap b)))"
    (is "?P \<and> ?G")
proof
  have st: "rb_inv buf" "rb_idle buf" "rb_cap buf = cap" and ls: "rb_list buf m = concat (map item_bytes its)"
    using assms(1) by (auto simp: rb_items_def rb_state_def)
  have u: "rb_used buf = length (concat (map item_bytes its))" "rb_used buf \<le> cap"
    using arg_cong [OF ls, of length] rb_used_le [OF st(1)] st(3) by simp_all
  have len: "unat len < 256" using unsigned_less [of len] by simp
  show ?P
  proof (cases "cap < rb_used buf + 4 + 4 * unat len")
    case True
    then have "4 + ucast len * 4 > ring_buf_space_get buf"
      using u(2) by (auto simp: word_less_nat_alt item_size ring_buf_size_idle [OF st(1,2)] st(3))
    then show ?thesis using True u by (simp add: ring_buf_item_put_def Let_def add.commute)
  next
    case False
    then show ?thesis
      using item_put_appends [OF assms(1), of data len type val] assms(2) len u by fastforce
  qed
  show ?G
  proof (cases its)
    case Nil
    then show ?thesis using u(1) by (simp add: ring_buf_item_get_def ring_buf_size_idle(3) [OF st(1,2)])
  next
    case (Cons i rest)
    obtain ty v ds where i: "i = (ty, v, ds)" by (cases i)
    have ds: "4 dvd length ds" "length ds < 1024" using assms(1) by (auto simp: rb_items_def Cons i)
    then have "length ds \<le> 1020" "unat (of_nat (length ds div 4) :: byte) = length ds div 4"
      by (auto simp: unat_of_nat elim!: dvdE)
    then show ?thesis
      using item_get_too_small [OF assms(1) [unfolded Cons i], of len data]
        item_get_removes [OF assms(1) [unfolded Cons i], of "Some data" len] assms(2)
      by (cases "unat len < length ds div 4") (auto simp: Cons i deliver_def)
  qed
qed

theorem ring_buf_item_roundtrip_witness:
  "case ring_buf_item_put 513 9 0 1 (ring_buf_item_init 4 2000 sample_ring) of_nat of (r, buf', m') \<Rightarrow>
     r = 0 \<and> rb_items buf' m' [(513, 9, [0, 1, 2, 3])] 16 2000"
proof -
  let ?buf = "ring_buf_item_init 4 2000 sample_ring"
  have "rb_state ?buf 16 2000 \<and> rb_off ?buf = 0 \<and> rb_used ?buf = 0"
    by (simp add: rb_state_def rb_inv_def rb_rep_def rb_cap_def rb_off_def rb_used_def rb_idle_def
        ring_buf_item_init_def ring_buf_init_def ring_buf_internal_reset_def)
  then have I: "rb_items ?buf of_nat [] 16 2000" by (simp add: rb_items_def rb_list_def)
  have "mem_read of_nat 0 4 = [0, 1, 2, 3 :: byte]" by (simp add: mem_read_def upt_rec)
  then show ?thesis using ring_buf_item_roundtrip [OF I, where data = 0 and type = 513 and val = 9 and len = 1] by (auto split: prod.splits)
qed

end
