(* ===== verification/Work.thy ===== *)
theory Work
  imports Sem
begin

text \<open>
  Work items, delayable work items and work queues, \<open>kernel/work.c\<close>. Work items, queues, flushers
  and cancellers are objects named by numbers in one state; a flusher is named by the work item
  embedded in it. Every critical section of the module's lock is one step. The thread of a queue
  runs \<open>work_queue_main\<close>, which is split at the call of the handler: \<open>work_queue_take\<close> up to it,
  \<open>work_queue_finish\<close> after it; \<open>main_work\<close> is its local variable \<open>work\<close> in between. The timeout
  of a delayable item is the ticks it was started with, as the deadline map of the timeout list
  has it; \<open>work_timeout\<close> is its expiry. Lists of nodes are lists, as the list templates provide.
\<close>

type_synonym wid = nat
type_synonym qid = nat
type_synonym cid = nat

abbreviation (input) EALREADY :: int where "EALREADY \<equiv> 120"
abbreviation (input) ENODEV :: int where "ENODEV \<equiv> 19"

section \<open>Flags\<close>

abbreviation (input) K_WORK_RUNNING_BIT :: nat where "K_WORK_RUNNING_BIT \<equiv> 0"
abbreviation (input) K_WORK_CANCELING_BIT :: nat where "K_WORK_CANCELING_BIT \<equiv> 1"
abbreviation (input) K_WORK_QUEUED_BIT :: nat where "K_WORK_QUEUED_BIT \<equiv> 2"
abbreviation (input) K_WORK_DELAYED_BIT :: nat where "K_WORK_DELAYED_BIT \<equiv> 3"
abbreviation (input) K_WORK_FLUSHING_BIT :: nat where "K_WORK_FLUSHING_BIT \<equiv> 4"
abbreviation (input) K_WORK_DELAYABLE_BIT :: nat where "K_WORK_DELAYABLE_BIT \<equiv> 8"

abbreviation (input) K_WORK_QUEUE_STARTED_BIT :: nat where "K_WORK_QUEUE_STARTED_BIT \<equiv> 0"
abbreviation (input) K_WORK_QUEUE_BUSY_BIT :: nat where "K_WORK_QUEUE_BUSY_BIT \<equiv> 1"
abbreviation (input) K_WORK_QUEUE_DRAIN_BIT :: nat where "K_WORK_QUEUE_DRAIN_BIT \<equiv> 2"
abbreviation (input) K_WORK_QUEUE_PLUGGED_BIT :: nat where "K_WORK_QUEUE_PLUGGED_BIT \<equiv> 3"
abbreviation (input) K_WORK_QUEUE_NO_YIELD_BIT :: nat where "K_WORK_QUEUE_NO_YIELD_BIT \<equiv> 8"

definition BIT :: "nat \<Rightarrow> u32" where
  "BIT n = push_bit n 1"

definition K_WORK_MASK :: u32 where
  "K_WORK_MASK = BIT K_WORK_DELAYED_BIT OR BIT K_WORK_QUEUED_BIT OR BIT K_WORK_RUNNING_BIT OR
     BIT K_WORK_CANCELING_BIT OR BIT K_WORK_FLUSHING_BIT"

definition flag_clear :: "nat \<Rightarrow> u32 \<Rightarrow> u32" where
  "flag_clear b flags = flags AND NOT (BIT b)"

definition flag_set :: "nat \<Rightarrow> u32 \<Rightarrow> u32" where
  "flag_set b flags = flags OR BIT b"

definition flag_test :: "nat \<Rightarrow> u32 \<Rightarrow> bool" where
  "flag_test b flags \<longleftrightarrow> flags AND BIT b \<noteq> 0"

definition flag_test_and_clear :: "nat \<Rightarrow> u32 \<Rightarrow> bool \<times> u32" where
  "flag_test_and_clear b flags = (flag_test b flags, flag_clear b flags)"

section \<open>State\<close>

record k_work =
  handler :: addr
  work_queue :: "qid option"
  work_flags :: u32

record k_work_q =
  q_thread :: tid
  pending :: "wid list"
  notifyq :: wait_q
  drainq :: wait_q
  q_flags :: u32

record z_work_canceller =
  canc_work :: wid
  canc_sem :: k_sem

record wq_state =
  ker :: kernel
  works :: "wid \<Rightarrow> k_work"
  queues :: "qid \<Rightarrow> k_work_q"
  flusher_sem :: "wid \<Rightarrow> k_sem"
  cancellers :: "cid \<Rightarrow> z_work_canceller"
  pending_cancels :: "cid list"
  dwork_queue :: "wid \<Rightarrow> qid option"
  dwork_timeout :: "wid \<Rightarrow> k_ticks_t option"
  main_work :: "qid \<Rightarrow> wid option"

definition upd_work :: "wid \<Rightarrow> (k_work \<Rightarrow> k_work) \<Rightarrow> wq_state \<Rightarrow> wq_state" where
  "upd_work w f s = s\<lparr>works := (works s)(w := f (works s w))\<rparr>"

definition upd_flags :: "wid \<Rightarrow> (u32 \<Rightarrow> u32) \<Rightarrow> wq_state \<Rightarrow> wq_state" where
  "upd_flags w f = upd_work w (\<lambda>x. x\<lparr>work_flags := f (work_flags x)\<rparr>)"

definition upd_queue :: "qid \<Rightarrow> (k_work_q \<Rightarrow> k_work_q) \<Rightarrow> wq_state \<Rightarrow> wq_state" where
  "upd_queue q f s = s\<lparr>queues := (queues s)(q := f (queues s q))\<rparr>"

definition work_flag :: "nat \<Rightarrow> wid \<Rightarrow> wq_state \<Rightarrow> bool" where
  "work_flag b w s \<longleftrightarrow> flag_test b (work_flags (works s w))"

definition queue_flag :: "nat \<Rightarrow> qid \<Rightarrow> wq_state \<Rightarrow> bool" where
  "queue_flag b q s \<longleftrightarrow> flag_test b (q_flags (queues s q))"

text \<open>
  A kernel call made inside a critical section: its own lock records that interrupts are masked,
  so that it does not switch threads.
\<close>

definition nested :: "(kernel \<Rightarrow> 'a \<times> kernel) \<Rightarrow> kernel \<Rightarrow> 'a \<times> kernel" where
  "nested f k = (let (r, k1) = f (k\<lparr>irq_locked := True\<rparr>) in (r, k1\<lparr>irq_locked := irq_locked k\<rparr>))"

section \<open>Work items\<close>

definition k_work_init :: "wid \<Rightarrow> addr \<Rightarrow> wq_state \<Rightarrow> wq_state" where
  "k_work_init w h = upd_work w (\<lambda>_. \<lparr>handler = h, work_queue = None, work_flags = 0\<rparr>)"

text \<open>The handler of a flusher does nothing; it is the null handler here.\<close>

definition init_flusher :: "wid \<Rightarrow> wq_state \<Rightarrow> wq_state" where
  "init_flusher f s =
     (let (_, sem, k) = z_impl_k_sem_init 0 1 (flusher_sem s f) (ker s);
          s1 = s\<lparr>flusher_sem := (flusher_sem s)(f := sem), ker := k\<rparr>
      in upd_flags f (flag_set K_WORK_FLUSHING_BIT) (k_work_init f 0 s1))"

definition init_work_cancel :: "cid \<Rightarrow> wid \<Rightarrow> wq_state \<Rightarrow> wq_state" where
  "init_work_cancel c w s =
     (let (_, sem, k) = z_impl_k_sem_init 0 1 (canc_sem (cancellers s c)) (ker s)
      in s\<lparr>cancellers := (cancellers s)(c := \<lparr>canc_work = w, canc_sem = sem\<rparr>), ker := k,
           pending_cancels := pending_cancels s @ [c]\<rparr>)"

definition finalize_flush_locked :: "wid \<Rightarrow> wq_state \<Rightarrow> wq_state" where
  "finalize_flush_locked w s =
     (let s1 = upd_flags w (flag_clear K_WORK_FLUSHING_BIT) s;
          (sem, k) = nested (z_impl_k_sem_give (flusher_sem s1 w)) (ker s1)
      in s1\<lparr>flusher_sem := (flusher_sem s1)(w := sem), ker := k\<rparr>)"

text \<open>The loop over \<open>pending_cancels\<close>, which stops at the first canceller of the item.\<close>

fun cancel_walk :: "wid \<Rightarrow> cid list \<Rightarrow> wq_state \<Rightarrow> wq_state" where
  "cancel_walk w [] s = s"
| "cancel_walk w (c # cs) s =
     (if canc_work (cancellers s c) = w
      then let (sem, k) = nested (z_impl_k_sem_give (canc_sem (cancellers s c))) (ker s)
           in s\<lparr>pending_cancels := remove1 c (pending_cancels s),
                cancellers := (cancellers s)(c := (cancellers s c)\<lparr>canc_sem := sem\<rparr>), ker := k\<rparr>
      else cancel_walk w cs s)"

definition finalize_cancel_locked :: "wid \<Rightarrow> wq_state \<Rightarrow> wq_state" where
  "finalize_cancel_locked w s =
     (let s1 = upd_flags w (flag_clear K_WORK_CANCELING_BIT) s
      in cancel_walk w (pending_cancels s1) s1)"

definition work_busy_get_locked :: "wid \<Rightarrow> wq_state \<Rightarrow> int" where
  "work_busy_get_locked w s = uint (work_flags (works s w) AND K_WORK_MASK)"

definition k_work_busy_get :: "wid \<Rightarrow> wq_state \<Rightarrow> int" where
  "k_work_busy_get w s = work_busy_get_locked w s"

text \<open>\<open>sys_slist_insert\<close>: a node behind another one of the list.\<close>

fun insert_behind :: "'a \<Rightarrow> 'a \<Rightarrow> 'a list \<Rightarrow> 'a list" where
  "insert_behind p n [] = []"
| "insert_behind p n (x # xs) = (if x = p then x # n # xs else x # insert_behind p n xs)"

definition queue_flusher_locked :: "qid \<Rightarrow> wid \<Rightarrow> wid \<Rightarrow> wq_state \<Rightarrow> wq_state" where
  "queue_flusher_locked q w f s =
     (let in_list = w \<in> set (pending (queues s q));
          s1 = init_flusher f s
      in if in_list then upd_queue q (\<lambda>x. x\<lparr>pending := insert_behind w f (pending x)\<rparr>) s1
         else upd_queue q (\<lambda>x. x\<lparr>pending := f # pending x\<rparr>) s1)"

text \<open>\<open>queue_remove_locked\<close> is reached with a null queue only when the item is not queued.\<close>

definition queue_remove_locked :: "qid option \<Rightarrow> wid \<Rightarrow> wq_state \<Rightarrow> wq_state" where
  "queue_remove_locked queue w s =
     (let (was_queued, flags) = flag_test_and_clear K_WORK_QUEUED_BIT (work_flags (works s w));
          s1 = upd_flags w (\<lambda>_. flags) s
      in if was_queued
         then (case queue of None \<Rightarrow> s1
               | Some q \<Rightarrow> upd_queue q (\<lambda>x. x\<lparr>pending := remove1 w (pending x)\<rparr>) s1)
         else s1)"

definition notify_queue_locked :: "qid option \<Rightarrow> wq_state \<Rightarrow> bool \<times> wq_state" where
  "notify_queue_locked queue s =
     (case queue of None \<Rightarrow> (False, s)
      | Some q \<Rightarrow> let (rv, k) = z_sched_wake (notifyq (queues s q)) 0 0 (ker s) in (rv, s\<lparr>ker := k\<rparr>))"

definition queue_submit_locked :: "qid option \<Rightarrow> wid \<Rightarrow> wq_state \<Rightarrow> int \<times> wq_state" where
  "queue_submit_locked queue w s =
     (case queue of None \<Rightarrow> (- EINVAL, s)
      | Some q \<Rightarrow>
          let chained = (current (ker s) = q_thread (queues s q) \<and> \<not> in_isr (ker s));
              draining = queue_flag K_WORK_QUEUE_DRAIN_BIT q s;
              plugged = queue_flag K_WORK_QUEUE_PLUGGED_BIT q s
          in if \<not> queue_flag K_WORK_QUEUE_STARTED_BIT q s then (- ENODEV, s)
             else if draining \<and> \<not> chained then (- EBUSY, s)
             else if plugged \<and> \<not> draining then (- EBUSY, s)
             else (1, snd (notify_queue_locked (Some q) (upd_queue q (\<lambda>x. x\<lparr>pending := pending x @ [w]\<rparr>) s))))"

definition submit_to_queue_locked :: "wid \<Rightarrow> qid option \<Rightarrow> wq_state \<Rightarrow> int \<times> qid option \<times> wq_state" where
  "submit_to_queue_locked w queuep s =
     (let (ret, qp, s1) =
        (if work_flag K_WORK_CANCELING_BIT w s then (- EBUSY, queuep, s)
         else if \<not> work_flag K_WORK_QUEUED_BIT w s
         then let qp1 = (case queuep of None \<Rightarrow> work_queue (works s w) | Some q \<Rightarrow> Some q);
                  running = work_flag K_WORK_RUNNING_BIT w s;
                  qp2 = (if running then work_queue (works s w) else qp1);
                  ret = (if running then 2 else 1);
                  (rc, s1) = queue_submit_locked qp2 w s
              in if rc < 0 then (rc, qp2, s1)
                 else (ret, qp2, upd_work w (\<lambda>x. x\<lparr>work_flags := flag_set K_WORK_QUEUED_BIT (work_flags x),
                                              work_queue := qp2\<rparr>) s1)
         else (0, queuep, s))
      in (ret, if ret \<le> 0 then None else qp, s1))"

definition z_work_submit_to_queue :: "qid option \<Rightarrow> wid \<Rightarrow> wq_state \<Rightarrow> int \<times> wq_state" where
  "z_work_submit_to_queue queue w s = (let (ret, _, s1) = submit_to_queue_locked w queue s in (ret, s1))"

definition k_work_submit_to_queue :: "qid option \<Rightarrow> wid \<Rightarrow> wq_state \<Rightarrow> int \<times> wq_state" where
  "k_work_submit_to_queue queue w s =
     (let (ret, s1) = z_work_submit_to_queue queue w s
      in (ret, if ret > 0 then s1\<lparr>ker := z_reschedule (ker s1)\<rparr> else s1))"

text \<open>The system work queue is an object like any other.\<close>

definition k_work_submit :: "qid \<Rightarrow> wid \<Rightarrow> wq_state \<Rightarrow> int \<times> wq_state" where
  "k_work_submit k_sys_work_q w s = k_work_submit_to_queue (Some k_sys_work_q) w s"

subsection \<open>Flushing and cancelling\<close>

text \<open>An item that is queued or runs has a queue; without one nothing is queued.\<close>

definition work_flush_locked :: "wid \<Rightarrow> wid \<Rightarrow> wq_state \<Rightarrow> bool \<times> wq_state" where
  "work_flush_locked w flusher s =
     (let need_flush = work_flags (works s w) AND (BIT K_WORK_QUEUED_BIT OR BIT K_WORK_RUNNING_BIT) \<noteq> 0
      in (need_flush,
          if need_flush
          then (case work_queue (works s w) of None \<Rightarrow> s
                | Some q \<Rightarrow> snd (notify_queue_locked (Some q) (queue_flusher_locked q w flusher s)))
          else s))"

text \<open>Waiting for the semaphore of a flusher or canceller; the call then returns true.\<close>

definition flusher_wait :: "wid \<Rightarrow> wq_state \<Rightarrow> bool outcome \<times> wq_state" where
  "flusher_wait f s =
     (let (r, sem, k) = z_impl_k_sem_take K_FOREVER (flusher_sem s f) (ker s)
      in (case r of Done _ \<Rightarrow> Done True | Blocked \<Rightarrow> Blocked, s\<lparr>flusher_sem := (flusher_sem s)(f := sem), ker := k\<rparr>))"

definition canceller_wait :: "cid \<Rightarrow> wq_state \<Rightarrow> bool outcome \<times> wq_state" where
  "canceller_wait c s =
     (let (r, sem, k) = z_impl_k_sem_take K_FOREVER (canc_sem (cancellers s c)) (ker s)
      in (case r of Done _ \<Rightarrow> Done True | Blocked \<Rightarrow> Blocked,
          s\<lparr>cancellers := (cancellers s)(c := (cancellers s c)\<lparr>canc_sem := sem\<rparr>), ker := k\<rparr>))"

definition k_work_flush :: "wid \<Rightarrow> wid \<Rightarrow> wq_state \<Rightarrow> bool outcome \<times> wq_state" where
  "k_work_flush w flusher s =
     (let (need_flush, s1) = work_flush_locked w flusher s
      in if need_flush then flusher_wait flusher s1 else (Done False, s1))"

definition cancel_async_locked :: "wid \<Rightarrow> wq_state \<Rightarrow> int \<times> wq_state" where
  "cancel_async_locked w s =
     (let s1 = (if \<not> work_flag K_WORK_CANCELING_BIT w s
                then queue_remove_locked (work_queue (works s w)) w s else s);
          ret = work_busy_get_locked w s1
      in if ret \<noteq> 0
         then let s2 = upd_flags w (flag_set K_WORK_CANCELING_BIT) s1 in (work_busy_get_locked w s2, s2)
         else (ret, s1))"

definition cancel_sync_locked :: "wid \<Rightarrow> cid \<Rightarrow> wq_state \<Rightarrow> bool \<times> wq_state" where
  "cancel_sync_locked w canceller s =
     (let ret = work_flag K_WORK_CANCELING_BIT w s
      in (ret, if ret then init_work_cancel canceller w s else s))"

definition k_work_cancel :: "wid \<Rightarrow> wq_state \<Rightarrow> int \<times> wq_state" where
  "k_work_cancel w s = cancel_async_locked w s"

definition k_work_cancel_sync :: "wid \<Rightarrow> cid \<Rightarrow> wq_state \<Rightarrow> bool outcome \<times> wq_state" where
  "k_work_cancel_sync w canceller s =
     (let pend = work_busy_get_locked w s \<noteq> 0
      in if pend
         then let s1 = snd (cancel_async_locked w s);
                  (need_wait, s2) = cancel_sync_locked w canceller s1
              in if need_wait then canceller_wait canceller s2 else (Done True, s2)
         else (Done False, s))"

section \<open>Queues\<close>

text \<open>
  One pass of the loop of \<open>work_queue_main\<close> up to the handler: it takes the first item and goes on
  to call its handler, or, when there is none, ends a drain and waits to be notified.
\<close>

definition work_queue_take :: "qid \<Rightarrow> wq_state \<Rightarrow> wid outcome \<times> wq_state" where
  "work_queue_take q s =
     (case pending (queues s q) of
        w # ws \<Rightarrow>
          let s1 = upd_queue q (\<lambda>x. x\<lparr>pending := ws, q_flags := flag_set K_WORK_QUEUE_BUSY_BIT (q_flags x)\<rparr>) s;
              s2 = upd_flags w (\<lambda>fl. flag_clear K_WORK_QUEUED_BIT (flag_set K_WORK_RUNNING_BIT fl)) s1
          in (Done w, s2\<lparr>main_work := (main_work s2)(q := Some w)\<rparr>)
      | [] \<Rightarrow>
          let (drained, fl) = flag_test_and_clear K_WORK_QUEUE_DRAIN_BIT (q_flags (queues s q));
              s1 = upd_queue q (\<lambda>x. x\<lparr>q_flags := fl\<rparr>) s;
              s2 = (if drained then s1\<lparr>ker := snd (z_sched_wake_all (drainq (queues s1 q)) 1 0 (ker s1))\<rparr> else s1)
          in (Blocked, s2\<lparr>ker := z_pend_curr (notifyq (queues s2 q)) K_FOREVER (ker s2)\<rparr>))"

definition work_queue_finish :: "qid \<Rightarrow> wid \<Rightarrow> wq_state \<Rightarrow> wq_state" where
  "work_queue_finish q w s =
     (let s1 = upd_flags w (flag_clear K_WORK_RUNNING_BIT) s;
          s2 = (if work_flag K_WORK_FLUSHING_BIT w s1 then finalize_flush_locked w s1 else s1);
          s3 = (if work_flag K_WORK_CANCELING_BIT w s2 then finalize_cancel_locked w s2 else s2);
          s4 = upd_queue q (\<lambda>x. x\<lparr>q_flags := flag_clear K_WORK_QUEUE_BUSY_BIT (q_flags x)\<rparr>) s3;
          yield = \<not> queue_flag K_WORK_QUEUE_NO_YIELD_BIT q s4;
          s5 = s4\<lparr>main_work := (main_work s4)(q := None)\<rparr>
      in if yield then s5\<lparr>ker := z_impl_k_yield (ker s5)\<rparr> else s5)"

text \<open>
  The whole structure becomes zero: a null list, empty wait queues, no flags, and the thread in it with
  the wait queue of its joiners. \<open>q_thread\<close>, \<open>notifyq\<close> and \<open>drainq\<close> name these parts and stay.
\<close>

definition k_work_queue_init :: "qid \<Rightarrow> wq_state \<Rightarrow> wq_state" where
  "k_work_queue_init q s =
     (let x = queues s q; k = ker s;
          k1 = k\<lparr>threads := (threads k)(q_thread x := blank_thread),
                 waitqs := (waitqs k)(notifyq x := [], drainq x := [], JoinQ (q_thread x) := [])\<rparr>
      in (upd_queue q (\<lambda>x. x\<lparr>pending := [], q_flags := 0\<rparr>) s)\<lparr>ker := k1\<rparr>)"

definition k_work_queue_start :: "qid \<Rightarrow> int \<Rightarrow> bool \<Rightarrow> bool \<Rightarrow> wq_state \<Rightarrow> wq_state" where
  "k_work_queue_start q p no_yield ess s =
     (let x = queues s q;
          k1 = z_waitq_init (drainq x) (z_waitq_init (notifyq x) (ker s));
          flags = BIT K_WORK_QUEUE_STARTED_BIT OR (if no_yield then BIT K_WORK_QUEUE_NO_YIELD_BIT else 0);
          k2 = z_impl_k_thread_create (q_thread x) p False K_FOREVER k1;
          k3 = (if ess then upd_thread (q_thread x) (\<lambda>th. th\<lparr>essential := True\<rparr>) k2 else k2)
      in (upd_queue q (\<lambda>x. x\<lparr>pending := [], q_flags := flags\<rparr>) s)\<lparr>ker := z_sched_start (q_thread x) k3\<rparr>)"

definition k_work_queue_drain :: "qid \<Rightarrow> bool \<Rightarrow> wq_state \<Rightarrow> int outcome \<times> wq_state" where
  "k_work_queue_drain q plug s =
     (if q_flags (queues s q) AND (BIT K_WORK_QUEUE_BUSY_BIT OR BIT K_WORK_QUEUE_DRAIN_BIT) \<noteq> 0 \<or> plug \<or>
         pending (queues s q) \<noteq> []
      then let s1 = upd_queue q (\<lambda>x. x\<lparr>q_flags := flag_set K_WORK_QUEUE_DRAIN_BIT (q_flags x)\<rparr>) s;
               s2 = (if plug then upd_queue q (\<lambda>x. x\<lparr>q_flags := flag_set K_WORK_QUEUE_PLUGGED_BIT (q_flags x)\<rparr>) s1
                     else s1);
               s3 = snd (notify_queue_locked (Some q) s2)
           in (Blocked, s3\<lparr>ker := z_pend_curr (drainq (queues s3 q)) K_FOREVER (ker s3)\<rparr>)
      else (Done 0, s))"

definition k_work_queue_unplug :: "qid \<Rightarrow> wq_state \<Rightarrow> int \<times> wq_state" where
  "k_work_queue_unplug q s =
     (let (was_plugged, fl) = flag_test_and_clear K_WORK_QUEUE_PLUGGED_BIT (q_flags (queues s q))
      in (if was_plugged then 0 else - EALREADY, upd_queue q (\<lambda>x. x\<lparr>q_flags := fl\<rparr>) s))"

section \<open>Delayable items\<close>

definition work_timeout :: "wid \<Rightarrow> wq_state \<Rightarrow> wq_state" where
  "work_timeout w s =
     (let (was_delayed, fl) = flag_test_and_clear K_WORK_DELAYED_BIT (work_flags (works s w));
          s1 = upd_flags w (\<lambda>_. fl) s
      in if was_delayed then (let (_, _, s2) = submit_to_queue_locked w (dwork_queue s1 w) s1 in s2) else s1)"

definition k_work_init_delayable :: "wid \<Rightarrow> addr \<Rightarrow> wq_state \<Rightarrow> wq_state" where
  "k_work_init_delayable w h s =
     (upd_work w (\<lambda>_. \<lparr>handler = h, work_queue = None, work_flags = BIT K_WORK_DELAYABLE_BIT\<rparr>) s)
       \<lparr>dwork_queue := (dwork_queue s)(w := None), dwork_timeout := (dwork_timeout s)(w := None)\<rparr>"

definition work_delayable_busy_get_locked :: "wid \<Rightarrow> wq_state \<Rightarrow> int" where
  "work_delayable_busy_get_locked w s = uint (work_flags (works s w) AND K_WORK_MASK)"

definition k_work_delayable_busy_get :: "wid \<Rightarrow> wq_state \<Rightarrow> int" where
  "k_work_delayable_busy_get w s = work_delayable_busy_get_locked w s"

definition schedule_for_queue_locked ::
  "qid option \<Rightarrow> wid \<Rightarrow> k_ticks_t \<Rightarrow> wq_state \<Rightarrow> int \<times> wq_state" where
  "schedule_for_queue_locked queuep w delay s =
     (if delay = K_NO_WAIT then (let (ret, _, s1) = submit_to_queue_locked w queuep s in (ret, s1))
      else let s1 = upd_flags w (flag_set K_WORK_DELAYED_BIT) s;
               s2 = s1\<lparr>dwork_queue := (dwork_queue s1)(w := queuep)\<rparr>
           in (1, if delay = K_FOREVER then s2 else s2\<lparr>dwork_timeout := (dwork_timeout s2)(w := Some delay)\<rparr>))"

definition unschedule_locked :: "wid \<Rightarrow> wq_state \<Rightarrow> bool \<times> wq_state" where
  "unschedule_locked w s =
     (let (was_delayed, fl) = flag_test_and_clear K_WORK_DELAYED_BIT (work_flags (works s w));
          s1 = upd_flags w (\<lambda>_. fl) s
      in if was_delayed
         then (dwork_timeout s1 w \<noteq> None, s1\<lparr>dwork_timeout := (dwork_timeout s1)(w := None)\<rparr>)
         else (False, s1))"

definition cancel_delayable_async_locked :: "wid \<Rightarrow> wq_state \<Rightarrow> int \<times> wq_state" where
  "cancel_delayable_async_locked w s = cancel_async_locked w (snd (unschedule_locked w s))"

definition k_work_schedule_for_queue :: "qid option \<Rightarrow> wid \<Rightarrow> k_ticks_t \<Rightarrow> wq_state \<Rightarrow> int \<times> wq_state" where
  "k_work_schedule_for_queue queue w delay s =
     (if work_flags (works s w) AND K_WORK_MASK AND NOT (BIT K_WORK_RUNNING_BIT) = 0
      then schedule_for_queue_locked queue w delay s else (0, s))"

definition k_work_schedule :: "qid \<Rightarrow> wid \<Rightarrow> k_ticks_t \<Rightarrow> wq_state \<Rightarrow> int \<times> wq_state" where
  "k_work_schedule k_sys_work_q w delay s = k_work_schedule_for_queue (Some k_sys_work_q) w delay s"

definition k_work_reschedule_for_queue :: "qid option \<Rightarrow> wid \<Rightarrow> k_ticks_t \<Rightarrow> wq_state \<Rightarrow> int \<times> wq_state" where
  "k_work_reschedule_for_queue queue w delay s =
     schedule_for_queue_locked queue w delay (snd (unschedule_locked w s))"

definition k_work_reschedule :: "qid \<Rightarrow> wid \<Rightarrow> k_ticks_t \<Rightarrow> wq_state \<Rightarrow> int \<times> wq_state" where
  "k_work_reschedule k_sys_work_q w delay s = k_work_reschedule_for_queue (Some k_sys_work_q) w delay s"

definition k_work_cancel_delayable :: "wid \<Rightarrow> wq_state \<Rightarrow> int \<times> wq_state" where
  "k_work_cancel_delayable w s = cancel_delayable_async_locked w s"

definition k_work_cancel_delayable_sync :: "wid \<Rightarrow> cid \<Rightarrow> wq_state \<Rightarrow> bool outcome \<times> wq_state" where
  "k_work_cancel_delayable_sync w canceller s =
     (let pend = work_delayable_busy_get_locked w s \<noteq> 0
      in if pend
         then let s1 = snd (cancel_delayable_async_locked w s);
                  (need_wait, s2) = cancel_sync_locked w canceller s1
              in if need_wait then canceller_wait canceller s2 else (Done True, s2)
         else (Done False, s))"

definition k_work_flush_delayable :: "wid \<Rightarrow> wid \<Rightarrow> wq_state \<Rightarrow> bool outcome \<times> wq_state" where
  "k_work_flush_delayable w flusher s =
     (if work_busy_get_locked w s = 0 then (Done False, s)
      else
        let (was_armed, s1) = unschedule_locked w s;
            s2 = (if was_armed then (let (_, _, s') = submit_to_queue_locked w (dwork_queue s1 w) s1 in s') else s1);
            (need_flush, s3) = work_flush_locked w flusher s2
        in if need_flush then flusher_wait flusher s3 else (Done False, s3))"

section \<open>Flag arithmetic\<close>

lemma bit_BIT: "bit (BIT b) i \<longleftrightarrow> i = b \<and> b < 32"
  by (auto simp: BIT_def bit_simps)

lemma mask_zero_iff: "(f::u32) AND m = 0 \<longleftrightarrow> (\<forall>i. \<not> (bit f i \<and> bit m i))"
proof
  assume "f AND m = 0"
  then have "bit (f AND m) i \<longleftrightarrow> False" for i by simp
  then show "\<forall>i. \<not> (bit f i \<and> bit m i)" by (simp add: bit_and_iff)
qed (auto intro!: bit_word_eqI simp: bit_and_iff)

lemma flag_test_bit: "flag_test b f \<longleftrightarrow> bit f b"
  by (auto simp: flag_test_def mask_zero_iff bit_BIT dest: bit_imp_le_length)

lemma bit_flag_set: "bit (flag_set b f) i \<longleftrightarrow> bit f i \<or> i = b \<and> b < 32"
  by (auto simp: flag_set_def bit_simps bit_BIT)

lemma bit_flag_clear: "bit (flag_clear b f) i \<longleftrightarrow> bit f i \<and> i \<noteq> b"
  by (auto simp: flag_clear_def bit_simps bit_BIT dest: bit_imp_le_length)

lemmas flag_bits = flag_test_bit bit_flag_set bit_flag_clear flag_test_and_clear_def

lemma bit_K_WORK_MASK: "bit K_WORK_MASK i \<longleftrightarrow> i \<in> {0, 1, 2, 3, 4}"
  by (auto simp: K_WORK_MASK_def bit_simps bit_BIT)

lemma busy_iff: "work_busy_get_locked w s \<noteq> 0 \<longleftrightarrow> (\<exists>i \<in> {0, 1, 2, 3, 4}. work_flag i w s)"
proof -
  have "work_busy_get_locked w s = 0 \<longleftrightarrow> work_flags (works s w) AND K_WORK_MASK = 0"
    by (simp add: work_busy_get_locked_def uint_0_iff)
  then show ?thesis by (auto simp: mask_zero_iff bit_K_WORK_MASK work_flag_def flag_test_bit)
qed

section \<open>The invariant\<close>

text \<open>
  What holds of an item with flags \<open>f\<close> and queue \<open>qo\<close> at a queue \<open>q\<close>, given whether it is in the list of
  \<open>q\<close>, whether the thread of \<open>q\<close> runs it, and its timeout. An item is in a list exactly when it is flagged
  as queued, and then in the list of its queue; it is flagged as running exactly when the thread of its queue
  runs it; it is being cancelled only while it runs and is not queued; and an armed timeout belongs
  to a delayed item, which is delayable. A flusher is in a list or runs, without being flagged as queued.
\<close>

definition item_at :: "u32 \<Rightarrow> qid option \<Rightarrow> bool \<Rightarrow> bool \<Rightarrow> k_ticks_t option \<Rightarrow> qid \<Rightarrow> bool" where
  "item_at f qo listed runs t q \<longleftrightarrow>
     (bit f K_WORK_QUEUED_BIT \<longrightarrow> qo \<noteq> None) \<and>
     (bit f K_WORK_RUNNING_BIT \<and> \<not> bit f K_WORK_FLUSHING_BIT \<longrightarrow> qo \<noteq> None) \<and>
     (\<not> bit f K_WORK_FLUSHING_BIT \<longrightarrow> (listed \<longleftrightarrow> bit f K_WORK_QUEUED_BIT \<and> qo = Some q)) \<and>
     (\<not> bit f K_WORK_FLUSHING_BIT \<longrightarrow> (runs \<longleftrightarrow> bit f K_WORK_RUNNING_BIT \<and> qo = Some q)) \<and>
     (runs \<longrightarrow> bit f K_WORK_RUNNING_BIT) \<and>
     (bit f K_WORK_FLUSHING_BIT \<and> listed \<longrightarrow> \<not> bit f K_WORK_RUNNING_BIT) \<and>
     (bit f K_WORK_CANCELING_BIT \<longrightarrow>
        bit f K_WORK_RUNNING_BIT \<and> \<not> bit f K_WORK_QUEUED_BIT \<and> \<not> bit f K_WORK_FLUSHING_BIT) \<and>
     (bit f K_WORK_FLUSHING_BIT \<longrightarrow> \<not> bit f K_WORK_QUEUED_BIT \<and> \<not> bit f K_WORK_DELAYED_BIT) \<and>
     (bit f K_WORK_DELAYED_BIT \<longrightarrow> bit f K_WORK_DELAYABLE_BIT) \<and>
     (t \<noteq> None \<longrightarrow> bit f K_WORK_DELAYED_BIT)"

text \<open>
  The invariant over the flags \<open>F\<close>, queues \<open>Q\<close> and timeouts \<open>T\<close> of the items, the lists \<open>P\<close> of the
  queues and the items \<open>M\<close> their threads run.
\<close>

definition wq_ok ::
  "(wid \<Rightarrow> u32) \<Rightarrow> (wid \<Rightarrow> qid option) \<Rightarrow> (qid \<Rightarrow> wid list) \<Rightarrow> (qid \<Rightarrow> wid option) \<Rightarrow> (wid \<Rightarrow> k_ticks_t option) \<Rightarrow> bool" where
  "wq_ok F Q P M T \<longleftrightarrow>
     (\<forall>q. distinct (P q)) \<and>
     (\<forall>q q' w. w \<in> set (P q) \<longrightarrow> w \<in> set (P q') \<longrightarrow> q = q') \<and>
     (\<forall>q q' w. M q = Some w \<longrightarrow> M q' = Some w \<longrightarrow> q = q') \<and>
     (\<forall>w q. item_at (F w) (Q w) (w \<in> set (P q)) (M q = Some w) (T w) q)"

definition flags_of :: "wq_state \<Rightarrow> wid \<Rightarrow> u32" where "flags_of s = (\<lambda>w. work_flags (works s w))"
definition queue_of :: "wq_state \<Rightarrow> wid \<Rightarrow> qid option" where "queue_of s = (\<lambda>w. work_queue (works s w))"
definition list_of :: "wq_state \<Rightarrow> qid \<Rightarrow> wid list" where "list_of s = (\<lambda>q. pending (queues s q))"

definition wq_inv :: "wq_state \<Rightarrow> bool" where
  "wq_inv s \<longleftrightarrow> wq_ok (flags_of s) (queue_of s) (list_of s) (main_work s) (dwork_timeout s)"

lemma wq_okD:
  assumes "wq_ok F Q P M T"
  shows "distinct (P q)" "w \<in> set (P q) \<Longrightarrow> w \<in> set (P q') \<Longrightarrow> q = q'"
    "M q = Some w \<Longrightarrow> M q' = Some w \<Longrightarrow> q = q'"
    "item_at (F w) (Q w) (w \<in> set (P q)) (M q = Some w) (T w) q"
proof -
  note c = assms [unfolded wq_ok_def]
  note c1 = c [THEN conjunct2] and c2 = c [THEN conjunct2, THEN conjunct2]
  show "distinct (P q)" using c by blast
  show "w \<in> set (P q) \<Longrightarrow> w \<in> set (P q') \<Longrightarrow> q = q'" by (rule c1 [THEN conjunct1, rule_format])
  show "M q = Some w \<Longrightarrow> M q' = Some w \<Longrightarrow> q = q'" by (rule c2 [THEN conjunct1, rule_format])
  show "item_at (F w) (Q w) (w \<in> set (P q)) (M q = Some w) (T w) q" using c2 by blast
qed

text \<open>Every operation changes one item; the others stay where they are.\<close>

lemma wq_ok_upd:
  assumes "wq_ok F Q P M T"
    and "\<And>x. x \<noteq> w \<Longrightarrow> F' x = F x \<and> Q' x = Q x \<and> T' x = T x"
    and "\<And>x q. x \<noteq> w \<Longrightarrow> (x \<in> set (P' q) \<longleftrightarrow> x \<in> set (P q)) \<and> (M' q = Some x \<longleftrightarrow> M q = Some x)"
    and "\<And>q. distinct (P' q)"
    and "\<And>q q'. w \<in> set (P' q) \<Longrightarrow> w \<in> set (P' q') \<Longrightarrow> q = q'"
    and "\<And>q q'. M' q = Some w \<Longrightarrow> M' q' = Some w \<Longrightarrow> q = q'"
    and "\<And>q. item_at (F' w) (Q' w) (w \<in> set (P' q)) (M' q = Some w) (T' w) q"
  shows "wq_ok F' Q' P' M' T'"
  unfolding wq_ok_def
proof (intro conjI allI impI)
  note D = wq_okD [OF assms(1)]
  show "distinct (P' q)" for q by (rule assms(4))
  show "q = q'" if "x \<in> set (P' q)" "x \<in> set (P' q')" for q q' x
    using that assms(3) [of x] assms(5) [of q q'] D(2) [of x q q'] by (cases "x = w") auto
  show "q = q'" if "M' q = Some x" "M' q' = Some x" for q q' x
    using that assms(3) [of x] assms(6) [of q q'] D(3) [of q x q'] by (cases "x = w") auto
  show "item_at (F' x) (Q' x) (x \<in> set (P' q)) (M' q = Some x) (T' x) q" for x q
    using assms(2,3) [of x] assms(7) [of q] D(4) [of x q] by (cases "x = w") auto
qed

lemma ok_take:
  assumes "wq_ok F Q P M T" "P q = w # ws" "M q = None"
  shows "wq_ok (F(w := flag_clear 2 (flag_set 0 (F w)))) Q (P(q := ws)) (M(q := Some w)) T"
proof (rule wq_ok_upd [OF assms(1), of w])
  note D = wq_okD [OF assms(1)]
  have w: "set (P q) = insert w (set ws)" "w \<notin> set ws" "distinct ws" using assms(2) D(1) [of q] by simp_all
  have nq: "w \<notin> set (P q')" if "q' \<noteq> q" for q' using D(2) [of w q q'] that w(1) by auto
  have at: "item_at (F w) (Q w) True False (T w) q" using D(4) [of w q] w assms(3) by simp
  then have nr: "M q' \<noteq> Some w" for q' using D(4) [of w q'] assms(3) by (auto simp: item_at_def)
  show "(x \<in> set ((P(q := ws)) q') \<longleftrightarrow> x \<in> set (P q')) \<and> ((M(q := Some w)) q' = Some x \<longleftrightarrow> M q' = Some x)"
    if "x \<noteq> w" for x q' using that w assms(3) by auto
  show "distinct ((P(q := ws)) q')" for q' using D(1) [of q'] w by simp
  show "q1 = q2" if "w \<in> set ((P(q := ws)) q1)" for q1 q2 using that w nq by (auto split: if_splits)
  show "q1 = q2" if "(M(q := Some w)) q1 = Some w" "(M(q := Some w)) q2 = Some w" for q1 q2
    using that nr by (auto split: if_splits)
  show "item_at ((F(w := flag_clear 2 (flag_set 0 (F w)))) w) (Q w) (w \<in> set ((P(q := ws)) q'))
      ((M(q := Some w)) q' = Some w) (T w) q'" for q'
    using at w nq nr D(4) [of w q'] by (auto simp: item_at_def bit_flag_set bit_flag_clear)
qed auto

lemma ok_flags:
  assumes "wq_ok F Q P M T"
    and "\<And>q listed runs. item_at (F w) (Q w) listed runs (T w) q \<Longrightarrow> item_at f (Q w) listed runs t q"
  shows "wq_ok (F(w := f)) Q P M (T(w := t))"
  by (rule wq_ok_upd [OF assms(1), of w]) (use wq_okD [OF assms(1)] assms(2) in auto)

lemma ok_submit:
  assumes "wq_ok F Q P M T" "\<not> bit (F w) 2" "\<not> bit (F w) 1" "\<not> bit (F w) 4" "bit (F w) 0 \<Longrightarrow> Q w = Some q"
  shows "wq_ok (F(w := flag_set 2 (F w))) (Q(w := Some q)) (P(q := P q @ [w])) M T"
proof (rule wq_ok_upd [OF assms(1), of w])
  note D = wq_okD [OF assms(1)]
  have ar: "\<not> bit (F w) 0 \<or> Q w = Some q" using assms(5) by blast
  have nl: "w \<notin> set (P q')" for q' using D(4) [of w q'] assms(2,4) by (auto simp: item_at_def)
  show "distinct ((P(q := P q @ [w])) q')" for q' using D(1) nl by simp
  show "q1 = q2" if "w \<in> set ((P(q := P q @ [w])) q1)" "w \<in> set ((P(q := P q @ [w])) q2)" for q1 q2
    using that nl by (auto split: if_splits)
  show "q1 = q2" if "M q1 = Some w" "M q2 = Some w" for q1 q2 using that D(3) by blast
  show "item_at ((F(w := flag_set 2 (F w))) w) ((Q(w := Some q)) w) (w \<in> set ((P(q := P q @ [w])) q')) (M q' = Some w)
      (T w) q'" for q'
    using D(4) [of w q'] nl [of q'] assms(2-4) ar
    by (cases "bit (F w) 0"; cases "q' = q"; simp add: item_at_def bit_flag_set)
qed auto

lemma ok_remove:
  assumes "wq_ok F Q P M T" "bit (F w) 2" "Q w = Some q"
  shows "wq_ok (F(w := flag_clear 2 (F w))) Q (P(q := remove1 w (P q))) M T"
proof (rule wq_ok_upd [OF assms(1), of w])
  note D = wq_okD [OF assms(1)]
  have l: "w \<in> set (P q') \<longleftrightarrow> q' = q" for q' using D(4) [of w q'] assms(2,3) by (auto simp: item_at_def)
  show "(x \<in> set ((P(q := remove1 w (P q))) q') \<longleftrightarrow> x \<in> set (P q')) \<and> (M q' = Some x \<longleftrightarrow> M q' = Some x)"
    if "x \<noteq> w" for x q' using that D(1) [of q] by auto
  show "distinct ((P(q := remove1 w (P q))) q')" for q' using D(1) by simp
  show "q1 = q2" if "w \<in> set ((P(q := remove1 w (P q))) q1)" for q1 q2
    using that l D(1) [of q] by (auto split: if_splits)
  show "q1 = q2" if "M q1 = Some w" "M q2 = Some w" for q1 q2 using that D(3) by blast
  show "item_at ((F(w := flag_clear 2 (F w))) w) (Q w) (w \<in> set ((P(q := remove1 w (P q))) q')) (M q' = Some w)
      (T w) q'" for q'
    using D(4) [of w q'] l [of q'] D(1) [of q] assms(2) by (auto simp: item_at_def bit_flag_clear)
qed auto

lemma ok_finish:
  assumes "wq_ok F Q P M T" "M q = Some w" "\<And>i. bit f i \<longleftrightarrow> bit (F w) i \<and> i \<noteq> 0 \<and> i \<noteq> 1 \<and> i \<noteq> 4"
  shows "wq_ok (F(w := f)) Q P (M(q := None)) T"
proof (rule wq_ok_upd [OF assms(1), of w])
  note D = wq_okD [OF assms(1)]
  have b: "\<not> bit f 0" "\<not> bit f 1" "\<not> bit f 4" "bit f 2 \<longleftrightarrow> bit (F w) 2" "bit f 3 \<longleftrightarrow> bit (F w) 3"
    "bit f 8 \<longleftrightarrow> bit (F w) 8"
    by (simp_all add: assms(3) del: bit_0)
  have r: "M q' = Some w \<longleftrightarrow> q' = q" for q' using D(3) [of q' w q] assms(2) by auto
  show "(x \<in> set (P q') \<longleftrightarrow> x \<in> set (P q')) \<and> ((M(q := None)) q' = Some x \<longleftrightarrow> M q' = Some x)"
    if "x \<noteq> w" for x q' using that assms(2) by auto
  show "distinct (P q')" for q' by (rule D(1))
  show "q1 = q2" if "w \<in> set (P q1)" "w \<in> set (P q2)" for q1 q2 using that D(2) by blast
  show "q1 = q2" if "(M(q := None)) q1 = Some w" for q1 q2 using that r by (auto split: if_splits)
  show "item_at ((F(w := f)) w) (Q w) (w \<in> set (P q')) ((M(q := None)) q' = Some w) (T w) q'" for q'
    using D(4) [of w q'] D(4) [of w q] r [of q'] r [of q] b
    by (cases "bit (F w) 4"; cases "q' = q"; simp add: item_at_def)
qed auto

text \<open>A flusher that is used nowhere may be put anywhere in one list.\<close>

definition unused :: "wid \<Rightarrow> (qid \<Rightarrow> wid list) \<Rightarrow> (qid \<Rightarrow> wid option) \<Rightarrow> (wid \<Rightarrow> k_ticks_t option) \<Rightarrow> bool" where
  "unused f P M T \<longleftrightarrow> (\<forall>q. f \<notin> set (P q) \<and> M q \<noteq> Some f) \<and> T f = None"

lemma ok_flusher:
  assumes "wq_ok F Q P M T" "unused f P M T" "set xs = insert f (set (P q))" "distinct xs"
  shows "wq_ok (F(f := flag_set 4 0)) (Q(f := None)) (P(q := xs)) M T"
proof (rule wq_ok_upd [OF assms(1), of f])
  note D = wq_okD [OF assms(1)]
  have u: "f \<notin> set (P q')" "M q' \<noteq> Some f" "T f = None" for q' using assms(2) by (auto simp: unused_def)
  show "(x \<in> set ((P(q := xs)) q') \<longleftrightarrow> x \<in> set (P q')) \<and> (M q' = Some x \<longleftrightarrow> M q' = Some x)"
    if "x \<noteq> f" for x q' using that assms(3) by auto
  show "distinct ((P(q := xs)) q')" for q' using D(1) assms(4) by simp
  show "q1 = q2" if "f \<in> set ((P(q := xs)) q1)" "f \<in> set ((P(q := xs)) q2)" for q1 q2
    using that u by (auto split: if_splits)
  show "q1 = q2" if "M q1 = Some f" for q1 q2 using that u by simp
  show "item_at ((F(f := flag_set 4 0)) f) ((Q(f := None)) f) (f \<in> set ((P(q := xs)) q')) (M q' = Some f) (T f) q'" for q'
    using u(2) [of q'] u(3) by (auto simp: item_at_def bit_flag_set)
qed auto

section \<open>Preservation by the operations\<close>

named_theorems view_simps \<open>what an update does to the parts of the state the invariant is about\<close>

lemma view_upd_work [view_simps]:
  "flags_of (upd_work w f s) = (flags_of s)(w := work_flags (f (works s w)))"
  "queue_of (upd_work w f s) = (queue_of s)(w := work_queue (f (works s w)))"
  "list_of (upd_work w f s) = list_of s" "main_work (upd_work w f s) = main_work s"
  "dwork_timeout (upd_work w f s) = dwork_timeout s" "dwork_queue (upd_work w f s) = dwork_queue s"
  "queues (upd_work w f s) = queues s" "ker (upd_work w f s) = ker s"
  by (auto simp: upd_work_def flags_of_def queue_of_def list_of_def)

lemma view_upd_flags [view_simps]:
  "flags_of (upd_flags w f s) = (flags_of s)(w := f (flags_of s w))"
  "queue_of (upd_flags w f s) = queue_of s"
  "list_of (upd_flags w f s) = list_of s" "main_work (upd_flags w f s) = main_work s"
  "dwork_timeout (upd_flags w f s) = dwork_timeout s" "dwork_queue (upd_flags w f s) = dwork_queue s"
  "queues (upd_flags w f s) = queues s" "ker (upd_flags w f s) = ker s"
  by (auto simp: upd_flags_def upd_work_def flags_of_def queue_of_def list_of_def)

lemma view_upd_queue [view_simps]:
  "flags_of (upd_queue q f s) = flags_of s" "queue_of (upd_queue q f s) = queue_of s"
  "list_of (upd_queue q f s) = (list_of s)(q := pending (f (queues s q)))"
  "main_work (upd_queue q f s) = main_work s" "dwork_timeout (upd_queue q f s) = dwork_timeout s"
  "works (upd_queue q f s) = works s" "dwork_queue (upd_queue q f s) = dwork_queue s"
  "ker (upd_queue q f s) = ker s"
  by (auto simp: upd_queue_def flags_of_def queue_of_def list_of_def)

lemma view_other [view_simps]:
  "flags_of (s\<lparr>ker := k\<rparr>) = flags_of s" "queue_of (s\<lparr>ker := k\<rparr>) = queue_of s" "list_of (s\<lparr>ker := k\<rparr>) = list_of s"
  "flags_of (s\<lparr>flusher_sem := fs\<rparr>) = flags_of s" "queue_of (s\<lparr>flusher_sem := fs\<rparr>) = queue_of s"
  "list_of (s\<lparr>flusher_sem := fs\<rparr>) = list_of s"
  "flags_of (s\<lparr>cancellers := cs\<rparr>) = flags_of s" "queue_of (s\<lparr>cancellers := cs\<rparr>) = queue_of s"
  "list_of (s\<lparr>cancellers := cs\<rparr>) = list_of s"
  "flags_of (s\<lparr>pending_cancels := pc\<rparr>) = flags_of s" "queue_of (s\<lparr>pending_cancels := pc\<rparr>) = queue_of s"
  "list_of (s\<lparr>pending_cancels := pc\<rparr>) = list_of s"
  "flags_of (s\<lparr>dwork_queue := dq\<rparr>) = flags_of s" "queue_of (s\<lparr>dwork_queue := dq\<rparr>) = queue_of s"
  "list_of (s\<lparr>dwork_queue := dq\<rparr>) = list_of s"
  "flags_of (s\<lparr>dwork_timeout := dt\<rparr>) = flags_of s" "queue_of (s\<lparr>dwork_timeout := dt\<rparr>) = queue_of s"
  "list_of (s\<lparr>dwork_timeout := dt\<rparr>) = list_of s"
  "flags_of (s\<lparr>main_work := mw\<rparr>) = flags_of s" "queue_of (s\<lparr>main_work := mw\<rparr>) = queue_of s"
  "list_of (s\<lparr>main_work := mw\<rparr>) = list_of s"
  by (simp_all add: flags_of_def queue_of_def list_of_def)

text \<open>
  Operations on the kernel, the semaphores and the cancellers leave the items, the lists and the
  timeouts alone.
\<close>

definition same_items :: "wq_state \<Rightarrow> wq_state \<Rightarrow> bool" where
  "same_items s s' \<longleftrightarrow> flags_of s' = flags_of s \<and> queue_of s' = queue_of s \<and> list_of s' = list_of s \<and>
     main_work s' = main_work s \<and> dwork_timeout s' = dwork_timeout s \<and> dwork_queue s' = dwork_queue s"

lemma same_items_inv: "same_items s s' \<Longrightarrow> wq_inv s' \<longleftrightarrow> wq_inv s"
  by (simp add: same_items_def wq_inv_def)

lemma same_itemsD:
  assumes "same_items s s'"
  shows "flags_of s' = flags_of s" "queue_of s' = queue_of s" "list_of s' = list_of s"
    "main_work s' = main_work s" "dwork_timeout s' = dwork_timeout s" "dwork_queue s' = dwork_queue s"
  using assms by (simp_all add: same_items_def)

lemma same_items_ker: "same_items s (s\<lparr>ker := k\<rparr>)"
  by (simp add: same_items_def view_simps)

lemma notify_same: "same_items s (snd (notify_queue_locked q s))"
  by (cases q) (simp_all add: notify_queue_locked_def same_items_def view_simps split: prod.splits)

lemma cancel_walk_same: "same_items s (cancel_walk w cs s)"
  by (induction cs) (simp_all add: same_items_def view_simps split: prod.splits)

lemma wait_same: "same_items s (snd (flusher_wait f s))" "same_items s (snd (canceller_wait c s))"
  by (simp_all add: flusher_wait_def canceller_wait_def same_items_def view_simps split: prod.splits)

lemma cancel_sync_same: "same_items s (snd (cancel_sync_locked w c s))"
  by (simp add: cancel_sync_locked_def Let_def init_work_cancel_def same_items_def view_simps split: prod.splits)

lemma work_flag_of: "work_flag b w s \<longleftrightarrow> bit (flags_of s w) b"
  by (simp add: work_flag_def flags_of_def flag_test_bit)

lemma works_of: "work_flags (works s w) = flags_of s w" "work_queue (works s w) = queue_of s w"
    "pending (queues s q) = list_of s q"
  by (simp_all add: flags_of_def queue_of_def list_of_def)

text \<open>A submission is refused, or it appends the item to the list of a queue.\<close>

definition accepts :: "qid \<Rightarrow> wq_state \<Rightarrow> bool" where
  "accepts q s \<longleftrightarrow> queue_flag K_WORK_QUEUE_STARTED_BIT q s \<and>
     (if queue_flag K_WORK_QUEUE_DRAIN_BIT q s
      then current (ker s) = q_thread (queues s q) \<and> \<not> in_isr (ker s)
      else \<not> queue_flag K_WORK_QUEUE_PLUGGED_BIT q s)"

definition submitted :: "wid \<Rightarrow> qid \<Rightarrow> wq_state \<Rightarrow> wq_state \<Rightarrow> bool" where
  "submitted w q s s' \<longleftrightarrow> flags_of s' = (flags_of s)(w := flag_set 2 (flags_of s w)) \<and>
     queue_of s' = (queue_of s)(w := Some q) \<and> list_of s' = (list_of s)(q := list_of s q @ [w]) \<and>
     main_work s' = main_work s \<and> dwork_timeout s' = dwork_timeout s \<and> dwork_queue s' = dwork_queue s"

lemma queue_submit_cases:
  assumes "queue_submit_locked qo w s = (rc, s1)"
  shows "rc < 0 \<and> s1 = s \<and> (\<forall>q. qo = Some q \<longrightarrow> \<not> accepts q s) \<or>
    (\<exists>q. qo = Some q \<and> accepts q s \<and> rc = 1 \<and>
      s1 = snd (notify_queue_locked (Some q) (upd_queue q (\<lambda>x. x\<lparr>pending := pending x @ [w]\<rparr>) s)))"
  using assms by (cases qo) (auto simp: queue_submit_locked_def accepts_def Let_def split: if_splits)

lemma submit_refused:
  "bit (flags_of s w) 1 \<or> bit (flags_of s w) 2 \<Longrightarrow>
   submit_to_queue_locked w qo s = (if bit (flags_of s w) 1 then - EBUSY else 0, None, s)"
  unfolding submit_to_queue_locked_def work_flag_of Let_def by (auto simp del: bit_0)

lemma submit_tried:
  assumes "\<not> bit (flags_of s w) 1" "\<not> bit (flags_of s w) 2"
    and "qo' = (if bit (flags_of s w) 0 \<or> qo = None then queue_of s w else qo)"
    and "queue_submit_locked qo' w s = (rc, s1)"
  shows "submit_to_queue_locked w qo s =
    (if rc < 0 then (rc, None, s1)
     else (if bit (flags_of s w) 0 then 2 else 1, qo',
       upd_work w (\<lambda>x. x\<lparr>work_flags := flag_set 2 (work_flags x), work_queue := qo'\<rparr>) s1))"
proof -
  have q: "(if bit (flags_of s w) 0 then queue_of s w
      else case qo of None \<Rightarrow> queue_of s w | Some q \<Rightarrow> Some q) = qo'" using assms(3) by (cases qo) auto
  show ?thesis
    unfolding submit_to_queue_locked_def work_flag_of works_of Let_def q assms(4)
    using assms(1,2) by (simp del: bit_0)
qed

lemma submit_cases:
  assumes "submit_to_queue_locked w qo s = (r, qp, s')"
  shows "r \<le> 0 \<and> s' = s \<and> qp = None \<or>
    (\<exists>q. r = (if bit (flags_of s w) 0 then 2 else 1) \<and> qp = Some q \<and>
      (if bit (flags_of s w) 0 \<or> qo = None then queue_of s w else qo) = Some q \<and>
      \<not> bit (flags_of s w) 1 \<and> \<not> bit (flags_of s w) 2 \<and> accepts q s \<and> submitted w q s s')"
proof (cases "bit (flags_of s w) 1 \<or> bit (flags_of s w) 2")
  case True
  then show ?thesis using assms submit_refused [OF True, of qo] by (simp del: bit_0 split: if_splits)
next
  case False
  let ?q = "if bit (flags_of s w) 0 \<or> qo = None then queue_of s w else qo"
  obtain rc s1 where r: "queue_submit_locked ?q w s = (rc, s1)" by (cases "queue_submit_locked ?q w s")
  have e: "submit_to_queue_locked w qo s = (if rc < 0 then (rc, None, s1)
     else (if bit (flags_of s w) 0 then 2 else 1, ?q,
       upd_work w (\<lambda>x. x\<lparr>work_flags := flag_set 2 (work_flags x), work_queue := ?q\<rparr>) s1))"
    using False by (intro submit_tried [OF _ _ refl r]) simp_all
  from queue_submit_cases [OF r] show ?thesis
  proof (elim disjE exE conjE)
    fix q
    assume a: "?q = Some q" "accepts q s" "rc = 1"
      "s1 = snd (notify_queue_locked (Some q) (upd_queue q (\<lambda>x. x\<lparr>pending := pending x @ [w]\<rparr>) s))"
    note N = same_itemsD [OF notify_same [of "upd_queue q (\<lambda>x. x\<lparr>pending := pending x @ [w]\<rparr>) s" "Some q"]]
    have "submitted w q s (upd_work w (\<lambda>x. x\<lparr>work_flags := flag_set 2 (work_flags x), work_queue := Some q\<rparr>) s1)"
      using N by (simp add: submitted_def a(4) view_simps works_of)
    moreover have "r = (if bit (flags_of s w) 0 then 2 else 1)" "qp = Some q"
      "s' = upd_work w (\<lambda>x. x\<lparr>work_flags := flag_set 2 (work_flags x), work_queue := Some q\<rparr>) s1"
      using assms e [unfolded a(1,3)] by auto
    ultimately show ?thesis using False a(1,2) by (intro disjI2 exI [of _ q]) (simp del: bit_0)
  qed (use assms e in auto)
qed

lemma submit_inv:
  assumes "wq_inv s" "submit_to_queue_locked w qo s = (r, qp, s')" "\<not> bit (flags_of s w) 4"
  shows "wq_inv s'"
  using submit_cases [OF assms(2)]
proof (elim disjE exE conjE)
  fix q
  assume a: "(if bit (flags_of s w) 0 \<or> qo = None then queue_of s w else qo) = Some q"
    "\<not> bit (flags_of s w) 1" "\<not> bit (flags_of s w) 2" "submitted w q s s'"
  have "wq_ok ((flags_of s)(w := flag_set 2 (flags_of s w))) ((queue_of s)(w := Some q))
      ((list_of s)(q := list_of s q @ [w])) (main_work s) (dwork_timeout s)"
    by (rule ok_submit) (use assms a in \<open>auto simp: wq_inv_def simp del: bit_0\<close>)
  then show ?thesis using a(4) by (simp add: wq_inv_def submitted_def)
qed (use assms in simp)

lemma wq_inv_at:
  assumes "wq_inv s"
  shows "item_at (flags_of s w) (queue_of s w) (w \<in> set (list_of s q)) (main_work s q = Some w) (dwork_timeout s w) q"
  using wq_okD(4) [OF assms [unfolded wq_inv_def]] by blast

lemma flag_clear_id: "\<not> bit f b \<Longrightarrow> flag_clear b f = f"
  by (rule bit_word_eqI) (auto simp: bit_flag_clear)

lemma flag_set_id: "bit f b \<Longrightarrow> flag_set b f = f"
  by (rule bit_word_eqI) (auto simp: bit_flag_set dest: bit_imp_le_length)

text \<open>Taking an item out of its list.\<close>

definition unlisted :: "wid \<Rightarrow> wq_state \<Rightarrow> qid \<Rightarrow> wid list" where
  "unlisted w s = (\<lambda>q. if bit (flags_of s w) 2 \<and> queue_of s w = Some q then remove1 w (list_of s q) else list_of s q)"

lemma remove_view:
  assumes "s1 = queue_remove_locked (work_queue (works s w)) w s" "bit (flags_of s w) 2 \<Longrightarrow> queue_of s w \<noteq> None"
  shows "flags_of s1 = (flags_of s)(w := flag_clear 2 (flags_of s w))" "queue_of s1 = queue_of s"
    "list_of s1 = unlisted w s" "main_work s1 = main_work s" "dwork_timeout s1 = dwork_timeout s"
    "dwork_queue s1 = dwork_queue s"
  using assms by (auto simp: queue_remove_locked_def Let_def flag_bits works_of view_simps unlisted_def split: option.splits)

lemma cancel_async_spec:
  assumes "wq_inv s" "\<not> bit (flags_of s w) 3" "\<not> bit (flags_of s w) 4" "cancel_async_locked w s = (r, s')"
  shows "wq_inv s'" "list_of s' = unlisted w s" "main_work s' = main_work s" "dwork_timeout s' = dwork_timeout s"
    and "queue_of s' = queue_of s" "dwork_queue s' = dwork_queue s"
    and "flags_of s' = (flags_of s)(w :=
      (if bit (flags_of s w) 0 then flag_set 1 else (\<lambda>f. f)) (flag_clear 2 (flags_of s w)))"
    and "r \<noteq> 0 \<longleftrightarrow> bit (flags_of s w) 0"
proof -
  define s1 where "s1 = (if \<not> work_flag 1 w s then queue_remove_locked (work_queue (works s w)) w s else s)"
  note at = wq_inv_at [OF assms(1), of w, unfolded item_at_def]
  have q: "bit (flags_of s w) 2 \<Longrightarrow> queue_of s w \<noteq> None" using at by blast
  have c: "bit (flags_of s w) 1 \<Longrightarrow> bit (flags_of s w) 0 \<and> \<not> bit (flags_of s w) 2" using at by blast
  have V: "flags_of s1 = (flags_of s)(w := flag_clear 2 (flags_of s w))" "queue_of s1 = queue_of s"
    "list_of s1 = unlisted w s" "main_work s1 = main_work s" "dwork_timeout s1 = dwork_timeout s"
    "dwork_queue s1 = dwork_queue s"
    using remove_view [OF refl q] c by (simp_all add: s1_def work_flag_of flag_clear_id unlisted_def del: bit_0)
  have ok: "wq_ok (flags_of s1) (queue_of s1) (list_of s1) (main_work s1) (dwork_timeout s1)"
  proof (cases "bit (flags_of s w) 2")
    case True
    then obtain q' where q': "queue_of s w = Some q'" using q by blast
    have "unlisted w s = (list_of s)(q' := remove1 w (list_of s q'))" using True q' by (auto simp: unlisted_def)
    then show ?thesis using ok_remove [OF assms(1) [unfolded wq_inv_def] True q'] V by simp
  next
    case False
    then show ?thesis using V assms(1) by (simp add: wq_inv_def unlisted_def flag_clear_id)
  qed
  have busy: "work_busy_get_locked w s1 \<noteq> 0 \<longleftrightarrow> bit (flags_of s w) 0"
    using assms(2,3) c by (auto simp: busy_iff work_flag_of V bit_flag_clear simp del: bit_0)
  define s2 where "s2 = (if bit (flags_of s w) 0 then upd_flags w (flag_set 1) s1 else s1)"
  have e: "s' = s2" "r = work_busy_get_locked w s2"
    using assms(4) busy unfolding cancel_async_locked_def s1_def [symmetric] Let_def s2_def
    by (auto simp del: bit_0 split: if_splits)
  show "list_of s' = unlisted w s" "main_work s' = main_work s" "dwork_timeout s' = dwork_timeout s"
    "queue_of s' = queue_of s" "dwork_queue s' = dwork_queue s"
    by (simp_all add: e s2_def view_simps V del: bit_0)
  show "flags_of s' = (flags_of s)(w :=
      (if bit (flags_of s w) 0 then flag_set 1 else (\<lambda>f. f)) (flag_clear 2 (flags_of s w)))"
    by (simp add: e s2_def view_simps V del: bit_0)
  show "r \<noteq> 0 \<longleftrightarrow> bit (flags_of s w) 0"
    using busy by (auto simp: e(2) s2_def busy_iff work_flag_of view_simps bit_flag_set simp del: bit_0)
  have "wq_ok ((flags_of s1)(w := flag_set 1 (flags_of s1 w))) (queue_of s1) (list_of s1) (main_work s1)
      ((dwork_timeout s1)(w := dwork_timeout s1 w))" if "bit (flags_of s w) 0"
    by (rule ok_flags [OF ok])
      (use that assms(3) in \<open>simp add: item_at_def V bit_flag_set bit_flag_clear del: bit_0\<close>)
  then show "wq_inv s'" using ok by (auto simp: e s2_def wq_inv_def view_simps simp del: bit_0)
qed

lemma set_insert_behind: "p \<in> set xs \<Longrightarrow> set (insert_behind p n xs) = insert n (set xs)"
  by (induction xs) auto

lemma insert_behind_notin: "p \<notin> set xs \<Longrightarrow> insert_behind p n xs = xs"
  by (induction xs) auto

lemma distinct_insert_behind: "distinct xs \<Longrightarrow> n \<notin> set xs \<Longrightarrow> p \<noteq> n \<Longrightarrow> distinct (insert_behind p n xs)"
proof (induction xs)
  case (Cons x xs)
  then show ?case by (cases "p \<in> set xs") (auto simp: set_insert_behind insert_behind_notin)
qed simp

definition with_flusher :: "wid \<Rightarrow> wid \<Rightarrow> wid list \<Rightarrow> wid list" where
  "with_flusher w f xs = (if w \<in> set xs then insert_behind w f xs else f # xs)"

lemma init_flusher_view [view_simps]:
  "flags_of (init_flusher f s) = (flags_of s)(f := flag_set 4 0)" "queue_of (init_flusher f s) = (queue_of s)(f := None)"
  "list_of (init_flusher f s) = list_of s" "main_work (init_flusher f s) = main_work s"
  "dwork_timeout (init_flusher f s) = dwork_timeout s" "dwork_queue (init_flusher f s) = dwork_queue s"
  by (auto simp: init_flusher_def k_work_init_def view_simps Let_def split: prod.splits)

lemma flush_locked_spec:
  assumes "wq_inv s" "unused f (list_of s) (main_work s) (dwork_timeout s)" "w \<noteq> f" "\<not> bit (flags_of s w) 4"
    and "work_flush_locked w f s = (need, s')"
  shows "need \<longleftrightarrow> bit (flags_of s w) 0 \<or> bit (flags_of s w) 2" "\<not> need \<Longrightarrow> s' = s" "wq_inv s'"
    and "need \<Longrightarrow> \<exists>q. queue_of s w = Some q \<and>
      list_of s' = (list_of s)(q := with_flusher w f (list_of s q)) \<and> main_work s' = main_work s \<and>
      flags_of s' = (flags_of s)(f := flag_set 4 0)"
proof -
  note D = wq_okD [OF assms(1) [unfolded wq_inv_def]]
  have "(flags_of s w AND (BIT 2 OR BIT 0) \<noteq> 0) \<longleftrightarrow> bit (flags_of s w) 0 \<or> bit (flags_of s w) 2"
    by (auto simp: mask_zero_iff bit_or_iff bit_BIT)
  then show n: "need \<longleftrightarrow> bit (flags_of s w) 0 \<or> bit (flags_of s w) 2"
    using assms(5) by (auto simp: work_flush_locked_def Let_def works_of)
  show i: "\<not> need \<Longrightarrow> s' = s" using assms(5) by (auto simp: work_flush_locked_def Let_def split: if_splits)
  have *: "wq_inv s' \<and> (\<exists>q. queue_of s w = Some q \<and>
      list_of s' = (list_of s)(q := with_flusher w f (list_of s q)) \<and> main_work s' = main_work s \<and>
      flags_of s' = (flags_of s)(f := flag_set 4 0))" if need
  proof -
    have "queue_of s w \<noteq> None" using n that assms(4) D(4) [of w] unfolding item_at_def by blast
    then obtain q where q: "queue_of s w = Some q" by blast
    define s1 where "s1 = queue_flusher_locked q w f s"
    have s': "s' = snd (notify_queue_locked (Some q) s1)"
      using assms(5) that q by (auto simp: work_flush_locked_def works_of s1_def Let_def split: if_splits)
    note S = same_itemsD [OF notify_same [of s1 "Some q"], folded s']
    have V: "flags_of s1 = (flags_of s)(f := flag_set 4 0)" "queue_of s1 = (queue_of s)(f := None)"
      "list_of s1 = (list_of s)(q := with_flusher w f (list_of s q))" "main_work s1 = main_work s"
      "dwork_timeout s1 = dwork_timeout s"
      by (auto simp: s1_def queue_flusher_locked_def Let_def view_simps works_of with_flusher_def)
    have "f \<notin> set (list_of s q)" using assms(2) by (auto simp: unused_def)
    then have "set (with_flusher w f (list_of s q)) = insert f (set (list_of s q))"
      "distinct (with_flusher w f (list_of s q))"
      using D(1) [of q] assms(3) by (auto simp: with_flusher_def set_insert_behind distinct_insert_behind)
    from ok_flusher [OF assms(1) [unfolded wq_inv_def] assms(2) this]
    show ?thesis using S V q by (simp add: wq_inv_def)
  qed
  show "need \<Longrightarrow> \<exists>q. queue_of s w = Some q \<and>
      list_of s' = (list_of s)(q := with_flusher w f (list_of s q)) \<and> main_work s' = main_work s \<and>
      flags_of s' = (flags_of s)(f := flag_set 4 0)" using * by blast
  show "wq_inv s'" using * i assms(1) by (cases need) auto
qed

lemma queue_take_spec:
  assumes "wq_inv s" "main_work s q = None" "work_queue_take q s = (r, s')"
  shows "wq_inv s'"
    and "list_of s q = w # ws \<Longrightarrow> r = Done w \<and> list_of s' = (list_of s)(q := ws) \<and>
      main_work s' = (main_work s)(q := Some w) \<and> dwork_timeout s' = dwork_timeout s \<and>
      flags_of s' = (flags_of s)(w := flag_clear 2 (flag_set 0 (flags_of s w))) \<and> queue_of s' = queue_of s"
    and "list_of s q = [] \<Longrightarrow> r = Blocked \<and> same_items s s'"
proof -
  show *: "r = Done w \<and> list_of s' = (list_of s)(q := ws) \<and>
      main_work s' = (main_work s)(q := Some w) \<and> dwork_timeout s' = dwork_timeout s \<and>
      flags_of s' = (flags_of s)(w := flag_clear 2 (flag_set 0 (flags_of s w))) \<and> queue_of s' = queue_of s"
    if "list_of s q = w # ws" for w ws
    using assms(3) that by (auto simp: work_queue_take_def works_of Let_def view_simps)
  show e: "r = Blocked \<and> same_items s s'" if "list_of s q = []"
    using assms(3) that
    by (auto simp: work_queue_take_def works_of Let_def view_simps same_items_def flag_bits split: if_splits)
  show "wq_inv s'"
  proof (cases "list_of s q")
    case Nil
    then show ?thesis using e same_items_inv assms(1) by blast
  next
    case (Cons w ws)
    then show ?thesis
      using * [OF Cons] ok_take [OF assms(1) [unfolded wq_inv_def] Cons assms(2)] by (simp add: wq_inv_def)
  qed
qed

lemma finalize_flush_view [view_simps]:
  "flags_of (finalize_flush_locked w s) = (flags_of s)(w := flag_clear 4 (flags_of s w))"
  "queue_of (finalize_flush_locked w s) = queue_of s" "list_of (finalize_flush_locked w s) = list_of s"
  "main_work (finalize_flush_locked w s) = main_work s" "dwork_timeout (finalize_flush_locked w s) = dwork_timeout s"
  by (auto simp: finalize_flush_locked_def Let_def view_simps split: prod.splits)

lemma finalize_cancel_view [view_simps]:
  "flags_of (finalize_cancel_locked w s) = (flags_of s)(w := flag_clear 1 (flags_of s w))"
  "queue_of (finalize_cancel_locked w s) = queue_of s" "list_of (finalize_cancel_locked w s) = list_of s"
  "main_work (finalize_cancel_locked w s) = main_work s" "dwork_timeout (finalize_cancel_locked w s) = dwork_timeout s"
proof -
  let ?s = "upd_flags w (flag_clear 1) s"
  note S = same_itemsD [OF cancel_walk_same [of ?s w "pending_cancels ?s"]]
  show "flags_of (finalize_cancel_locked w s) = (flags_of s)(w := flag_clear 1 (flags_of s w))"
    "queue_of (finalize_cancel_locked w s) = queue_of s" "list_of (finalize_cancel_locked w s) = list_of s"
    "main_work (finalize_cancel_locked w s) = main_work s" "dwork_timeout (finalize_cancel_locked w s) = dwork_timeout s"
    using S by (simp_all add: finalize_cancel_locked_def Let_def view_simps)
qed

text \<open>The flags of an item after it has run.\<close>

definition idle_flags :: "u32 \<Rightarrow> u32" where
  "idle_flags f = flag_clear 1 (flag_clear 4 (flag_clear 0 f))"

lemma finish_spec:
  assumes "wq_inv s" "main_work s q = Some w"
  shows "wq_inv (work_queue_finish q w s)" "list_of (work_queue_finish q w s) = list_of s"
    and "main_work (work_queue_finish q w s) = (main_work s)(q := None)"
    and "flags_of (work_queue_finish q w s) = (flags_of s)(w := idle_flags (flags_of s w))"
    and "queue_of (work_queue_finish q w s) = queue_of s"
    and "dwork_timeout (work_queue_finish q w s) = dwork_timeout s"
proof -
  define s1 where "s1 = upd_flags w (flag_clear 0) s"
  define s2 where "s2 = (if work_flag 4 w s1 then finalize_flush_locked w s1 else s1)"
  define s3 where "s3 = (if work_flag 1 w s2 then finalize_cancel_locked w s2 else s2)"
  have e: "work_queue_finish q w s =
    (let s4 = upd_queue q (\<lambda>x. x\<lparr>q_flags := flag_clear 1 (q_flags x)\<rparr>) s3;
         s5 = s4\<lparr>main_work := (main_work s4)(q := None)\<rparr>
     in if \<not> queue_flag 8 q s4 then s5\<lparr>ker := z_impl_k_yield (ker s5)\<rparr> else s5)"
    unfolding work_queue_finish_def s1_def [symmetric] s2_def [symmetric] s3_def [symmetric] Let_def ..
  have f2: "flags_of s2 = (flags_of s)(w := flag_clear 4 (flag_clear 0 (flags_of s w)))"
    by (auto simp: s2_def s1_def work_flag_of view_simps flag_clear_id)
  then have f3: "flags_of s3 = (flags_of s)(w := idle_flags (flags_of s w))"
    by (auto simp: s3_def work_flag_of view_simps flag_clear_id idle_flags_def)
  have V: "queue_of s3 = queue_of s" "list_of s3 = list_of s" "main_work s3 = main_work s"
    "dwork_timeout s3 = dwork_timeout s"
    by (simp_all add: s3_def s2_def s1_def view_simps)
  show F: "flags_of (work_queue_finish q w s) = (flags_of s)(w := idle_flags (flags_of s w))"
    and Q: "queue_of (work_queue_finish q w s) = queue_of s" "dwork_timeout (work_queue_finish q w s) = dwork_timeout s"
    and L: "list_of (work_queue_finish q w s) = list_of s"
    and M: "main_work (work_queue_finish q w s) = (main_work s)(q := None)"
    using f3 V by (auto simp: e Let_def view_simps works_of)
  have "wq_ok ((flags_of s)(w := idle_flags (flags_of s w))) (queue_of s) (list_of s) ((main_work s)(q := None))
      (dwork_timeout s)"
    by (rule ok_finish [OF assms(1) [unfolded wq_inv_def] assms(2)])
      (auto simp: idle_flags_def bit_flag_clear simp del: bit_0)
  then show "wq_inv (work_queue_finish q w s)" using F Q L M by (simp add: wq_inv_def)
qed

text \<open>Delays.\<close>

lemma undelayed_inv:
  assumes "wq_inv s"
  shows "wq_ok ((flags_of s)(w := flag_clear 3 (flags_of s w))) (queue_of s) (list_of s) (main_work s)
    ((dwork_timeout s)(w := None))"
  by (rule ok_flags [OF assms [unfolded wq_inv_def]]) (simp add: item_at_def bit_flag_clear del: bit_0)

lemma unschedule_spec:
  assumes "wq_inv s" "unschedule_locked w s = (r, s')"
  shows "wq_inv s'" "flags_of s' = (flags_of s)(w := flag_clear 3 (flags_of s w))"
    "dwork_timeout s' = (dwork_timeout s)(w := None)" "queue_of s' = queue_of s" "list_of s' = list_of s"
    "main_work s' = main_work s" "dwork_queue s' = dwork_queue s" "r \<longleftrightarrow> dwork_timeout s w \<noteq> None"
proof -
  have t: "\<not> bit (flags_of s w) 3 \<Longrightarrow> dwork_timeout s w = None"
    using wq_inv_at [OF assms(1), of w] unfolding item_at_def by blast
  then have "\<not> bit (flags_of s w) 3 \<Longrightarrow> (dwork_timeout s)(w := None) = dwork_timeout s" by (metis fun_upd_triv)
  then show V: "flags_of s' = (flags_of s)(w := flag_clear 3 (flags_of s w))"
    "dwork_timeout s' = (dwork_timeout s)(w := None)" "queue_of s' = queue_of s" "list_of s' = list_of s"
    "main_work s' = main_work s" "dwork_queue s' = dwork_queue s" "r \<longleftrightarrow> dwork_timeout s w \<noteq> None"
    using assms(2) t by (auto simp: unschedule_locked_def Let_def flag_bits works_of view_simps split: if_splits)
  show "wq_inv s'" using undelayed_inv [OF assms(1)] V by (simp add: wq_inv_def)
qed

lemma schedule_inv:
  assumes "wq_inv s" "schedule_for_queue_locked qo w delay s = (r, s')" "bit (flags_of s w) 8" "\<not> bit (flags_of s w) 4"
  shows "wq_inv s'"
proof (cases "delay = K_NO_WAIT")
  case True
  then show ?thesis using assms submit_inv [OF assms(1) _ assms(4)]
    by (auto simp: schedule_for_queue_locked_def split: prod.splits)
next
  case False
  let ?t = "if delay = K_FOREVER then dwork_timeout s w else Some delay"
  have "wq_ok ((flags_of s)(w := flag_set 3 (flags_of s w))) (queue_of s) (list_of s) (main_work s)
    ((dwork_timeout s)(w := ?t))"
    by (rule ok_flags [OF assms(1) [unfolded wq_inv_def]])
      (use assms(3,4) in \<open>simp add: item_at_def bit_flag_set del: bit_0\<close>)
  then show ?thesis using assms(2) False
    by (auto simp: schedule_for_queue_locked_def Let_def wq_inv_def view_simps split: if_splits)
qed

lemma work_timeout_inv:
  assumes "wq_inv s" "\<not> bit (flags_of s w) 4"
  shows "wq_inv (work_timeout w (s\<lparr>dwork_timeout := (dwork_timeout s)(w := None)\<rparr>))"
proof -
  let ?s = "s\<lparr>dwork_timeout := (dwork_timeout s)(w := None)\<rparr>"
  let ?s1 = "upd_flags w (\<lambda>_. flag_clear 3 (flags_of s w)) ?s"
  have i: "wq_inv ?s1" using undelayed_inv [OF assms(1), of w] by (simp add: wq_inv_def view_simps)
  obtain r qp s2 where sub: "submit_to_queue_locked w (dwork_queue ?s1 w) ?s1 = (r, qp, s2)"
    by (cases "submit_to_queue_locked w (dwork_queue ?s1 w) ?s1")
  have "wq_inv s2" using submit_inv [OF i sub] assms(2) by (simp add: view_simps bit_flag_clear)
  then show ?thesis using i sub by (simp add: work_timeout_def Let_def flag_bits works_of)
qed

section \<open>Runs of the module\<close>

text \<open>
  A step is a call of one of the routines by some thread or interrupt, a pass of the thread of a
  queue or the end of its handler, the expiry of a timeout, or any other activity of the kernel.
  The conditions are the assertions of the routines and the rules of the interface: items given to them are
  not flushers, delayable items are used with the delayable routines, a \<open>k_work_sync\<close> is not
  reused while it is in use, and an item is set up only while it is idle.
\<close>

inductive wq_step :: "wq_state \<Rightarrow> wq_state \<Rightarrow> bool" where
  kernel: "wq_step s (s\<lparr>ker := k\<rparr>)"
| init: "unused w (list_of s) (main_work s) (dwork_timeout s) \<Longrightarrow> wq_step s (k_work_init w h s)"
| init_delayable: "unused w (list_of s) (main_work s) (dwork_timeout s) \<Longrightarrow>
    wq_step s (k_work_init_delayable w h s)"
| submit: "\<not> work_flag 4 w s \<Longrightarrow> k_work_submit_to_queue qo w s = (r, s') \<Longrightarrow> wq_step s s'"
| flush: "\<not> work_flag 4 w s \<Longrightarrow> \<not> work_flag 8 w s \<Longrightarrow> w \<noteq> f \<Longrightarrow>
    unused f (list_of s) (main_work s) (dwork_timeout s) \<Longrightarrow> k_work_flush w f s = (b, s') \<Longrightarrow> wq_step s s'"
| cancel: "\<not> work_flag 4 w s \<Longrightarrow> \<not> work_flag 8 w s \<Longrightarrow> k_work_cancel w s = (r, s') \<Longrightarrow> wq_step s s'"
| cancel_sync: "\<not> work_flag 4 w s \<Longrightarrow> \<not> work_flag 8 w s \<Longrightarrow> c \<notin> set (pending_cancels s) \<Longrightarrow>
    k_work_cancel_sync w c s = (b, s') \<Longrightarrow> wq_step s s'"
| take: "main_work s q = None \<Longrightarrow> work_queue_take q s = (t, s') \<Longrightarrow> wq_step s s'"
| finish: "main_work s q = Some w \<Longrightarrow> wq_step s (work_queue_finish q w s)"
| drain: "k_work_queue_drain q plug s = (d, s') \<Longrightarrow> wq_step s s'"
| unplug: "k_work_queue_unplug q s = (r, s') \<Longrightarrow> wq_step s s'"
| timeout: "\<not> work_flag 4 w s \<Longrightarrow> dwork_timeout s w \<noteq> None \<Longrightarrow>
    wq_step s (work_timeout w (s\<lparr>dwork_timeout := (dwork_timeout s)(w := None)\<rparr>))"
| schedule: "\<not> work_flag 4 w s \<Longrightarrow> work_flag 8 w s \<Longrightarrow> k_work_schedule_for_queue qo w delay s = (r, s') \<Longrightarrow> wq_step s s'"
| reschedule: "\<not> work_flag 4 w s \<Longrightarrow> work_flag 8 w s \<Longrightarrow>
    k_work_reschedule_for_queue qo w delay s = (r, s') \<Longrightarrow> wq_step s s'"
| cancel_delayable: "\<not> work_flag 4 w s \<Longrightarrow> work_flag 8 w s \<Longrightarrow> k_work_cancel_delayable w s = (r, s') \<Longrightarrow> wq_step s s'"
| cancel_delayable_sync: "\<not> work_flag 4 w s \<Longrightarrow> work_flag 8 w s \<Longrightarrow> c \<notin> set (pending_cancels s) \<Longrightarrow>
    k_work_cancel_delayable_sync w c s = (b, s') \<Longrightarrow> wq_step s s'"
| flush_delayable: "\<not> work_flag 4 w s \<Longrightarrow> work_flag 8 w s \<Longrightarrow> w \<noteq> f \<Longrightarrow>
    unused f (list_of s) (main_work s) (dwork_timeout s) \<Longrightarrow> k_work_flush_delayable w f s = (b, s') \<Longrightarrow> wq_step s s'"

text \<open>At the start no item is in use.\<close>

definition wq_initial :: "wq_state \<Rightarrow> bool" where
  "wq_initial s \<longleftrightarrow> (\<forall>q. pending (queues s q) = [] \<and> main_work s q = None) \<and>
     (\<forall>w. work_flags (works s w) AND K_WORK_MASK = 0 \<and> dwork_timeout s w = None)"

lemma initial_inv: "wq_initial s \<Longrightarrow> wq_inv s"
  by (auto simp: wq_initial_def wq_inv_def wq_ok_def item_at_def works_of mask_zero_iff bit_K_WORK_MASK simp del: bit_0)

lemma init_inv:
  assumes "wq_inv s" "unused w (list_of s) (main_work s) (dwork_timeout s)"
    and "\<And>i. i < 5 \<Longrightarrow> \<not> bit f i"
  shows "wq_ok ((flags_of s)(w := f)) ((queue_of s)(w := qo)) (list_of s) (main_work s) (dwork_timeout s)"
proof (rule wq_ok_upd [OF assms(1) [unfolded wq_inv_def], of w])
  note D = wq_okD [OF assms(1) [unfolded wq_inv_def]]
  have u: "w \<notin> set (list_of s q)" "main_work s q \<noteq> Some w" "dwork_timeout s w = None" for q
    using assms(2) by (auto simp: unused_def)
  have b: "\<not> bit f 0" "\<not> bit f 1" "\<not> bit f 2" "\<not> bit f 3" "\<not> bit f 4"
    using assms(3) [of 0] assms(3) [of 1] assms(3) [of 2] assms(3) [of 3] assms(3) [of 4] by simp_all
  show "distinct (list_of s q)" for q by (rule D(1))
  show "q1 = q2" if "w \<in> set (list_of s q1)" for q1 q2 using that u by simp
  show "q1 = q2" if "main_work s q1 = Some w" for q1 q2 using that u by simp
  show "item_at (((flags_of s)(w := f)) w) (((queue_of s)(w := qo)) w) (w \<in> set (list_of s q))
    (main_work s q = Some w) (dwork_timeout s w) q" for q
    using u(1,2) [of q] u(3) b by (simp add: item_at_def del: bit_0)
qed auto

lemma submit_to_queue_inv:
  assumes "wq_inv s" "\<not> work_flag 4 w s" "k_work_submit_to_queue qo w s = (r, s')"
  shows "wq_inv s'"
proof -
  obtain r1 qp s1 where sub: "submit_to_queue_locked w qo s = (r1, qp, s1)" by (cases "submit_to_queue_locked w qo s")
  have "wq_inv s1" using submit_inv [OF assms(1) sub] assms(2) by (simp add: work_flag_of)
  then show ?thesis using assms(3) sub same_items_inv [OF same_items_ker]
    by (auto simp: k_work_submit_to_queue_def z_work_submit_to_queue_def split: if_splits)
qed

lemma flush_inv:
  assumes "wq_inv s" "\<not> work_flag 4 w s" "w \<noteq> f" "unused f (list_of s) (main_work s) (dwork_timeout s)"
    and "work_flush_locked w f s = (need, s1)" "(if need then flusher_wait f s1 else (Done False, s1)) = (b, s')"
  shows "wq_inv s'"
  using flush_locked_spec(3) [OF assms(1,4,3) _ assms(5)] assms(2,6) same_items_inv [OF wait_same(1) [of s1 f]]
  by (auto simp: work_flag_of split: if_splits)

lemma cancel_wait_inv:
  assumes "wq_inv s1"
    and "(case cancel_sync_locked w c s1 of (need_wait, s2) \<Rightarrow>
      if need_wait then canceller_wait c s2 else (Done True, s2)) = (b, s')"
  shows "wq_inv s'"
proof -
  obtain need s2 where c: "cancel_sync_locked w c s1 = (need, s2)" by (cases "cancel_sync_locked w c s1")
  have "wq_inv s2" using same_items_inv [OF cancel_sync_same [of s1 w c]] assms(1) c by simp
  then show ?thesis using assms(2) c same_items_inv [OF wait_same(2) [of s2 c]] by (auto split: if_splits)
qed

lemma not_delayable: "wq_inv s \<Longrightarrow> \<not> work_flag 8 w s \<Longrightarrow> \<not> bit (flags_of s w) 3"
  using wq_inv_at [of s w] unfolding item_at_def work_flag_of by blast

lemma cancel_delayable_inv:
  assumes "wq_inv s" "\<not> work_flag 4 w s" "cancel_delayable_async_locked w s = (r, s')"
  shows "wq_inv s'"
proof -
  obtain b s1 where u: "unschedule_locked w s = (b, s1)" by (cases "unschedule_locked w s")
  note U = unschedule_spec [OF assms(1) u]
  have "\<not> bit (flags_of s1 w) 3" "\<not> bit (flags_of s1 w) 4"
    using assms(2) by (simp_all add: U bit_flag_clear work_flag_of)
  then show ?thesis using cancel_async_spec(1) [OF U(1)] assms(3) u by (simp add: cancel_delayable_async_locked_def)
qed

lemma wq_step_inv:
  assumes "wq_step s s'" "wq_inv s"
  shows "wq_inv s'"
  using assms
proof (induction rule: wq_step.induct)
  case (init w s h)
  then show ?case using init_inv [of s w 0 None] by (simp add: k_work_init_def wq_inv_def view_simps)
next
  case (init_delayable w s h)
  have "(dwork_timeout s)(w := None) = dwork_timeout s" using init_delayable(1) by (simp add: unused_def fun_upd_idem)
  then show ?case using init_delayable init_inv [of s w "BIT 8" None]
    by (simp add: k_work_init_delayable_def wq_inv_def view_simps bit_BIT)
next
  case (submit w s qo r s')
  then show ?case using submit_to_queue_inv by blast
next
  case (flush w s f b s')
  then show ?case using flush_inv [of s w f] by (auto simp: k_work_flush_def split: prod.splits)
next
  case (cancel w s r s')
  then show ?case using cancel_async_spec(1) [of s w r s'] not_delayable [of s w]
    by (simp add: k_work_cancel_def work_flag_of)
next
  case (cancel_sync w s c b s')
  obtain r s1 where c: "cancel_async_locked w s = (r, s1)" by (cases "cancel_async_locked w s")
  have "wq_inv s1" using cancel_sync c cancel_async_spec(1) [OF _ _ _ c] not_delayable by (auto simp: work_flag_of)
  then show ?case using cancel_sync cancel_wait_inv [where w = w and c = c] c
    by (auto simp: k_work_cancel_sync_def Let_def split: if_splits)
next
  case (drain q plug s d s')
  have "same_items s s'" using drain(1) same_itemsD [OF notify_same]
    by (auto simp: k_work_queue_drain_def Let_def same_items_def view_simps works_of split: if_splits)
  then show ?case using drain same_items_inv by blast
next
  case (unplug q s r s')
  have "same_items s s'" using unplug(1)
    by (auto simp: k_work_queue_unplug_def Let_def same_items_def view_simps works_of flag_bits)
  then show ?case using unplug same_items_inv by blast
next
  case (schedule w s qo delay r s')
  then show ?case using schedule_inv [of s]
    by (auto simp: k_work_schedule_for_queue_def work_flag_of split: if_splits)
next
  case (reschedule w s qo delay r s')
  obtain b s1 where u: "unschedule_locked w s = (b, s1)" by (cases "unschedule_locked w s")
  note U = unschedule_spec [OF reschedule(4) u]
  show ?case using schedule_inv [OF U(1)] reschedule u
    by (auto simp: k_work_reschedule_for_queue_def U bit_flag_clear work_flag_of)
next
  case (cancel_delayable w s r s')
  then show ?case using cancel_delayable_inv by (auto simp: k_work_cancel_delayable_def)
next
  case (cancel_delayable_sync w s c b s')
  obtain r s1 where c: "cancel_delayable_async_locked w s = (r, s1)" by (cases "cancel_delayable_async_locked w s")
  have "wq_inv s1" using cancel_delayable_sync c cancel_delayable_inv by blast
  then show ?case using cancel_delayable_sync cancel_wait_inv [where w = w and c = c] c
    by (auto simp: k_work_cancel_delayable_sync_def Let_def split: if_splits)
next
  case (flush_delayable w s f b s')
  show ?case
  proof (cases "work_busy_get_locked w s = 0")
    case False
    obtain armed s1 where u: "unschedule_locked w s = (armed, s1)" by (cases "unschedule_locked w s")
    note U = unschedule_spec [OF flush_delayable(6) u]
    obtain r qp s2 where sub: "submit_to_queue_locked w (dwork_queue s1 w) s1 = (r, qp, s2)"
      by (cases "submit_to_queue_locked w (dwork_queue s1 w) s1")
    define s3 where "s3 = (if armed then s2 else s1)"
    have n4: "\<not> bit (flags_of s1 w) 4" using flush_delayable(1) by (simp add: U bit_flag_clear work_flag_of)
    have i3: "wq_inv s3" using submit_inv [OF U(1) sub n4] U(1) by (simp add: s3_def)
    have un: "unused f (list_of s3) (main_work s3) (dwork_timeout s3)" "\<not> work_flag 4 w s3"
      using submit_cases [OF sub] flush_delayable(3,4) n4
      by (auto simp: s3_def unused_def submitted_def U work_flag_of bit_flag_set split: if_splits)
    obtain need s4 where fl: "work_flush_locked w f s3 = (need, s4)" by (cases "work_flush_locked w f s3")
    have "(if need then flusher_wait f s4 else (Done False, s4)) = (b, s')"
      using flush_delayable(5) False u sub fl
      by (auto simp: k_work_flush_delayable_def Let_def s3_def split: if_splits)
    then show ?thesis using flush_inv [OF i3 un(2) flush_delayable(3) un(1) fl] by blast
  qed (use flush_delayable in \<open>simp add: k_work_flush_delayable_def\<close>)
qed (auto simp: queue_take_spec(1) finish_spec(1) work_timeout_inv same_items_inv [OF same_items_ker] work_flag_of)

section \<open>Properties\<close>

text \<open>
  C18. Whatever calls, expiries and passes of queue threads have happened, in any order: no two queue
  threads run the same item, and an item that runs can be queued only on the queue whose thread runs
  it, so that an item never runs twice at the same time. An item is flagged as queued exactly when it is
  in the list of a queue, where it is once; it is flagged as running exactly when a thread runs it;
  and it is being cancelled only while it runs and is not queued.
\<close>

theorem work_item_runs_alone:
  assumes "wq_initial s0" "wq_step\<^sup>*\<^sup>* s0 s" "\<not> work_flag K_WORK_FLUSHING_BIT w s"
  shows "(work_flag K_WORK_QUEUED_BIT w s \<longleftrightarrow> (\<exists>q. w \<in> set (pending (queues s q)))) \<and>
    (work_flag K_WORK_RUNNING_BIT w s \<longleftrightarrow> (\<exists>q. main_work s q = Some w)) \<and>
    (\<forall>q q'. main_work s q = Some w \<and> main_work s q' = Some w \<longrightarrow> q = q') \<and>
    (\<forall>q q'. main_work s q = Some w \<and> w \<in> set (pending (queues s q')) \<longrightarrow> q = q') \<and>
    (\<forall>q q'. w \<in> set (pending (queues s q)) \<and> w \<in> set (pending (queues s q')) \<longrightarrow> q = q') \<and>
    (\<forall>q. distinct (pending (queues s q))) \<and>
    (work_flag K_WORK_CANCELING_BIT w s \<longrightarrow>
      work_flag K_WORK_RUNNING_BIT w s \<and> \<not> work_flag K_WORK_QUEUED_BIT w s)"
proof -
  have "wq_inv s" using assms(2,1)
    by (induction rule: rtranclp_induct) (auto simp: initial_inv wq_step_inv)
  note D = wq_okD [OF this [unfolded wq_inv_def]]
  have at: "item_at (flags_of s w) (queue_of s w) (w \<in> set (list_of s q)) (main_work s q = Some w) (dwork_timeout s w) q" for q
    by (rule D(4))
  have 4: "\<not> bit (flags_of s w) 4" using assms(3) by (simp add: work_flag_of)
  have L: "w \<in> set (list_of s q) \<longleftrightarrow> bit (flags_of s w) 2 \<and> queue_of s w = Some q" for q
    using at [of q] 4 unfolding item_at_def by blast
  have R: "main_work s q = Some w \<longleftrightarrow> bit (flags_of s w) 0 \<and> queue_of s w = Some q" for q
    using at [of q] 4 unfolding item_at_def by blast
  have Q: "bit (flags_of s w) 0 \<or> bit (flags_of s w) 2 \<Longrightarrow> \<exists>q. queue_of s w = Some q"
    and C: "bit (flags_of s w) 1 \<Longrightarrow> bit (flags_of s w) 0 \<and> \<not> bit (flags_of s w) 2"
    using at [of undefined] 4 unfolding item_at_def by blast+
  have "bit (flags_of s w) 2 \<longleftrightarrow> (\<exists>q. w \<in> set (list_of s q))" "bit (flags_of s w) 0 \<longleftrightarrow> (\<exists>q. main_work s q = Some w)"
    using L R Q by blast+
  then show ?thesis using D(1) C unfolding work_flag_of works_of by (auto simp: L R simp del: bit_0)
qed

definition sample_wq :: wq_state where
  "sample_wq = \<lparr>ker = booted, works = (\<lambda>_. \<lparr>handler = 1, work_queue = None, work_flags = 0\<rparr>),
     queues = (\<lambda>q. \<lparr>q_thread = 3, pending = [], notifyq = ObjQ (4 * q), drainq = ObjQ (4 * q + 1), q_flags = 1\<rparr>),
     flusher_sem = (\<lambda>f. \<lparr>sem_wait_q = ObjQ (4 * f + 2), sem_count = 0, sem_limit = 1\<rparr>),
     cancellers = (\<lambda>c. \<lparr>canc_work = 0, canc_sem = \<lparr>sem_wait_q = ObjQ (4 * c + 3), sem_count = 0, sem_limit = 1\<rparr>\<rparr>),
     pending_cancels = [], dwork_queue = (\<lambda>_. None), dwork_timeout = (\<lambda>_. None), main_work = (\<lambda>_. None)\<rparr>"

lemma sample_wq_facts:
  "wq_initial sample_wq" "wq_inv sample_wq" "flags_of sample_wq = (\<lambda>_. 0)" "list_of sample_wq = (\<lambda>_. [])"
  "main_work sample_wq = (\<lambda>_. None)" "accepts q sample_wq"
proof -
  show i: "wq_initial sample_wq" by (simp add: wq_initial_def sample_wq_def)
  show "wq_inv sample_wq" by (rule initial_inv [OF i])
  show "flags_of sample_wq = (\<lambda>_. 0)" "list_of sample_wq = (\<lambda>_. [])" "main_work sample_wq = (\<lambda>_. None)"
    by (simp_all add: flags_of_def list_of_def sample_wq_def)
  show "accepts q sample_wq" by (simp add: accepts_def queue_flag_def flag_test_def sample_wq_def BIT_def)
qed

text \<open>The same with the main thread as the thread of the queues.\<close>

definition busy_wq :: wq_state where
  "busy_wq = sample_wq\<lparr>queues := \<lambda>q. (queues sample_wq q)\<lparr>q_thread := 5\<rparr>\<rparr>"

lemma busy_wq_facts:
  "wq_inv busy_wq" "kernel_inv (ker busy_wq)" "flags_of busy_wq = (\<lambda>_. 0)" "list_of busy_wq = (\<lambda>_. [])"
  "accepts q busy_wq" "main_work busy_wq = (\<lambda>_. None)"
proof -
  have S: "same_items sample_wq busy_wq"
    by (auto simp: same_items_def busy_wq_def flags_of_def queue_of_def list_of_def)
  show "wq_inv busy_wq" using same_items_inv [OF S] sample_wq_facts(2) by simp
  show "flags_of busy_wq = (\<lambda>_. 0)" "list_of busy_wq = (\<lambda>_. [])" "main_work busy_wq = (\<lambda>_. None)"
    using sample_wq_facts same_itemsD [OF S] by simp_all
  show "kernel_inv (ker busy_wq)" by (simp add: busy_wq_def sample_wq_def)
  show "accepts q busy_wq" using sample_wq_facts(6) [of q] by (auto simp: accepts_def queue_flag_def busy_wq_def sample_wq_def)
qed

lemma submit_accepted:
  assumes "\<not> bit (flags_of s w) 1" "\<not> bit (flags_of s w) 2" "accepts q s"
    and "(if bit (flags_of s w) 0 then queue_of s w else Some q) = Some q"
    and "k_work_submit_to_queue (Some q) w s = (r, s')"
  shows "r = (if bit (flags_of s w) 0 then 2 else 1)" "submitted w q s s'"
proof -
  obtain rc s1 where r: "queue_submit_locked (Some q) w s = (rc, s1)" by (cases "queue_submit_locked (Some q) w s")
  then have "\<not> rc < 0" using queue_submit_cases [OF r] assms(3) by auto
  moreover have q: "Some q = (if bit (flags_of s w) 0 \<or> Some q = None then queue_of s w else Some q)"
    using assms(4) by (simp split: if_splits)
  ultimately obtain s2 where t: "submit_to_queue_locked w (Some q) s = (if bit (flags_of s w) 0 then 2 else 1, Some q, s2)"
    using submit_tried [OF assms(1,2) q r] by auto
  then have "submitted w q s s2" using submit_cases [OF t] by (auto split: if_splits)
  then show "r = (if bit (flags_of s w) 0 then 2 else 1)" "submitted w q s s'"
    using assms(5) t
    by (auto simp: k_work_submit_to_queue_def z_work_submit_to_queue_def submitted_def view_simps split: if_splits)
qed

theorem work_item_runs_alone_witness:
  "let s = snd (k_work_submit_to_queue (Some 0) 7 sample_wq)
   in work_flag K_WORK_QUEUED_BIT 7 s \<and> (\<exists>q. 7 \<in> set (pending (queues s q))) \<and>
     \<not> work_flag K_WORK_RUNNING_BIT 7 s \<and> \<not> work_flag K_WORK_CANCELING_BIT 7 s"
proof -
  obtain r s where s: "k_work_submit_to_queue (Some 0) 7 sample_wq = (r, s)"
    by (cases "k_work_submit_to_queue (Some 0) 7 sample_wq")
  have "wq_step sample_wq s" by (rule wq_step.submit [OF _ s]) (simp add: work_flag_of sample_wq_facts)
  then have r: "wq_step\<^sup>*\<^sup>* sample_wq s" by simp
  have sub: "submitted 7 0 sample_wq s" using submit_accepted(2) [OF _ _ _ _ s] by (simp add: sample_wq_facts)
  have f: "work_flag i 7 s \<longleftrightarrow> i = 2" for i
    using sub by (simp add: work_flag_of submitted_def sample_wq_facts bit_flag_set)
  then show ?thesis using work_item_runs_alone [OF sample_wq_facts(1) r, of 7] s by simp
qed

section \<open>Order\<close>

text \<open>
  The thread of a queue runs when it is the current thread. One turn of it is the part of its loop before or
  the part behind the call of a handler; the result lists the item whose handler it goes on to call. The
  argument is the state of the kernel at that time, which other threads and interrupts may have changed.
\<close>

definition has_cpu :: "qid \<Rightarrow> wq_state \<Rightarrow> kernel \<Rightarrow> bool" where
  "has_cpu q s k \<longleftrightarrow> current k = q_thread (queues s q) \<and> \<not> in_isr k"

definition queue_turn :: "kernel \<Rightarrow> qid \<Rightarrow> wq_state \<Rightarrow> wid list \<times> wq_state" where
  "queue_turn k q s =
     (if \<not> has_cpu q s k then ([], s)
      else case main_work s q of
          Some w \<Rightarrow> ([], work_queue_finish q w (s\<lparr>ker := k\<rparr>))
        | None \<Rightarrow> (case work_queue_take q (s\<lparr>ker := k\<rparr>) of (Done w, s1) \<Rightarrow> ([w], s1) | (Blocked, s1) \<Rightarrow> ([], s1)))"

fun queue_turns :: "kernel list \<Rightarrow> qid \<Rightarrow> wq_state \<Rightarrow> wid list \<times> wq_state" where
  "queue_turns [] q s = ([], s)"
| "queue_turns (k # ks) q s =
     (let (ws, s1) = queue_turn k q s; (ws', s2) = queue_turns ks q s1 in (ws @ ws', s2))"

text \<open>How many turns the thread needs for the item it runs and the listed ones.\<close>

definition turns_needed :: "qid \<Rightarrow> wq_state \<Rightarrow> nat" where
  "turns_needed q s = (if main_work s q = None then 0 else 1) + 2 * length (pending (queues s q))"

lemma cancel_walk_queues [simp]: "queues (cancel_walk w cs s) = queues s"
  by (induction cs) (auto split: prod.splits)

lemma finish_thread [simp]: "q_thread (queues (work_queue_finish q w s) q') = q_thread (queues s q')"
  by (simp add: work_queue_finish_def Let_def upd_queue_def finalize_flush_locked_def finalize_cancel_locked_def
    upd_flags_def upd_work_def split: prod.splits)

lemma take_thread: "work_queue_take q s = (r, s') \<Longrightarrow> q_thread (queues s' q') = q_thread (queues s q')"
  by (auto simp: work_queue_take_def Let_def upd_queue_def upd_flags_def upd_work_def split: list.splits prod.splits)

lemma ker_upd_inv: "wq_inv s \<Longrightarrow> wq_inv (s\<lparr>ker := k\<rparr>)"
  using same_items_inv [OF same_items_ker] by blast

lemma queue_turns_all:
  assumes "wq_inv s" "length (filter (has_cpu q s) ks) = turns_needed q s"
  shows "\<exists>s'. queue_turns ks q s = (list_of s q, s') \<and> wq_inv s' \<and> list_of s' q = [] \<and> main_work s' q = None \<and>
    queue_of s' = queue_of s \<and> (\<forall>x. bit (flags_of s' x) 4 \<longrightarrow> bit (flags_of s x) 4)"
  using assms
proof (induction ks arbitrary: s)
  case Nil
  then show ?case by (simp add: turns_needed_def works_of split: if_splits)
next
  case (Cons k ks)
  let ?s = "s\<lparr>ker := k\<rparr>"
  show ?case
  proof (cases "has_cpu q s k")
    case False
    then show ?thesis using Cons by (simp add: queue_turn_def)
  next
    case cpu: True
    show ?thesis
    proof (cases "main_work s q")
      case (Some w)
      let ?s1 = "work_queue_finish q w ?s"
      have m: "main_work ?s q = Some w" using Some by simp
      note F = finish_spec [OF ker_upd_inv [OF Cons.prems(1), of k] m]
      have "has_cpu q ?s1 = has_cpu q s" by (simp add: has_cpu_def fun_eq_iff)
      moreover have "turns_needed q s = Suc (turns_needed q ?s1)" using F(2,3) Some by (simp add: turns_needed_def works_of view_simps)
      ultimately obtain s' where "queue_turns ks q ?s1 = (list_of ?s1 q, s')" "wq_inv s'" "list_of s' q = []"
        "main_work s' q = None" "queue_of s' = queue_of ?s1" "\<forall>x. bit (flags_of s' x) 4 \<longrightarrow> bit (flags_of ?s1 x) 4"
        using Cons.IH [OF F(1)] Cons.prems(2) cpu by auto
      moreover have "bit (flags_of ?s1 x) 4 \<Longrightarrow> bit (flags_of s x) 4" for x
        using F(4) by (auto simp: idle_flags_def bit_flag_clear view_simps split: if_splits)
      ultimately show ?thesis using cpu Some F(2,5) by (auto simp: queue_turn_def view_simps)
    next
      case None
      then obtain w ws where l: "list_of s q = w # ws"
        using Cons.prems(2) cpu by (cases "list_of s q") (auto simp: turns_needed_def works_of)
      obtain r s1 where t: "work_queue_take q ?s = (r, s1)" by (cases "work_queue_take q ?s")
      have m: "main_work ?s q = None" "list_of ?s q = w # ws" using None l by (simp_all add: view_simps)
      note T = queue_take_spec [OF ker_upd_inv [OF Cons.prems(1), of k] m(1) t]
      note S = T(2) [OF m(2)]
      have "has_cpu q s1 = has_cpu q s" using take_thread [OF t, of q] by (simp add: has_cpu_def fun_eq_iff)
      moreover have "turns_needed q s = Suc (turns_needed q s1)" using S None l by (simp add: turns_needed_def works_of)
      ultimately obtain s' where "queue_turns ks q s1 = (list_of s1 q, s')" "wq_inv s'" "list_of s' q = []"
        "main_work s' q = None" "queue_of s' = queue_of s1" "\<forall>x. bit (flags_of s' x) 4 \<longrightarrow> bit (flags_of s1 x) 4"
        using Cons.IH [OF T(1)] Cons.prems(2) cpu by auto
      moreover have "bit (flags_of s1 x) 4 \<Longrightarrow> bit (flags_of s x) 4" for x
        using S by (auto simp: bit_flag_set bit_flag_clear view_simps split: if_splits)
      ultimately show ?thesis using cpu None l S t by (auto simp: queue_turn_def view_simps)
    qed
  qed
qed

lemma not_in_use:
  assumes "wq_inv s" "queue_of s w = Some q" "list_of s q = []" "main_work s q = None" "\<not> bit (flags_of s w) 4"
  shows "\<not> work_flag 2 w s" "\<not> work_flag 0 w s"
  using wq_inv_at [OF assms(1), of w q] assms(2-5) by (simp_all add: item_at_def work_flag_of del: bit_0)

text \<open>Waking the thread of a queue.\<close>

lemma sched_wake_eq:
  assumes "waitqs k w = t # ts"
  shows "z_sched_wake w v d k = (True, woken_with (\<lambda>th. th\<lparr>swap_retval := v, swap_data := d\<rparr>) t k)"
proof -
  let ?f = "\<lambda>th::k_thread. th\<lparr>swap_retval := v, swap_data := d\<rparr>"
  have "z_thread_return_value_set_with_data t v d k = upd_thread t ?f k"
    by (simp add: z_thread_return_value_set_with_data_def arch_thread_return_value_set_def upd_thread_def)
  moreover have "unpend_thread_no_timeout t (upd_thread t ?f k) = upd_thread t ?f (unpend_thread_no_timeout t k)"
    by (cases "threads k t")
      (simp add: unpend_thread_no_timeout_def upd_thread_def z_mark_thread_as_not_pending_def
        z_priq_dumb_remove_def split: option.splits)
  moreover have "snd (z_abort_thread_timeout t (upd_thread t ?f K)) = upd_thread t ?f (snd (z_abort_thread_timeout t K))" for K
    by (simp add: z_abort_thread_timeout_def upd_thread_def split: prod.splits)
  ultimately show ?thesis using assms
    by (simp add: z_sched_wake_def z_priq_dumb_best_def woken_with_def)
qed

lemma notified_ready:
  assumes k: "kernel_inv k" and q: "waitqs k w = t # ts" and st: "thread_state (threads k t) = {THREAD_PENDING}"
  shows "t \<in> set (runq (z_reschedule (handed t v d k)))"
proof -
  let ?h = "handed t v d k" and ?k = "z_reschedule (handed t v d k)"
  note h = handoff_data [OF k q refl, of v d]
  have e: "env ?h = env k" "current ?h = current k"
    using woken_with_props(3,4) [OF kernel_invD(1) [OF k] q] by (simp_all add: handed_def)
  have th: "threads ?k t = threads ?h t" using reschedule_waiter [OF k, of t w ?h] q e by simp
  have "thread_state (threads ?h t) \<subseteq> {THREAD_QUEUED}"
    using st q waitq_member [OF kernel_invD(1) [OF k], of t w]
    by (auto simp: handed_def woken_with_def ready_thread_threads threads_upd_thread unpend_thread_no_timeout_def
      z_mark_thread_as_not_pending_def upd_thread_def split: option.splits if_splits)
  then have "z_is_thread_ready ?k t" using h(7) by (auto simp: ready_iff th)
  moreover have "t \<noteq> idle_thread ?k"
    using waiter_not_idle [OF kernel_invD(1) [OF k], of t w] q env_idle [OF h(3)] by simp
  ultimately show ?thesis using kernel_invD(1) [OF h(1)] by (simp add: sched_inv_but_def)
qed

lemma submit_kernel:
  assumes k: "kernel_inv (ker s)" and p: "k_work_submit_to_queue (Some q) w s = (r, s1)" "0 < r"
    and q: "(if bit (flags_of s w) 0 then queue_of s w else Some q) = Some q"
  shows "kernel_inv (ker s1)" "waitqs (ker s1) = (waitqs (ker s))(notifyq (queues s q) := tl (waitqs (ker s) (notifyq (queues s q))))"
    "waitqs (ker s) (notifyq (queues s q)) = t # ts \<Longrightarrow> thread_state (threads (ker s) t) = {THREAD_PENDING} \<Longrightarrow>
      t \<in> set (runq (ker s1))"
proof -
  let ?w = "notifyq (queues s q)"
  have "\<not> (bit (flags_of s w) 1 \<or> bit (flags_of s w) 2)"
    using p submit_refused [of s w "Some q"]
    by (auto simp: k_work_submit_to_queue_def z_work_submit_to_queue_def split: if_splits)
  then have b: "\<not> bit (flags_of s w) 1" "\<not> bit (flags_of s w) 2" by simp_all
  have q': "Some q = (if bit (flags_of s w) 0 \<or> Some q = None then queue_of s w else Some q)" using q by (simp split: if_splits)
  obtain rc s0 where r: "queue_submit_locked (Some q) w s = (rc, s0)" by (cases "queue_submit_locked (Some q) w s")
  note T = submit_tried [OF b q' r]
  have "\<not> rc < 0" using p T by (auto simp: k_work_submit_to_queue_def z_work_submit_to_queue_def split: if_splits)
  then have "ker s0 = snd (z_sched_wake ?w 0 0 (ker s))"
    using queue_submit_cases [OF r] by (auto simp: notify_queue_locked_def upd_queue_def split: prod.splits)
  then have e: "ker s1 = z_reschedule (snd (z_sched_wake ?w 0 0 (ker s)))"
    using p T \<open>\<not> rc < 0\<close> by (auto simp: k_work_submit_to_queue_def z_work_submit_to_queue_def upd_work_def split: if_splits)
  have "kernel_inv (ker s1) \<and> waitqs (ker s1) = (waitqs (ker s))(?w := tl (waitqs (ker s) ?w)) \<and>
    (\<forall>t ts. waitqs (ker s) ?w = t # ts \<longrightarrow> thread_state (threads (ker s) t) = {THREAD_PENDING} \<longrightarrow> t \<in> set (runq (ker s1)))"
  proof (cases "waitqs (ker s) ?w")
    case Nil
    then have "snd (z_sched_wake ?w 0 0 (ker s)) = ker s" by (simp add: z_sched_wake_def z_priq_dumb_best_def)
    then show ?thesis using Nil pre_reschedule [OF kernel_inv_pre [OF k]] by (simp add: e fun_upd_idem)
  next
    case (Cons u us)
    then have e': "ker s1 = z_reschedule (handed u 0 0 (ker s))" by (simp add: e sched_wake_eq handed_def)
    show ?thesis using handoff_data(1,2) [OF k Cons e'] notified_ready [OF k Cons, of 0 0] Cons by (simp add: e')
  qed
  then show "kernel_inv (ker s1)" "waitqs (ker s1) = (waitqs (ker s))(?w := tl (waitqs (ker s) ?w))"
    "waitqs (ker s) ?w = t # ts \<Longrightarrow> thread_state (threads (ker s) t) = {THREAD_PENDING} \<Longrightarrow> t \<in> set (runq (ker s1))"
    by blast+
qed

lemma submit_thread: "q_thread (queues (snd (k_work_submit_to_queue qo w s)) q) = q_thread (queues s q)"
proof -
  have "q_thread (queues (snd (queue_submit_locked x w s)) q) = q_thread (queues s q)" for x
    by (auto simp: queue_submit_locked_def notify_queue_locked_def upd_queue_def Let_def split: option.splits prod.splits)
  then show ?thesis
    by (auto simp: k_work_submit_to_queue_def z_work_submit_to_queue_def submit_to_queue_locked_def upd_work_def Let_def
      split: prod.splits) (metis snd_conv)+
qed

text \<open>
  C19. Submitting an item refuses it with \<open>-EBUSY\<close> while it is being cancelled, does nothing when it is queued
  already, returns the error of its queue if that refuses it, and otherwise puts it behind everything
  queued there; the result tells whether it was running. A thread that waits for the queue to be notified, as
  its own thread does when the list is empty, is then woken, and is ready unless something else holds it up.
  From then on, whatever the kernel does in between: when the thread of the queue has had the processor often
  enough, once for the end of the item it runs and twice for every listed item, it has run all the items before
  this one and then this one, each once and in the order of their submission.
\<close>

theorem work_queue_runs_in_order:
  assumes "wq_inv s" "kernel_inv (ker s)" "\<not> work_flag K_WORK_FLUSHING_BIT w s"
    and "work_flag K_WORK_RUNNING_BIT w s \<longrightarrow> work_queue (works s w) = Some q"
    and "queue_submit_locked (Some q) w s = (rc, s0)" "k_work_submit_to_queue (Some q) w s = (r, s1)"
  shows "if work_flag K_WORK_CANCELING_BIT w s then r = - EBUSY \<and> s1 = s
    else if work_flag K_WORK_QUEUED_BIT w s then r = 0 \<and> s1 = s
    else if rc < 0 then r = rc \<and> s1 = s
    else r = (if work_flag K_WORK_RUNNING_BIT w s then 2 else 1) \<and>
      pending (queues s1 q) = pending (queues s q) @ [w] \<and> kernel_inv (ker s1) \<and>
      waitqs (ker s1) (notifyq (queues s q)) = tl (waitqs (ker s) (notifyq (queues s q))) \<and>
      (\<forall>t ts. waitqs (ker s) (notifyq (queues s q)) = t # ts \<and> thread_state (threads (ker s) t) = {THREAD_PENDING} \<longrightarrow>
        t \<in> set (runq (ker s1))) \<and>
      (\<forall>ks. length (filter (has_cpu q s1) ks) = turns_needed q s1 \<longrightarrow>
        (\<exists>s2. queue_turns ks q s1 = (pending (queues s q) @ [w], s2) \<and> wq_inv s2 \<and> pending (queues s2 q) = [] \<and>
          \<not> work_flag K_WORK_QUEUED_BIT w s2 \<and> \<not> work_flag K_WORK_RUNNING_BIT w s2))"
proof (cases "work_flag 1 w s \<or> work_flag 2 w s")
  case True
  then show ?thesis using assms(6) submit_refused [of s w "Some q"]
    by (auto simp: k_work_submit_to_queue_def z_work_submit_to_queue_def work_flag_of split: if_splits)
next
  case False
  then have b: "\<not> bit (flags_of s w) 1" "\<not> bit (flags_of s w) 2" by (simp_all add: work_flag_of)
  have q: "(if bit (flags_of s w) 0 then queue_of s w else Some q) = Some q"
    using assms(4) by (simp add: work_flag_of works_of del: bit_0)
  then have q': "Some q = (if bit (flags_of s w) 0 \<or> Some q = None then queue_of s w else Some q)" by (simp split: if_splits)
  show ?thesis
  proof (cases "rc < 0")
    case True
    then have "s0 = s" using queue_submit_cases [OF assms(5)] by auto
    then show ?thesis using True False assms(6) submit_tried [OF b q' assms(5)]
      by (auto simp: k_work_submit_to_queue_def z_work_submit_to_queue_def)
  next
    case rc: False
    have "accepts q s" using queue_submit_cases [OF assms(5)] rc by auto
    note S = submit_accepted [OF b this q assms(6)]
    have r0: "0 < r" using S(1) by (simp split: if_splits)
    note K = submit_kernel [OF assms(2,6) r0 q]
    have i1: "wq_inv s1" by (rule submit_to_queue_inv [OF assms(1,3,6)])
    have l: "list_of s1 q = list_of s q @ [w]" "queue_of s1 w = Some q" and 4: "\<not> bit (flags_of s1 w) 4"
      using S(2) assms(3) by (auto simp: submitted_def bit_flag_set work_flag_of)
    have "\<exists>s2. queue_turns ks q s1 = (pending (queues s q) @ [w], s2) \<and> wq_inv s2 \<and> pending (queues s2 q) = [] \<and>
        \<not> work_flag 2 w s2 \<and> \<not> work_flag 0 w s2" if "length (filter (has_cpu q s1) ks) = turns_needed q s1" for ks
    proof -
      from queue_turns_all [OF i1 that] obtain s2 where R: "queue_turns ks q s1 = (list_of s1 q, s2)" "wq_inv s2"
        "list_of s2 q = []" "main_work s2 q = None" "queue_of s2 = queue_of s1"
        "\<forall>x. bit (flags_of s2 x) 4 \<longrightarrow> bit (flags_of s1 x) 4" by blast
      then have "queue_of s2 w = Some q" "\<not> bit (flags_of s2 w) 4" using l(2) 4 by auto
      then show ?thesis using R l(1) not_in_use [OF R(2) _ R(3,4)] by (simp add: works_of)
    qed
    then show ?thesis using False rc S(1) l(1) K by (simp add: work_flag_of works_of del: bit_0)
  qed
qed

theorem work_queue_runs_in_order_witness:
  "\<exists>s1 s2. k_work_submit_to_queue (Some 0) 7 busy_wq = (1, s1) \<and>
     queue_turns [booted, booted] 0 s1 = ([7], s2) \<and> \<not> work_flag K_WORK_QUEUED_BIT 7 s2"
proof -
  let ?s = busy_wq
  obtain r s1 rc s0 where s: "k_work_submit_to_queue (Some 0) 7 ?s = (r, s1)" "queue_submit_locked (Some 0) 7 ?s = (rc, s0)"
    by (metis prod.exhaust)
  have f: "\<not> work_flag i 7 ?s" for i by (simp add: work_flag_of busy_wq_facts)
  have a: "\<not> rc < 0" using queue_submit_cases [OF s(2)] busy_wq_facts(5) by auto
  note T = work_queue_runs_in_order [OF busy_wq_facts(1,2) f _ s(2,1)]
  have sub: "r = 1" "submitted 7 0 ?s s1" using submit_accepted [OF _ _ busy_wq_facts(5) _ s(1)] by (simp_all add: busy_wq_facts)
  have q: "q_thread (queues s1 0) = 5" using submit_thread [of "Some 0" 7 ?s 0] s(1) by (simp add: busy_wq_def)
  have "turns_needed 0 s1 = 2" using sub by (simp add: turns_needed_def works_of submitted_def busy_wq_facts)
  then have "length (filter (has_cpu 0 s1) [booted, booted]) = turns_needed 0 s1" using q by (simp add: has_cpu_def)
  then show ?thesis using T f a s(1) sub(1) by (auto simp: works_of busy_wq_facts dest!: spec [of _ "[booted, booted]"])
qed

section \<open>Synchronous cancellation\<close>

lemma sched_inv_irq [simp]: "sched_inv (k\<lparr>irq_locked := b\<rparr>) \<longleftrightarrow> sched_inv k"
  by (simp add: sched_inv_but_def wf_queues_def ready_iff tprio_def)

lemma nested_give_waitqs:
  assumes "sched_inv k" "nested (z_impl_k_sem_give sem) k = (sem', k')" "w \<noteq> sem_wait_q sem"
  shows "waitqs k' w = waitqs k w"
proof (cases rule: sem_give_cases [of "k\<lparr>irq_locked := True\<rparr>" sem])
  case (waiter t ts)
  then show ?thesis using assms woken_props(2) [of "{}" "k\<lparr>irq_locked := True\<rparr>" "sem_wait_q sem" t ts]
    by (auto simp: nested_def)
next
  case free
  then show ?thesis using assms by (auto simp: nested_def)
qed

lemma cancel_fields [simp]:
  "pending_cancels (upd_work w f s) = pending_cancels s" "cancellers (upd_work w f s) = cancellers s"
  "pending_cancels (upd_flags w g s) = pending_cancels s" "cancellers (upd_flags w g s) = cancellers s"
  "pending_cancels (upd_queue q h s) = pending_cancels s" "cancellers (upd_queue q h s) = cancellers s"
  by (simp_all add: upd_work_def upd_flags_def upd_queue_def)

lemma cancel_async_cancels:
  "pending_cancels (snd (cancel_async_locked w s)) = pending_cancels s"
  "cancellers (snd (cancel_async_locked w s)) = cancellers s"
  by (auto simp: cancel_async_locked_def queue_remove_locked_def Let_def split: option.splits prod.splits)

lemma cancel_sync_running:
  assumes "wq_inv s" "main_work s q = Some w" "\<not> work_flag 4 w s" "\<not> work_flag 8 w s"
    and "k_work_cancel_sync w c s = (b, s')"
  shows "b = Blocked" "pending_cancels s' = pending_cancels s @ [c]" "main_work s' = main_work s" "wq_inv s'"
    "flags_of s' = (flags_of s)(w := flag_set 1 (flag_clear 2 (flags_of s w)))"
    "cancellers s' = (cancellers s)(c := \<lparr>canc_work = w,
       canc_sem = (canc_sem (cancellers s c))\<lparr>sem_count := 0, sem_limit := 1\<rparr>\<rparr>)"
proof -
  have 0: "bit (flags_of s w) 0" using wq_inv_at [OF assms(1), of w q] assms(2) by (simp add: item_at_def del: bit_0)
  obtain r s1 where c: "cancel_async_locked w s = (r, s1)" by (cases "cancel_async_locked w s")
  have 4: "\<not> bit (flags_of s w) 4" using assms(3) by (simp add: work_flag_of)
  note C = cancel_async_spec [OF assms(1) not_delayable [OF assms(1,4)] 4 c]
  have f1: "flags_of s1 = (flags_of s)(w := flag_set 1 (flag_clear 2 (flags_of s w)))"
    using C(7) 0 by (simp del: bit_0)
  then have w1: "work_flag 1 w s1" by (simp add: work_flag_of bit_flag_set)
  have cc: "pending_cancels s1 = pending_cancels s" "cancellers s1 = cancellers s"
    using cancel_async_cancels [of w s] c by simp_all
  let ?s2 = "init_work_cancel c w s1"
  have i: "canc_sem (cancellers ?s2 c) = (canc_sem (cancellers s c))\<lparr>sem_count := 0, sem_limit := 1\<rparr>"
    "pending_cancels ?s2 = pending_cancels s @ [c]"
    "cancellers ?s2 = (cancellers s)(c := \<lparr>canc_work = w,
       canc_sem = (canc_sem (cancellers s c))\<lparr>sem_count := 0, sem_limit := 1\<rparr>\<rparr>)"
    by (simp_all add: init_work_cancel_def z_impl_k_sem_init_def cc)
  have "work_busy_get_locked w s \<noteq> 0" using 0 by (auto simp: busy_iff work_flag_of simp del: bit_0)
  then have e: "k_work_cancel_sync w c s = canceller_wait c ?s2"
    using c w1 by (simp add: k_work_cancel_sync_def cancel_sync_locked_def)
  have w: "canceller_wait c ?s2 = (Blocked, s')" "pending_cancels s' = pending_cancels ?s2" "cancellers s' = cancellers ?s2"
    using assms(5) e i by (auto simp: canceller_wait_def z_impl_k_sem_take_def)
  have "same_items s1 ?s2" using cancel_sync_same [of s1 w c] w1 by (simp add: cancel_sync_locked_def)
  moreover have "same_items ?s2 s'" using wait_same(2) [of ?s2 c] w(1) by simp
  ultimately have S: "same_items s1 s'" by (simp add: same_items_def)
  show "b = Blocked" using assms(5) e w(1) by simp
  show "pending_cancels s' = pending_cancels s @ [c]"
    "cancellers s' = (cancellers s)(c := \<lparr>canc_work = w,
       canc_sem = (canc_sem (cancellers s c))\<lparr>sem_count := 0, sem_limit := 1\<rparr>\<rparr>)"
    using w i by simp_all
  show "main_work s' = main_work s" "flags_of s' = (flags_of s)(w := flag_set 1 (flag_clear 2 (flags_of s w)))"
    using same_itemsD [OF S] f1 C(3) by simp_all
  show "wq_inv s'" using same_items_inv [OF S] C(1) by simp
qed

lemma submit_cancels:
  "pending_cancels (snd (k_work_submit_to_queue qo w s)) = pending_cancels s"
  "cancellers (snd (k_work_submit_to_queue qo w s)) = cancellers s"
  by (auto simp: k_work_submit_to_queue_def z_work_submit_to_queue_def submit_to_queue_locked_def
      queue_submit_locked_def notify_queue_locked_def Let_def split: option.splits prod.splits if_splits)

lemma yield_waitqs: "waitqs (z_impl_k_yield k) = waitqs k"
  by (simp add: z_impl_k_yield_def frame_simps)

lemma finish_cancels:
  fixes q :: qid
  assumes "pending_cancels s = c # cs" "canc_work (cancellers s c) = w" "\<not> work_flag 4 w s" "work_flag 1 w s"
    and "sched_inv (ker s)"
  defines "s' \<equiv> work_queue_finish q w s"
  shows "pending_cancels s' = cs" "c' \<noteq> c \<Longrightarrow> cancellers s' c' = cancellers s c'"
    and "u \<noteq> sem_wait_q (canc_sem (cancellers s c)) \<Longrightarrow> waitqs (ker s') u = waitqs (ker s) u"
proof -
  define s1 where "s1 = upd_flags w (flag_clear 0) s"
  obtain sem k where g: "nested (z_impl_k_sem_give (canc_sem (cancellers s c))) (ker s) = (sem, k)"
    by (cases "nested (z_impl_k_sem_give (canc_sem (cancellers s c))) (ker s)")
  have w1: "\<not> work_flag 4 w s1" "work_flag 1 w s1"
    using assms(3,4) by (simp_all add: s1_def work_flag_of view_simps bit_flag_clear)
  have s1: "pending_cancels s1 = c # cs" "cancellers s1 = cancellers s" "ker s1 = ker s"
    using assms(1) by (simp_all add: s1_def view_simps)
  let ?s3 = "finalize_cancel_locked w s1"
  have f: "pending_cancels ?s3 = cs" "cancellers ?s3 = (cancellers s)(c := (cancellers s c)\<lparr>canc_sem := sem\<rparr>)" "ker ?s3 = k"
    using s1 g assms(2) by (simp_all add: finalize_cancel_locked_def Let_def view_simps)
  have e: "s' = (let s4 = upd_queue q (\<lambda>x. x\<lparr>q_flags := flag_clear 1 (q_flags x)\<rparr>) ?s3;
         s5 = s4\<lparr>main_work := (main_work s4)(q := None)\<rparr>
     in if \<not> queue_flag 8 q s4 then s5\<lparr>ker := z_impl_k_yield (ker s5)\<rparr> else s5)"
    unfolding s'_def work_queue_finish_def s1_def [symmetric] Let_def using w1 by simp
  show "pending_cancels s' = cs" "c' \<noteq> c \<Longrightarrow> cancellers s' c' = cancellers s c'"
    using f by (simp_all add: e Let_def)
  show "waitqs (ker s') u = waitqs (ker s) u" if "u \<noteq> sem_wait_q (canc_sem (cancellers s c))"
    using f(3) nested_give_waitqs [OF assms(5) g that] by (simp add: e Let_def view_simps yield_waitqs)
qed

text \<open>
  C40. Two threads cancel a running item synchronously. When its handler has ended and the item is
  idle, only the first of them is released: the second stays in the list of pending cancellations, its
  semaphore is not given and its wait queue is as it was. Nothing refers to it any more, so it waits until
  some later cancellation of the same item ends.
\<close>

theorem work_second_canceller_stays:
  assumes "wq_inv s" "main_work s q = Some w" "\<not> work_flag K_WORK_FLUSHING_BIT w s"
    and "\<not> work_flag K_WORK_DELAYABLE_BIT w s" "pending_cancels s = []" "c1 \<noteq> c2"
    and "sem_wait_q (canc_sem (cancellers s c1)) \<noteq> sem_wait_q (canc_sem (cancellers s c2))"
    and "k_work_cancel_sync w c1 s = (b1, s1)" "k_work_cancel_sync w c2 (s1\<lparr>ker := k1\<rparr>) = (b2, s2)"
    and "kernel_inv k2" "s3 = work_queue_finish q w (s2\<lparr>ker := k2\<rparr>)"
  shows "b1 = Blocked \<and> b2 = Blocked \<and> k_work_busy_get w s3 = 0 \<and> pending_cancels s3 = [c2] \<and>
    sem_count (canc_sem (cancellers s3 c2)) = 0 \<and>
    waitqs (ker s3) (sem_wait_q (canc_sem (cancellers s3 c2))) = waitqs k2 (sem_wait_q (canc_sem (cancellers s3 c2)))"
proof -
  note A = cancel_sync_running [OF assms(1-4,8)]
  let ?s1 = "s1\<lparr>ker := k1\<rparr>" and ?s2 = "s2\<lparr>ker := k2\<rparr>"
  have i1: "wq_inv ?s1" using A(4) same_items_inv [OF same_items_ker] by blast
  have B: "main_work ?s1 q = Some w" "\<not> work_flag 4 w ?s1" "\<not> work_flag 8 w ?s1"
    using assms(2-4) A(3,5) by (simp_all add: work_flag_of view_simps bit_flag_set bit_flag_clear)
  note C = cancel_sync_running [OF i1 B assms(9)]
  have i2: "wq_inv ?s2" "main_work ?s2 q = Some w" using C(3,4) B(1) same_items_inv [OF same_items_ker] by auto
  have f2: "flags_of ?s2 w = flag_set 1 (flag_clear 2 (flag_set 1 (flag_clear 2 (flags_of s w))))"
    using C(5) A(5) by (simp add: view_simps)
  have p: "pending_cancels ?s2 = [c1, c2]" using A(2) C(2) assms(5) by simp
  have c1: "cancellers ?s2 c1 = \<lparr>canc_work = w, canc_sem = (canc_sem (cancellers s c1))\<lparr>sem_count := 0, sem_limit := 1\<rparr>\<rparr>"
    using A(6) C(6) assms(6) by simp
  have c2: "cancellers ?s2 c2 = \<lparr>canc_work = w, canc_sem = (canc_sem (cancellers s c2))\<lparr>sem_count := 0, sem_limit := 1\<rparr>\<rparr>"
    using A(6) C(6) assms(6) by simp
  have "\<not> work_flag 4 w ?s2" "work_flag 1 w ?s2"
    using f2 assms(3) by (simp_all add: work_flag_of bit_flag_set bit_flag_clear)
  note F = finish_cancels [OF p _ this, where q = q, folded assms(11)]
  have k: "sched_inv (ker ?s2)" using kernel_invD(1) [OF assms(10)] by simp
  have c3: "cancellers s3 c2 = cancellers ?s2 c2" and p3: "pending_cancels s3 = [c2]"
    and wq: "u \<noteq> sem_wait_q (canc_sem (cancellers s c1)) \<Longrightarrow> waitqs (ker s3) u = waitqs k2 u" for u
    using F c1 k assms(6) by simp_all
  have "\<not> bit (flags_of s w) 3" using not_delayable assms(1,4) by blast
  then have "k_work_busy_get w s3 = 0"
    using finish_spec(4) [OF i2, folded assms(11)] busy_iff [of w s3] f2
    by (auto simp: k_work_busy_get_def work_flag_of idle_flags_def bit_flag_set bit_flag_clear simp del: bit_0)
  then show ?thesis using A(1) C(1) p3 c3 c2 wq assms(7) by simp
qed

definition running_wq :: wq_state where
  "running_wq = snd (work_queue_take 0 (snd (k_work_submit_to_queue (Some 0) 7 sample_wq)))"

lemma running_wq_facts:
  "wq_inv running_wq" "main_work running_wq 0 = Some 7" "\<not> work_flag 4 7 running_wq" "\<not> work_flag 8 7 running_wq"
  "pending_cancels running_wq = []" "cancellers running_wq = cancellers sample_wq"
proof -
  obtain r s where s: "k_work_submit_to_queue (Some 0) 7 sample_wq = (r, s)"
    by (cases "k_work_submit_to_queue (Some 0) 7 sample_wq")
  have sub: "submitted 7 0 sample_wq s" using submit_accepted(2) [OF _ _ _ _ s] by (simp add: sample_wq_facts)
  have i: "wq_inv s" using submit_to_queue_inv [OF sample_wq_facts(2) _ s] by (simp add: work_flag_of sample_wq_facts)
  have S: "list_of s 0 = [7]" "main_work s 0 = None" "flags_of s 7 = flag_set 2 0"
    using sub by (simp_all add: submitted_def sample_wq_facts)
  obtain t s1 where t: "work_queue_take 0 s = (t, s1)" by (cases "work_queue_take 0 s")
  have e: "running_wq = s1" by (simp add: running_wq_def s t)
  note T = queue_take_spec [OF i S(2) t]
  show "wq_inv running_wq" "main_work running_wq 0 = Some 7" "\<not> work_flag 4 7 running_wq" "\<not> work_flag 8 7 running_wq"
    using T(1) T(2) [OF S(1)] S(3) by (simp_all add: e work_flag_of bit_flag_set bit_flag_clear)
  have "pending_cancels s = []" "cancellers s = cancellers sample_wq"
    using submit_cancels [of "Some 0" 7 sample_wq] s by (simp_all add: sample_wq_def)
  then show "pending_cancels running_wq = []" "cancellers running_wq = cancellers sample_wq"
    using t S(1) by (auto simp: e work_queue_take_def works_of Let_def)
qed

theorem work_second_canceller_stays_witness:
  "let (b1, s1) = k_work_cancel_sync 7 4 running_wq; (b2, s2) = k_work_cancel_sync 7 2 (s1\<lparr>ker := booted\<rparr>);
       s3 = work_queue_finish 0 7 (s2\<lparr>ker := booted\<rparr>)
   in b2 = Blocked \<and> k_work_busy_get 7 s3 = 0 \<and> pending_cancels s3 = [2]"
proof -
  obtain b1 s1 where c1: "k_work_cancel_sync 7 4 running_wq = (b1, s1)" by (cases "k_work_cancel_sync 7 4 running_wq")
  obtain b2 s2 where c2: "k_work_cancel_sync 7 2 (s1\<lparr>ker := booted\<rparr>) = (b2, s2)"
    by (cases "k_work_cancel_sync 7 2 (s1\<lparr>ker := booted\<rparr>)")
  have "sem_wait_q (canc_sem (cancellers running_wq 4)) \<noteq> sem_wait_q (canc_sem (cancellers running_wq 2))"
    by (simp add: running_wq_facts sample_wq_def)
  from work_second_canceller_stays [OF running_wq_facts(1-5) _ this c1 c2, of booted] show ?thesis
    by (simp add: c1 c2)
qed

section \<open>Draining\<close>

lemma sched_wake_all_loop_waitqs:
  assumes "sched_inv_but X k" "length (waitqs k w) < n"
  shows "waitqs (snd (z_sched_wake_all_loop n w v d k)) = (waitqs k)(w := [])"
  using assms
proof (induction n arbitrary: k)
  case (Suc n)
  show ?case
  proof (cases "waitqs k w")
    case Nil
    then show ?thesis by (simp add: z_sched_wake_def z_priq_dumb_best_def fun_upd_idem)
  next
    case (Cons t ts)
    let ?f = "\<lambda>th::k_thread. th\<lparr>swap_retval := v, swap_data := d\<rparr>"
    have W: "sched_inv_but X (woken_with ?f t k)" "waitqs (woken_with ?f t k) = (waitqs k)(w := ts)"
      using woken_with_props [OF Suc.prems(1) Cons, of ?f] by (simp_all add: swap_fn_def)
    show ?thesis using Suc.IH [OF W(1)] Suc.prems(2) Cons W(2)
      by (auto simp: sched_wake_eq [OF Cons] fun_eq_iff)
  qed
qed simp

lemma sched_wake_all_waitqs:
  "sched_inv k \<Longrightarrow> waitqs (snd (z_sched_wake_all w v d k)) = (waitqs k)(w := [])"
  unfolding z_sched_wake_all_def by (rule sched_wake_all_loop_waitqs) simp_all

lemma queue_flag_upd [simp]:
  "queue_flag b q (upd_queue q f s) \<longleftrightarrow> bit (q_flags (f (queues s q))) b"
  "queue_flag b q (s\<lparr>ker := k\<rparr>) \<longleftrightarrow> queue_flag b q s"
  by (simp_all add: queue_flag_def upd_queue_def flag_test_bit)

lemma notify_queue_flag [simp]:
  "queue_flag b q (snd (notify_queue_locked qo s)) \<longleftrightarrow> queue_flag b q s"
  "queues (snd (notify_queue_locked qo s)) = queues s"
  by (auto simp: notify_queue_locked_def queue_flag_def split: option.splits prod.splits)

text \<open>The answer of a queue to a submission, by its flags and the caller.\<close>

lemma queue_submit_code:
  assumes "queue_flag 0 q s"
  shows "queue_flag 2 q s \<Longrightarrow> current (ker s) \<noteq> q_thread (queues s q) \<or> in_isr (ker s) \<Longrightarrow>
      queue_submit_locked (Some q) w s = (- EBUSY, s)"
    "queue_flag 2 q s \<Longrightarrow> current (ker s) = q_thread (queues s q) \<Longrightarrow> \<not> in_isr (ker s) \<Longrightarrow>
      fst (queue_submit_locked (Some q) w s) = 1 \<and>
      pending (queues (snd (queue_submit_locked (Some q) w s)) q) = pending (queues s q) @ [w]"
    "\<not> queue_flag 2 q s \<Longrightarrow> queue_flag 3 q s \<Longrightarrow> queue_submit_locked (Some q) w s = (- EBUSY, s)"
    "\<not> queue_flag 2 q s \<Longrightarrow> \<not> queue_flag 3 q s \<Longrightarrow> fst (queue_submit_locked (Some q) w s) = 1 \<and>
      pending (queues (snd (queue_submit_locked (Some q) w s)) q) = pending (queues s q) @ [w]"
  using assms by (auto simp: queue_submit_locked_def Let_def upd_queue_def)

lemma drain_queue:
  assumes "k_work_queue_drain q plug s = (Blocked, s1)"
  shows "queues s1 = (queues s)(q := (queues s q)\<lparr>q_flags := (if plug then flag_set 3 else (\<lambda>f. f)) (flag_set 2 (q_flags (queues s q)))\<rparr>)"
    "ker s1 = z_pend_curr (drainq (queues s q)) K_FOREVER (snd (z_sched_wake (notifyq (queues s q)) 0 0 (ker s)))"
  using assms by (auto simp: k_work_queue_drain_def Let_def upd_queue_def notify_queue_locked_def split: if_splits prod.splits)

lemma sched_wake_waitqs:
  "sched_inv k \<Longrightarrow> waitqs (snd (z_sched_wake w v d k)) = (waitqs k)(w := tl (waitqs k w))"
proof (cases "waitqs k w")
  case Nil
  then show ?thesis by (simp add: z_sched_wake_def z_priq_dumb_best_def fun_upd_idem)
next
  case (Cons t ts)
  assume "sched_inv k"
  then show ?thesis using woken_with_props(2) [OF _ Cons] Cons by (simp add: sched_wake_eq [OF Cons])
qed

text \<open>A pass of the thread of a queue over an empty list while a drain is on.\<close>

lemma drained_queue:
  assumes t: "work_queue_take q s = (r, s')" and l: "pending (queues s q) = []" and f: "queue_flag 2 q s"
    and k: "sched_inv (ker s)" and d: "notifyq (queues s q) \<noteq> drainq (queues s q)"
  shows "r = Blocked" "queue_flag i q s' \<longleftrightarrow> queue_flag i q s \<and> i \<noteq> 2" "waitqs (ker s') (drainq (queues s q)) = []"
proof -
  let ?x = "queues s q"
  have e: "r = Blocked" "queues s' q = ?x\<lparr>q_flags := flag_clear 2 (q_flags ?x)\<rparr>"
    "ker s' = z_pend_curr (notifyq ?x) K_FOREVER (snd (z_sched_wake_all (drainq ?x) 1 0 (ker s)))"
    using t l f by (auto simp: work_queue_take_def Let_def flag_test_and_clear_def queue_flag_def upd_queue_def view_simps
        split: if_splits)
  show "r = Blocked" by (rule e)
  show "queue_flag i q s' \<longleftrightarrow> queue_flag i q s \<and> i \<noteq> 2" by (simp add: queue_flag_def e(2) flag_test_bit bit_flag_clear)
  show "waitqs (ker s') (drainq ?x) = []"
    using d sched_wake_all_waitqs [OF k] by (simp add: e(3) z_pend_curr_waitqs)
qed

lemma unplug_queue:
  "queue_flag 3 q s \<Longrightarrow> fst (k_work_queue_unplug q s) = 0"
  "queue_flag i q (snd (k_work_queue_unplug q s)) \<longleftrightarrow> queue_flag i q s \<and> i \<noteq> 3"
  by (simp_all add: k_work_queue_unplug_def flag_test_and_clear_def queue_flag_def flag_test_bit bit_flag_clear upd_queue_def)



end
