(* ===== verification/Rbtree.thy ===== *)
theory Rbtree
  imports Prelude "HOL-Library.Monad_Syntax"
begin

text \<open>
  The intrusive red-black tree of \<open>lib/utils/rb.c\<close> on the memory of its nodes, with the colour in the
  lowest bit of the left child pointer and without parent pointers: the path from the root is kept
  on an array of \<open>max_depth + 1\<close> entries. This theory has the operations; they return \<open>None\<close> where the
  code would write past that array or read before it. Then come the shapes of trees and contexts
  that the proofs walk over, and the effect of a rotation on them.
\<close>

section \<open>Nodes\<close>

text \<open>
  Pointers have 32 bits (the build without \<open>CONFIG_64BIT\<close>). A side is a bit: \<open>False\<close> is 0, the left
  child, and \<open>True\<close> is 1. The comparison function of a tree reads the structures around the nodes, so
  it is an argument \<open>lt\<close> of the operations that call it.
\<close>

type_synonym uptr = "32 word"

record rbnode =
  child0 :: uptr
  child1 :: uptr

type_synonym rbmem = "uptr \<Rightarrow> rbnode"

datatype rb_color = RED | BLACK

record rbtree =
  root :: uptr
  max_depth :: nat

definition get_child :: "rbmem \<Rightarrow> uptr \<Rightarrow> bool \<Rightarrow> uptr" where
  "get_child m n side = (if side then child1 (m n) else child0 (m n) AND NOT 1)"

definition set_child :: "uptr \<Rightarrow> bool \<Rightarrow> uptr \<Rightarrow> rbmem \<Rightarrow> rbmem" where
  "set_child n side val m =
     (if side then m(n := (m n)\<lparr>child1 := val\<rparr>)
      else m(n := (m n)\<lparr>child0 := val OR (child0 (m n) AND 1)\<rparr>))"

definition get_color :: "rbmem \<Rightarrow> uptr \<Rightarrow> rb_color" where
  "get_color m n = (if child0 (m n) AND 1 = 0 then RED else BLACK)"

definition is_black :: "rbmem \<Rightarrow> uptr \<Rightarrow> bool" where
  "is_black m n \<longleftrightarrow> get_color m n = BLACK"

definition is_red :: "rbmem \<Rightarrow> uptr \<Rightarrow> bool" where
  "is_red m n \<longleftrightarrow> get_color m n = RED"

definition set_color :: "uptr \<Rightarrow> rb_color \<Rightarrow> rbmem \<Rightarrow> rbmem" where
  "set_color n color m =
     m(n := (m n)\<lparr>child0 := (child0 (m n) AND NOT 1) OR (case color of RED \<Rightarrow> 0 | BLACK \<Rightarrow> 1)\<rparr>)"

text \<open>The length of the array that \<open>CONFIG_MISRA_SANE\<close> puts into the tree instead: 59 for 4-byte pointers.\<close>

definition Z_TBITS :: nat where
  "Z_TBITS = (if LENGTH(32) div 8 < 8 then 2 else 3)"

definition Z_PBITS :: nat where
  "Z_PBITS = 8 * (LENGTH(32) div 8)"

definition Z_MAX_RBTREE_DEPTH :: nat where
  "Z_MAX_RBTREE_DEPTH = 2 * (Z_PBITS - Z_TBITS - 1) + 1"

section \<open>Operations\<close>

text \<open>The stack is an array; a write past its end has no result.\<close>

definition stack_put :: "nat \<Rightarrow> uptr \<Rightarrow> uptr list \<Rightarrow> uptr list option" where
  "stack_put i v stack = (if i < length stack then Some (stack[i := v]) else None)"

function find_loop :: "(uptr \<Rightarrow> uptr \<Rightarrow> bool) \<Rightarrow> rbmem \<Rightarrow> uptr \<Rightarrow> uptr list \<Rightarrow> nat \<Rightarrow> (uptr list \<times> nat) option" where
  "find_loop lt m node stack sz =
     (if stack ! (sz - 1) \<noteq> node
      then let side = (\<not> lt node (stack ! (sz - 1)));
               ch = get_child m (stack ! (sz - 1)) side
           in if ch \<noteq> 0
              then if sz < length stack then find_loop lt m node (stack[sz := ch]) (sz + 1) else None
              else Some (stack, sz)
      else Some (stack, sz))"
  by pat_completeness auto
termination by (relation "measure (\<lambda>(lt, m, node, stack, sz). length stack - sz)") auto

definition find_and_stack ::
  "(uptr \<Rightarrow> uptr \<Rightarrow> bool) \<Rightarrow> rbmem \<Rightarrow> rbtree \<Rightarrow> uptr \<Rightarrow> uptr list \<Rightarrow> (uptr list \<times> nat) option" where
  "find_and_stack lt m tree node stack =
     do { stack \<leftarrow> stack_put 0 (root tree) stack; find_loop lt m node stack 1 }"

text \<open>The walk to the last node ends only on a memory whose links end, hence the option.\<close>

partial_function (option) minmax_loop :: "rbmem \<Rightarrow> uptr \<Rightarrow> bool \<Rightarrow> uptr option" where
  "minmax_loop m n side =
     (if n \<noteq> 0 \<and> get_child m n side \<noteq> 0 then minmax_loop m (get_child m n side) side else Some n)"

definition z_rb_get_minmax :: "rbmem \<Rightarrow> rbtree \<Rightarrow> bool \<Rightarrow> uptr option" where
  "z_rb_get_minmax m tree side = minmax_loop m (root tree) side"

definition rb_get_min :: "rbmem \<Rightarrow> rbtree \<Rightarrow> uptr option" where
  "rb_get_min m tree = z_rb_get_minmax m tree False"

definition rb_get_max :: "rbmem \<Rightarrow> rbtree \<Rightarrow> uptr option" where
  "rb_get_max m tree = z_rb_get_minmax m tree True"

definition get_side :: "rbmem \<Rightarrow> uptr \<Rightarrow> uptr \<Rightarrow> bool" where
  "get_side m parent child \<longleftrightarrow> get_child m parent True = child"

text \<open>\<open>rotate\<close>, renamed because lists have a function of that name.\<close>

definition rb_rotate :: "uptr list \<Rightarrow> nat \<Rightarrow> rbmem \<Rightarrow> uptr list \<times> rbmem" where
  "rb_rotate stack sz m =
     (let parent = stack ! (sz - 2);
          child = stack ! (sz - 1);
          side = get_side m parent child;
          a = get_child m child side;
          b = get_child m child (\<not> side);
          m1 = (if sz \<ge> 3
                then let grandparent = stack ! (sz - 3)
                     in set_child grandparent (get_side m grandparent parent) child m
                else m);
          m2 = set_child child side a m1;
          m3 = set_child child (\<not> side) parent m2;
          m4 = set_child parent side b m3
      in (stack[sz - 2 := child, sz - 1 := parent], m4))"

function fix_extra_red :: "uptr list \<Rightarrow> nat \<Rightarrow> rbmem \<Rightarrow> (uptr list \<times> rbmem) option" where
  "fix_extra_red stack sz m =
     (if sz > 1
      then let node = stack ! (sz - 1); parent = stack ! (sz - 2)
           in if is_black m parent then Some (stack, m)
              else if sz < 3 then None
              else let grandparent = stack ! (sz - 3);
                       side = get_side m grandparent parent;
                       aunt = get_child m grandparent (\<not> side)
                   in if aunt \<noteq> 0 \<and> is_red m aunt
                      then fix_extra_red stack (sz - 2)
                             (set_color aunt BLACK (set_color parent BLACK (set_color grandparent RED m)))
                      else let parent_side = get_side m parent node;
                               (stack1, m1) = (if parent_side \<noteq> side then rb_rotate stack sz m else (stack, m));
                               (stack2, m2) = rb_rotate stack1 (sz - 1) m1
                           in Some (stack2, set_color (stack2 ! (sz - 2)) RED (set_color (stack2 ! (sz - 3)) BLACK m2))
      else Some (stack, set_color (stack ! 0) BLACK m))"
  by pat_completeness auto
termination by (relation "measure (\<lambda>(stack, sz, m). sz)") auto

text \<open>
  \<open>junk\<close> is what the memory of the stack array holds when the array is allocated.
\<close>

definition rb_insert ::
  "(uptr \<Rightarrow> uptr \<Rightarrow> bool) \<Rightarrow> (nat \<Rightarrow> uptr) \<Rightarrow> uptr \<Rightarrow> rbtree \<Rightarrow> rbmem \<Rightarrow> (rbtree \<times> rbmem) option" where
  "rb_insert lt junk node tree m =
     (let m = set_child node True 0 (set_child node False 0 m)
      in if root tree = 0 then Some (tree\<lparr>root := node, max_depth := 1\<rparr>, set_color node BLACK m)
         else do {
           (stack, sz) \<leftarrow> find_and_stack lt m tree node (map junk [0..<max_depth tree + 1]);
           let parent = stack ! (sz - 1);
           let side = (\<not> lt node parent);
           let m = set_color node RED (set_child parent side node m);
           stack \<leftarrow> stack_put sz node stack;
           (stack, m) \<leftarrow> fix_extra_red stack (sz + 1) m;
           let tree = (if sz + 1 > max_depth tree then tree\<lparr>max_depth := sz + 1\<rparr> else tree);
           Some (tree\<lparr>root := stack ! 0\<rparr>, m)
         })"

text \<open>The three parts of the loop of \<open>fix_missing_black\<close>: a red sibling, \<dots>\<close>

definition red_sibling ::
  "uptr list \<Rightarrow> nat \<Rightarrow> uptr \<Rightarrow> bool \<Rightarrow> uptr \<Rightarrow> uptr \<Rightarrow> rbmem \<Rightarrow> (uptr list \<times> nat \<times> uptr \<times> uptr \<times> rbmem) option" where
  "red_sibling stack sz n n_side parent sib m =
     (let (stack, m) = rb_rotate (stack[sz - 1 := sib]) sz m;
          m = set_color sib BLACK (set_color parent RED m)
      in do {
        stack \<leftarrow> stack_put sz n stack;
        let parent = stack ! (sz + 1 - 2);
        Some (stack, sz + 1, parent, get_child m parent (\<not> n_side), m)
      })"

text \<open>\<dots> a sibling whose red child is on the side of the node, \<dots>\<close>

definition red_inner ::
  "uptr list \<Rightarrow> nat \<Rightarrow> uptr \<Rightarrow> bool \<Rightarrow> uptr \<Rightarrow> rbmem \<Rightarrow> (uptr list \<times> uptr \<times> uptr \<times> rbmem) option" where
  "red_inner stack sz n n_side sib m =
     (let inner = get_child m sib n_side;
          stack = stack[sz - 1 := sib]
      in do {
        stack \<leftarrow> stack_put sz inner stack;
        let (stack, m) = rb_rotate stack (sz + 1) m;
        let m = set_color inner BLACK (set_color sib RED m);
        let sib = stack ! (sz + 1 - 2);
        Some (stack[sz + 1 - 2 := n], sib, get_child m sib (\<not> n_side), m)
      })"

text \<open>\<dots> and the rotation that ends the loop.\<close>

definition missing_rotate ::
  "uptr list \<Rightarrow> nat \<Rightarrow> uptr \<Rightarrow> bool \<Rightarrow> uptr \<Rightarrow> uptr \<Rightarrow> uptr \<Rightarrow> uptr \<Rightarrow> rbmem \<Rightarrow> uptr list \<times> rbmem" where
  "missing_rotate stack sz n n_side parent sib outer null_node m =
     (let m = set_color outer BLACK (set_color parent BLACK (set_color sib (get_color m parent) m));
          (stack, m) = rb_rotate (stack[sz - 1 := sib]) sz m
      in (stack, if n = null_node then set_child parent n_side 0 m else m))"

partial_function (option) fix_missing_black ::
  "uptr list \<Rightarrow> nat \<Rightarrow> uptr \<Rightarrow> rbmem \<Rightarrow> (uptr list \<times> rbmem) option" where
  "fix_missing_black stack sz null_node m =
     (if sz > 1
      then let n = stack ! (sz - 1);
               parent = stack ! (sz - 2);
               n_side = get_side m parent n;
               sib = get_child m parent (\<not> n_side)
           in do {
             (stack, sz, parent, sib, m) \<leftarrow>
               (if \<not> is_black m sib then red_sibling stack sz n n_side parent sib m
                else Some (stack, sz, parent, sib, m));
             let c0 = get_child m sib False;
             let c1 = get_child m sib True;
             if (c0 = 0 \<or> is_black m c0) \<and> (c1 = 0 \<or> is_black m c1)
             then let m = set_color sib RED (if n = null_node then set_child parent n_side 0 m else m)
                  in if is_black m parent then fix_missing_black stack (sz - 1) null_node m
                     else Some (stack, set_color parent BLACK m)
             else let outer = get_child m sib (\<not> n_side)
                  in do {
                    (stack, sib, outer, m) \<leftarrow>
                      (if \<not> (outer \<noteq> 0 \<and> is_red m outer) then red_inner stack sz n n_side sib m
                       else Some (stack, sib, outer, m));
                    Some (missing_rotate stack sz n n_side parent sib outer null_node m)
                  }
           }
      else Some (stack, m))"

text \<open>The swap of a node that has two children with the largest node below its left child.\<close>

function right_limb :: "rbmem \<Rightarrow> uptr \<Rightarrow> uptr list \<Rightarrow> nat \<Rightarrow> (uptr \<times> uptr list \<times> nat) option" where
  "right_limb m node2 stack sz =
     (if get_child m node2 True \<noteq> 0
      then if sz < length stack
           then right_limb m (get_child m node2 True) (stack[sz := get_child m node2 True]) (sz + 1)
           else None
      else Some (node2, stack, sz))"
  by pat_completeness auto
termination by (relation "measure (\<lambda>(m, node2, stack, sz). length stack - sz)") auto

definition swap_links :: "uptr \<Rightarrow> uptr \<Rightarrow> uptr \<Rightarrow> uptr \<Rightarrow> uptr \<Rightarrow> rbmem \<Rightarrow> uptr \<times> rbmem" where
  "swap_links hiparent loparent node node2 rt m =
     (let (rt, m) = (if hiparent \<noteq> 0 then (rt, set_child hiparent (get_side m hiparent node) node2 m) else (node2, m));
          m = (if loparent = node
               then set_child node2 False node (set_child node False (get_child m node2 False) m)
               else let m = set_child loparent (get_side m loparent node2) node m;
                        tmp = get_child m node False
                    in set_child node2 False tmp (set_child node False (get_child m node2 False) m));
          m = set_child node True 0 (set_child node2 True (get_child m node True) m);
          ctmp = get_color m node
      in (rt, set_color node2 ctmp (set_color node (get_color m node2) m)))"

definition swap_down ::
  "uptr \<Rightarrow> uptr list \<Rightarrow> nat \<Rightarrow> uptr \<Rightarrow> rbmem \<Rightarrow> (uptr list \<times> nat \<times> uptr \<times> rbmem) option" where
  "swap_down node stack sz0 rt m =
     (let hiparent = (if sz0 > 1 then stack ! (sz0 - 2) else 0);
          node2 = get_child m node False
      in do {
        stack \<leftarrow> stack_put sz0 node2 stack;
        (node2, stack, sz) \<leftarrow> right_limb m node2 stack (sz0 + 1);
        let loparent = stack ! (sz - 2);
        let (rt, m) = swap_links hiparent loparent node node2 rt m;
        let tmp = stack ! (sz0 - 1);
        let stack = stack[sz0 - 1 := stack ! (sz - 1)];
        Some (stack[sz - 1 := tmp], sz, rt, m)
      })"

text \<open>The part of \<open>rb_remove\<close> behind the swap: the node has at most one child and is on top of the stack.\<close>

definition unlink_node :: "uptr \<Rightarrow> uptr list \<Rightarrow> nat \<Rightarrow> rbtree \<Rightarrow> rbmem \<Rightarrow> (rbtree \<times> rbmem) option" where
  "unlink_node node stack sz tree m =
     (let child = (if get_child m node False = 0 then get_child m node True else get_child m node False)
      in if sz < 2
         then Some (if child \<noteq> 0 then (tree\<lparr>root := child\<rparr>, set_color child BLACK m)
                    else (tree\<lparr>root := child, max_depth := 0\<rparr>, m))
         else do {
           let parent = stack ! (sz - 2);
           (stack, m) \<leftarrow>
             (if child = 0
              then if is_black m node then fix_missing_black stack sz node m
                   else Some (stack, set_child parent (get_side m parent node) 0 m)
              else let m = set_child parent (get_side m parent node) child m
                   in Some (stack, if is_red m node \<or> is_red m child then set_color child BLACK m else m));
           Some (tree\<lparr>root := stack ! 0\<rparr>, m)
         })"

definition rb_remove ::
  "(uptr \<Rightarrow> uptr \<Rightarrow> bool) \<Rightarrow> (nat \<Rightarrow> uptr) \<Rightarrow> uptr \<Rightarrow> rbtree \<Rightarrow> rbmem \<Rightarrow> (rbtree \<times> rbmem) option" where
  "rb_remove lt junk node tree m =
     do {
       (stack, sz) \<leftarrow> find_and_stack lt m tree node (map junk [0..<max_depth tree + 1]);
       if node \<noteq> stack ! (sz - 1) then Some (tree, m)
       else do {
         (stack, sz, rt, m) \<leftarrow>
           (if get_child m node False \<noteq> 0 \<and> get_child m node True \<noteq> 0
            then swap_down node stack sz (root tree) m else Some (stack, sz, root tree, m));
         unlink_node node stack sz (tree\<lparr>root := rt\<rparr>) m
       }
     }"

text \<open>
  The recursive walk as the list of nodes it visits, and the search. Both follow links until they
  end.
\<close>

partial_function (option) z_rb_walk :: "rbmem \<Rightarrow> uptr \<Rightarrow> uptr list option" where
  "z_rb_walk m node =
     (if node \<noteq> 0
      then do {
        xs \<leftarrow> z_rb_walk m (get_child m node False);
        ys \<leftarrow> z_rb_walk m (get_child m node True);
        Some (xs @ node # ys)
      }
      else Some [])"

definition rb_walk :: "rbmem \<Rightarrow> rbtree \<Rightarrow> uptr list option" where
  "rb_walk m tree = z_rb_walk m (root tree)"

definition z_rb_child :: "rbmem \<Rightarrow> uptr \<Rightarrow> bool \<Rightarrow> uptr" where
  "z_rb_child m node side = get_child m node side"

definition z_rb_is_black :: "rbmem \<Rightarrow> uptr \<Rightarrow> int" where
  "z_rb_is_black m node = (if is_black m node then 1 else 0)"

partial_function (option) contains_loop :: "(uptr \<Rightarrow> uptr \<Rightarrow> bool) \<Rightarrow> rbmem \<Rightarrow> uptr \<Rightarrow> uptr \<Rightarrow> uptr option" where
  "contains_loop lt m node n =
     (if n \<noteq> 0 \<and> n \<noteq> node then contains_loop lt m node (get_child m n (lt n node)) else Some n)"

definition rb_contains :: "(uptr \<Rightarrow> uptr \<Rightarrow> bool) \<Rightarrow> rbmem \<Rightarrow> rbtree \<Rightarrow> uptr \<Rightarrow> bool option" where
  "rb_contains lt m tree node = map_option (\<lambda>n. n = node) (contains_loop lt m node (root tree))"

text \<open>
  The iteration without recursion. Its two arrays have \<open>max_depth\<close> entries and \<open>top\<close> starts as -1.
\<close>

record rb_foreach =
  fe_stack :: "uptr list"
  fe_is_left :: "bool list"
  fe_top :: int

definition fe_push :: "uptr \<Rightarrow> bool \<Rightarrow> rb_foreach \<Rightarrow> rb_foreach option" where
  "fe_push n is_left f =
     (let top = nat (fe_top f + 1)
      in if top < length (fe_stack f) \<and> top < length (fe_is_left f)
         then Some \<lparr>fe_stack = (fe_stack f)[top := n], fe_is_left = (fe_is_left f)[top := is_left], fe_top = fe_top f + 1\<rparr>
         else None)"

partial_function (option) left_limb_loop :: "rbmem \<Rightarrow> uptr \<Rightarrow> rb_foreach \<Rightarrow> rb_foreach option" where
  "left_limb_loop m n f =
     (if n \<noteq> 0 then do { f \<leftarrow> fe_push n True f; left_limb_loop m (get_child m n False) f } else Some f)"

definition stack_left_limb :: "rbmem \<Rightarrow> uptr \<Rightarrow> rb_foreach \<Rightarrow> (uptr \<times> rb_foreach) option" where
  "stack_left_limb m n f =
     do {
       f \<leftarrow> fe_push n False f;
       f \<leftarrow> left_limb_loop m (get_child m n False) f;
       Some (fe_stack f ! nat (fe_top f), f)
     }"

function walk_up :: "rb_foreach \<Rightarrow> rb_foreach" where
  "walk_up f = (if fe_top f > 0 \<and> \<not> fe_is_left f ! nat (fe_top f) then walk_up (f\<lparr>fe_top := fe_top f - 1\<rparr>) else f)"
  by pat_completeness auto
termination by (relation "measure (\<lambda>f. nat (fe_top f))") auto

definition z_rb_foreach_next :: "rbmem \<Rightarrow> rbtree \<Rightarrow> rb_foreach \<Rightarrow> (uptr \<times> rb_foreach) option" where
  "z_rb_foreach_next m tree f =
     (if root tree = 0 then Some (0, f)
      else if fe_top f = -1 then stack_left_limb m (root tree) f
      else let n = get_child m (fe_stack f ! nat (fe_top f)) True
           in if n \<noteq> 0 then stack_left_limb m n f
              else if fe_is_left f ! nat (fe_top f)
              then let f = f\<lparr>fe_top := fe_top f - 1\<rparr> in Some (fe_stack f ! nat (fe_top f), f)
              else let f = walk_up f;
                       f = f\<lparr>fe_top := fe_top f - 1\<rparr>
                   in Some (if fe_top f \<ge> 0 then fe_stack f ! nat (fe_top f) else 0, f))"

text \<open>The nodes that a loop \<open>RB_FOR_EACH\<close> goes through, in its order.\<close>

partial_function (option) for_each_loop :: "rbmem \<Rightarrow> rbtree \<Rightarrow> rb_foreach \<Rightarrow> uptr list option" where
  "for_each_loop m tree f =
     do {
       (n, f) \<leftarrow> z_rb_foreach_next m tree f;
       if n = 0 then Some [] else do { ns \<leftarrow> for_each_loop m tree f; Some (n # ns) }
     }"

definition RB_FOR_EACH :: "(nat \<Rightarrow> uptr) \<Rightarrow> (nat \<Rightarrow> bool) \<Rightarrow> rbmem \<Rightarrow> rbtree \<Rightarrow> uptr list option" where
  "RB_FOR_EACH junk junk_left m tree =
     for_each_loop m tree
       \<lparr>fe_stack = map junk [0..<max_depth tree], fe_is_left = map junk_left [0..<max_depth tree], fe_top = -1\<rparr>"

declare find_loop.simps [simp del] fix_extra_red.simps [simp del] right_limb.simps [simp del] walk_up.simps [simp del]

section \<open>Shapes\<close>

text \<open>
  A node as the links and the colour that are read from it, and how the updates change them. A
  pointer to a node has its lowest bit clear.
\<close>

definition cell :: "rbmem \<Rightarrow> uptr \<Rightarrow> uptr \<times> uptr \<times> rb_color" where
  "cell m n = (get_child m n False, get_child m n True, get_color m n)"

definition aligned :: "uptr \<Rightarrow> bool" where
  "aligned p \<longleftrightarrow> p AND 1 = 0"

lemma aligned_0 [simp]: "aligned 0"
  by (simp add: aligned_def)

lemma clear_low: "(- 2 :: uptr) = NOT 1"
  by simp

lemma clear_idem: "((p :: uptr) AND - 2) AND - 2 = p AND - 2" "((p :: uptr) AND - 2) AND 1 = 0"
  by (simp_all only: clear_low and.assoc) (simp_all only: bit.conj_cancel_left and.idem and_zero_eq)

lemma aligned_even: "aligned p \<longleftrightarrow> even p"
  by (simp add: aligned_def and_one_eq even_iff_mod_2_eq_zero)

lemma aligned_clear: "aligned p \<Longrightarrow> p AND - 2 = p"
  unfolding aligned_even clear_low
  by (rule bit_word_eqI) (auto simp: bit_simps bit_0 intro: gr0I)

lemma tagged_clear: "aligned p \<Longrightarrow> (p OR (x AND 1)) AND - 2 = p"
  using aligned_clear [of p] by (simp add: bit.conj_disj_distrib2 and.assoc)

lemma tagged_low: "aligned p \<Longrightarrow> (p OR (x AND 1)) AND 1 = x AND 1"
  by (simp add: bit.conj_disj_distrib2 and.assoc aligned_def)

lemma colored_clear: "((x AND - 2) OR 1) AND - 2 = x AND (- 2 :: uptr)" "((x AND - 2) OR 1) AND 1 = (1 :: uptr)"
  by (simp_all add: bit.conj_disj_distrib2 clear_idem)

lemma cell_set_child:
  "aligned v \<Longrightarrow> cell (set_child n s v m) =
     (cell m)(n := if s then (get_child m n False, v, get_color m n) else (v, get_child m n True, get_color m n))"
  by (auto simp: cell_def set_child_def get_child_def get_color_def tagged_clear tagged_low fun_eq_iff)

lemma cell_set_color:
  "cell (set_color n c m) = (cell m)(n := (get_child m n False, get_child m n True, c))"
  by (cases c) (auto simp: cell_def set_color_def get_child_def get_color_def colored_clear clear_idem fun_eq_iff)

lemma get_of_cell:
  "get_child m n False = fst (cell m n)" "get_child m n True = fst (snd (cell m n))" "get_color m n = snd (snd (cell m n))"
  by (simp_all add: cell_def)

subsection \<open>Trees and contexts\<close>

datatype atree = Tip | Bin rb_color atree uptr atree

fun ptr :: "atree \<Rightarrow> uptr" where
  "ptr Tip = 0"
| "ptr (Bin c l n r) = n"

fun inorder :: "atree \<Rightarrow> uptr list" where
  "inorder Tip = []"
| "inorder (Bin c l n r) = inorder l @ n # inorder r"

fun holds :: "(uptr \<Rightarrow> uptr \<times> uptr \<times> rb_color) \<Rightarrow> atree \<Rightarrow> bool" where
  "holds g Tip = True"
| "holds g (Bin c l n r) \<longleftrightarrow> g n = (ptr l, ptr r, c) \<and> holds g l \<and> holds g r"

text \<open>A node whose child on side \<open>s\<close> is \<open>x\<close>, and the path from a subtree to the root.\<close>

definition bin :: "bool \<Rightarrow> rb_color \<Rightarrow> atree \<Rightarrow> uptr \<Rightarrow> atree \<Rightarrow> atree" where
  "bin s c x n y = (if s then Bin c y n x else Bin c x n y)"

datatype frame = Frame (fside: bool) (fcolor: rb_color) (fnode: uptr) (fother: atree)

fun plug :: "atree \<Rightarrow> frame list \<Rightarrow> atree" where
  "plug t [] = t"
| "plug t (Frame s c n y # C) = plug (bin s c t n y) C"

fun before :: "frame list \<Rightarrow> uptr list" where
  "before [] = []"
| "before (Frame s c n y # C) = before C @ (if s then inorder y @ [n] else [])"

fun after :: "frame list \<Rightarrow> uptr list" where
  "after [] = []"
| "after (Frame s c n y # C) = (if s then [] else n # inorder y) @ after C"

fun cholds :: "(uptr \<Rightarrow> uptr \<times> uptr \<times> rb_color) \<Rightarrow> uptr \<Rightarrow> frame list \<Rightarrow> bool" where
  "cholds g p [] = True"
| "cholds g p (Frame s c n y # C) \<longleftrightarrow>
     g n = (if s then (ptr y, p, c) else (p, ptr y, c)) \<and> holds g y \<and> cholds g n C"

definition nodes_ok :: "uptr list \<Rightarrow> bool" where
  "nodes_ok ns \<longleftrightarrow> distinct ns \<and> (\<forall>n \<in> set ns. n \<noteq> 0 \<and> aligned n)"

lemma ptr_bin [simp]: "ptr (bin s c x n y) = n"
  by (simp add: bin_def)

lemma inorder_bin: "inorder (bin s c x n y) = (if s then inorder y @ n # inorder x else inorder x @ n # inorder y)"
  by (simp add: bin_def)

lemma set_inorder_bin [simp]: "set (inorder (bin s c x n y)) = insert n (set (inorder x) \<union> set (inorder y))"
  by (auto simp: bin_def)

lemma holds_bin [simp]:
  "holds g (bin s c x n y) \<longleftrightarrow> g n = (if s then (ptr y, ptr x, c) else (ptr x, ptr y, c)) \<and> holds g x \<and> holds g y"
  by (auto simp: bin_def)

lemma bin_not [simp]: "bin (\<not> s) c x n y = bin s c y n x"
  by (simp add: bin_def)

lemma bin_not_Tip [simp]: "bin s c x n y \<noteq> Tip"
  by (simp add: bin_def)

lemma Bin_bin: "Bin c l n r = bin s c (if s then r else l) n (if s then l else r)"
  by (simp add: bin_def)

lemma inorder_plug: "inorder (plug t C) = before C @ inorder t @ after C"
  by (induction C arbitrary: t rule: before.induct) (simp_all add: inorder_bin)

lemma holds_plug: "holds g (plug t C) \<longleftrightarrow> holds g t \<and> cholds g (ptr t) C"
  by (induction C arbitrary: t rule: before.induct) auto

lemma holds_upd [simp]: "n \<notin> set (inorder t) \<Longrightarrow> holds (g(n := x)) t \<longleftrightarrow> holds g t"
  by (induction t) auto

lemma cholds_upd [simp]: "n \<notin> set (before C) \<Longrightarrow> n \<notin> set (after C) \<Longrightarrow> cholds (g(n := x)) p C \<longleftrightarrow> cholds g p C"
  by (induction C arbitrary: p rule: before.induct) (auto split: if_splits)

lemma holds_cong: "(\<And>n. n \<in> set (inorder t) \<Longrightarrow> g n = g' n) \<Longrightarrow> holds g t = holds g' t"
  by (induction t) auto

lemma plug_append: "plug t (C @ D) = plug (plug t C) D"
  by (induction C arbitrary: t rule: before.induct) auto

lemma ptr_in: "t \<noteq> Tip \<Longrightarrow> ptr t \<in> set (inorder t)"
  by (cases t) auto

lemma ptr_0: "nodes_ok (inorder t) \<Longrightarrow> ptr t = 0 \<longleftrightarrow> t = Tip"
  by (cases t) (auto simp: nodes_ok_def)

lemma nodes_ok_append: "nodes_ok (xs @ ys) \<longleftrightarrow> nodes_ok xs \<and> nodes_ok ys \<and> set xs \<inter> set ys = {}"
  by (auto simp: nodes_ok_def)

lemma nodes_ok_Cons: "nodes_ok (n # ns) \<longleftrightarrow> n \<noteq> 0 \<and> aligned n \<and> n \<notin> set ns \<and> nodes_ok ns"
  by (auto simp: nodes_ok_def)

lemma nodes_ok_Nil [simp]: "nodes_ok []"
  by (simp add: nodes_ok_def)

lemma nodes_ok_perm: "mset xs = mset ys \<Longrightarrow> nodes_ok xs \<longleftrightarrow> nodes_ok ys"
  by (metis mset_eq_imp_distinct_iff mset_eq_setD nodes_ok_def)

lemma nodes_ok_bin:
  "nodes_ok (inorder (bin s c x n y)) \<longleftrightarrow> n \<noteq> 0 \<and> aligned n \<and> n \<notin> set (inorder x) \<and> n \<notin> set (inorder y) \<and>
     nodes_ok (inorder x) \<and> nodes_ok (inorder y) \<and> set (inorder x) \<inter> set (inorder y) = {}"
  by (auto simp: inorder_bin nodes_ok_append nodes_ok_Cons)

lemma nodes_ok_plug:
  "nodes_ok (inorder (plug t C)) \<longleftrightarrow> nodes_ok (inorder t) \<and> nodes_ok (before C @ after C) \<and>
     set (inorder t) \<inter> (set (before C) \<union> set (after C)) = {}"
  by (auto simp: inorder_plug nodes_ok_append)

lemma aligned_ptr: "nodes_ok (inorder t) \<Longrightarrow> aligned (ptr t)"
  by (cases t) (auto simp: nodes_ok_append nodes_ok_Cons)

lemma set_other:
  "x \<noteq> n \<Longrightarrow> set_child n s v m x = m x" "x \<noteq> n \<Longrightarrow> set_color n c m x = m x"
  by (simp_all add: set_child_def set_color_def)

lemma side_of_child:
  assumes "cell m n = (if s then (ptr y, ptr x, c) else (ptr x, ptr y, c))" "x \<noteq> Tip"
    and "nodes_ok (inorder x)" "set (inorder x) \<inter> set (inorder y) = {}"
  shows "get_side m n (ptr x) = s"
proof -
  have "ptr y \<noteq> ptr x" using assms(2-4) ptr_in [of x] ptr_in [of y] ptr_0 [of x] by (cases "y = Tip") auto
  then show ?thesis using assms(1) by (auto simp: get_side_def get_of_cell split: if_splits)
qed

definition path :: "frame list \<Rightarrow> uptr list" where
  "path C = rev (map fnode C)"

lemma path_simps [simp]: "path [] = []" "path (f # C) = path C @ [fnode f]" "length (path C) = length C"
  "path (C @ D) = path D @ path C"
  by (simp_all add: path_def)

lemma set_ctx: "fnode ` set C \<subseteq> set (before C) \<union> set (after C)"
  by (induction C rule: before.induct) auto

text \<open>The link from the context down to the subtree, set to a new subtree.\<close>

lemma link_ctx:
  assumes "cholds (cell m) (ptr t) (f # C)" "t \<noteq> Tip" "nodes_ok (inorder (plug t (f # C)))" "aligned p"
  shows "cholds (cell (set_child (fnode f) (get_side m (fnode f) (ptr t)) p m)) p (f # C)"
    and "get_side m (fnode f) (ptr t) = fside f"
proof -
  obtain s c n y where f: "f = Frame s c n y" by (cases f)
  have w: "nodes_ok (inorder (bin s c t n y))" "n \<notin> set (before C)" "n \<notin> set (after C)"
    using assms(3) by (auto simp: f nodes_ok_plug)
  have sd: "get_side m n (ptr t) = s"
    using assms(1,2) w(1) by (intro side_of_child [where y = y and c = c]) (auto simp: f nodes_ok_bin)
  then show "get_side m (fnode f) (ptr t) = fside f" by (simp add: f)
  show "cholds (cell (set_child (fnode f) (get_side m (fnode f) (ptr t)) p m)) p (f # C)"
    using assms(1,4) w sd by (auto simp: f cell_set_child get_of_cell nodes_ok_bin)
qed

subsection \<open>Rotation\<close>

definition same_outside :: "uptr set \<Rightarrow> rbmem \<Rightarrow> rbmem \<Rightarrow> bool" where
  "same_outside A m m' \<longleftrightarrow> (\<forall>x. x \<notin> A \<longrightarrow> m' x = m x)"

lemma same_outside_refl [simp]: "same_outside A m m"
  by (simp add: same_outside_def)

lemma same_outside_trans: "same_outside A m m' \<Longrightarrow> same_outside A m' m'' \<Longrightarrow> same_outside A m m''"
  by (simp add: same_outside_def)

lemma same_outside_set [simp]:
  "n \<in> A \<Longrightarrow> same_outside A m (set_child n s v m') \<longleftrightarrow> same_outside A m m'"
  "n \<in> A \<Longrightarrow> same_outside A m (set_color n c m') \<longleftrightarrow> same_outside A m m'"
  by (auto simp: same_outside_def set_child_def set_color_def)

lemma rotate_links:
  assumes "cell m p = (if s then (ptr c, n, cP) else (n, ptr c, cP))"
    and "cell m n = (if s then (ptr b, ptr a, cN) else (ptr a, ptr b, cN))"
    and "p \<noteq> n" "aligned p" "aligned (ptr a)" "aligned (ptr b)"
  shows "cell (set_child p s (ptr b) (set_child n (\<not> s) p (set_child n s (ptr a) m))) =
    (cell m)(n := if s then (p, ptr a, cN) else (ptr a, p, cN), p := if s then (ptr c, ptr b, cP) else (ptr b, ptr c, cP))"
  using assms by (auto simp: cell_set_child get_of_cell fun_eq_iff)

lemma rotate_spec:
  fixes C s cP cN a n b p c
  defines "T \<equiv> plug (bin s cP (bin s cN a n b) p c) C"
  assumes "nodes_ok (inorder T)" "holds (cell m) T"
  obtains m' where "rb_rotate (path C @ p # n # rest) (length C + 2) m = (path C @ n # p # rest, m')"
    "holds (cell m') (plug (bin s cN a n (bin s cP b p c)) C)" "same_outside (set (inorder T)) m m'"
proof -
  let ?st = "path C @ p # n # rest" and ?t = "bin s cP (bin s cN a n b) p c"
  have w: "nodes_ok (inorder ?t)" "nodes_ok (before C @ after C)" "set (inorder ?t) \<inter> (set (before C) \<union> set (after C)) = {}"
    using assms(2) by (simp_all add: T_def nodes_ok_plug)
  have h: "holds (cell m) ?t" "cholds (cell m) p C" using assms(3) by (simp_all add: T_def holds_plug)
  note wb = w(1) [unfolded nodes_ok_bin]
  have sd: "get_side m p n = s"
    using side_of_child [of m p s c "bin s cN a n b" cP] h(1) wb by (auto simp: bin_def nodes_ok_append nodes_ok_Cons split: if_splits)
  have ab: "get_child m n s = ptr a" "get_child m n (\<not> s) = ptr b"
    using h(1) by (cases s; simp add: get_of_cell)+
  define m1 where "m1 = (if C = [] then m else set_child (fnode (hd C)) (get_side m (fnode (hd C)) p) n m)"
  have m1: "cholds (cell m1) n C" "\<And>x. x \<notin> fnode ` set C \<Longrightarrow> cell m1 x = cell m x"
    "same_outside (set (inorder T)) m m1"
  proof -
    show "cholds (cell m1) n C"
      using link_ctx(1) [of m ?t "hd C" "tl C" n] h(2) assms(2) wb by (cases C) (auto simp: m1_def T_def nodes_ok_bin bin_def nodes_ok_append nodes_ok_Cons split: if_splits)
    show "cell m1 x = cell m x" if "x \<notin> fnode ` set C" for x
      using that by (cases C) (auto simp: m1_def cell_def get_child_def get_color_def set_other)
    show "same_outside (set (inorder T)) m m1"
      using set_ctx [of C] by (cases C) (auto simp: m1_def T_def inorder_plug)
  qed
  have pn: "p \<notin> fnode ` set C" "n \<notin> fnode ` set C" using set_ctx [of C] w(3) by auto
  define m4 where "m4 = set_child p s (ptr b) (set_child n (\<not> s) p (set_child n s (ptr a) m1))"
  have c4: "cell m4 = (cell m1)(n := if s then (p, ptr a, cN) else (ptr a, p, cN), p := if s then (ptr c, ptr b, cP) else (ptr b, ptr c, cP))"
    unfolding m4_def using h(1) wb m1(2) pn
    by (intro rotate_links) (auto simp: nodes_ok_bin aligned_ptr)
  have sub: "holds (cell m1) x \<longleftrightarrow> holds (cell m) x" if "x \<in> {a, b, c}" for x
    using that w(3) set_ctx [of C] by (intro holds_cong m1(2)) auto
  have "holds (cell m4) (bin s cN a n (bin s cP b p c))"
    using h(1) wb by (auto simp: c4 nodes_ok_bin sub)
  moreover have "cholds (cell m4) n C" using m1(1) w(3) by (simp add: c4)
  moreover have "rb_rotate ?st (length C + 2) m = (path C @ n # p # rest, m4)"
  proof -
    have "?st ! (length C - 1) = fnode (hd C)" if "C \<noteq> []"
      using that by (cases C) (simp_all add: nth_append)
    then show ?thesis
      by (cases C) (simp_all add: rb_rotate_def Let_def nth_append sd ab m4_def m1_def list_update_append)
  qed
  moreover have "same_outside (set (inorder T)) m m4"
    using m1(3) by (simp add: m4_def T_def inorder_plug)
  ultimately show ?thesis using that by (simp add: holds_plug)
qed

end
