(* ===== verification/Rbtree_Insert.thy ===== *)
theory Rbtree_Insert
  imports Rbtree
begin

text \<open>
  The rules of red-black trees, for trees and for the contexts of their subtrees, the bounds on the
  depth that follow from them, and insertion: the search, the repair of a red node below a
  red one, and \<open>rb_insert\<close>.
\<close>

section \<open>Red-black trees\<close>

fun bh :: "atree \<Rightarrow> nat" where
  "bh Tip = 0"
| "bh (Bin c l n r) = bh l + (if c = BLACK then 1 else 0)"

fun black :: "atree \<Rightarrow> bool" where
  "black Tip = True"
| "black (Bin c l n r) \<longleftrightarrow> c = BLACK"

fun rbv :: "atree \<Rightarrow> bool" where
  "rbv Tip = True"
| "rbv (Bin c l n r) \<longleftrightarrow> rbv l \<and> rbv r \<and> bh l = bh r \<and> (c = RED \<longrightarrow> black l \<and> black r)"

fun depth :: "atree \<Rightarrow> nat" where
  "depth Tip = 0"
| "depth (Bin c l n r) = Suc (max (depth l) (depth r))"

fun red_top :: "frame list \<Rightarrow> bool" where
  "red_top [] = False"
| "red_top (f # C) \<longleftrightarrow> fcolor f = RED"

fun cok :: "nat \<Rightarrow> frame list \<Rightarrow> bool" where
  "cok h [] = True"
| "cok h (Frame s c n y # C) \<longleftrightarrow>
     rbv y \<and> bh y = h \<and> (c = RED \<longrightarrow> black y \<and> C \<noteq> [] \<and> \<not> red_top C) \<and> cok (h + (if c = BLACK then 1 else 0)) C"

fun blk :: "frame list \<Rightarrow> nat" where
  "blk [] = 0"
| "blk (f # C) = blk C + (if fcolor f = BLACK then 1 else 0)"

fun cdepth :: "frame list \<Rightarrow> nat" where
  "cdepth [] = 0"
| "cdepth (Frame s c n y # C) = max (Suc (length C) + depth y) (cdepth C)"

lemma depth_0 [simp]: "depth t = 0 \<longleftrightarrow> t = Tip"
  by (cases t) auto

lemma not_BLACK [simp]: "c \<noteq> BLACK \<longleftrightarrow> c = RED" "c \<noteq> RED \<longleftrightarrow> c = BLACK"
  by (cases c; simp)+

lemma rb_bin [simp]:
  "black (bin s c x n y) \<longleftrightarrow> c = BLACK"
  "depth (bin s c x n y) = Suc (max (depth x) (depth y))"
  "rbv (bin s c x n y) \<longleftrightarrow> rbv x \<and> rbv y \<and> bh x = bh y \<and> (c = RED \<longrightarrow> black x \<and> black y)"
  by (auto simp: bin_def)

lemma bh_bin [simp]: "bh x = bh y \<Longrightarrow> bh (bin s c x n y) = bh y + (if c = BLACK then 1 else 0)"
  by (auto simp: bin_def)

lemma rbv_plug:
  "rbv (plug t C) \<and> black (plug t C) \<longleftrightarrow> rbv t \<and> cok (bh t) C \<and> (\<not> black t \<longrightarrow> C \<noteq> [] \<and> \<not> red_top C)"
proof (induction C arbitrary: t rule: blk.induct)
  case (2 f C)
  obtain s c n y where f: "f = Frame s c n y" by (cases f)
  show ?case using 2 [of "bin s c t n y"] by (auto simp: f)
qed auto

lemma bh_plug: "cok (bh t) C \<Longrightarrow> bh (plug t C) = bh t + blk C"
proof (induction C arbitrary: t rule: blk.induct)
  case (2 f C)
  obtain s c n y where f: "f = Frame s c n y" by (cases f)
  show ?case using "2.IH" [of "bin s c t n y"] "2.prems" by (auto simp: f)
qed auto

lemma depth_plug: "depth (plug t C) = max (length C + depth t) (cdepth C)"
proof (induction C arbitrary: t rule: blk.induct)
  case (2 f C)
  then show ?case by (cases f) auto
qed auto

lemma depth_bh: "rbv t \<Longrightarrow> depth t \<le> 2 * bh t + (if black t then 0 else 1)"
  by (induction t) (auto split: if_splits)

lemma length_ctx: "cok h C \<Longrightarrow> length C \<le> 2 * blk C" "cok h C \<Longrightarrow> C \<noteq> [] \<Longrightarrow> \<not> red_top C \<Longrightarrow> Suc (length C) \<le> 2 * blk C"
proof -
  have "length C \<le> 2 * blk C \<and> (C \<noteq> [] \<longrightarrow> \<not> red_top C \<longrightarrow> Suc (length C) \<le> 2 * blk C)" if "cok h C" for h
    using that by (induction C arbitrary: h rule: before.induct) (fastforce split: if_splits)+
  then show "cok h C \<Longrightarrow> length C \<le> 2 * blk C"
    "cok h C \<Longrightarrow> C \<noteq> [] \<Longrightarrow> \<not> red_top C \<Longrightarrow> Suc (length C) \<le> 2 * blk C" by blast+
qed

lemma size_bh: "rbv t \<Longrightarrow> 2 ^ bh t \<le> Suc (length (inorder t))"
  by (induction t) (auto split: if_splits)

section \<open>A red node below a red one\<close>

lemma root_path: "(path C @ ptr t # rest) ! 0 = ptr (plug t C)"
proof (induction C arbitrary: t rest)
  case (Cons f C)
  obtain s c n y where f: "f = Frame s c n y" by (cases f)
  show ?case using Cons [of "bin s c t n y" "ptr t # rest"] by (simp add: f)
qed simp

lemma holds_color: "holds (cell m) (bin s c x n y) \<Longrightarrow> get_color m n = c"
  by (simp add: get_of_cell)

lemma read_frame:
  assumes "holds (cell m) (plug t (Frame s c n y # C))" "nodes_ok (inorder (plug t (Frame s c n y # C)))" "t \<noteq> Tip"
  shows "get_side m n (ptr t) = s" "get_child m n s = ptr t" "get_child m n (\<not> s) = ptr y" "get_color m n = c"
    "nodes_ok (inorder y)" "y \<noteq> Tip \<Longrightarrow> ptr y \<noteq> 0"
proof -
  have h: "cell m n = (if s then (ptr y, ptr t, c) else (ptr t, ptr y, c))" using assms(1) by (simp add: holds_plug)
  have w: "nodes_ok (inorder (bin s c t n y))" using assms(2) by (simp add: nodes_ok_plug)
  show "get_side m n (ptr t) = s"
    by (rule side_of_child [OF h]) (use assms(3) w in \<open>auto simp: nodes_ok_bin\<close>)
  show "get_child m n s = ptr t" "get_child m n (\<not> s) = ptr y" "get_color m n = c"
    using h by (cases s; simp add: get_of_cell)+
  show "nodes_ok (inorder y)" "y \<noteq> Tip \<Longrightarrow> ptr y \<noteq> 0" using w ptr_0 [of y] by (auto simp: nodes_ok_bin)
qed

lemma recolor_focus:
  assumes "holds (cell m) (plug (bin s c x n y) C)" "nodes_ok (inorder (plug (bin s c x n y) C))"
  shows "holds (cell (set_color n c' m)) (plug (bin s c' x n y) C)"
  using assms by (auto simp: holds_plug cell_set_color get_of_cell nodes_ok_plug nodes_ok_bin)

lemma rotate_recolor:
  fixes C s x q z g a cP cN
  defines "T \<equiv> plug (bin s cP (bin s cN x q z) g a) C"
  assumes "nodes_ok (inorder T)" "holds (cell m) T"
  obtains m' where "rb_rotate (path C @ g # q # rest) (length C + 2) m = (path C @ q # g # rest, m')"
    "holds (cell (set_color g d' (set_color q d m'))) (plug (bin s d x q (bin s d' z g a)) C)"
    "same_outside (set (inorder T)) m (set_color g d' (set_color q d m'))"
proof -
  from rotate_spec [OF assms(2,3) [unfolded T_def], of rest] obtain m' where
    r: "rb_rotate (path C @ g # q # rest) (length C + 2) m = (path C @ q # g # rest, m')"
    "holds (cell m') (plug (bin s cN x q (bin s cP z g a)) C)" "same_outside (set (inorder T)) m m'" by (auto simp: T_def)
  have w: "nodes_ok (inorder (plug (bin s e x q (bin s e' z g a)) C))" for e e'
    using assms(2) by (auto simp: T_def nodes_ok_plug nodes_ok_bin)
  have "holds (cell (set_color q d m')) (plug (bin s d x q (bin s cP z g a)) C)"
    by (rule recolor_focus [OF r(2) w])
  then have "holds (cell (set_color g d' (set_color q d m'))) (plug (bin s d x q (bin s d' z g a)) C)"
    using recolor_focus [of "set_color q d m'" s cP z g a "Frame (\<not> s) d q x # C" d'] w [of d cP] by simp
  then show ?thesis using that r by (simp add: T_def inorder_plug)
qed

text \<open>
  What an operation leaves behind: a red-black tree of the given nodes, with a black root and not deeper
  than \<open>K\<close>. The last bound is what keeps later removals within that depth, too.
\<close>

definition good :: "nat \<Rightarrow> uptr list \<Rightarrow> atree \<Rightarrow> bool" where
  "good K ns T \<longleftrightarrow> rbv T \<and> black T \<and> inorder T = ns \<and> depth T \<le> K \<and> 2 * bh T \<le> K + 1"

definition repaired :: "nat \<Rightarrow> uptr list \<Rightarrow> uptr set \<Rightarrow> rbmem \<Rightarrow> (uptr list \<times> rbmem) option \<Rightarrow> bool" where
  "repaired K ns A m r \<longleftrightarrow>
     (\<exists>stack m' T. r = Some (stack, m') \<and> holds (cell m') T \<and> good K ns T \<and> stack ! 0 = ptr T \<and> same_outside A m m')"

lemma repairedI:
  assumes "r = Some (path C @ p # rest, m')" "holds (cell m') (plug t C)" "ptr t = p" "rbv (plug t C) \<and> black (plug t C)"
    and "inorder (plug t C) = ns" "depth (plug t C) \<le> K" "2 * bh (plug t C) \<le> K + 1" "same_outside A m m'"
  shows "repaired K ns A m r"
  unfolding repaired_def good_def using assms root_path [of C t rest] by blast

lemma red_parent_split:
  assumes "cok h (Frame s RED p y # C)"
  obtains s' g a C' where "C = Frame s' BLACK g a # C'" "rbv a" "bh a = h" "rbv y" "bh y = h" "black y" "cok (h + 1) C'"
proof -
  obtain f C' where C: "C = f # C'" using assms by (cases C) auto
  then show ?thesis using that assms by (cases f) auto
qed

lemma red_aunt_step:
  fixes t p y g a C sp sg
  defines "T \<equiv> plug t (Frame sp RED p y # Frame sg BLACK g a # C)"
  assumes "t \<noteq> Tip" "nodes_ok (inorder T)" "holds (cell m) T" "a = Bin RED al n ar"
  obtains m' where
    "fix_extra_red (path C @ g # p # ptr t # rest) (length C + 3) m = fix_extra_red (path C @ g # p # ptr t # rest) (length C + 1) m'"
    "holds (cell m') (plug (bin sg RED (bin sp BLACK t p y) g (Bin BLACK al n ar)) C)"
    "same_outside (set (inorder T)) m m'"
proof -
  note a = assms(5)
  define m' where "m' = set_color n BLACK (set_color p BLACK (set_color g RED m))"
  note P = read_frame [OF assms(4,3,2) [unfolded T_def]]
  note G = read_frame [of m "bin sp RED t p y" sg BLACK g a C]
  have g: "get_side m g p = sg" "get_child m g (\<not> sg) = n" "n \<noteq> 0"
    using G(1,3,6) assms(3,4) by (simp_all add: T_def a)
  have n: "get_color m n = RED" using assms(4) by (simp add: T_def a holds_plug get_of_cell)
  have "fix_extra_red (path C @ g # p # ptr t # rest) (length C + 3) m = fix_extra_red (path C @ g # p # ptr t # rest) (length C + 1) m'"
    by (subst fix_extra_red.simps) (simp add: nth_append is_black_def is_red_def P g n m'_def Let_def)
  moreover have "holds (cell m') (plug (bin sg RED (bin sp BLACK t p y) g (Bin BLACK al n ar)) C)"
    using assms(3,4) by (auto simp: T_def a m'_def holds_plug cell_set_color get_of_cell nodes_ok_plug nodes_ok_bin nodes_ok_append nodes_ok_Cons)
  moreover have "same_outside (set (inorder T)) m m'" by (simp add: m'_def T_def a inorder_plug)
  ultimately show ?thesis using that by blast
qed

lemma inorder_rotate:
  "inorder (plug (bin s d a n (bin s d' b p c)) C) = inorder (plug (bin s e (bin s e' a n b) p c) C)"
  by (simp add: inorder_plug inorder_bin)

lemma black_aunt_rotate:
  fixes t p y g a C sp sg
  defines "T \<equiv> plug t (Frame sp RED p y # Frame sg BLACK g a # C)"
  assumes "t \<noteq> Tip" "\<not> black t" "nodes_ok (inorder T)" "holds (cell m) T" "black a" "black y" "rbv t" "rbv y" "rbv a"
    "bh y = bh t" "bh a = bh t"
  obtains t' rest' m' where
    "fix_extra_red (path C @ g # p # ptr t # rest) (length C + 3) m = Some (path C @ ptr t' # rest', m')"
    "holds (cell m') (plug t' C)" "rbv t'" "black t'" "bh t' = bh t + 1" "inorder (plug t' C) = inorder T"
    "depth t' \<le> max (depth (bin sg BLACK (bin sp RED t p y) g a)) (depth a + 2)" "same_outside (set (inorder T)) m m'"
proof -
  note P = read_frame [OF assms(5,4,2) [unfolded T_def]]
  have g: "get_side m g p = sg" "get_child m g (\<not> sg) = ptr a"
    using read_frame(1,3) [of m "bin sp RED t p y" sg BLACK g a C] assms(4,5) by (simp_all add: T_def)
  have a: "ptr a = 0 \<or> \<not> is_red m (ptr a)"
    using assms(5,6) by (cases a) (auto simp: T_def holds_plug get_of_cell is_red_def)
  note fx = fix_extra_red.simps [of "path C @ g # p # ptr t # rest" "length C + 3" m]
  show ?thesis
  proof (cases "sp = sg")
    case True
    have T: "T = plug (bin sg BLACK (bin sg RED t p y) g a) C" by (simp add: T_def True)
    from rotate_recolor [OF assms(4,5) [unfolded T], of "ptr t # rest" RED BLACK]
    obtain m' where r: "rb_rotate (path C @ g # p # ptr t # rest) (length C + 2) m = (path C @ p # g # ptr t # rest, m')"
      "holds (cell (set_color g RED (set_color p BLACK m'))) (plug (bin sg BLACK t p (bin sg RED y g a)) C)"
      "same_outside (set (inorder T)) m (set_color g RED (set_color p BLACK m'))" unfolding T by blast
    let ?t = "bin sg BLACK t p (bin sg RED y g a)"
    have "fix_extra_red (path C @ g # p # ptr t # rest) (length C + 3) m =
        Some (path C @ ptr ?t # g # ptr t # rest, set_color g RED (set_color p BLACK m'))"
      using a by (elim disjE) (simp_all add: fx nth_append is_black_def P(1,4) g r(1) [simplified] Let_def True)
    then show ?thesis using that [of ?t, OF _ r(2) _ _ _ _ _ r(3)] assms(6-)
      by (simp add: T inorder_plug inorder_bin max_def)
  next
    case False
    then have sp: "sp = (\<not> sg)" by auto
    obtain x z where t: "t = bin sp RED x (ptr t) z"
    proof -
      obtain l n r where "t = Bin RED l n r" using assms(2,3) by (cases t) auto
      then show ?thesis using that Bin_bin [of RED l n r sp] by simp
    qed
    let ?n = "ptr t" and ?D = "Frame sg BLACK g a # C"
    have T: "T = plug (bin sp RED (bin sp RED x ?n z) p y) ?D"
      using arg_cong [OF t, of "\<lambda>u. plug u (Frame sp RED p y # ?D)"] by (simp add: T_def)
    from rotate_spec [OF assms(4,5) [unfolded T], of rest]
    obtain m1 where r1: "rb_rotate (path C @ g # p # ?n # rest) (length C + 3) m = (path C @ g # ?n # p # rest, m1)"
      "holds (cell m1) (plug (bin sp RED x ?n (bin sp RED z p y)) ?D)" "same_outside (set (inorder T)) m m1"
      unfolding T by (simp add: numeral_3_eq_3) blast
    have e: "plug (bin sp RED x ?n (bin sp RED z p y)) ?D = plug (bin sg BLACK (bin sg RED (bin sp RED z p y) ?n x) g a) C"
      by (simp add: sp)
    have io: "inorder (plug (bin sp RED x ?n (bin sp RED z p y)) ?D) = inorder T"
      unfolding T by (rule inorder_rotate)
    have w: "nodes_ok (inorder (plug (bin sp RED x ?n (bin sp RED z p y)) ?D))" using assms(4) by (simp only: io)
    from rotate_recolor [OF w [unfolded e] r1(2) [unfolded e], of "p # rest" RED BLACK]
    obtain m' where r: "rb_rotate (path C @ g # ?n # p # rest) (length C + 2) m1 = (path C @ ?n # g # p # rest, m')"
      "holds (cell (set_color g RED (set_color ?n BLACK m'))) (plug (bin sg BLACK (bin sp RED z p y) ?n (bin sg RED x g a)) C)"
      "same_outside (set (inorder T)) m1 (set_color g RED (set_color ?n BLACK m'))" unfolding io [unfolded e] by blast
    have tt: "rbv x" "rbv z" "bh x = bh z" "bh t = bh z" "black x" "black z" "depth t = Suc (max (depth x) (depth z))"
      "inorder t = inorder (bin sp RED x ?n z)"
    proof -
      have "rbv (bin sp RED x ?n z)" "bh t = bh (bin sp RED x ?n z)" "depth t = depth (bin sp RED x ?n z)"
        using assms(8) by (simp_all only: t [symmetric])
      then show "rbv x" "rbv z" "bh x = bh z" "bh t = bh z" "black x" "black z" "depth t = Suc (max (depth x) (depth z))"
        by simp_all
      show "inorder t = inorder (bin sp RED x ?n z)" by (simp only: t [symmetric])
    qed
    let ?t = "bin sg BLACK (bin sp RED z p y) ?n (bin sg RED x g a)"
    have "fix_extra_red (path C @ g # p # ?n # rest) (length C + 3) m =
        Some (path C @ ptr ?t # g # p # rest, set_color g RED (set_color ?n BLACK m'))"
      using a by (elim disjE) (simp_all add: fx nth_append is_black_def P(1,4) g r1(1) [simplified] r(1) [simplified] Let_def sp)
    then show ?thesis using that [of ?t, OF _ r(2) _ _ _ _ _ same_outside_trans [OF r1(3) r(3)]] assms(6-) tt
      by (simp add: T inorder_plug inorder_bin max_def sp)
  qed
qed

lemma repaired_trans: "same_outside A m m' \<Longrightarrow> repaired K ns A m' r \<Longrightarrow> repaired K ns A m r"
  unfolding repaired_def using same_outside_trans by blast

lemma fix_extra_red_spec:
  assumes "\<not> black t" "rbv t" "cok (bh t) C" "nodes_ok (inorder (plug t C))" "holds (cell m) (plug t C)"
    and "depth (plug t C) \<le> K" "length C + 1 + 2 * bh t \<le> K" "2 * (bh t + blk C) \<le> K + 1"
  shows "repaired K (inorder (plug t C)) (set (inorder (plug t C))) m (fix_extra_red (path C @ ptr t # rest) (length C + 1) m)"
  using assms
proof (induction "length C" arbitrary: C t m rest rule: less_induct)
  case less
  obtain l n r where t: "t = Bin RED l n r" using less.prems(1) by (cases t) auto
  consider "C = []" | s p y D where "C = Frame s BLACK p y # D" | s p y D where "C = Frame s RED p y # D"
    by (metis not_BLACK(1) frame.exhaust list.exhaust)
  then show ?case
  proof cases
    case 1
    have "holds (cell (set_color n BLACK m)) (Bin BLACK l n r)"
      using recolor_focus [of m False RED l n r "[]"] less.prems(4,5) by (simp add: 1 t bin_def)
    then show ?thesis
      using less.prems by (intro repairedI [of _ "[]" n rest "set_color n BLACK m" "Bin BLACK l n r"])
        (simp_all add: fix_extra_red.simps [of "n # rest" "Suc 0"] 1 t)
  next
    case 2
    have "get_color m p = BLACK" using read_frame(4) [of m t s BLACK p y D] less.prems(4,5) by (simp add: 2 t)
    then have "fix_extra_red (path C @ ptr t # rest) (length C + 1) m = Some (path C @ ptr t # rest, m)"
      by (subst fix_extra_red.simps) (simp add: 2 is_black_def nth_append)
    then show ?thesis
      using less.prems rbv_plug [of t C] bh_plug [of t C]
      by (intro repairedI [of _ C "ptr t" rest m t]) (simp_all add: 2)
  next
    case 3
    obtain sg g a D' where D: "D = Frame sg BLACK g a # D'" "rbv a" "bh a = bh t" "rbv y" "bh y = bh t" "black y" "cok (bh t + 1) D'"
      using red_parent_split less.prems(3) 3 by metis
    let ?T = "plug t (Frame s RED p y # Frame sg BLACK g a # D')"
    have C: "plug t C = ?T" "path C @ ptr t # rest = path D' @ g # p # ptr t # rest" "length C + 1 = length D' + 3"
      by (simp_all add: 3 D)
    have tT: "t \<noteq> Tip" by (simp add: t)
    note wh = less.prems(4,5) [unfolded C(1)]
    show ?thesis
    proof (cases "black a")
      case True
      from black_aunt_rotate [OF tT less.prems(1) wh True D(6) less.prems(2) D(4) D(2) D(5) D(3), of rest]
      obtain t' rest' m' where R: "fix_extra_red (path D' @ g # p # ptr t # rest) (length D' + 3) m = Some (path D' @ ptr t' # rest', m')"
        "holds (cell m') (plug t' D')" "rbv t'" "black t'" "bh t' = bh t + 1" "inorder (plug t' D') = inorder ?T"
        "depth t' \<le> max (depth (bin sg BLACK (bin s RED t p y) g a)) (depth a + 2)" "same_outside (set (inorder ?T)) m m'" by blast
      have "depth (plug t' D') \<le> K"
        using R(7) less.prems(6,7) depth_bh [OF D(2)] True D(3) by (simp add: depth_plug C(1) 3 D(1) del: rb_bin(2)) linarith
      moreover have "2 * bh (plug t' D') \<le> K + 1"
        using bh_plug [of t' D'] less.prems(8) D(7) by (simp add: R(5) 3 D(1))
      moreover have "rbv (plug t' D') \<and> black (plug t' D')" using rbv_plug [of t' D'] R(3-5) D(7) by simp
      ultimately show ?thesis unfolding C by (rule repairedI [OF R(1,2) refl _ R(6) _ _ R(8), rotated 1])
    next
      case False
      obtain al q ar where a: "a = Bin RED al q ar" using False by (cases a) auto
      let ?t = "bin sg RED (bin s BLACK t p y) g (Bin BLACK al q ar)"
      from red_aunt_step [OF tT wh a, of rest] obtain m' where
        R: "fix_extra_red (path D' @ g # p # ptr t # rest) (length D' + 3) m = fix_extra_red (path D' @ g # p # ptr t # rest) (length D' + 1) m'"
        "holds (cell m') (plug ?t D')" "same_outside (set (inorder ?T)) m m'" by blast
      have io: "inorder (plug ?t D') = inorder ?T" by (simp add: inorder_plug inorder_bin a)
      have "repaired K (inorder (plug ?t D')) (set (inorder (plug ?t D'))) m' (fix_extra_red (path D' @ ptr ?t # p # ptr t # rest) (length D' + 1) m')"
      proof (rule less.hyps)
        show "depth (plug ?t D') \<le> K" using less.prems(6) by (simp add: C(1) depth_plug a)
        show "2 * (bh ?t + blk D') \<le> K + 1" "length D' + 1 + 2 * bh ?t \<le> K"
          using less.prems(7,8) D(3,5) by (simp_all add: 3 D(1) a)
      qed (use less.prems(2) D wh(1) R(2) in \<open>simp_all add: 3 io a\<close>)
      then show ?thesis unfolding C R(1) io by (intro repaired_trans [OF R(3)]) simp
    qed
  qed
qed

section \<open>Search\<close>

definition followed :: "(uptr \<Rightarrow> uptr \<Rightarrow> bool) \<Rightarrow> uptr \<Rightarrow> frame list \<Rightarrow> bool" where
  "followed lt x C \<longleftrightarrow> (\<forall>f \<in> set C. fnode f \<noteq> x \<and> fside f = (\<not> lt x (fnode f)))"

definition side_of :: "bool \<Rightarrow> atree \<Rightarrow> atree" where
  "side_of s t = (case t of Tip \<Rightarrow> Tip | Bin c l n r \<Rightarrow> if s then r else l)"

lemma side_of_bin [simp]: "side_of s (bin s c x n y) = x"
  by (simp add: side_of_def bin_def)

lemma bin_side_of: "t \<noteq> Tip \<Longrightarrow> \<exists>c y. t = bin s c (side_of s t) (ptr t) y"
  by (cases t) (auto simp: side_of_def bin_def)

lemma get_child_side_of:
  "holds (cell m) t \<Longrightarrow> t \<noteq> Tip \<Longrightarrow> get_child m (ptr t) s = ptr (side_of s t)"
  by (cases t; cases s) (auto simp: side_of_def get_of_cell)

lemma find_loop_spec:
  assumes "holds (cell m) (plug t C)" "nodes_ok (inorder (plug t C))" "t \<noteq> Tip" "followed lt x C"
    and "length C + depth t \<le> length (path C @ ptr t # rest)"
  shows "\<exists>C' t' rest'. find_loop lt m x (path C @ ptr t # rest) (length C + 1) = Some (path C' @ ptr t' # rest', length C' + 1) \<and>
    length (path C' @ ptr t' # rest') = length (path C @ ptr t # rest) \<and>
    plug t' C' = plug t C \<and> t' \<noteq> Tip \<and> followed lt x C' \<and>
    (ptr t' = x \<or> side_of (\<not> lt x (ptr t')) t' = Tip)"
  using assms
proof (induction t arbitrary: C rest)
  case (Bin c l n r)
  let ?t = "Bin c l n r" and ?s = "\<not> lt x n" and ?st = "path C @ n # rest"
  let ?ch = "side_of ?s ?t"
  obtain y where t: "?t = bin ?s c ?ch n y" by (cases ?s) (auto simp: side_of_def bin_def)
  have ch: "get_child m n ?s = ptr ?ch" using get_child_side_of [of m ?t ?s] Bin.prems(1) by (simp add: holds_plug)
  have "nodes_ok (inorder ?ch)" using Bin.prems(2) by (auto simp: side_of_def nodes_ok_plug nodes_ok_append nodes_ok_Cons)
  then have tip: "ptr ?ch = 0 \<longleftrightarrow> ?ch = Tip" by (rule ptr_0)
  show ?case
  proof (cases "n = x \<or> ?ch = Tip")
    case True
    then have "find_loop lt m x ?st (length C + 1) = Some (?st, length C + 1)"
      using ch tip by (subst find_loop.simps) (auto simp: nth_append)
    then show ?thesis using Bin.prems True by (intro exI [of _ C] exI [of _ ?t] exI [of _ rest]) auto
  next
    case False
    then obtain q rest1 where rest: "rest = q # rest1"
      using Bin.prems(5) by (cases rest) (auto simp: side_of_def split: if_splits)
    let ?C = "Frame ?s c n y # C"
    have e: "find_loop lt m x ?st (length C + 1) = find_loop lt m x (path ?C @ ptr ?ch # rest1) (length ?C + 1)"
      using False ch tip by (subst find_loop.simps) (simp add: nth_append rest Let_def list_update_append)
    have pl: "plug ?ch ?C = plug ?t C" by (simp only: plug.simps t [symmetric])
    have "depth ?ch < depth ?t" by (auto simp: side_of_def)
    then have len: "length ?C + depth ?ch \<le> length (path ?C @ ptr ?ch # rest1)"
      using Bin.prems(5) by (simp add: rest) linarith
    have fl: "followed lt x ?C" using Bin.prems(4) False by (auto simp: followed_def)
    have "\<exists>C' t' rest'. find_loop lt m x (path ?C @ ptr ?ch # rest1) (length ?C + 1) = Some (path C' @ ptr t' # rest', length C' + 1) \<and>
      length (path C' @ ptr t' # rest') = length (path ?C @ ptr ?ch # rest1) \<and>
      plug t' C' = plug ?ch ?C \<and> t' \<noteq> Tip \<and> followed lt x C' \<and> (ptr t' = x \<or> side_of (\<not> lt x (ptr t')) t' = Tip)"
    proof (cases ?s)
      case True
      then have "?ch = r" by (simp add: side_of_def)
      with Bin.IH(2) [of ?C rest1] False Bin.prems pl fl len show ?thesis by auto
    next
      case False': False
      then have "?ch = l" by (simp add: side_of_def)
      with Bin.IH(1) [of ?C rest1] False Bin.prems pl fl len show ?thesis by auto
    qed
    then show ?thesis using e pl by (auto simp: rest)
  qed
qed simp

lemma sorted_frame:
  assumes "sorted_wrt R (before (Frame s c n y # C) @ after (Frame s c n y # C))"
  shows "sorted_wrt R (before C @ after C)" "s \<Longrightarrow> b \<in> set (inorder y) \<Longrightarrow> R b n" "\<not> s \<Longrightarrow> b \<in> set (inorder y) \<Longrightarrow> R n b"
  using assms by (cases s; simp add: sorted_wrt_append)+

lemma followed_splits:
  assumes "followed lt x C" "sorted_wrt (\<lambda>a b. lt x a \<longrightarrow> lt x b) (before C @ after C)"
  shows "(\<forall>n \<in> set (before C). \<not> lt x n) \<and> (\<forall>n \<in> set (after C). lt x n)"
  using assms
proof (induction C rule: before.induct)
  case (2 s c n y C)
  note sf = sorted_frame [OF "2.prems"(2)]
  have fl: "followed lt x C" "s = (\<not> lt x n)" using "2.prems"(1) by (simp_all add: followed_def)
  have IH: "\<not> lt x b" if "b \<in> set (before C)" for b using "2.IH" [OF fl(1) sf(1)] that by blast
  have IH': "lt x b" if "b \<in> set (after C)" for b using "2.IH" [OF fl(1) sf(1)] that by blast
  show ?case
  proof (cases s)
    case True
    then show ?thesis using IH IH' sf(2) fl(2) by fastforce
  next
    case False
    then show ?thesis using IH IH' sf(3) fl(2) by fastforce
  qed
qed simp

lemma followed_in:
  assumes "followed lt x C" "sorted_wrt (\<lambda>a b. lt a b \<and> \<not> lt b a) (inorder (plug t C))" "x \<in> set (inorder (plug t C))"
  shows "x \<in> set (inorder t)"
  using assms
proof (induction C arbitrary: t rule: before.induct)
  case (2 s c n y C)
  let ?t = "bin s c t n y"
  have x: "x \<in> set (inorder ?t)" using "2.IH" [of ?t] "2.prems" by (auto simp: followed_def simp del: bin_not)
  have "sorted_wrt (\<lambda>a b. lt a b \<and> \<not> lt b a) (inorder ?t)"
    using 2(3) by (simp add: inorder_plug sorted_wrt_append)
  then show ?case using x 2(2) by (auto simp: followed_def inorder_bin sorted_wrt_append split: if_splits)
qed simp

section \<open>Insertion\<close>

text \<open>The tree in memory has the given nodes, in this order.\<close>

definition rb_holds :: "rbmem \<Rightarrow> rbtree \<Rightarrow> uptr list \<Rightarrow> bool" where
  "rb_holds m tree ns \<longleftrightarrow> nodes_ok ns \<and> (\<exists>T. holds (cell m) T \<and> root tree = ptr T \<and> good (max_depth tree) ns T)"

definition rb_place :: "(uptr \<Rightarrow> uptr \<Rightarrow> bool) \<Rightarrow> uptr \<Rightarrow> uptr list \<Rightarrow> uptr list" where
  "rb_place lt x ns = takeWhile (\<lambda>n. \<not> lt x n) ns @ x # dropWhile (\<lambda>n. \<not> lt x n) ns"

lemma rb_place_split:
  assumes "\<forall>n \<in> set as. \<not> lt x n" "\<forall>n \<in> set bs. lt x n"
  shows "rb_place lt x (as @ bs) = as @ x # bs"
  using assms by (cases bs) (simp_all add: rb_place_def takeWhile_append2 dropWhile_append2 takeWhile_eq_all_conv [THEN iffD2] dropWhile_eq_Nil_conv [THEN iffD2])

lemma insert_links:
  assumes "holds (cell m) (plug Tip (Frame s c p y # C))" "nodes_ok (inorder (plug Tip (Frame s c p y # C)))"
    and "x \<notin> set (inorder (plug Tip (Frame s c p y # C)))" "aligned x"
  shows "holds (cell (set_color x RED (set_child p s x (set_child x True 0 (set_child x False 0 m)))))
    (plug (Bin RED Tip x Tip) (Frame s c p y # C))"
  using assms by (auto simp: holds_plug cell_set_color cell_set_child get_of_cell nodes_ok_append nodes_ok_Cons inorder_plug inorder_bin)

lemma find_and_stack_spec:
  assumes "holds (cell m) T" "nodes_ok (inorder T)" "T \<noteq> Tip" "root tree = ptr T" "depth T \<le> max_depth tree"
  obtains C t rest where
    "find_and_stack lt m tree x (map junk [0..<max_depth tree + 1]) = Some (path C @ ptr t # rest, length C + 1)"
    "length C + length rest = max_depth tree" "plug t C = T" "t \<noteq> Tip" "followed lt x C"
    "ptr t = x \<or> side_of (\<not> lt x (ptr t)) t = Tip"
proof -
  define js where "js = map junk [1..<max_depth tree + 1]"
  have js: "length js = max_depth tree" by (simp add: js_def del: upt_Suc)
  have "map junk [0..<max_depth tree + 1] = junk 0 # js" by (simp add: js_def upt_conv_Cons del: upt_Suc)
  then have e: "find_and_stack lt m tree x (map junk [0..<max_depth tree + 1]) = find_loop lt m x (ptr T # js) 1"
    by (simp add: find_and_stack_def stack_put_def assms(4) del: upt_Suc)
  have "followed lt x []" by (simp add: followed_def)
  with find_loop_spec [of m T "[]" lt x js] assms(1-3,5) js obtain C t rest where
    "find_loop lt m x (ptr T # js) 1 = Some (path C @ ptr t # rest, length C + 1)"
    "length (path C @ ptr t # rest) = length (ptr T # js)" "plug t C = T" "t \<noteq> Tip" "followed lt x C"
    "ptr t = x \<or> side_of (\<not> lt x (ptr t)) t = Tip" by auto
  then show ?thesis using that [of C t rest, unfolded e] js by simp
qed

lemma fresh_links:
  assumes "x \<notin> set (inorder T)" "holds (cell m) T"
  shows "holds (cell (set_child x True 0 (set_child x False 0 m))) T"
  using assms by (simp add: cell_set_child)

lemma rb_insert_spec:
  assumes "rb_holds m tree ns" "x \<noteq> 0" "aligned x" "x \<notin> set ns" "sorted_wrt (\<lambda>a b. lt x a \<longrightarrow> lt x b) ns"
  shows "\<exists>tree' m'. rb_insert lt junk x tree m = Some (tree', m') \<and> rb_holds m' tree' (rb_place lt x ns) \<and>
    same_outside (insert x (set ns)) m m'"
proof -
  obtain T where T: "holds (cell m) T" "root tree = ptr T" "good (max_depth tree) ns T" and w: "nodes_ok ns"
    using assms(1) by (auto simp: rb_holds_def)
  have io: "inorder T = ns" "depth T \<le> max_depth tree" "rbv T" "black T" "2 * bh T \<le> max_depth tree + 1"
    using T(3) by (simp_all add: good_def)
  define m1 where "m1 = set_child x True 0 (set_child x False 0 m)"
  have h1: "holds (cell m1) T" unfolding m1_def using fresh_links assms(4) T(1) io(1) by blast
  show ?thesis
  proof (cases "T = Tip")
    case True
    have "holds (cell (set_color x BLACK m1)) (Bin BLACK Tip x Tip)"
      by (simp add: m1_def cell_set_color cell_set_child get_of_cell)
    then show ?thesis using T(2) io(1) True assms(2,3)
      by (auto simp: rb_insert_def m1_def [symmetric] rb_holds_def good_def rb_place_def nodes_ok_Cons
          intro!: exI [of _ "Bin BLACK Tip x Tip"]) (simp add: m1_def)
  next
    case False
    from find_and_stack_spec [OF h1 w [folded io(1)] False T(2) io(2)] obtain C t rest where
      f: "find_and_stack lt m1 tree x (map junk [0..<max_depth tree + 1]) = Some (path C @ ptr t # rest, length C + 1)"
        "length C + length rest = max_depth tree" "plug t C = T" "t \<noteq> Tip" "followed lt x C"
        "ptr t = x \<or> side_of (\<not> lt x (ptr t)) t = Tip" by blast
    let ?p = "ptr t" let ?s = "\<not> lt x ?p"
    have "?p \<in> set ns" using ptr_in [OF f(4)] f(3) io(1) by (auto simp: inorder_plug)
    then have px: "?p \<noteq> x" using assms(4) by blast
    obtain c y where t: "t = bin ?s c Tip ?p y" using bin_side_of [OF f(4), of ?s] f(6) px by auto
    define F where "F = Frame ?s c ?p y # C"
    have pF: "plug Tip F = T" using f(3) by (simp only: F_def plug.simps t [symmetric])
    define m2 where "m2 = set_color x RED (set_child ?p ?s x m1)"
    have h2: "holds (cell m2) (plug (Bin RED Tip x Tip) F)"
      unfolding m2_def m1_def F_def
      by (rule insert_links) (use T(1) w io(1) assms(3,4) pF in \<open>simp_all add: F_def\<close>)
    have ns: "before F @ after F = ns" using pF io(1) by (metis inorder_plug append_Nil inorder.simps(1))
    have "followed lt x F" using f(5) px by (simp add: F_def followed_def)
    then have pl: "before F @ x # after F = rb_place lt x ns"
      using followed_splits [of lt x F] rb_place_split [of "before F" lt x "after F"] assms(5) ns by simp
    have w2: "nodes_ok (inorder (plug (Bin RED Tip x Tip) F))"
      using w assms(2-4) by (auto simp: inorder_plug ns [symmetric] nodes_ok_append nodes_ok_Cons)
    have cok: "cok 0 F" using rbv_plug [of Tip F] io(3,4) by (simp add: pF)
    obtain q rest1 where rest: "rest = q # rest1"
      using f(2,4) io(2) depth_plug [of t C] by (cases rest) (auto simp: f(3))
    let ?K = "max (max_depth tree) (length F + 1)"
    have "repaired ?K (before F @ x # after F) (insert x (set ns)) m2 (fix_extra_red (path F @ x # rest1) (length F + 1) m2)"
    proof -
      have "depth (plug (Bin RED Tip x Tip) F) \<le> ?K" using io(2) pF depth_plug [of Tip F] by (simp add: depth_plug max.coboundedI1)
      moreover have "2 * blk F \<le> ?K + 1" using bh_plug [of Tip F] cok io(5) by (simp add: pF)
      ultimately show ?thesis
        using fix_extra_red_spec [of "Bin RED Tip x Tip" F m2 ?K rest1] cok h2 w2 by (simp add: inorder_plug ns [symmetric])
    qed
    then obtain st m3 T' where r: "fix_extra_red (path F @ x # rest1) (length F + 1) m2 = Some (st, m3)"
      "holds (cell m3) T'" "good ?K (rb_place lt x ns) T'" "st ! 0 = ptr T'" "same_outside (insert x (set ns)) m2 m3"
      by (auto simp: repaired_def pl)
    let ?tree = "(if length C + 1 + 1 > max_depth tree then tree\<lparr>max_depth := length C + 1 + 1\<rparr> else tree)\<lparr>root := st ! 0\<rparr>"
    have "rb_insert lt junk x tree m = Some (?tree, m3)"
    proof -
      have "root tree \<noteq> 0" using T(2) False ptr_0 [of T] w io(1) by simp
      moreover have "stack_put (length C + 1) x (path C @ ?p # q # rest1) = Some (path F @ x # rest1)"
        by (simp add: stack_put_def F_def list_update_append)
      ultimately show ?thesis using f(1) r(1)
        by (simp add: rb_insert_def m1_def [symmetric] m2_def [symmetric] nth_append rest Let_def F_def del: upt_Suc)
    qed
    moreover have "rb_holds m3 ?tree (rb_place lt x ns)"
      using r(2-4) w2 [unfolded inorder_plug, simplified, unfolded pl] by (auto simp: rb_holds_def F_def max_def split: if_splits)
    moreover have "same_outside (insert x (set ns)) m m3"
      by (rule same_outside_trans [OF _ r(5)]) (use \<open>?p \<in> set ns\<close> in \<open>simp add: m2_def m1_def\<close>)
    ultimately show ?thesis by blast
  qed
qed

end
