(* ===== verification/Rbtree_Remove.thy ===== *)
theory Rbtree_Remove
  imports Rbtree_Insert
begin

text \<open>
  Removal from the red-black tree: the repair of a subtree that lacks a black node, with the node to be
  removed standing in for an empty subtree, the swap with the next lower node, and \<open>rb_remove\<close>.
\<close>

section \<open>A missing black\<close>

text \<open>
  The subtree \<open>u\<close> lacks a black node; in memory it is \<open>t\<close>, which is \<open>u\<close> itself or, when \<open>u\<close> is empty,
  the node \<open>z\<close> that is still to be unlinked.
\<close>

definition stands_for :: "uptr \<Rightarrow> atree \<Rightarrow> atree \<Rightarrow> bool" where
  "stands_for z t u \<longleftrightarrow> t = u \<and> u \<noteq> Tip \<and> ptr u \<noteq> z \<or> u = Tip \<and> t = Bin BLACK Tip z Tip"

definition missing :: "nat \<Rightarrow> uptr \<Rightarrow> atree \<Rightarrow> atree \<Rightarrow> frame list \<Rightarrow> rbmem \<Rightarrow> bool" where
  "missing K z u t C m \<longleftrightarrow> stands_for z t u \<and> rbv u \<and> black u \<and> cok (bh u + 1) C \<and>
     nodes_ok (inorder (plug t C)) \<and> holds (cell m) (plug t C) \<and> depth (plug t C) \<le> K \<and> 2 * (bh u + 1 + blk C) \<le> K + 1 \<and>
     z \<notin> set (before C @ after C)"

lemma missingD:
  assumes "missing K z u t C m"
  shows "stands_for z t u" "rbv u" "black u" "cok (bh u + 1) C" "nodes_ok (inorder (plug t C))"
    "holds (cell m) (plug t C)" "depth (plug t C) \<le> K" "2 * (bh u + 1 + blk C) \<le> K + 1" "t \<noteq> Tip"
    "z \<notin> set (before C @ after C)"
  using assms by (auto simp: missing_def stands_for_def)

lemma stands_depth: "stands_for z t u \<Longrightarrow> rbv u \<Longrightarrow> black u \<Longrightarrow> depth t \<le> max 1 (2 * bh u)" "stands_for z t u \<Longrightarrow> depth u \<le> depth t"
  using depth_bh [of u] by (auto simp: stands_for_def)

lemma stands_nodes: "stands_for z t u \<Longrightarrow> set (inorder u) \<subseteq> set (inorder t)"
  by (auto simp: stands_for_def)

lemma set_color_commute: "p \<noteq> q \<Longrightarrow> set_color p a (set_color q b m) = set_color q b (set_color p a m)"
  by (auto simp: set_color_def fun_eq_iff)

lemma child_black:
  assumes "holds (cell m) t" "nodes_ok (inorder t)"
  shows "ptr t = 0 \<or> is_black m (ptr t) \<longleftrightarrow> black t" "ptr t \<noteq> 0 \<and> is_red m (ptr t) \<longleftrightarrow> \<not> black t"
  using assms by (cases t; auto simp: is_black_def is_red_def get_of_cell nodes_ok_append nodes_ok_Cons)+

lemma split_sibling:
  assumes "missing K z u t (Frame s c p sib # C) m"
  obtains d si q so where "sib = bin s d si q so" "rbv si" "rbv so" "bh si = bh so" "bh si + (if d = BLACK then 1 else 0) = bh u + 1"
    "d = RED \<longrightarrow> black si \<and> black so \<and> c = BLACK"
proof -
  have b: "rbv sib" "bh sib = bh u + 1" "c = RED \<longrightarrow> black sib" using missingD(4) [OF assms] by simp_all
  then obtain d l q r where sib: "sib = Bin d l q r" by (cases sib) auto
  show ?thesis
    by (rule that [of d "if s then r else l" q "if s then l else r"]) (use b sib in \<open>auto simp: bin_def split: if_splits\<close>)
qed

lemma drop_null:
  assumes "stands_for z t u" "holds (cell m) (plug t (Frame s c p y # C))" "nodes_ok (inorder (plug t (Frame s c p y # C)))"
  shows "holds (cell (if ptr t = z then set_child p s 0 m else m)) (plug u (Frame s c p y # C))"
    and "nodes_ok (inorder (plug u (Frame s c p y # C)))"
  using assms by (auto simp: stands_for_def holds_plug cell_set_child get_of_cell nodes_ok_plug nodes_ok_bin)

lemma read_missing:
  assumes "missing K z u t (Frame s c p y # C) m"
  shows "get_side m p (ptr t) = s" "get_child m p (\<not> s) = ptr y" "get_color m p = c"
    "holds (cell m) y" "nodes_ok (inorder y)"
proof -
  note M = missingD [OF assms]
  show "get_side m p (ptr t) = s" "get_child m p (\<not> s) = ptr y" "get_color m p = c" "nodes_ok (inorder y)"
    using read_frame [OF M(6,5,9)] by simp_all
  show "holds (cell m) y" using M(6) by (simp add: holds_plug)
qed

lemma red_sibling_spec:
  assumes M: "missing K z u t (Frame s BLACK p (bin s RED si q so) # C) m"
    and "rbv si" "rbv so" "black si" "black so" "bh si = bh u + 1" "bh so = bh u + 1" "length C + 2 + length rest = K + 1"
  obtains m' rest' where
    "red_sibling (path C @ p # ptr t # rest) (length C + 2) (ptr t) s p q m = Some (path C @ q # p # ptr t # rest', length C + 3, p, ptr si, m')"
    "missing K z u t (Frame s RED p si # Frame s BLACK q so # C) m'" "length rest = length rest' + 1"
    "same_outside (set (inorder (plug t (Frame s BLACK p (bin s RED si q so) # C)))) m m'"
proof -
  note D = missingD [OF M]
  let ?s = "\<not> s"
  let ?T = "plug (bin ?s BLACK (bin ?s RED so q si) p t) C"
  have T: "plug t (Frame s BLACK p (bin s RED si q so) # C) = ?T" by simp
  from rotate_recolor [OF D(5,6) [unfolded T], of rest RED BLACK] obtain m1 where
    r: "rb_rotate (path C @ p # q # rest) (length C + 2) m = (path C @ q # p # rest, m1)"
    "holds (cell (set_color p RED (set_color q BLACK m1))) (plug (bin ?s BLACK so q (bin ?s RED si p t)) C)"
    "same_outside (set (inorder ?T)) m (set_color p RED (set_color q BLACK m1))" by blast
  have pq: "p \<noteq> q" using D(5) by (auto simp: nodes_ok_plug nodes_ok_bin)
  define m' where "m' = set_color q BLACK (set_color p RED m1)"
  have m': "m' = set_color p RED (set_color q BLACK m1)" using pq by (simp add: m'_def set_color_commute)
  have "depth si \<ge> 1" using assms(6) by (cases si) auto
  then have "length C + 3 \<le> K" using D(7) by (simp add: depth_plug) linarith
  then obtain x rest' where rest: "rest = x # rest'" using assms(8) by (cases rest) auto
  have child: "get_child m' p (\<not> s) = ptr si"
    using r(2) by (cases s) (simp_all add: holds_plug m' get_of_cell)
  have "red_sibling (path C @ p # ptr t # rest) (length C + 2) (ptr t) s p q m = Some (path C @ q # p # ptr t # rest', length C + 3, p, ptr si, m')"
    using child by (simp add: red_sibling_def list_update_append r(1) [unfolded rest, simplified] m'_def [symmetric] stack_put_def rest nth_append Let_def numeral_3_eq_3)
  moreover have "missing K z u t (Frame s RED p si # Frame s BLACK q so # C) m'"
  proof -
    have e: "plug t (Frame s RED p si # Frame s BLACK q so # C) = plug (bin ?s BLACK so q (bin ?s RED si p t)) C" by simp
    have "length C + 2 + depth t \<le> K"
      using stands_depth(1) [OF D(1-3)] length_ctx(1) [of "bh u + 2" C] D(4,8) by simp
    then have "depth (plug t (Frame s RED p si # Frame s BLACK q so # C)) \<le> K"
      using D(7) by (simp add: depth_plug) linarith
    moreover have "nodes_ok (inorder (plug t (Frame s RED p si # Frame s BLACK q so # C)))"
      using D(5) unfolding e T by (simp only: inorder_rotate [of ?s BLACK so q RED si p t C BLACK RED])
    ultimately show ?thesis
      using D r(2) assms(2-7) unfolding missing_def e [symmetric] by (auto simp: m' split: if_splits)
  qed
  ultimately show ?thesis using that r(3) rest by (simp add: m' T)
qed

lemma red_inner_spec:
  fixes s c p a i b q so C t
  defines "T \<equiv> plug t (Frame s c p (bin s BLACK (bin s RED a i b) q so) # C)"
  assumes "holds (cell m) T" "nodes_ok (inorder T)"
  obtains m' where
    "red_inner (path C @ p # ptr t # x # rest) (length C + 2) (ptr t) s q m = Some (path C @ p # ptr t # q # rest, i, q, m')"
    "holds (cell m') (plug t (Frame s c p (bin s BLACK a i (bin s RED b q so)) # C))"
    "nodes_ok (inorder (plug t (Frame s c p (bin s BLACK a i (bin s RED b q so)) # C)))"
    "same_outside (set (inorder T)) m m'"
proof -
  let ?D = "Frame (\<not> s) c p t # C"
  have T: "T = plug (bin s BLACK (bin s RED a i b) q so) ?D" by (simp add: T_def)
  from rotate_recolor [OF assms(3,2) [unfolded T], of rest RED BLACK] obtain m1 where
    r: "rb_rotate (path ?D @ q # i # rest) (length ?D + 2) m = (path ?D @ i # q # rest, m1)"
    "holds (cell (set_color q RED (set_color i BLACK m1))) (plug (bin s BLACK a i (bin s RED b q so)) ?D)"
    "same_outside (set (inorder T)) m (set_color q RED (set_color i BLACK m1))" unfolding T by blast
  have iq: "i \<noteq> q" using assms(3) by (auto simp: T nodes_ok_plug nodes_ok_bin)
  define m' where "m' = set_color i BLACK (set_color q RED m1)"
  have m': "m' = set_color q RED (set_color i BLACK m1)" using iq by (simp add: m'_def set_color_commute)
  have inner: "get_child m q s = i" using assms(2) by (cases s) (simp_all add: T holds_plug get_of_cell)
  have child: "get_child m' i (\<not> s) = q" using r(2) by (cases s) (simp_all add: holds_plug m' get_of_cell)
  show ?thesis
  proof (rule that)
    show "red_inner (path C @ p # ptr t # x # rest) (length C + 2) (ptr t) s q m = Some (path C @ p # ptr t # q # rest, i, q, m')"
      using child by (simp add: red_inner_def inner stack_put_def list_update_append nth_append r(1) [simplified] m'_def [symmetric] Let_def)
    show "holds (cell m') (plug t (Frame s c p (bin s BLACK a i (bin s RED b q so)) # C))" using r(2) by (simp add: m')
    show "nodes_ok (inorder (plug t (Frame s c p (bin s BLACK a i (bin s RED b q so)) # C)))"
      using assms(3) inorder_rotate [of s BLACK a i RED b q so ?D BLACK RED] by (simp add: T)
    show "same_outside (set (inorder T)) m m'" using r(3) by (simp add: m')
  qed
qed

lemma missing_rotate_spec:
  fixes s c p x q l o' r C t
  defines "T \<equiv> plug t (Frame s c p (bin s BLACK x q (bin s RED l o' r)) # C)"
  assumes "holds (cell m) T" "nodes_ok (inorder T)" "stands_for z t u"
  obtains m' where
    "missing_rotate (path C @ p # ptr t # rest) (length C + 2) (ptr t) s p q o' z m = (path C @ q # p # rest, m')"
    "holds (cell m') (plug (bin s c (bin s BLACK u p x) q (bin s BLACK l o' r)) C)" "same_outside (set (inorder T)) m m'"
proof -
  let ?O = "bin s BLACK l o' r" let ?s = "\<not> s"
  let ?T1 = "plug (bin ?s BLACK (bin ?s c ?O q x) p t) C"
  define m1 where "m1 = set_color o' BLACK (set_color p BLACK (set_color q (get_color m p) m))"
  have tT: "t \<noteq> Tip" using assms(4) by (auto simp: stands_for_def)
  have col: "get_color m p = c" using read_frame(4) assms(2,3) tT unfolding T_def by blast
  have h1: "holds (cell m1) ?T1"
    using assms(2,3) unfolding m1_def col by (auto simp: T_def holds_plug cell_set_color get_of_cell nodes_ok_plug nodes_ok_bin)
  have w1: "nodes_ok (inorder ?T1)" using assms(3) by (auto simp: T_def nodes_ok_plug nodes_ok_bin)
  from rotate_spec [OF w1 h1, of rest] obtain m2 where
    r: "rb_rotate (path C @ p # q # rest) (length C + 2) m1 = (path C @ q # p # rest, m2)"
    "holds (cell m2) (plug (bin ?s c ?O q (bin ?s BLACK x p t)) C)" "same_outside (set (inorder ?T1)) m1 m2" by blast
  let ?D = "Frame s BLACK p x # Frame s c q ?O # C"
  have e: "plug v ?D = plug (bin s c (bin s BLACK v p x) q ?O) C" for v by simp
  have w2: "nodes_ok (inorder (plug t ?D))"
    using w1 inorder_rotate [of ?s c ?O q BLACK x p t C BLACK c] by simp
  have set: "set (inorder ?T1) = set (inorder T)" by (simp add: T_def inorder_plug)
  have "missing_rotate (path C @ p # ptr t # rest) (length C + 2) (ptr t) s p q o' z m =
      (path C @ q # p # rest, if ptr t = z then set_child p s 0 m2 else m2)"
    by (simp add: missing_rotate_def m1_def [symmetric] list_update_append r(1) [simplified])
  moreover have "holds (cell (if ptr t = z then set_child p s 0 m2 else m2)) (plug (bin s c (bin s BLACK u p x) q ?O) C)"
    using drop_null(1) [OF assms(4), of m2 s BLACK p x "Frame s c q ?O # C"] r(2) w2 by simp
  moreover have "same_outside (set (inorder T)) m (if ptr t = z then set_child p s 0 m2 else m2)"
  proof -
    have "same_outside (set (inorder T)) m m1" by (simp add: m1_def T_def inorder_plug)
    from same_outside_trans [OF this r(3) [unfolded set]] show ?thesis by (simp add: T_def inorder_plug)
  qed
  ultimately show ?thesis using that by blast
qed

lemma black_sibling_unfold:
  fixes rest
  assumes M: "missing K z u t (Frame s c p (bin s BLACK si q so) # C) m"
  defines "st \<equiv> path C @ p # ptr t # rest"
  shows "fix_missing_black st (length C + 2) z m =
    (if black si \<and> black so
     then let m2 = set_color q RED (if ptr t = z then set_child p s 0 m else m)
          in if c = BLACK then fix_missing_black st (length C + 1) z m2 else Some (st, set_color p BLACK m2)
     else do {
       (stack, sib, outer, m) \<leftarrow>
         (if black so then red_inner st (length C + 2) (ptr t) s q m else Some (st, q, ptr so, m));
       Some (missing_rotate stack (length C + 2) (ptr t) s p sib outer z m)
     })"
proof -
  note R = read_missing [OF M] and D = missingD [OF M]
  have q: "is_black m q" "get_child m q s = ptr si" "get_child m q (\<not> s) = ptr so" "holds (cell m) si" "holds (cell m) so"
    "nodes_ok (inorder si)" "nodes_ok (inorder so)"
    using R(4,5) by (cases s; simp add: is_black_def get_of_cell nodes_ok_bin)+
  have pq: "p \<noteq> q" using D(5) by (auto simp: nodes_ok_plug nodes_ok_bin)
  have both: "(get_child m q False = 0 \<or> is_black m (get_child m q False)) \<and> (get_child m q True = 0 \<or> is_black m (get_child m q True)) \<longleftrightarrow>
      black si \<and> black so"
    using child_black(1) [OF q(4,6)] child_black(1) [OF q(5,7)] q(2,3) by (cases s) auto
  have outer: "\<not> (ptr so \<noteq> 0 \<and> is_red m (ptr so)) \<longleftrightarrow> black so"
    using child_black(2) [OF q(5,7)] by simp
  have col: "is_black (set_color q RED (if ptr t = z then set_child p s 0 m else m)) p \<longleftrightarrow> c = BLACK"
    using R(3) pq by (auto simp: is_black_def get_of_cell cell_set_color cell_set_child)
  have idx: "st ! (length C + 1) = ptr t" "st ! (length C + 2 - 2) = p" "length C + 2 > 1" "length C + 2 - 1 = length C + 1"
    by (simp_all add: st_def nth_append)
  show ?thesis
    by (subst fix_missing_black.simps)
      (simp only: idx Let_def R(1,2) ptr_bin q(1) not_True_eq_False if_False if_True Option.bind.bind_lunit prod.case both outer col q(3))
qed

lemma far_rotation_good:
  assumes M: "missing K z u t (Frame s c p sib # C) m"
    and "rbv x" "bh x = bh u" "rbv y" "black y" "bh y = bh u + 1" "depth x + 1 \<le> depth sib" "depth y \<le> depth sib"
    and "inorder sib = inorder (bin s BLACK x q y)"
  shows "good K (before (Frame s c p sib # C) @ inorder u @ after (Frame s c p sib # C)) (plug (bin s c (bin s BLACK u p x) q y) C)"
proof -
  note D = missingD [OF M]
  let ?t = "bin s c (bin s BLACK u p x) q y"
  have "length C + 2 + depth u \<le> K"
    using depth_bh [OF D(2)] D(3,4,8) length_ctx [of "bh u + 1 + (if c = BLACK then 1 else 0)" C] by (cases c) auto
  moreover have "length C + 1 + depth sib \<le> K" "cdepth C \<le> K" using D(7) by (simp_all add: depth_plug) linarith
  ultimately have "depth (plug ?t C) \<le> K" using assms(7,8) by (simp add: depth_plug)
  moreover have "rbv (plug ?t C) \<and> black (plug ?t C)"
    using rbv_plug [of ?t C] assms(2-6) D(2-4) by auto
  moreover have "2 * bh (plug ?t C) \<le> K + 1"
    using bh_plug [of ?t C] assms(3,6) D(4,8) by (cases c) auto
  moreover have "inorder (plug ?t C) = before (Frame s c p sib # C) @ inorder u @ after (Frame s c p sib # C)"
    using assms(9) by (simp add: inorder_plug inorder_bin)
  ultimately show ?thesis by (simp add: good_def)
qed

lemma repairedI':
  assumes "r = Some (path C @ ptr t # rest, m')" "holds (cell m') (plug t C)" "good K ns (plug t C)" "same_outside A m m'"
  shows "repaired K ns A m r"
  unfolding repaired_def using assms root_path [of C t rest] by blast

lemma red_child_spec:
  assumes M: "missing K z u t (Frame s c p (bin s BLACK si q so) # C) m"
    and "\<not> (black si \<and> black so)" "length C + 2 + length rest = K + 1"
  defines "F \<equiv> Frame s c p (bin s BLACK si q so) # C"
  shows "repaired K (before F @ inorder u @ after F) (set (inorder (plug t F))) m (fix_missing_black (path C @ p # ptr t # rest) (length C + 2) z m)"
proof -
  note D = missingD [OF M] and un = black_sibling_unfold [OF M, of rest]
  have sib: "rbv si" "rbv so" "bh si = bh u" "bh so = bh u" using D(4) by auto
  show ?thesis
  proof (cases "black so")
    case False
    then obtain l o' r where so: "so = bin s RED l o' r" by (cases so) (auto simp: Bin_bin [of _ _ _ _ s])
    from missing_rotate_spec [OF D(6,5,1) [unfolded so], of rest] obtain m' where
      r: "missing_rotate (path C @ p # ptr t # rest) (length C + 2) (ptr t) s p q o' z m = (path C @ q # p # rest, m')"
      "holds (cell m') (plug (bin s c (bin s BLACK u p si) q (bin s BLACK l o' r)) C)"
      "same_outside (set (inorder (plug t F))) m m'" by (auto simp: F_def so)
    show ?thesis
    proof (rule repairedI' [where t = "bin s c (bin s BLACK u p si) q (bin s BLACK l o' r)"])
      show "good K (before F @ inorder u @ after F) (plug (bin s c (bin s BLACK u p si) q (bin s BLACK l o' r)) C)"
        unfolding F_def by (rule far_rotation_good [OF M]) (use sib so in \<open>auto simp: inorder_bin\<close>)
    qed (use un False so r in auto)
  next
    case True
    then obtain a i b where si: "si = bin s RED a i b" using assms(2) by (cases si) (auto simp: Bin_bin [of _ _ _ _ s])
    have "length C + 3 \<le> K" using D(7) by (simp add: depth_plug si) linarith
    then obtain x rest' where rest: "rest = x # rest'" using assms(3) by (cases rest) auto
    from red_inner_spec [OF D(6,5) [unfolded si], of x rest'] obtain m1 where
      r1: "red_inner (path C @ p # ptr t # x # rest') (length C + 2) (ptr t) s q m = Some (path C @ p # ptr t # q # rest', i, q, m1)"
      "holds (cell m1) (plug t (Frame s c p (bin s BLACK a i (bin s RED b q so)) # C))"
      "nodes_ok (inorder (plug t (Frame s c p (bin s BLACK a i (bin s RED b q so)) # C)))"
      "same_outside (set (inorder (plug t F))) m m1" by (auto simp: F_def si)
    from missing_rotate_spec [OF r1(2,3) D(1), of "q # rest'"] obtain m' where
      r: "missing_rotate (path C @ p # ptr t # q # rest') (length C + 2) (ptr t) s p i q z m1 = (path C @ i # p # q # rest', m')"
      "holds (cell m') (plug (bin s c (bin s BLACK u p a) i (bin s BLACK b q so)) C)"
      "same_outside (set (inorder (plug t (Frame s c p (bin s BLACK a i (bin s RED b q so)) # C)))) m1 m'" by blast
    have set: "set (inorder (plug t (Frame s c p (bin s BLACK a i (bin s RED b q so)) # C))) = set (inorder (plug t F))"
      by (auto simp: F_def si inorder_plug)
    show ?thesis
    proof (rule repairedI' [where t = "bin s c (bin s BLACK u p a) i (bin s BLACK b q so)"])
      show "good K (before F @ inorder u @ after F) (plug (bin s c (bin s BLACK u p a) i (bin s BLACK b q so)) C)"
        unfolding F_def by (rule far_rotation_good [OF M]) (use sib si in \<open>auto simp: inorder_bin\<close>)
      show "same_outside (set (inorder (plug t F))) m m'" using same_outside_trans [OF r1(4) r(3) [unfolded set]] .
    qed (use un True si r r1(1) rest in auto)
  qed
qed

lemma recolor_spec:
  assumes M: "missing K z u t (Frame s c p (bin s BLACK si q so) # C) m"
  defines "F \<equiv> Frame s c p (bin s BLACK si q so) # C"
    and "m2 \<equiv> set_color q RED (if ptr t = z then set_child p s 0 m else m)"
    and "v \<equiv> (\<lambda>d. bin s d u p (bin s RED si q so))"
  shows "holds (cell m2) (plug (v c) C)" "inorder (plug (v d) C) = before F @ inorder u @ after F"
    "nodes_ok (inorder (plug (v d) C))" "same_outside (set (inorder (plug t F))) m m2" "depth (plug (v d) C) \<le> K"
proof -
  note D = missingD [OF M] and N = drop_null [OF missingD(1,6,5) [OF M]]
  let ?D = "Frame (\<not> s) c p u # C"
  have e: "plug w ?D = plug u (Frame s c p w # C)" for w by simp
  show "holds (cell m2) (plug (v c) C)"
    using recolor_focus [of _ s BLACK si q so ?D RED] N unfolding m2_def v_def e by simp
  show io: "inorder (plug (v d) C) = before F @ inorder u @ after F" for d
    by (simp add: v_def F_def inorder_plug inorder_bin)
  show "nodes_ok (inorder (plug (v d) C))" using N(2) unfolding io by (cases s) (simp_all add: F_def inorder_plug inorder_bin)
  show "same_outside (set (inorder (plug t F))) m m2" by (simp add: m2_def F_def inorder_plug)
  show "depth (plug (v d) C) \<le> K"
    using D(7) stands_depth(2) [OF D(1)] by (simp add: v_def depth_plug) linarith
qed

lemma recolor_ends:
  assumes M: "missing K z u t (Frame s RED p (bin s BLACK si q so) # C) m" and "black si" "black so"
  defines "F \<equiv> Frame s RED p (bin s BLACK si q so) # C"
  shows "repaired K (before F @ inorder u @ after F) (set (inorder (plug t F))) m
    (fix_missing_black (path C @ p # ptr t # rest) (length C + 2) z m)"
proof -
  note R = recolor_spec [OF M, folded F_def] and D = missingD [OF M]
  let ?m2 = "set_color q RED (if ptr t = z then set_child p s 0 m else m)" and ?v = "bin s BLACK u p (bin s RED si q so)"
  have ok: "rbv (plug ?v C) \<and> black (plug ?v C)" "bh (plug ?v C) = bh u + 1 + blk C"
    using rbv_plug [of ?v C] bh_plug [of ?v C] D(2,4) assms(2,3) by auto
  show ?thesis
  proof (rule repairedI' [where t = ?v])
    show "fix_missing_black (path C @ p # ptr t # rest) (length C + 2) z m = Some (path C @ ptr ?v # ptr t # rest, set_color p BLACK ?m2)"
      unfolding black_sibling_unfold [OF M] using assms(2,3) by (simp add: Let_def)
    show "holds (cell (set_color p BLACK ?m2)) (plug ?v C)"
      by (rule recolor_focus [OF R(1) R(3) [of RED]])
    show "good K (before F @ inorder u @ after F) (plug ?v C)"
      using ok R(2) [of BLACK] R(5) [of BLACK] D(8) by (simp add: good_def)
    show "same_outside (set (inorder (plug t F))) m (set_color p BLACK ?m2)"
      using R(4) by (simp add: F_def inorder_plug)
  qed
qed

lemma recolor_goes_up:
  assumes M: "missing K z u t (Frame s BLACK p (bin s BLACK si q so) # C) m" and "black si" "black so"
  defines "F \<equiv> Frame s BLACK p (bin s BLACK si q so) # C" and "v \<equiv> bin s BLACK u p (bin s RED si q so)"
  obtains m2 where "missing K z v v C m2" "same_outside (set (inorder (plug t F))) m m2"
    "fix_missing_black (path C @ p # ptr t # rest) (length C + 2) z m = fix_missing_black (path C @ ptr v # ptr t # rest) (length C + 1) z m2"
    "before C @ inorder v @ after C = before F @ inorder u @ after F" "set (inorder (plug v C)) \<subseteq> set (inorder (plug t F))"
proof -
  note R = recolor_spec [OF M, folded F_def] and D = missingD [OF M]
  let ?m2 = "set_color q RED (if ptr t = z then set_child p s 0 m else m)"
  have m: "missing K z v v C ?m2"
    unfolding missing_def
    using D(2-4,8,10) R(1) R(3,5) [of BLACK] assms(2,3) by (auto simp: v_def stands_for_def split: if_splits)
  have e: "fix_missing_black (path C @ p # ptr t # rest) (length C + 2) z m = fix_missing_black (path C @ ptr v # ptr t # rest) (length C + 1) z ?m2"
    unfolding black_sibling_unfold [OF M] v_def using assms(2,3) by (simp add: Let_def)
  have sub: "set (inorder (plug v C)) \<subseteq> set (inorder (plug t F))"
    using stands_nodes [OF D(1)] by (auto simp: v_def F_def inorder_plug)
  have io: "before C @ inorder v @ after C = before F @ inorder u @ after F"
    using R(2) [of BLACK] by (simp add: v_def inorder_plug)
  show ?thesis by (rule that [OF m R(4) e io sub])
qed

lemma red_sibling_unfold:
  assumes M: "missing K z u t (Frame s BLACK p (bin s RED si q so) # C) m"
    and "red_sibling (path C @ p # ptr t # rest) (length C + 2) (ptr t) s p q m = Some (path C @ q # p # ptr t # rest', length C + 3, p, ptr si, m')"
    and M': "missing K z u t (Frame s RED p si # Frame s BLACK q so # C) m'" and "black si"
  shows "fix_missing_black (path C @ p # ptr t # rest) (length C + 2) z m = fix_missing_black (path C @ q # p # ptr t # rest') (length C + 3) z m'"
proof -
  note R = read_missing [OF M] and R' = read_missing [OF M']
  have q: "\<not> is_black m q" using R(4) by (simp add: is_black_def get_of_cell)
  have "si \<noteq> Tip" using missingD(4) [OF M'] by auto
  then have q': "is_black m' (ptr si)" using child_black(1) [OF R'(4,5)] assms(4) ptr_0 [OF R'(5)] by simp
  have idx: "(path C @ p # ptr t # rest) ! (length C + 2 - 1) = ptr t" "(path C @ p # ptr t # rest) ! (length C + 2 - 2) = p" "length C + 2 > 1"
    "(path C @ q # p # ptr t # rest') ! (length C + 3 - 1) = ptr t" "(path C @ q # p # ptr t # rest') ! (length C + 3 - 2) = p" "length C + 3 > 1"
    by (simp_all add: nth_append)
  show ?thesis
    by (subst (1 2) fix_missing_black.simps)
      (simp only: idx Let_def R(1,2) R'(1,2) ptr_bin q q' not_False_eq_True not_True_eq_False if_False if_True assms(2) Option.bind.bind_lunit prod.case)
qed

lemma same_outside_mono: "same_outside A m m' \<Longrightarrow> A \<subseteq> B \<Longrightarrow> same_outside B m m'"
  unfolding same_outside_def by blast

lemma repaired_mono: "repaired K ns A m r \<Longrightarrow> A \<subseteq> B \<Longrightarrow> repaired K ns B m r"
  unfolding repaired_def same_outside_def by blast

lemma red_sibling_repaired:
  fixes s p si q so B rest
  assumes M: "missing K z u t (Frame s BLACK p (bin s RED si q so) # B) m"
    and b: "rbv si" "rbv so" "black si" "black so" "bh si = bh u + 1" "bh so = bh u + 1" "length B + 2 + length rest = K + 1"
  defines "C \<equiv> Frame s BLACK p (bin s RED si q so) # B"
  shows "repaired K (before C @ inorder u @ after C) (set (inorder (plug t C))) m (fix_missing_black (path B @ p # ptr t # rest) (length B + 2) z m)"
proof -
  from red_sibling_spec [OF M b] obtain m' rest' where
    g: "red_sibling (path B @ p # ptr t # rest) (length B + 2) (ptr t) s p q m = Some (path B @ q # p # ptr t # rest', length B + 3, p, ptr si, m')"
    "missing K z u t (Frame s RED p si # Frame s BLACK q so # B) m'" "length rest = length rest' + 1"
    "same_outside (set (inorder (plug t C))) m m'" unfolding C_def by metis
  let ?B = "Frame s BLACK q so # B" let ?F = "Frame s RED p si # ?B"
  from split_sibling [OF g(2)] b(3) obtain x i y where x: "si = bin s BLACK x i y" by (metis rb_bin(1))
  note M2 = g(2) [unfolded x]
  have eq: "fix_missing_black (path B @ p # ptr t # rest) (length B + 2) z m = fix_missing_black (path ?B @ p # ptr t # rest') (length ?B + 2) z m'"
    using red_sibling_unfold [OF M g(1,2) b(3)] by (simp add: numeral_3_eq_3)
  have len': "length ?B + 2 + length rest' = K + 1" using b(7) g(3) by simp
  have io: "before ?F @ inorder u @ after ?F = before C @ inorder u @ after C" "set (inorder (plug t ?F)) = set (inorder (plug t C))"
    by (auto simp: C_def inorder_plug inorder_bin)
  have "repaired K (before ?F @ inorder u @ after ?F) (set (inorder (plug t ?F))) m' (fix_missing_black (path ?B @ p # ptr t # rest') (length ?B + 2) z m')"
    using red_child_spec [OF M2 _ len'] recolor_ends [OF M2, of rest'] unfolding x by blast
  then show ?thesis unfolding io eq by (rule repaired_trans [OF g(4)])
qed

lemma fix_missing_black_spec:
  assumes "missing K z u t C m" "C = [] \<Longrightarrow> t = u" "length C + 1 + length rest = K + 1"
  shows "repaired K (before C @ inorder u @ after C) (set (inorder (plug t C))) m (fix_missing_black (path C @ ptr t # rest) (length C + 1) z m)"
  using assms
proof (induction "length C" arbitrary: C u t m rest rule: less_induct)
  case less
  note D = missingD [OF less.prems(1)]
  show ?case
  proof (cases C)
    case Nil
    have "fix_missing_black (path C @ ptr t # rest) (length C + 1) z m = Some (path C @ ptr t # rest, m)"
      by (subst fix_missing_black.simps) (simp add: Nil)
    then show ?thesis
      using D less.prems(2) by (intro repairedI' [of _ C t rest m]) (simp_all add: Nil good_def)
  next
    case (Cons f B)
    obtain s c p sib where C: "C = Frame s c p sib # B" using Cons by (cases f) auto
    note M = less.prems(1) [unfolded C]
    from split_sibling [OF M] obtain d si q so where S: "sib = bin s d si q so" "rbv si" "rbv so" "bh si = bh so"
      "bh si + (if d = BLACK then 1 else 0) = bh u + 1" "d = RED \<longrightarrow> black si \<and> black so \<and> c = BLACK" by metis
    have st: "path C @ ptr t # rest = path B @ p # ptr t # rest" "length C + 1 = length B + 2" by (simp_all add: C)
    consider (rotate) "d = BLACK" "\<not> (black si \<and> black so)" | (ends) "d = BLACK" "black si" "black so" "c = RED"
      | (up) "d = BLACK" "black si" "black so" "c = BLACK" | (red) "d = RED" by (cases c; cases d) auto
    then show ?thesis
    proof cases
      case rotate
      with red_child_spec [of K z u t s c p si q so B m rest] M S(1) less.prems(3) show ?thesis unfolding st by (simp add: C)
    next
      case ends
      with recolor_ends [of K z u t s p si q so B m rest] M S(1) show ?thesis unfolding st by (simp add: C)
    next
      case up
      from recolor_goes_up [OF M [unfolded S(1) up(1,4)] up(2,3), of rest] obtain m2 where
        g: "missing K z (bin s BLACK u p (bin s RED si q so)) (bin s BLACK u p (bin s RED si q so)) B m2"
        "same_outside (set (inorder (plug t C))) m m2"
        "fix_missing_black (path C @ ptr t # rest) (length C + 1) z m =
          fix_missing_black (path B @ ptr (bin s BLACK u p (bin s RED si q so)) # ptr t # rest) (length B + 1) z m2"
        "before B @ inorder (bin s BLACK u p (bin s RED si q so)) @ after B = before C @ inorder u @ after C"
        "set (inorder (plug (bin s BLACK u p (bin s RED si q so)) B)) \<subseteq> set (inorder (plug t C))"
        unfolding st unfolding C S(1) up(1,4) by blast
      have "repaired K (before C @ inorder u @ after C) (set (inorder (plug (bin s BLACK u p (bin s RED si q so)) B))) m2
          (fix_missing_black (path C @ ptr t # rest) (length C + 1) z m)"
        unfolding g(3) g(4) [symmetric] using less.prems(3) by (intro less.hyps g(1)) (simp_all add: C)
      then show ?thesis using repaired_trans [OF g(2)] repaired_mono [OF _ g(5)] by blast
    next
      case red
      then have b: "black si" "black so" "c = BLACK" "bh si = bh u + 1" "bh so = bh u + 1" using S by auto
      have len: "length B + 2 + length rest = K + 1" using less.prems(3) by (simp add: C)
      from red_sibling_repaired [OF M [unfolded S(1) red b(3)] S(2,3) b(1,2,4,5) len] show ?thesis
        unfolding st by (simp add: C S(1) red b(3))
    qed
  qed
qed

section \<open>The swap with the next lower node\<close>

lemma before_append: "before (D @ C) = before C @ before D" "after (D @ C) = after D @ after C"
  by (induction D rule: before.induct) auto

lemma cholds_append: "cholds g p (D @ C) \<longleftrightarrow> cholds g p D \<and> cholds g (if D = [] then p else fnode (last D)) C"
proof (induction D arbitrary: p)
  case (Cons f D)
  then show ?case by (cases f) auto
qed simp

lemma ptr_plug: "ptr (plug t C) = (if C = [] then ptr t else fnode (last C))"
proof (induction C arbitrary: t)
  case (Cons f C)
  then show ?case by (cases f) auto
qed simp

definition right_spine :: "frame list \<Rightarrow> bool" where
  "right_spine D \<longleftrightarrow> (\<forall>f \<in> set D. fside f)"

lemma after_right_spine: "right_spine D \<Longrightarrow> after D = []"
  by (induction D rule: before.induct) (auto simp: right_spine_def)

lemma right_limb_spec:
  assumes "holds (cell m) t" "nodes_ok (inorder t)" "t \<noteq> Tip" "depth t \<le> Suc (length rest)"
  shows "\<exists>D c l y rest'. t = plug (Bin c l y Tip) D \<and> right_spine D \<and> length rest = length D + length rest' \<and>
    right_limb m (ptr t) (S @ ptr t # rest) (length S + 1) = Some (y, S @ path D @ y # rest', length S + length D + 1)"
  using assms
proof (induction t arbitrary: S rest)
  case (Bin c l n r)
  have r: "get_child m n True = ptr r" "nodes_ok (inorder r)" "ptr r = 0 \<longleftrightarrow> r = Tip"
    using Bin.prems(1,2) ptr_0 [of r] by (auto simp: get_of_cell nodes_ok_append nodes_ok_Cons)
  show ?case
  proof (cases "r = Tip")
    case True
    have "right_limb m n (S @ n # rest) (length S + 1) = Some (n, S @ n # rest, length S + 1)"
      using r(1,3) True by (subst right_limb.simps) simp
    then show ?thesis using True by (intro exI [of _ "[]"]) (auto simp: right_spine_def)
  next
    case False
    then obtain q rest1 where rest: "rest = q # rest1"
      using Bin.prems(4) by (cases rest) auto
    have e: "right_limb m n (S @ n # rest) (length S + 1) = right_limb m (ptr r) ((S @ [n]) @ ptr r # rest1) (length (S @ [n]) + 1)"
      using r(1,3) False by (subst right_limb.simps) (simp add: rest list_update_append)
    from Bin.IH(2) [of rest1 "S @ [n]"] Bin.prems(1,4) r(2) False obtain D d a y rest' where
      D: "r = plug (Bin d a y Tip) D" "right_spine D" "length rest1 = length D + length rest'"
      "right_limb m (ptr r) ((S @ [n]) @ ptr r # rest1) (length (S @ [n]) + 1) = Some (y, (S @ [n]) @ path D @ y # rest', length (S @ [n]) + length D + 1)"
      by (auto simp: rest)
    have "Bin c l n r = plug (Bin d a y Tip) (D @ [Frame True c n l])"
      by (simp add: plug_append D(1) bin_def)
    moreover have "right_spine (D @ [Frame True c n l])" using D(2) by (simp add: right_spine_def)
    ultimately show ?thesis using D(3,4) e
      by (intro exI [of _ "D @ [Frame True c n l]"] exI [of _ d] exI [of _ a] exI [of _ y] exI [of _ rest']) (simp add: rest ptr_plug)
  qed
qed simp

subsection \<open>Shape\<close>

fun shape :: "atree \<Rightarrow> atree" where
  "shape Tip = Tip"
| "shape (Bin c l n r) = Bin c (shape l) 0 (shape r)"

fun fshape :: "frame \<Rightarrow> frame" where
  "fshape (Frame s c n y) = Frame s c 0 (shape y)"

lemma shape_plug: "shape (plug t C) = plug (shape t) (map fshape C)"
proof (induction C arbitrary: t)
  case (Cons f C)
  then show ?case by (cases f) (simp add: bin_def)
qed simp

lemma shape_simps [simp]: "bh (shape t) = bh t" "black (shape t) = black t" "depth (shape t) = depth t" "rbv (shape t) = rbv t"
  by (induction t) auto

lemma shape_cong: "shape t = shape t' \<Longrightarrow> rbv t = rbv t' \<and> black t = black t' \<and> bh t = bh t' \<and> depth t = depth t'"
  by (metis shape_simps)

subsection \<open>Relinking\<close>

lemma link_hi:
  assumes "cholds (cell m) p C" "ptr t = p" "t \<noteq> Tip" "nodes_ok (inorder (plug t C))" "aligned y"
  defines "m1 \<equiv> (if C = [] then m else set_child (fnode (hd C)) (get_side m (fnode (hd C)) p) y m)"
  shows "cholds (cell m1) y C" "\<And>x. x \<notin> fnode ` set C \<Longrightarrow> cell m1 x = cell m x" "same_outside (fnode ` set C) m m1"
proof -
  show "cholds (cell m1) y C"
    using link_ctx(1) [of m t "hd C" "tl C" y] assms(1-5) by (cases C) (auto simp: m1_def)
  show "cell m1 x = cell m x" if "x \<notin> fnode ` set C" for x
    using that by (cases C) (auto simp: m1_def cell_def get_child_def get_color_def set_other)
  show "same_outside (fnode ` set C) m m1" by (cases C) (auto simp: m1_def)
qed

text \<open>The fields of the two nodes, once the links from above are set.\<close>

definition swap_fields :: "uptr \<Rightarrow> uptr \<Rightarrow> uptr \<Rightarrow> rbmem \<Rightarrow> rbmem" where
  "swap_fields left node node2 m =
     (let m = set_child node2 False left (set_child node False (get_child m node2 False) m);
          m = set_child node True 0 (set_child node2 True (get_child m node True) m);
          ctmp = get_color m node
      in set_color node2 ctmp (set_color node (get_color m node2) m))"

lemma swap_links_eq:
  "swap_links hi lo node node2 rt m =
     (let m1 = (if hi \<noteq> 0 then set_child hi (get_side m hi node) node2 m else m)
      in (if hi \<noteq> 0 then rt else node2,
          if lo = node then swap_fields node node node2 m1
          else let m2 = set_child lo (get_side m1 lo node2) node m1
               in swap_fields (get_child m2 node False) node node2 m2))"
  by (simp add: swap_links_def swap_fields_def Let_def)

lemma cell_swap_fields:
  assumes "cell m x = (l, r, c)" "cell m y = (l', r', c')" "x \<noteq> y" "aligned left" "aligned l'" "aligned r"
  shows "cell (swap_fields left x y m) = (cell m)(x := (l', 0, c'), y := (left, r, c))"
  using assms by (auto simp: swap_fields_def Let_def cell_set_child cell_set_color get_of_cell)

lemma same_swap_fields: "x \<in> A \<Longrightarrow> y \<in> A \<Longrightarrow> same_outside A m (swap_fields left x y m') \<longleftrightarrow> same_outside A m m'"
  by (simp add: swap_fields_def Let_def)

lemma cholds_cong: "(\<And>n. n \<in> set (before C) \<union> set (after C) \<Longrightarrow> g n = g' n) \<Longrightarrow> cholds g p C = cholds g' p C"
proof (induction C arbitrary: p rule: before.induct)
  case (2 s c n y C)
  have "holds g y = holds g' y" using 2(2) by (intro holds_cong) (auto split: if_splits)
  then show ?case using 2 by (auto split: if_splits)
qed simp

lemma swap_links_spec:
  fixes C D c l c2 x y r
  defines "T \<equiv> plug (Bin c (plug (Bin c2 l y Tip) D) x r) C"
  assumes h: "holds (cell m) T" and w: "nodes_ok (inorder T)"
  obtains m' where
    "swap_links (if C = [] then 0 else fnode (hd C)) (if D = [] then x else fnode (hd D)) x y rt m = (if C = [] then y else rt, m')"
    "holds (cell m') (plug (Bin c (plug (Bin c2 l x Tip) D) y r) C)" "same_outside (set (inorder T)) m m'"
proof -
  let ?t = "Bin c (plug (Bin c2 l y Tip) D) x r"
  let ?L = "if D = [] then x else fnode (last D)"
  have wt: "nodes_ok (inorder ?t)" "set (inorder ?t) \<inter> (set (before C) \<union> set (after C)) = {}"
    using w by (auto simp: T_def nodes_ok_plug)
  have wl: "nodes_ok (inorder (plug (Bin c2 l y Tip) D))" "nodes_ok (inorder r)" "nodes_ok (inorder l)" "y \<notin> set (before D) \<union> set (after D)"
    "x \<noteq> y" "aligned x" "aligned y" "x \<noteq> 0" "y \<noteq> 0" "x \<notin> set (inorder (plug (Bin c2 l y Tip) D))" "x \<notin> set (inorder r)"
    "set (inorder (plug (Bin c2 l y Tip) D)) \<inter> set (inorder r) = {}" "y \<notin> set (inorder l)" "set (inorder l) \<inter> (set (before D) \<union> set (after D)) = {}"
    using wt(1) by (auto simp: nodes_ok_append nodes_ok_Cons inorder_plug)
  have ht: "holds (cell m) ?t" "cholds (cell m) x C" using h by (simp_all add: T_def holds_plug)
  have hl: "cell m x = (ptr (plug (Bin c2 l y Tip) D), ptr r, c)" "cell m y = (ptr l, 0, c2)" "holds (cell m) l" "cholds (cell m) y D" "holds (cell m) r"
    using ht(1) by (auto simp: holds_plug)
  have sub: "fnode ` set C \<inter> set (inorder ?t) = {}" "fnode ` set D \<subseteq> set (before D) \<union> set (after D)"
    using set_ctx [of C] set_ctx [of D] wt(2) by blast+
  define m1 where "m1 = (if C = [] then m else set_child (fnode (hd C)) (get_side m (fnode (hd C)) x) y m)"
  note L1 = link_hi [OF ht(2) ptr.simps(2) atree.distinct(2) w [unfolded T_def] wl(7), folded m1_def]
  have "cell m1 n = cell m n" if "n \<in> set (before D) \<union> set (after D)" for n
    using sub(1) that by (intro L1(2)) (auto simp: inorder_plug)
  from cholds_cong [OF this] have D1: "cholds (cell m1) y D" using hl(4) by simp
  define m2 where "m2 = (if D = [] then m1 else set_child (fnode (hd D)) (get_side m1 (fnode (hd D)) y) x m1)"
  note L2 = link_hi [OF D1 ptr.simps(2) atree.distinct(2) wl(1,6), folded m2_def]
  have same: "cell m2 n = cell m n" if "n \<notin> fnode ` set C" "n \<notin> fnode ` set D" for n using L1(2) L2(2) that by simp
  have xy: "cell m2 x = (ptr (plug (Bin c2 l y Tip) D), ptr r, c)" "cell m2 y = (ptr l, 0, c2)"
    using same [of x] same [of y] sub wl(4,10) hl(1,2) by (auto simp: inorder_plug)
  define m' where "m' = swap_fields ?L x y m2"
  have c': "cell m' = (cell m2)(x := (ptr l, 0, c2), y := (?L, ptr r, c))"
    unfolding m'_def using wl aligned_ptr [of "plug (Bin c2 l y Tip) D"] aligned_ptr [of l] aligned_ptr [of r]
    by (intro cell_swap_fields [OF xy]) (auto simp: ptr_plug)
  have "holds (cell m') (plug (Bin c (plug (Bin c2 l x Tip) D) y r) C)"
  proof -
    have "cell m2 n = cell m1 n" if "n \<in> set (before C) \<union> set (after C)" for n
      using wt(2) that sub(2) by (intro L2(2)) (auto simp: inorder_plug)
    from cholds_cong [OF this] have "cholds (cell m2) y C" using L1(1) by simp
    moreover have "holds (cell m2) v \<longleftrightarrow> holds (cell m) v" if "v = l \<or> v = r" for v
      using that sub wl(12,14) by (intro holds_cong same) (auto simp: inorder_plug)
    ultimately show ?thesis
      using hl(3,5) L2(1) wl wt(2) by (auto simp: c' holds_plug ptr_plug inorder_plug)
  qed
  moreover have "swap_links (if C = [] then 0 else fnode (hd C)) (if D = [] then x else fnode (hd D)) x y rt m = (if C = [] then y else rt, m')"
  proof -
    have "fnode (hd C) \<noteq> 0" if "C \<noteq> []"
      using that w set_ctx [of C] by (cases C) (auto simp: T_def nodes_ok_def inorder_plug)
    moreover have "fnode (hd D) \<noteq> x" if "D \<noteq> []"
      using that wl(10) set_ctx [of D] by (cases D) (auto simp: inorder_plug)
    moreover have "get_child m2 x False = ?L" if "D \<noteq> []" using xy(1) that by (simp add: get_of_cell ptr_plug)
    ultimately show ?thesis
      by (cases "C = []"; cases "D = []") (simp_all add: swap_links_eq m'_def m2_def m1_def Let_def)
  qed
  moreover have "same_outside (set (inorder T)) m m'"
  proof -
    have "fnode ` set C \<subseteq> set (inorder T)" "fnode ` set D \<subseteq> set (inorder T)"
      using set_ctx [of C] sub(2) by (auto simp: T_def inorder_plug)
    then have "same_outside (set (inorder T)) m m2" using L1(3) L2(3) same_outside_mono same_outside_trans by metis
    then show ?thesis unfolding m'_def by (subst same_swap_fields) (auto simp: T_def inorder_plug)
  qed
  ultimately show ?thesis using that by blast
qed

end
