(* ===== verification/Rbtree_Props.thy ===== *)
theory Rbtree_Props
  imports Rbtree_Remove
begin

text \<open>
  \<open>rb_remove\<close> as a whole, the searches and the iterations over the tree, and the properties of the
  red-black tree.
\<close>

section \<open>Unlinking\<close>

lemma black_bh_0: "black v \<Longrightarrow> bh v = 0 \<Longrightarrow> v = Tip"
  by (cases v) auto

lemma bh_0: "rbv v \<Longrightarrow> bh v = 0 \<Longrightarrow> v = Tip \<or> (\<exists>n. v = Bin RED Tip n Tip)"
  by (cases v) (auto split: if_splits dest!: black_bh_0)

lemma only_child:
  assumes "rbv (Bin d a x b)" "a = Tip \<or> b = Tip"
  shows "a = Tip \<and> b = Tip \<or> d = BLACK \<and> (\<exists>n. a = Bin RED Tip n Tip \<and> b = Tip \<or> b = Bin RED Tip n Tip \<and> a = Tip)"
  using assms(2)
proof
  assume "a = Tip"
  with assms(1) bh_0 [of b] show ?thesis by fastforce
next
  assume "b = Tip"
  with assms(1) bh_0 [of a] show ?thesis by fastforce
qed

lemma rb_holdsI:
  assumes "holds (cell m) T" "root tree = ptr T" "good (max_depth tree) ns T" "nodes_ok ns"
  shows "rb_holds m tree ns"
  using assms by (auto simp: rb_holds_def)

lemma replace_focus:
  assumes "holds (cell m) (plug t (f # C))" "nodes_ok (inorder (plug t (f # C)))" "t \<noteq> Tip"
    and "holds (cell m) v" "set (inorder v) \<subseteq> set (inorder t)" "nodes_ok (inorder v)"
  shows "holds (cell (set_child (fnode f) (get_side m (fnode f) (ptr t)) (ptr v) m)) (plug v (f # C))"
    and "nodes_ok (inorder (plug v (f # C)))"
proof -
  have h: "cholds (cell m) (ptr t) (f # C)" using assms(1) by (simp add: holds_plug del: cholds.simps)
  have "fnode f \<notin> set (inorder v)" using assms(2,5) by (cases f) (auto simp: nodes_ok_plug nodes_ok_bin)
  then have "holds (cell (set_child (fnode f) s (ptr v) m)) v" for s using assms(4) aligned_ptr [OF assms(6)] by (simp add: cell_set_child)
  then show "holds (cell (set_child (fnode f) (get_side m (fnode f) (ptr t)) (ptr v) m)) (plug v (f # C))"
    using link_ctx(1) [OF h assms(3,2) aligned_ptr [OF assms(6)]] by (simp add: holds_plug del: cholds.simps)
  show "nodes_ok (inorder (plug v (f # C)))" using assms(2,5,6) unfolding nodes_ok_plug by blast
qed

lemma goodI:
  assumes "rbv t" "cok (bh t) C" "black t" "bh t + blk C \<le> b" "2 * b \<le> K + 1" "depth (plug t C) \<le> K"
  shows "good K (inorder (plug t C)) (plug t C)"
  using assms rbv_plug [of t C] bh_plug [of t C] by (auto simp: good_def)

lemma unlink_root:
  assumes T: "holds (cell m) (Bin d a x b)" "rbv (Bin d a x b)" "d = BLACK" "nodes_ok (inorder (Bin d a x b))" "a = Tip \<or> b = Tip"
    and K: "depth (Bin d a x b) \<le> max_depth tree"
  shows "\<exists>tree' m'. unlink_node x st 1 tree m = Some (tree', m') \<and> rb_holds m' tree' (inorder a @ inorder b) \<and>
    same_outside (set (inorder (Bin d a x b))) m m'"
proof -
  have ch: "get_child m x False = ptr a" "get_child m x True = ptr b" using T(1) by (simp_all add: get_of_cell)
  from only_child [OF T(2,5)] show ?thesis
  proof (elim disjE conjE exE)
    assume e: "a = Tip" "b = Tip"
    have "rb_holds m (tree\<lparr>root := 0, max_depth := 0\<rparr>) []" by (rule rb_holdsI [of m Tip]) (simp_all add: good_def)
    then show ?thesis by (simp add: unlink_node_def ch e)
  next
    fix n assume e: "a = Bin RED Tip n Tip" "b = Tip"
    have "rb_holds (set_color n BLACK m) (tree\<lparr>root := n\<rparr>) [n]"
      using T(1,4) K by (intro rb_holdsI [of _ "Bin BLACK Tip n Tip"]) (auto simp: e good_def cell_set_color get_of_cell nodes_ok_Cons)
    then show ?thesis using T(4) by (simp add: unlink_node_def ch e nodes_ok_Cons)
  next
    fix n assume e: "b = Bin RED Tip n Tip" "a = Tip"
    have "rb_holds (set_color n BLACK m) (tree\<lparr>root := n\<rparr>) [n]"
      using T(1,4) K by (intro rb_holdsI [of _ "Bin BLACK Tip n Tip"]) (auto simp: e good_def cell_set_color get_of_cell nodes_ok_Cons)
    then show ?thesis using T(4) by (simp add: unlink_node_def ch e nodes_ok_Cons)
  qed
qed

lemma root_path': "C \<noteq> [] \<Longrightarrow> (path C @ ys) ! 0 = ptr (plug v C)"
  by (simp add: ptr_plug path_def nth_append rev_nth last_conv_nth last_map)

lemma unlink_black_leaf:
  assumes T: "holds (cell m) (plug t C)" "t = Bin BLACK Tip x Tip" "C = f # B" "rbv (plug t C)" "black (plug t C)" "nodes_ok (inorder (plug t C))"
    and K: "depth (plug t C) \<le> max_depth tree" "2 * bh (plug t C) \<le> max_depth tree + 1" "length C + 1 + length rest = max_depth tree + 1"
  shows "\<exists>tree' m'. unlink_node x (path C @ x # rest) (length C + 1) tree m = Some (tree', m') \<and>
    rb_holds m' tree' (before C @ after C) \<and> same_outside (set (inorder (plug t C))) m m'"
proof -
  let ?K = "max_depth tree"
  have ch: "get_child m x False = 0" "get_child m x True = 0" "is_black m x"
    using T(1) by (simp_all add: T(2) holds_plug get_of_cell is_black_def)
  have cok: "cok 1 C" "bh (plug t C) = 1 + blk C" using rbv_plug [of t C] T(4,5) bh_plug [of t C] by (simp_all add: T(2))
  have "missing ?K x Tip t C m"
    using cok T K by (auto simp: missing_def stands_for_def nodes_ok_plug)
  from fix_missing_black_spec [OF this _ K(3)] obtain st m' T' where
    r: "fix_missing_black (path C @ x # rest) (length C + 1) x m = Some (st, m')" "holds (cell m') T'" "good ?K (before C @ after C) T'"
    "st ! 0 = ptr T'" "same_outside (set (inorder (plug t C))) m m'" by (auto simp: repaired_def T(2,3))
  have "unlink_node x (path C @ x # rest) (length C + 1) tree m = Some (tree\<lparr>root := st ! 0\<rparr>, m')"
    using r(1) ch by (simp add: unlink_node_def T(3))
  moreover have "rb_holds m' (tree\<lparr>root := st ! 0\<rparr>) (before C @ after C)"
    using r(2-4) T(6) by (intro rb_holdsI [of _ T']) (auto simp: nodes_ok_plug)
  ultimately show ?thesis using r(5) by blast
qed

lemma unlink_red_leaf:
  assumes T: "holds (cell m) (plug t C)" "t = Bin RED Tip x Tip" "C = f # B" "rbv (plug t C)" "black (plug t C)" "nodes_ok (inorder (plug t C))"
    and K: "depth (plug t C) \<le> max_depth tree" "2 * bh (plug t C) \<le> max_depth tree + 1"
  shows "\<exists>tree' m'. unlink_node x (path C @ x # rest) (length C + 1) tree m = Some (tree', m') \<and>
    rb_holds m' tree' (before C @ after C) \<and> same_outside (set (inorder (plug t C))) m m'"
proof -
  let ?K = "max_depth tree" and ?m = "set_child (fnode f) (get_side m (fnode f) x) 0 m"
  have ne: "C \<noteq> []" by (simp add: T(3))
  have ch: "get_child m x False = 0" "get_child m x True = 0" "\<not> is_black m x"
    using T(1) by (simp_all add: T(2) holds_plug get_of_cell is_black_def)
  have cok: "cok 0 C" "bh (plug t C) = blk C" using rbv_plug [of t C] T(4,5) bh_plug [of t C] by (simp_all add: T(2))
  have h: "holds (cell ?m) (plug Tip C)" "nodes_ok (inorder (plug Tip C))"
    using replace_focus [of m t f B Tip] T(1,6) by (simp_all add: T(2,3))
  have "good ?K (inorder (plug Tip C)) (plug Tip C)"
    using cok K by (intro goodI [where b = "blk C"]) (simp_all add: depth_plug)
  then have "rb_holds ?m (tree\<lparr>root := (path C @ x # rest) ! 0\<rparr>) (before C @ after C)"
    using h by (intro rb_holdsI [of _ "plug Tip C"]) (simp_all add: inorder_plug root_path' [OF ne])
  moreover have "unlink_node x (path C @ x # rest) (length C + 1) tree m = Some (tree\<lparr>root := (path C @ x # rest) ! 0\<rparr>, ?m)"
    using ch by (simp add: unlink_node_def T(3) nth_append Let_def)
  moreover have "same_outside (set (inorder (plug t C))) m ?m"
    using set_ctx [of C] by (auto simp: T(3) inorder_plug)
  ultimately show ?thesis by blast
qed

lemma unlink_one_child:
  assumes T: "holds (cell m) (plug t C)" "t = Bin BLACK a x b" "C = f # B" "rbv (plug t C)" "black (plug t C)" "nodes_ok (inorder (plug t C))"
    and ab: "a = Bin RED Tip n Tip \<and> b = Tip \<or> b = Bin RED Tip n Tip \<and> a = Tip"
    and K: "depth (plug t C) \<le> max_depth tree" "2 * bh (plug t C) \<le> max_depth tree + 1"
  shows "\<exists>tree' m'. unlink_node x (path C @ x # rest) (length C + 1) tree m = Some (tree', m') \<and>
    rb_holds m' tree' (before C @ n # after C) \<and> same_outside (set (inorder (plug t C))) m m'"
proof -
  let ?m1 = "set_child (fnode f) (get_side m (fnode f) x) n m" and ?v = "\<lambda>c. Bin c Tip n Tip"
  let ?m = "set_color n BLACK ?m1"
  have ne: "C \<noteq> []" by (simp add: T(3))
  have n: "n \<noteq> 0" "aligned n" using T(6) ab by (auto simp: T(2) nodes_ok_plug nodes_ok_append nodes_ok_Cons)
  have hv: "holds (cell m) (?v RED)" using T(1) ab by (auto simp: T(2) holds_plug)
  have ch: "(if get_child m x False = 0 then get_child m x True else get_child m x False) = n"
    using T(1) ab n(1) by (auto simp: T(2) holds_plug get_of_cell)
  have cok: "cok 1 C" "bh (plug t C) = 1 + blk C" using rbv_plug [of t C] T(4,5) bh_plug [of t C] ab by (auto simp: T(2))
  have h1: "holds (cell ?m1) (plug (?v RED) C)" "nodes_ok (inorder (plug (?v RED) C))"
    using replace_focus [of m t f B "?v RED"] T(1,6) hv ab n by (auto simp: T(2,3) nodes_ok_Cons)
  have h: "holds (cell ?m) (plug (?v BLACK) C)"
    using recolor_focus [of ?m1 True RED Tip n Tip C BLACK] h1 by (simp add: bin_def)
  have red: "is_red ?m1 n" using h1(1) by (simp add: holds_plug is_red_def get_of_cell)
  have "good (max_depth tree) (inorder (plug (?v BLACK) C)) (plug (?v BLACK) C)"
    using cok K by (intro goodI [where b = "1 + blk C"]) (auto simp: depth_plug T(2))
  then have "rb_holds ?m (tree\<lparr>root := (path C @ x # rest) ! 0\<rparr>) (before C @ n # after C)"
    using h h1(2) by (intro rb_holdsI [of _ "plug (?v BLACK) C"]) (simp_all add: inorder_plug root_path' [OF ne])
  moreover have "unlink_node x (path C @ x # rest) (length C + 1) tree m = Some (tree\<lparr>root := (path C @ x # rest) ! 0\<rparr>, ?m)"
    using ch red n(1) unfolding unlink_node_def by (simp add: T(3) nth_append Let_def)
  moreover have "same_outside (set (inorder (plug t C))) m ?m"
    using set_ctx [of C] ab by (auto simp: T(2,3) inorder_plug)
  ultimately show ?thesis by blast
qed

lemma unlink_spec:
  assumes T: "holds (cell m) (plug t C)" "t = Bin d a x b" "rbv (plug t C)" "black (plug t C)" "nodes_ok (inorder (plug t C))" "a = Tip \<or> b = Tip"
    and K: "depth (plug t C) \<le> max_depth tree" "2 * bh (plug t C) \<le> max_depth tree + 1" "length C + 1 + length rest = max_depth tree + 1"
  shows "\<exists>tree' m'. unlink_node x (path C @ x # rest) (length C + 1) tree m = Some (tree', m') \<and>
    rb_holds m' tree' (before C @ inorder a @ inorder b @ after C) \<and> same_outside (set (inorder (plug t C))) m m'"
proof (cases C)
  case Nil
  then show ?thesis using unlink_root [of m d a x b tree "x # rest"] T K(1) by simp
next
  case (Cons f B)
  have "rbv t" using T(3,4) rbv_plug [of t C] by simp
  from only_child [OF this [unfolded T(2)] T(6)] show ?thesis
  proof (elim disjE conjE exE)
    assume e: "a = Tip" "b = Tip"
    show ?thesis
      using unlink_black_leaf [OF T(1) _ Cons T(3-5) K, of x] unlink_red_leaf [OF T(1) _ Cons T(3-5) K(1,2), of x rest]
      by (cases d) (auto simp: T(2) e)
  next
    fix n assume e: "d = BLACK" "a = Bin RED Tip n Tip" "b = Tip"
    show ?thesis using unlink_one_child [OF T(1) _ Cons T(3-5) _ K(1,2), of a x b n rest] by (simp add: T(2) e)
  next
    fix n assume e: "d = BLACK" "b = Bin RED Tip n Tip" "a = Tip"
    show ?thesis using unlink_one_child [OF T(1) _ Cons T(3-5) _ K(1,2), of a x b n rest] by (simp add: T(2) e)
  qed
qed

section \<open>Removal\<close>

lemma swap_down_spec:
  fixes c lo x r C rest
  defines "T \<equiv> plug (Bin c lo x r) C"
  assumes h: "holds (cell m) T" and w: "nodes_ok (inorder T)" and "lo \<noteq> Tip" "depth T \<le> K" "length C + 1 + length rest = K + 1"
  shows "\<exists>D c2 l y rest' m'. lo = plug (Bin c2 l y Tip) D \<and> right_spine D \<and>
    swap_down x (path C @ x # rest) (length C + 1) rt m =
      Some (path (D @ Frame False c y r # C) @ x # rest', length (D @ Frame False c y r # C) + 1, if C = [] then y else rt, m') \<and>
    holds (cell m') (plug (Bin c2 l x Tip) (D @ Frame False c y r # C)) \<and> length (D @ Frame False c y r # C) + 1 + length rest' = K + 1 \<and>
    same_outside (set (inorder T)) m m'"
proof -
  have hl: "holds (cell m) lo" "nodes_ok (inorder lo)" "get_child m x False = ptr lo"
    using h w by (auto simp: T_def holds_plug nodes_ok_plug nodes_ok_append get_of_cell)
  have dl: "length C + 1 + depth lo \<le> K" using assms(5) by (simp add: T_def depth_plug) linarith
  then obtain q rest1 where rest: "rest = q # rest1" using assms(4,6) by (cases rest; cases lo) auto
  from right_limb_spec [OF hl(1,2) assms(4), of rest1 "path C @ [x]"] dl assms(6) obtain D c2 l y rest' where
    D: "lo = plug (Bin c2 l y Tip) D" "right_spine D" "length rest1 = length D + length rest'"
    "right_limb m (ptr lo) (path C @ x # ptr lo # rest1) (length C + 2) = Some (y, path C @ x # path D @ y # rest', length C + length D + 2)"
    by (auto simp: rest)
  from swap_links_spec [OF h [unfolded T_def D(1)] w [unfolded T_def D(1)], of rt] obtain m' where
    S: "swap_links (if C = [] then 0 else fnode (hd C)) (if D = [] then x else fnode (hd D)) x y rt m = (if C = [] then y else rt, m')"
    "holds (cell m') (plug (Bin c (plug (Bin c2 l x Tip) D) y r) C)" "same_outside (set (inorder T)) m m'" by (auto simp: T_def D(1))
  have hi: "(if length C + 1 > 1 then (path C @ x # rest) ! (length C + 1 - 2) else 0) = (if C = [] then 0 else fnode (hd C))"
    by (cases C) (simp_all add: nth_append)
  have lo': "(path C @ x # path D @ y # rest') ! (length C + length D) = (if D = [] then x else fnode (hd D))"
    by (cases D) (simp_all add: nth_append)
  have "swap_down x (path C @ x # rest) (length C + 1) rt m =
      Some (path (D @ Frame False c y r # C) @ x # rest', length (D @ Frame False c y r # C) + 1, if C = [] then y else rt, m')"
    unfolding swap_down_def Let_def hi hl(3)
    using D(4) S(1) lo' by (simp add: stack_put_def rest list_update_append nth_append del: path_simps(2,4)) (simp add: list_update_append)
  moreover have "holds (cell m') (plug (Bin c2 l x Tip) (D @ Frame False c y r # C))" "length (D @ Frame False c y r # C) + 1 + length rest' = K + 1"
    using S(2) D(3) assms(6) by (simp_all add: plug_append bin_def rest)
  ultimately show ?thesis using D(1,2) S(3) by blast
qed

lemma remove_focus: "x \<notin> set (before C) \<Longrightarrow> x \<notin> set (inorder a) \<Longrightarrow> remove1 x (inorder (plug (Bin d a x b) C)) = before C @ inorder a @ inorder b @ after C"
  by (simp add: inorder_plug remove1_append)

lemma search_finds:
  assumes "followed lt x C" "sorted_wrt (\<lambda>a b. lt a b \<and> \<not> lt b a) (inorder (plug t C))" "x \<in> set (inorder (plug t C))"
    and "ptr t = x \<or> side_of (\<not> lt x (ptr t)) t = Tip"
  shows "ptr t = x"
proof (rule ccontr)
  assume ne: "ptr t \<noteq> x"
  have x: "x \<in> set (inorder t)" using followed_in [OF assms(1-3)] .
  have "sorted_wrt (\<lambda>a b. lt a b \<and> \<not> lt b a) (inorder t)" using assms(2) by (simp add: inorder_plug sorted_wrt_append)
  with x ne assms(4) show False
    by (cases t) (auto simp: side_of_def sorted_wrt_append split: if_splits)
qed

lemma rb_remove_spec:
  assumes "rb_holds m tree ns" "x \<in> set ns" "sorted_wrt (\<lambda>a b. lt a b \<and> \<not> lt b a) ns"
  shows "\<exists>tree' m'. rb_remove lt junk x tree m = Some (tree', m') \<and> rb_holds m' tree' (remove1 x ns) \<and> same_outside (set ns) m m'"
proof -
  obtain T where T: "holds (cell m) T" "root tree = ptr T" "good (max_depth tree) ns T" and w: "nodes_ok ns"
    using assms(1) by (auto simp: rb_holds_def)
  have io: "inorder T = ns" "depth T \<le> max_depth tree" "rbv T" "black T" "2 * bh T \<le> max_depth tree + 1"
    using T(3) by (simp_all add: good_def)
  have "T \<noteq> Tip" using assms(2) io(1) by auto
  from find_and_stack_spec [OF T(1) w [folded io(1)] this T(2) io(2)] obtain C t rest where
    f: "find_and_stack lt m tree x (map junk [0..<max_depth tree + 1]) = Some (path C @ ptr t # rest, length C + 1)"
    "length C + length rest = max_depth tree" "plug t C = T" "t \<noteq> Tip" "followed lt x C" "ptr t = x \<or> side_of (\<not> lt x (ptr t)) t = Tip" by blast
  have "ptr t = x" using search_finds [OF f(5) _ _ f(6)] assms(2,3) io(1) f(3) by simp
  then obtain d a b where t: "t = Bin d a x b" using f(4) by (cases t) auto
  have ch: "get_child m x False = ptr a" "get_child m x True = ptr b" "ptr a = 0 \<longleftrightarrow> a = Tip" "ptr b = 0 \<longleftrightarrow> b = Tip"
    "x \<notin> set (before C)" "x \<notin> set (inorder a)"
    using T(1) w ptr_0 [of a] ptr_0 [of b]
    by (auto simp: f(3) [symmetric] io(1) [symmetric] t holds_plug get_of_cell nodes_ok_plug nodes_ok_append nodes_ok_Cons)
  have len: "length C + 1 + length rest = max_depth tree + 1" using f(2) by simp
  show ?thesis
  proof (cases "a \<noteq> Tip \<and> b \<noteq> Tip")
    case False
    have "rb_remove lt junk x tree m = unlink_node x (path C @ x # rest) (length C + 1) tree m"
      using False ch f(1) by (auto simp: rb_remove_def t nth_append simp del: upt_Suc)
    with unlink_spec [of m t C d a x b tree rest] T(1) t io w f(3) len False show ?thesis
      using remove_focus [OF ch(5,6), of d b] by auto
  next
    case True
    have Te: "T = plug (Bin d a x b) C" using f(3) t by simp
    from swap_down_spec [OF T(1) [unfolded Te] w [folded io(1), unfolded Te] conjunct1 [OF True] io(2) [unfolded Te] len, of "root tree"]
    obtain D c2 l y rest' m1 where
      S: "a = plug (Bin c2 l y Tip) D" "right_spine D"
      "swap_down x (path C @ x # rest) (length C + 1) (root tree) m =
        Some (path (D @ Frame False d y b # C) @ x # rest', length (D @ Frame False d y b # C) + 1, if C = [] then y else root tree, m1)"
      "holds (cell m1) (plug (Bin c2 l x Tip) (D @ Frame False d y b # C))" "length (D @ Frame False d y b # C) + 1 + length rest' = max_depth tree + 1"
      "same_outside (set (inorder T)) m m1" unfolding Te by (elim exE conjE)
    let ?C = "D @ Frame False d y b # C" let ?T = "plug (Bin c2 l x Tip) ?C" let ?tree = "tree\<lparr>root := if C = [] then y else root tree\<rparr>"
    have "shape ?T = shape T" unfolding f(3) [symmetric] t S(1) by (simp add: plug_append shape_plug bin_def)
    then have rb: "rbv ?T" "black ?T" "depth ?T \<le> max_depth ?tree" "2 * bh ?T \<le> max_depth ?tree + 1" using shape_cong [of ?T T] io by auto
    have ns: "remove1 x ns = before ?C @ inorder l @ inorder Tip @ after ?C"
      unfolding io(1) [symmetric] Te remove_focus [OF ch(5,6)] using S(1,2) by (simp add: before_append after_right_spine inorder_plug)
    have mset: "mset (inorder ?T) = mset ns"
      unfolding io(1) [symmetric] f(3) [symmetric] t S(1) by (simp add: inorder_plug before_append bin_def)
    have w1: "nodes_ok (inorder ?T)" using w nodes_ok_perm [OF mset] by simp
    have "rb_remove lt junk x tree m = unlink_node x (path ?C @ x # rest') (length ?C + 1) ?tree m1"
      using True ch f(1) S(3) by (simp add: rb_remove_def t nth_append del: upt_Suc)
    with unlink_spec [OF S(4) refl rb(1,2) w1 disjI2 [OF refl] rb(3,4), of rest'] S(5) ns obtain tree' m' where
      "rb_remove lt junk x tree m = Some (tree', m')" "rb_holds m' tree' (remove1 x ns)" "same_outside (set (inorder ?T)) m1 m'" by auto
    moreover have "set (inorder ?T) = set ns" using mset by (rule mset_eq_setD)
    ultimately show ?thesis using same_outside_trans S(6) io(1) by metis
  qed
qed

section \<open>Searches and iterations\<close>

lemma get_child_holds:
  assumes "holds (cell m) (Bin c l n r)" "nodes_ok (inorder (Bin c l n r))"
  shows "get_child m n False = ptr l" "get_child m n True = ptr r" "n \<noteq> 0" "ptr l = 0 \<longleftrightarrow> l = Tip" "ptr r = 0 \<longleftrightarrow> r = Tip"
    "nodes_ok (inorder l)" "nodes_ok (inorder r)"
  using assms ptr_0 [of l] ptr_0 [of r] by (auto simp: get_of_cell nodes_ok_append nodes_ok_Cons)

lemma minmax_loop_spec:
  assumes "holds (cell m) t" "nodes_ok (inorder t)"
  shows "minmax_loop m (ptr t) False = Some (if t = Tip then 0 else hd (inorder t))"
    and "minmax_loop m (ptr t) True = Some (if t = Tip then 0 else last (inorder t))"
proof -
  have "minmax_loop m (ptr t) s = Some (if t = Tip then 0 else if s then last (inorder t) else hd (inorder t))" for s
    using assms
  proof (induction t)
    case Tip
    show ?case by (subst minmax_loop.simps) simp
  next
    case (Bin c l n r)
    note G = get_child_holds [OF Bin.prems]
    have ne: "l \<noteq> Tip \<Longrightarrow> inorder l \<noteq> []" "r \<noteq> Tip \<Longrightarrow> inorder r \<noteq> []" by (cases l; simp) (cases r; simp)
    show ?case
      using Bin.IH Bin.prems(1) G ne by (subst minmax_loop.simps) (cases s; auto)
  qed
  from this [of False] this [of True] show
    "minmax_loop m (ptr t) False = Some (if t = Tip then 0 else hd (inorder t))"
    "minmax_loop m (ptr t) True = Some (if t = Tip then 0 else last (inorder t))" by simp_all
qed

lemma z_rb_walk_spec: "holds (cell m) t \<Longrightarrow> nodes_ok (inorder t) \<Longrightarrow> z_rb_walk m (ptr t) = Some (inorder t)"
proof (induction t)
  case Tip
  show ?case by (subst z_rb_walk.simps) simp
next
  case (Bin c l n r)
  note G = get_child_holds [OF Bin.prems]
  show ?case using Bin.IH Bin.prems(1) G by (subst z_rb_walk.simps) simp
qed

lemma contains_loop_spec:
  assumes "holds (cell m) t" "nodes_ok (inorder t)" "sorted_wrt (\<lambda>a b. lt a b \<and> \<not> lt b a) (inorder t)" "x \<noteq> 0"
  shows "\<exists>n. contains_loop lt m x (ptr t) = Some n \<and> (n = x \<longleftrightarrow> x \<in> set (inorder t))"
  using assms(1-3)
proof (induction t)
  case Tip
  show ?case using assms(4) by (subst contains_loop.simps) simp
next
  case (Bin c l n r)
  note G = get_child_holds [OF Bin.prems(1,2)]
  have s: "sorted_wrt (\<lambda>a b. lt a b \<and> \<not> lt b a) (inorder l)" "sorted_wrt (\<lambda>a b. lt a b \<and> \<not> lt b a) (inorder r)"
    and lr: "\<And>a. a \<in> set (inorder l) \<Longrightarrow> \<not> lt n a" "\<And>a. a \<in> set (inorder r) \<Longrightarrow> lt n a"
    using Bin.prems(3) by (auto simp: sorted_wrt_append)
  show ?case
  proof (cases "n = x")
    case True
    then show ?thesis using G(3) by (subst contains_loop.simps) simp
  next
    case False
    then have "contains_loop lt m x n = contains_loop lt m x (ptr (if lt n x then r else l))"
      using G(1-3) by (subst contains_loop.simps) simp
    moreover have "x \<in> set (inorder (Bin c l n r)) \<longleftrightarrow> x \<in> set (inorder (if lt n x then r else l))"
      using lr False by auto
    ultimately show ?thesis using Bin.IH Bin.prems(1) G(6,7) s by auto
  qed
qed

subsection \<open>The iteration without recursion\<close>

fun lefts :: "frame list \<Rightarrow> bool list" where
  "lefts [] = [False]"
| "lefts (f # C) = lefts C @ [\<not> fside f]"

lemma length_lefts [simp]: "length (lefts C) = length C + 1"
  by (induction C) auto

text \<open>The iteration stands at the root of the subtree \<open>t\<close> in the context \<open>C\<close>; the arrays have \<open>K\<close> entries.\<close>

definition fe_at :: "nat \<Rightarrow> rb_foreach \<Rightarrow> atree \<Rightarrow> frame list \<Rightarrow> bool" where
  "fe_at K f t C \<longleftrightarrow> fe_top f = int (length C) \<and> length (fe_stack f) = K \<and> length (fe_is_left f) = K \<and>
     (\<exists>s l. fe_stack f = path C @ ptr t # s \<and> fe_is_left f = lefts C @ l)"

lemma fe_atD:
  assumes "fe_at K f t C"
  shows "fe_stack f ! nat (fe_top f) = ptr t" "fe_is_left f ! nat (fe_top f) = (case C of [] \<Rightarrow> False | g # _ \<Rightarrow> \<not> fside g)"
    "fe_top f = int (length C)"
proof -
  obtain s l where f: "fe_stack f = path C @ ptr t # s" "fe_is_left f = lefts C @ l" "fe_top f = int (length C)"
    using assms by (auto simp: fe_at_def)
  have nt: "nat (fe_top f) = length C" by (simp add: f(3))
  show "fe_stack f ! nat (fe_top f) = ptr t" "fe_top f = int (length C)" by (simp_all add: f nth_append)
  show "fe_is_left f ! nat (fe_top f) = (case C of [] \<Rightarrow> False | g # _ \<Rightarrow> \<not> fside g)"
    unfolding nt by (cases C) (simp_all add: f nth_append)
qed

lemma fe_push_spec:
  assumes "fe_at K f t C" "length C + 2 \<le> K" "fnode g = ptr t"
  shows "\<exists>f'. fe_push (ptr v) (\<not> fside g) f = Some f' \<and> fe_at K f' v (g # C)"
proof -
  obtain s l where f: "fe_stack f = path C @ ptr t # s" "fe_is_left f = lefts C @ l" "fe_top f = int (length C)"
    "length (fe_stack f) = K" "length (fe_is_left f) = K"
    using assms(1) by (auto simp: fe_at_def)
  obtain q s' b l' where sl: "s = q # s'" "l = b # l'" using f assms(2) by (cases s; cases l) auto
  have "nat (int (length C) + 1) = length C + 1" by simp
  then have "fe_push (ptr v) (\<not> fside g) f =
      Some \<lparr>fe_stack = path (g # C) @ ptr v # s', fe_is_left = lefts (g # C) @ l', fe_top = int (length C) + 1\<rparr>"
    using assms(2,3) f(4,5) unfolding fe_push_def f(1-3) sl Let_def by (simp add: list_update_append)
  then show ?thesis using f(4,5) assms(3) by (simp add: fe_at_def f(1,2) sl)
qed

lemma left_limb_loop_spec:
  assumes "holds (cell m) (Bin c l n r)" "nodes_ok (inorder (Bin c l n r))" "fe_at K f (Bin c l n r) C" "length C + depth (Bin c l n r) \<le> K"
  shows "\<exists>f' C' c' n' r'. left_limb_loop m (ptr l) f = Some f' \<and> fe_at K f' (Bin c' Tip n' r') C' \<and>
    plug (Bin c' Tip n' r') C' = plug (Bin c l n r) C \<and> inorder (Bin c l n r) @ after C = n' # inorder r' @ after C'"
  using assms
proof (induction l arbitrary: c n r C f)
  case Tip
  have "left_limb_loop m (ptr Tip) f = Some f" by (subst left_limb_loop.simps) simp
  then show ?case using Tip.prems(3) by fastforce
next
  case (Bin c1 l1 n1 r1)
  note G = get_child_holds [OF Bin.prems(1,2)]
  let ?l = "Bin c1 l1 n1 r1" and ?g = "Frame False c n r"
  have l: "holds (cell m) ?l" "nodes_ok (inorder ?l)" using Bin.prems(1) G(6) by auto
  note H = get_child_holds [OF l]
  have len: "length C + 2 \<le> K" "length (?g # C) + depth ?l \<le> K" using Bin.prems(4) by auto
  from fe_push_spec [OF Bin.prems(3) len(1), of ?g ?l] obtain f1 where
    f1: "fe_push n1 True f = Some f1" "fe_at K f1 ?l (?g # C)" by auto
  from Bin.IH(1) [OF l f1(2) len(2)] obtain f' C' c' n' r' where
    "left_limb_loop m (ptr l1) f1 = Some f'" "fe_at K f' (Bin c' Tip n' r') C'"
    "plug (Bin c' Tip n' r') C' = plug ?l (?g # C)" "inorder ?l @ after (?g # C) = n' # inorder r' @ after C'" by auto
  moreover have "left_limb_loop m (ptr ?l) f = left_limb_loop m (ptr l1) f1"
    using f1(1) H(1,3) by (subst left_limb_loop.simps) simp
  ultimately show ?case by (auto simp: bin_def)
qed

lemma stack_left_limb_spec:
  assumes "holds (cell m) v" "nodes_ok (inorder v)" "v \<noteq> Tip" "fe_push (ptr v) False f = Some f1" "fe_at K f1 v C" "length C + depth v \<le> K"
  shows "\<exists>f' C' c' n' r'. stack_left_limb m (ptr v) f = Some (n', f') \<and> fe_at K f' (Bin c' Tip n' r') C' \<and>
    plug (Bin c' Tip n' r') C' = plug v C \<and> inorder v @ after C = n' # inorder r' @ after C'"
proof -
  obtain c l n r where v: "v = Bin c l n r" using assms(3) by (cases v) auto
  note G = get_child_holds [OF assms(1,2) [unfolded v]]
  from left_limb_loop_spec [OF assms(1,2,5,6) [unfolded v]] obtain f' C' c' n' r' where
    L: "left_limb_loop m (ptr l) f1 = Some f'" "fe_at K f' (Bin c' Tip n' r') C'" "plug (Bin c' Tip n' r') C' = plug v C"
    "inorder v @ after C = n' # inorder r' @ after C'" unfolding v by blast
  have "stack_left_limb m (ptr v) f = Some (n', f')"
    using assms(4) L(1) G(1) fe_atD(1) [OF L(2)] by (simp add: stack_left_limb_def v)
  then show ?thesis using L(2-4) by blast
qed

lemma fe_at_up: "fe_at K f t (g # C) \<Longrightarrow> g = Frame s c n y \<Longrightarrow> fe_at K (f\<lparr>fe_top := fe_top f - 1\<rparr>) (bin s c t n y) C"
  by (auto simp: fe_at_def)

lemma walk_up_spec:
  assumes "fe_at K f t C"
  shows "\<exists>t' C'. fe_at K (walk_up f) t' C' \<and> plug t' C' = plug t C \<and> after C' = after C \<and> (C' = [] \<or> \<not> fside (hd C'))"
  using assms
proof (induction C arbitrary: f t)
  case Nil
  have "walk_up f = f" using fe_atD(3) [OF Nil] by (subst walk_up.simps) simp
  then show ?case using Nil by (intro exI [of _ t] exI [of _ "[]"]) simp
next
  case (Cons g C)
  note D = fe_atD [OF Cons.prems]
  obtain s c n y where g: "g = Frame s c n y" by (cases g)
  show ?case
  proof (cases s)
    case True
    have "walk_up f = walk_up (f\<lparr>fe_top := fe_top f - 1\<rparr>)" using D(2,3) True by (subst walk_up.simps) (simp add: g)
    with Cons.IH [OF fe_at_up [OF Cons.prems g]] show ?thesis using True by (auto simp: g)
  next
    case False
    have "walk_up f = f" using D(2) False by (subst walk_up.simps) (simp add: g)
    then show ?thesis using Cons.prems False by (intro exI [of _ t] exI [of _ "g # C"]) (simp add: g)
  qed
qed

lemma foreach_next_spec:
  assumes T: "holds (cell m) T" "nodes_ok (inorder T)" "root tree = ptr T" "depth T \<le> K"
    and at: "fe_at K f (Bin c l n r) C" "plug (Bin c l n r) C = T"
  shows "\<exists>n' f'. z_rb_foreach_next m tree f = Some (n', f') \<and>
    (case inorder r @ after C of [] \<Rightarrow> n' = 0
     | x # xs \<Rightarrow> n' = x \<and> (\<exists>c' l' r' C'. fe_at K f' (Bin c' l' x r') C' \<and> plug (Bin c' l' x r') C' = T \<and> inorder r' @ after C' = xs))"
proof -
  let ?t = "Bin c l n r"
  have t: "holds (cell m) ?t" "nodes_ok (inorder ?t)" using T(1,2) by (auto simp: at(2) [symmetric] holds_plug nodes_ok_plug)
  note G = get_child_holds [OF t] and D = fe_atD [OF at(1)]
  have "T \<noteq> Tip" using inorder_plug [of ?t C] by (auto simp: at(2))
  then have rt: "root tree \<noteq> 0" using T(2,3) ptr_0 [of T] by simp
  have next_eq: "z_rb_foreach_next m tree f =
      (if r \<noteq> Tip then stack_left_limb m (ptr r) f
       else if (case C of [] \<Rightarrow> False | g # _ \<Rightarrow> \<not> fside g) then let f = f\<lparr>fe_top := fe_top f - 1\<rparr> in Some (fe_stack f ! nat (fe_top f), f)
       else let f = walk_up f; f = f\<lparr>fe_top := fe_top f - 1\<rparr> in Some (if fe_top f \<ge> 0 then fe_stack f ! nat (fe_top f) else 0, f))"
    using rt D G(2,5) by (simp add: z_rb_foreach_next_def)
  have up: ?thesis if next_f: "z_rb_foreach_next m tree f = Some (p, f')" and
    "fe_at K f' (bin False d u p y) B" "plug (bin False d u p y) B = T" "inorder r @ after C = p # inorder y @ after B" for f' d u p y B
    using that by (auto simp: bin_def)
  show ?thesis
  proof (cases "r = Tip")
    case False
    let ?g = "Frame True c n l"
    have pl: "plug r (?g # C) = T" "after (?g # C) = after C" using at(2) by (simp_all add: bin_def)
    have len: "length (?g # C) + depth r \<le> K" using T(4) by (simp add: depth_plug at(2) [symmetric]) linarith
    moreover have "depth r \<ge> 1" using False by (cases r) auto
    ultimately have "length C + 2 \<le> K" by simp
    from fe_push_spec [OF at(1) this, of ?g r] obtain f1 where f1: "fe_push (ptr r) False f = Some f1" "fe_at K f1 r (?g # C)" by auto
    have "holds (cell m) r" using t(1) by simp
    from stack_left_limb_spec [OF this G(7) False f1 len] obtain f' C' c' n' r' where
      "stack_left_limb m (ptr r) f = Some (n', f')" "fe_at K f' (Bin c' Tip n' r') C'" "plug (Bin c' Tip n' r') C' = T"
      "inorder r @ after C = n' # inorder r' @ after C'" unfolding pl by blast
    then show ?thesis using up [of n' f' c' Tip r' C'] False next_eq by (simp add: bin_def)
  next
    case True
    from walk_up_spec [OF at(1)] obtain t' C' where W: "fe_at K (walk_up f) t' C'" "plug t' C' = T" "after C' = after C" "C' = [] \<or> \<not> fside (hd C')"
      using at(2) by auto
    show ?thesis
    proof (cases "\<exists>g B. C = g # B \<and> \<not> fside g")
      case left: True
      then obtain d p y B where C: "C = Frame False d p y # B" by (metis (full_types) frame.collapse)
      let ?f = "f\<lparr>fe_top := fe_top f - 1\<rparr>"
      have U: "fe_at K ?f (bin False d ?t p y) B" using fe_at_up at(1) unfolding C by blast
      show ?thesis by (rule up [OF _ U]) (use next_eq True C at(2) fe_atD(1) [OF U] in \<open>simp_all add: Let_def\<close>)
    next
      case right: False
      then have c: "\<not> (case C of [] \<Rightarrow> False | g # _ \<Rightarrow> \<not> fside g)" by (cases C) auto
      show ?thesis
      proof (cases C')
        case Nil
        then show ?thesis using next_eq c True W fe_atD(3) [OF W(1)] by (simp add: Let_def)
      next
        case (Cons g B)
        then obtain d p y where C': "C' = Frame False d p y # B" using W(4) by (cases g) auto
        let ?f = "(walk_up f)\<lparr>fe_top := fe_top (walk_up f) - 1\<rparr>"
        have U: "fe_at K ?f (bin False d t' p y) B" using fe_at_up W(1) unfolding C' by blast
        show ?thesis by (rule up [OF _ U]) (use next_eq c True W C' fe_atD(1,3) [OF U] in \<open>simp_all add: Let_def\<close>)
      qed
    qed
  qed
qed

lemma for_each_loop_spec:
  assumes T: "holds (cell m) T" "nodes_ok (inorder T)" "root tree = ptr T" "depth T \<le> K"
    and "fe_at K f (Bin c l n r) C" "plug (Bin c l n r) C = T"
  shows "for_each_loop m tree f = Some (inorder r @ after C)"
  using assms(5,6)
proof (induction "inorder r @ after C" arbitrary: f c l n r C)
  case Nil
  from foreach_next_spec [OF T Nil.prems] Nil.hyps obtain f' where "z_rb_foreach_next m tree f = Some (0, f')" by auto
  then show ?case using Nil.hyps by (subst for_each_loop.simps) simp
next
  case (Cons x xs)
  from foreach_next_spec [OF T Cons.prems] obtain f' c' l' r' C' where
    f': "z_rb_foreach_next m tree f = Some (x, f')" "fe_at K f' (Bin c' l' x r') C'" "plug (Bin c' l' x r') C' = T" "inorder r' @ after C' = xs"
    unfolding Cons.hyps(2) [symmetric] by auto
  have "x \<noteq> 0" using T(2) by (simp add: f'(3) [symmetric] nodes_ok_plug nodes_ok_append nodes_ok_Cons)
  then show ?case using Cons.hyps(1) [OF f'(4) [symmetric] f'(2,3)] f'(1,4) Cons.hyps(2) by (subst for_each_loop.simps) simp
qed

lemma RB_FOR_EACH_spec:
  assumes "rb_holds m tree ns"
  shows "RB_FOR_EACH junk junk_left m tree = Some ns"
proof -
  obtain T where T: "holds (cell m) T" "root tree = ptr T" "nodes_ok (inorder T)" "inorder T = ns" "depth T \<le> max_depth tree"
    using assms by (auto simp: rb_holds_def good_def)
  let ?K = "max_depth tree"
  define f0 where "f0 = \<lparr>fe_stack = map junk [0..<?K], fe_is_left = map junk_left [0..<?K], fe_top = -1\<rparr>"
  show ?thesis
  proof (cases "T = Tip")
    case True
    then show ?thesis using T(2,4) by (simp add: RB_FOR_EACH_def z_rb_foreach_next_def for_each_loop.simps)
  next
    case False
    have K: "?K \<ge> 1" using T(5) False by (cases T) auto
    then obtain k where k: "?K = Suc k" by (cases ?K) auto
    have "\<exists>f1. fe_push (ptr T) False f0 = Some f1 \<and> fe_at ?K f1 T []"
      by (auto simp: fe_push_def f0_def fe_at_def k upt_conv_Cons simp del: upt_Suc)
    then obtain f1 where f1: "fe_push (ptr T) False f0 = Some f1" "fe_at ?K f1 T []" by blast
    from stack_left_limb_spec [OF T(1,3) False f1] T(5) obtain f' C' c' n' r' where
      L: "stack_left_limb m (ptr T) f0 = Some (n', f')" "fe_at ?K f' (Bin c' Tip n' r') C'" "plug (Bin c' Tip n' r') C' = T" "ns = n' # inorder r' @ after C'"
      by (auto simp: T(4))
    have n: "n' \<noteq> 0" "root tree \<noteq> 0"
      using T(3) L(4) ptr_0 [OF T(3)] False T(2) by (simp_all add: T(4) nodes_ok_Cons)
    have "for_each_loop m tree f0 = Some ns"
      using L(1,4) n T(2) for_each_loop_spec [OF T(1,3,2,5) L(2,3)]
      by (subst for_each_loop.simps) (simp add: z_rb_foreach_next_def f0_def)
    then show ?thesis by (simp add: RB_FOR_EACH_def f0_def)
  qed
qed

section \<open>Orders\<close>

text \<open>
  What the tree relies on: the comparison function of its user is a strict order in which not being less is
  transitive, too, so that nodes that compare as equal are interchangeable for all others.
\<close>

locale lessthan =
  fixes lt :: "uptr \<Rightarrow> uptr \<Rightarrow> bool"
  assumes irrefl: "\<not> lt a a"
    and trans: "lt a b \<Longrightarrow> lt b c \<Longrightarrow> lt a c"
    and not_less_trans: "\<not> lt a b \<Longrightarrow> \<not> lt b c \<Longrightarrow> \<not> lt a c"
begin

lemma asym: "lt a b \<Longrightarrow> \<not> lt b a"
  using irrefl trans by blast

lemma sorted_strict: "sorted_wrt lt ns \<Longrightarrow> sorted_wrt (\<lambda>a b. lt a b \<and> \<not> lt b a) ns"
  by (rule sorted_wrt_mono_rel [of _ lt]) (auto dest: asym)

lemma sorted_above: "sorted_wrt lt ns \<Longrightarrow> sorted_wrt (\<lambda>a b. lt x a \<longrightarrow> lt x b) ns"
  by (rule sorted_wrt_mono_rel [of _ lt]) (auto intro: trans)

lemma sorted_place:
  assumes "sorted_wrt lt ns" "\<And>n. n \<in> set ns \<Longrightarrow> lt x n \<or> lt n x"
  shows "sorted_wrt lt (rb_place lt x ns)"
  using assms
proof (induction ns)
  case (Cons n ns)
  show ?case
  proof (cases "lt x n")
    case True
    then show ?thesis using Cons.prems(1) trans by (auto simp: rb_place_def)
  next
    case False
    then have "lt n x" using Cons.prems(2) by auto
    then have "\<forall>y \<in> set (rb_place lt x ns). lt n y"
      using Cons.prems(1) by (auto simp: rb_place_def dest: set_takeWhileD set_dropWhileD)
    then show ?thesis using Cons False by (simp add: rb_place_def)
  qed
qed (simp add: rb_place_def)

lemma insert_sorted:
  assumes "rb_holds m tree ns" "sorted_wrt lt ns" "x \<noteq> 0" "aligned x" "x \<notin> set ns" "\<And>n. n \<in> set ns \<Longrightarrow> lt x n \<or> lt n x"
  shows "\<exists>tree' m'. rb_insert lt junk x tree m = Some (tree', m') \<and> rb_holds m' tree' (rb_place lt x ns) \<and>
    sorted_wrt lt (rb_place lt x ns) \<and> same_outside (insert x (set ns)) m m'"
  using rb_insert_spec [where lt = lt, OF assms(1,3-5) sorted_above [OF assms(2), of x], of junk] sorted_place [OF assms(2), of x] assms(6) by blast

lemma remove_sorted:
  assumes "rb_holds m tree ns" "sorted_wrt lt ns" "x \<in> set ns"
  shows "\<exists>tree' m'. rb_remove lt junk x tree m = Some (tree', m') \<and> rb_holds m' tree' (remove1 x ns) \<and>
    sorted_wrt lt (remove1 x ns) \<and> same_outside (set ns) m m'"
  using rb_remove_spec [OF assms(1,3) sorted_strict [OF assms(2)]] sorted_wrt_remove1 [OF assms(2)] by blast

end

section \<open>Properties\<close>

text \<open>A tree of nodes at even addresses, ordered by address, for the witnesses.\<close>

interpretation by_addr: lessthan "(<)"
  by unfold_locales auto

definition no_nodes :: rbmem where
  "no_nodes = (\<lambda>_. \<lparr>child0 = 0, child1 = 0\<rparr>)"

definition empty_tree :: rbtree where
  "empty_tree = \<lparr>root = 0, max_depth = 0\<rparr>"

lemma empty_tree_holds: "rb_holds m empty_tree []"
  by (rule rb_holdsI [of _ Tip]) (simp_all add: empty_tree_def good_def)

text \<open>Runs of a tree that starts empty; the list is what was put in and not taken out again.\<close>

inductive rb_run :: "(uptr \<Rightarrow> uptr \<Rightarrow> bool) \<Rightarrow> rbmem \<Rightarrow> rbtree \<Rightarrow> uptr list \<Rightarrow> bool" for lt where
  start: "root tree = 0 \<Longrightarrow> rb_run lt m tree []"
| insert: "rb_run lt m tree ns \<Longrightarrow> x \<noteq> 0 \<Longrightarrow> aligned x \<Longrightarrow> x \<notin> set ns \<Longrightarrow> (\<forall>n \<in> set ns. lt x n \<or> lt n x) \<Longrightarrow>
    rb_insert lt junk x tree m = Some (tree', m') \<Longrightarrow> rb_run lt m' tree' (x # ns)"
| remove: "rb_run lt m tree ns \<Longrightarrow> x \<in> set ns \<Longrightarrow> rb_remove lt junk x tree m = Some (tree', m') \<Longrightarrow>
    rb_run lt m' tree' (remove1 x ns)"

lemma mset_place: "mset (rb_place lt x ns) = add_mset x (mset ns)"
proof -
  have "mset (takeWhile P ns) + mset (dropWhile P ns) = mset ns" for P :: "uptr \<Rightarrow> bool"
    by (metis mset_append takeWhile_dropWhile_id)
  then show ?thesis by (simp add: rb_place_def)
qed

lemma rb_run_holds:
  assumes "lessthan lt" "rb_run lt m tree ns"
  shows "\<exists>xs. rb_holds m tree xs \<and> sorted_wrt lt xs \<and> mset xs = mset ns"
  using assms(2)
proof (induction rule: rb_run.induct)
  case (start tree m)
  then have "rb_holds m tree []" by (intro rb_holdsI [of _ Tip]) (simp_all add: good_def)
  then show ?case by auto
next
  case (insert m tree ns x junk tree' m')
  then obtain xs where xs: "rb_holds m tree xs" "sorted_wrt lt xs" "mset xs = mset ns" by blast
  have "set xs = set ns" using xs(3) by (rule mset_eq_setD)
  then show ?case
    using lessthan.insert_sorted [OF assms(1) xs(1,2) insert.hyps(2,3), of junk] insert.hyps(4-6) xs(3) mset_place [of lt x xs] by auto
next
  case (remove m tree ns x junk tree' m')
  then obtain xs where xs: "rb_holds m tree xs" "sorted_wrt lt xs" "mset xs = mset ns" by blast
  have "set xs = set ns" using xs(3) by (rule mset_eq_setD)
  then show ?case
    using lessthan.remove_sorted [OF assms(1) xs(1,2), of x junk] remove.hyps(2,3) xs(3) by (auto intro!: exI [of _ "remove1 x xs"])
qed

lemma red_children:
  assumes "holds (cell m) t" "nodes_ok (inorder t)" "rbv t" "n \<in> set (inorder t)" "is_red m n"
  shows "get_child m n s = 0 \<or> is_black m (get_child m n s)"
  using assms
proof (induction t)
  case (Bin c l k r)
  note G = get_child_holds [OF Bin.prems(1,2)]
  show ?case
  proof (cases "n = k")
    case True
    have "c = RED" using Bin.prems(1,5) True by (simp add: is_red_def get_of_cell)
    then have "black l" "black r" using Bin.prems(3) by simp_all
    then show ?thesis using child_black(1) [of m l] child_black(1) [of m r] Bin.prems(1) G True by (cases s) simp_all
  next
    case False
    then show ?thesis using Bin G by auto
  qed
qed simp

text \<open>
  C8. Whatever nodes were inserted into a tree that was empty at first and whatever was removed again, memory holds
  a well-formed red-black tree: it has exactly the nodes that are in, in the order of the comparison function, no red
  node has a red child, and every further insertion of a node that is comparable to them and every removal
  returns, without leaving the array in which it keeps its path.
\<close>

theorem rb_tree_well_formed:
  assumes "lessthan lt" "rb_run lt m tree ns"
  shows "(\<exists>xs. rb_holds m tree xs \<and> sorted_wrt lt xs \<and> mset xs = mset ns) \<and>
    (\<forall>n s. n \<in> set ns \<and> is_red m n \<longrightarrow> get_child m n s = 0 \<or> is_black m (get_child m n s)) \<and>
    (\<forall>x junk. x \<in> set ns \<longrightarrow> rb_remove lt junk x tree m \<noteq> None) \<and>
    (\<forall>x junk. x \<noteq> 0 \<and> aligned x \<and> x \<notin> set ns \<and> (\<forall>n \<in> set ns. lt x n \<or> lt n x) \<longrightarrow> rb_insert lt junk x tree m \<noteq> None)"
proof -
  obtain xs where xs: "rb_holds m tree xs" "sorted_wrt lt xs" "mset xs = mset ns" using rb_run_holds [OF assms] by blast
  have set: "set xs = set ns" using xs(3) by (rule mset_eq_setD)
  obtain T where "holds (cell m) T" "nodes_ok (inorder T)" "rbv T" "inorder T = xs" using xs(1) by (auto simp: rb_holds_def good_def)
  then have "\<forall>n s. n \<in> set ns \<and> is_red m n \<longrightarrow> get_child m n s = 0 \<or> is_black m (get_child m n s)"
    using red_children set by metis
  moreover have "rb_remove lt junk x tree m \<noteq> None" if "x \<in> set ns" for x junk
    using lessthan.remove_sorted [OF assms(1) xs(1,2), of x junk] that set by auto
  moreover have "rb_insert lt junk x tree m \<noteq> None" if "x \<noteq> 0" "aligned x" "x \<notin> set ns" "\<forall>n \<in> set ns. lt x n \<or> lt n x" for x junk
    using lessthan.insert_sorted [OF assms(1) xs(1,2) that(1,2), of junk] that(3,4) set by auto
  ultimately show ?thesis using xs by blast
qed

text \<open>
  C7. The operations implement an ordered list: inserting puts the node behind all nodes it is not less than,
  removing takes it out, both change no memory but that of the nodes concerned, and the searches answer for the list.
\<close>

theorem rb_refines_ordered_list:
  assumes "lessthan lt" "rb_holds m tree ns" "sorted_wrt lt ns"
  shows "(\<forall>x junk. x \<noteq> 0 \<and> aligned x \<and> x \<notin> set ns \<and> (\<forall>n \<in> set ns. lt x n \<or> lt n x) \<longrightarrow>
      (\<exists>tree' m'. rb_insert lt junk x tree m = Some (tree', m') \<and> rb_holds m' tree' (rb_place lt x ns) \<and>
        sorted_wrt lt (rb_place lt x ns) \<and> same_outside (insert x (set ns)) m m')) \<and>
    (\<forall>x junk. x \<in> set ns \<longrightarrow>
      (\<exists>tree' m'. rb_remove lt junk x tree m = Some (tree', m') \<and> rb_holds m' tree' (remove1 x ns) \<and> same_outside (set ns) m m')) \<and>
    (\<forall>x. x \<noteq> 0 \<longrightarrow> rb_contains lt m tree x = Some (x \<in> set ns)) \<and>
    rb_get_min m tree = Some (if ns = [] then 0 else hd ns) \<and> rb_get_max m tree = Some (if ns = [] then 0 else last ns)"
proof -
  obtain T where T: "holds (cell m) T" "root tree = ptr T" "nodes_ok (inorder T)" "inorder T = ns"
    using assms(2) by (auto simp: rb_holds_def good_def)
  have tip: "T = Tip \<longleftrightarrow> ns = []" using T(4) by (cases T) auto
  have s: "sorted_wrt (\<lambda>a b. lt a b \<and> \<not> lt b a) (inorder T)" using lessthan.sorted_strict [OF assms(1,3)] T(4) by simp
  have "rb_contains lt m tree x = Some (x \<in> set ns)" if "x \<noteq> 0" for x
    using contains_loop_spec [OF T(1,3) s that] by (auto simp: rb_contains_def T(2,4))
  moreover have "rb_get_min m tree = Some (if ns = [] then 0 else hd ns) \<and> rb_get_max m tree = Some (if ns = [] then 0 else last ns)"
    using minmax_loop_spec [OF T(1,3)] by (simp add: rb_get_min_def rb_get_max_def z_rb_get_minmax_def T(2,4) tip)
  ultimately show ?thesis
    using lessthan.insert_sorted [OF assms] lessthan.remove_sorted [OF assms] by meson
qed

lemma two_nodes_run: "\<exists>m tree. rb_run (<) m tree [8, 4] \<and> rb_holds m tree [4, 8]"
proof -
  from by_addr.insert_sorted [OF empty_tree_holds, of 4 "\<lambda>_. 0" no_nodes] obtain t1 m1 where
    1: "rb_insert (<) (\<lambda>_. 0) 4 empty_tree no_nodes = Some (t1, m1)" "rb_holds m1 t1 [4]"
    by (auto simp: aligned_def rb_place_def)
  from by_addr.insert_sorted [OF 1(2), of 8 "\<lambda>_. 0"] obtain t2 m2 where
    2: "rb_insert (<) (\<lambda>_. 0) 8 t1 m1 = Some (t2, m2)" "rb_holds m2 t2 [4, 8]"
    by (auto simp: aligned_def rb_place_def)
  have "rb_run (<) no_nodes empty_tree []" by (rule rb_run.start) (simp add: empty_tree_def)
  from rb_run.insert [OF this _ _ _ _ 1(1)] have "rb_run (<) m1 t1 [4]" by (simp add: aligned_def)
  from rb_run.insert [OF this _ _ _ _ 2(1)] have "rb_run (<) m2 t2 [8, 4]" by (simp add: aligned_def)
  then show ?thesis using 2(2) by blast
qed

lemma rb_tree_well_formed_witness:
  "\<exists>m tree. rb_run (<) m tree [8, 4] \<and> rb_remove (<) (\<lambda>_. 0) 4 tree m \<noteq> None \<and> rb_insert (<) (\<lambda>_. 0) 6 tree m \<noteq> None"
proof -
  obtain m tree where r: "rb_run (<) m tree [8, 4]" using two_nodes_run by blast
  note W = rb_tree_well_formed [OF by_addr.lessthan_axioms r]
  have "rb_remove (<) (\<lambda>_. 0) 4 tree m \<noteq> None"
    by (rule W [THEN conjunct2, THEN conjunct2, THEN conjunct1, rule_format]) simp
  moreover have "rb_insert (<) (\<lambda>_. 0) 6 tree m \<noteq> None"
    by (rule W [THEN conjunct2, THEN conjunct2, THEN conjunct2, rule_format]) (simp add: aligned_def)
  ultimately show ?thesis using r by blast
qed

lemma rb_refines_ordered_list_witness:
  "\<exists>m tree. rb_holds m tree [4, 8] \<and> rb_get_min m tree = Some 4 \<and>
    (\<exists>tree' m'. rb_insert (<) (\<lambda>_. 0) 6 tree m = Some (tree', m') \<and> rb_holds m' tree' [4, 6, 8])"
proof -
  obtain m tree where h: "rb_holds m tree [4, 8]" using two_nodes_run by blast
  have "sorted_wrt (<) [4 :: uptr, 8]" by simp
  note W = rb_refines_ordered_list [OF by_addr.lessthan_axioms h this]
  have "rb_get_min m tree = Some 4" using W by simp
  moreover have "\<exists>tree' m'. rb_insert (<) (\<lambda>_. 0) 6 tree m = Some (tree', m') \<and> rb_holds m' tree' [4, 6, 8]"
    using W [THEN conjunct1, rule_format, of 6 "\<lambda>_. 0"] by (auto simp: aligned_def rb_place_def)
  ultimately show ?thesis using h by blast
qed

lemma search_depth:
  assumes "rb_holds m tree ns" "ns \<noteq> []"
  shows "\<exists>stack sz b. find_and_stack lt m tree x (map junk [0..<max_depth tree + 1]) = Some (stack, sz) \<and> sz \<le> 2 * b \<and> 2 ^ b \<le> length ns + 1"
proof -
  obtain T where T: "holds (cell m) T" "root tree = ptr T" "nodes_ok (inorder T)" "inorder T = ns" "depth T \<le> max_depth tree" "rbv T" "black T"
    using assms(1) by (auto simp: rb_holds_def good_def)
  have "T \<noteq> Tip" using T(4) assms(2) by auto
  from find_and_stack_spec [OF T(1,3) this T(2,5), of lt x junk] obtain C t rest where
    f: "find_and_stack lt m tree x (map junk [0..<max_depth tree + 1]) = Some (path C @ ptr t # rest, length C + 1)" "plug t C = T" "t \<noteq> Tip" by metis
  have "length C + depth t \<le> depth T" using depth_plug [of t C] f(2) by simp
  moreover have "depth t \<ge> 1" using f(3) by (cases t) auto
  ultimately have "length C + 1 \<le> 2 * bh T" using depth_bh [OF T(6)] T(7) by simp
  then show ?thesis using f(1) size_bh [OF T(6)] T(4) by auto
qed

text \<open>
  C14. A search keeps at most two path entries for every doubling of the number of nodes. In particular the fixed array
  of \<open>CONFIG_MISRA_SANE\<close> is long enough for the path and the inserted node in any tree that fits into memory,
  where a node takes 8 of the \<open>2 ^ 32\<close> bytes.
\<close>

theorem rb_depth_logarithmic:
  assumes "rb_holds m tree ns" "ns \<noteq> []"
  shows "\<exists>stack sz. find_and_stack lt m tree x (map junk [0..<max_depth tree + 1]) = Some (stack, sz) \<and>
    2 ^ ((sz + 1) div 2) \<le> length ns + 1 \<and> (8 * length ns < 2 ^ 32 \<longrightarrow> sz + 1 \<le> Z_MAX_RBTREE_DEPTH)"
proof -
  obtain stack sz b where s: "find_and_stack lt m tree x (map junk [0..<max_depth tree + 1]) = Some (stack, sz)" "sz \<le> 2 * b" "2 ^ b \<le> length ns + 1"
    using search_depth [OF assms] by blast
  have "(2::nat) ^ ((sz + 1) div 2) \<le> 2 ^ b" using s(2) by (intro power_increasing) auto
  moreover have "sz + 1 \<le> Z_MAX_RBTREE_DEPTH" if "8 * length ns < 2 ^ 32"
  proof -
    have "(2::nat) ^ b < 2 ^ 30" using s(3) that by simp
    then have "b < 30" by (rule power_less_imp_less_exp [rotated]) simp
    then show ?thesis using s(2) by (simp add: Z_MAX_RBTREE_DEPTH_def Z_PBITS_def Z_TBITS_def)
  qed
  ultimately show ?thesis using s(1,3) by (meson le_trans)
qed

lemma rb_depth_logarithmic_witness:
  "\<exists>m tree stack sz. rb_holds m tree [4, 8] \<and> find_and_stack (<) m tree 6 (map (\<lambda>_. 0) [0..<max_depth tree + 1]) = Some (stack, sz) \<and> (sz + 1) div 2 \<le> 1"
proof -
  obtain m tree where h: "rb_holds m tree [4, 8]" using two_nodes_run by blast
  from rb_depth_logarithmic [OF h, of "(<)" 6 "\<lambda>_. 0"] obtain stack sz where
    f: "find_and_stack (<) m tree 6 (map (\<lambda>_. 0) [0..<max_depth tree + 1]) = Some (stack, sz)" "2 ^ ((sz + 1) div 2) \<le> (3::nat)" by auto
  have "(2::nat) ^ ((sz + 1) div 2) < 2 ^ 2" using f(2) by simp
  then have "(sz + 1) div 2 < 2" by (rule power_less_imp_less_exp [rotated]) simp
  then show ?thesis using h f(1) by (intro exI [of _ m] exI [of _ tree] exI [of _ stack] exI [of _ sz]) simp
qed

text \<open>
  C15. The loop over a tree, which keeps its position on a stack of its own, ends, stays within that stack and visits
  every node once, in the order of the tree; the recursive walk visits the same nodes in the same order.
\<close>

theorem rb_for_each_in_order:
  assumes "rb_holds m tree ns"
  shows "RB_FOR_EACH junk junk_left m tree = Some ns \<and> rb_walk m tree = Some ns"
proof -
  obtain T where "holds (cell m) T" "root tree = ptr T" "nodes_ok (inorder T)" "inorder T = ns"
    using assms by (auto simp: rb_holds_def good_def)
  then show ?thesis using RB_FOR_EACH_spec [OF assms] z_rb_walk_spec [of m T] by (simp add: rb_walk_def)
qed

lemma rb_for_each_in_order_witness:
  "\<exists>m tree. rb_holds m tree [4, 8] \<and> RB_FOR_EACH (\<lambda>_. 0) (\<lambda>_. False) m tree = Some [4, 8] \<and> rb_walk m tree = Some [4, 8]"
  using two_nodes_run rb_for_each_in_order [of _ _ "[4, 8]" "\<lambda>_. 0" "\<lambda>_. False"] by blast

end
