(* ===== verification/Priq_Rb.thy ===== *)
theory Priq_Rb
  imports Priq Rbtree_Props
begin

text \<open>
  The scalable queue of \<open>kernel/include/priority_q.h\<close> and \<open>kernel/priority_queues.c\<close>: threads in a red-black
  tree, ordered by priority and, within a priority, by an order key that counts the additions. It is shown to behave
  as the list queue until the order key wraps around.
\<close>

section \<open>Operations\<close>

text \<open>
  The node of a thread is the first member of the thread, so thread and node have the same address. The order
  keys of the threads are a map of their own. The field \<open>next_order_key\<close> is a 32-bit \<open>int\<close> that is only counted up,
  compared with 0 and stored into the unsigned keys, so it is the word of its bits; the code relies on its wrap-around,
  which is that of two's complement.
\<close>

type_synonym order_keys = "tid \<Rightarrow> u32"

record priq_rb =
  rb_tree :: rbtree
  next_order_key :: u32

definition qnode_rb :: "tid \<Rightarrow> uptr" where
  "qnode_rb thread = of_nat thread"

definition thread_of :: "uptr \<Rightarrow> tid" where
  "thread_of n = unat n"

definition z_priq_rb_lessthan :: "tcbs \<Rightarrow> order_keys \<Rightarrow> uptr \<Rightarrow> uptr \<Rightarrow> bool" where
  "z_priq_rb_lessthan th order_key a b =
     (let thread_a = thread_of a; thread_b = thread_of b;
          cmp = z_sched_prio_cmp (th thread_a) (th thread_b)
      in if cmp > 0 then True else if cmp < 0 then False else order_key thread_a < order_key thread_b)"

text \<open>The loop that numbers the threads of the tree again; its body writes order keys only, no links.\<close>

fun renumber :: "uptr list \<Rightarrow> u32 \<Rightarrow> order_keys \<Rightarrow> u32 \<times> order_keys" where
  "renumber [] key order_key = (key, order_key)"
| "renumber (n # ns) key order_key = renumber ns (key + 1) (order_key(thread_of n := key))"

definition z_priq_rb_add ::
  "tcbs \<Rightarrow> (nat \<Rightarrow> uptr) \<Rightarrow> (nat \<Rightarrow> bool) \<Rightarrow> tid \<Rightarrow> priq_rb \<times> order_keys \<times> rbmem \<Rightarrow> (priq_rb \<times> order_keys \<times> rbmem) option" where
  "z_priq_rb_add th junk junk_left thread s =
     (let (pq, order_key, m) = s;
          order_key = order_key(thread := next_order_key pq);
          key = next_order_key pq + 1
      in do {
        (key, order_key) \<leftarrow>
          (if key = 0 then do { ns \<leftarrow> RB_FOR_EACH junk junk_left m (rb_tree pq); Some (renumber ns key order_key) }
           else Some (key, order_key));
        (tree, m) \<leftarrow> rb_insert (z_priq_rb_lessthan th order_key) junk (qnode_rb thread) (rb_tree pq) m;
        Some (\<lparr>rb_tree = tree, next_order_key = key\<rparr>, order_key, m)
      })"

definition z_priq_rb_remove ::
  "tcbs \<Rightarrow> (nat \<Rightarrow> uptr) \<Rightarrow> tid \<Rightarrow> priq_rb \<times> order_keys \<times> rbmem \<Rightarrow> (priq_rb \<times> order_keys \<times> rbmem) option" where
  "z_priq_rb_remove th junk thread s =
     (let (pq, order_key, m) = s
      in do {
        (tree, m) \<leftarrow> rb_remove (z_priq_rb_lessthan th order_key) junk (qnode_rb thread) (rb_tree pq) m;
        let pq = pq\<lparr>rb_tree := tree\<rparr>;
        Some (if root tree = 0 then pq\<lparr>next_order_key := 0\<rparr> else pq, order_key, m)
      })"

definition z_priq_rb_best :: "rbmem \<Rightarrow> priq_rb \<Rightarrow> tid option option" where
  "z_priq_rb_best m pq = map_option (\<lambda>n. if n \<noteq> 0 then Some (thread_of n) else None) (rb_get_min m (rb_tree pq))"

section \<open>The order of the queue\<close>

lemma rb_lessthan_iff:
  "z_priq_rb_lessthan th ok a b \<longleftrightarrow> prio (th (thread_of a)) < prio (th (thread_of b)) \<or>
     prio (th (thread_of a)) = prio (th (thread_of b)) \<and> ok (thread_of a) < ok (thread_of b)"
  by (auto simp: z_priq_rb_lessthan_def Let_def z_sched_prio_cmp_def)

interpretation prq: lessthan "z_priq_rb_lessthan th ok" for th ok
  by unfold_locales (auto simp: rb_lessthan_iff)

text \<open>Threads whose addresses are those of nodes.\<close>

definition thread_addr :: "tid \<Rightarrow> bool" where
  "thread_addr t \<longleftrightarrow> t \<noteq> 0 \<and> even t \<and> t < 2 ^ 32"

lemma thread_of_qnode [simp]: "thread_addr t \<Longrightarrow> thread_of (qnode_rb t) = t"
  by (simp add: thread_addr_def thread_of_def qnode_rb_def unat_of_nat)

lemma qnode_ok: "thread_addr t \<Longrightarrow> qnode_rb t \<noteq> 0 \<and> aligned (qnode_rb t)"
  by (auto simp: thread_addr_def qnode_rb_def aligned_even even_of_nat word_of_nat_eq_0_iff dvd_imp_le)

lemma qnode_inj: "thread_addr t \<Longrightarrow> thread_addr u \<Longrightarrow> qnode_rb t = qnode_rb u \<longleftrightarrow> t = u"
  by (metis thread_of_qnode)

definition before_rb :: "tcbs \<Rightarrow> order_keys \<Rightarrow> tid \<Rightarrow> tid \<Rightarrow> bool" where
  "before_rb th ok a b \<longleftrightarrow> prio (th a) < prio (th b) \<or> prio (th a) = prio (th b) \<and> ok a < ok b"

lemma lessthan_qnode:
  "thread_addr a \<Longrightarrow> thread_addr b \<Longrightarrow> z_priq_rb_lessthan th ok (qnode_rb a) (qnode_rb b) = before_rb th ok a b"
  by (simp add: rb_lessthan_iff before_rb_def)

lemma sorted_nodes:
  "(\<forall>t \<in> set ts. thread_addr t) \<Longrightarrow> sorted_wrt (z_priq_rb_lessthan th ok) (map qnode_rb ts) \<longleftrightarrow> sorted_wrt (before_rb th ok) ts"
  by (induction ts) (auto simp: lessthan_qnode)

text \<open>The tree holds these threads in this order.\<close>

definition rb_queue :: "tcbs \<Rightarrow> priq_rb \<times> order_keys \<times> rbmem \<Rightarrow> tid list \<Rightarrow> bool" where
  "rb_queue th s ts \<longleftrightarrow> (case s of (pq, ok, m) \<Rightarrow>
     rb_holds m (rb_tree pq) (map qnode_rb ts) \<and> (\<forall>t \<in> set ts. thread_addr t) \<and> sorted_wrt (before_rb th ok) ts)"

definition keys_below :: "priq_rb \<times> order_keys \<times> rbmem \<Rightarrow> tid list \<Rightarrow> bool" where
  "keys_below s ts \<longleftrightarrow> (case s of (pq, ok, m) \<Rightarrow> \<forall>t \<in> set ts. ok t < next_order_key pq)"

section \<open>Adding and removing\<close>

definition place :: "('a \<Rightarrow> bool) \<Rightarrow> 'a \<Rightarrow> 'a list \<Rightarrow> 'a list" where
  "place P x xs = takeWhile (\<lambda>y. \<not> P y) xs @ x # dropWhile (\<lambda>y. \<not> P y) xs"

lemma place_cong: "(\<And>y. y \<in> set xs \<Longrightarrow> P y = Q y) \<Longrightarrow> place P x xs = place Q x xs"
  by (induction xs) (auto simp: place_def)

lemma set_place [simp]: "set (place P x xs) = insert x (set xs)"
  unfolding place_def by (induction xs) auto

lemma dumb_add_place: "z_priq_dumb_add th ts t = place (\<lambda>u. prio (th t) < prio (th u)) t ts"
  by (induction ts) (auto simp: place_def)

lemma rb_place_nodes:
  assumes "thread_addr t" "\<forall>u \<in> set ts. thread_addr u"
  shows "rb_place (z_priq_rb_lessthan th ok) (qnode_rb t) (map qnode_rb ts) = map qnode_rb (place (before_rb th ok t) t ts)"
  using assms(2) by (induction ts) (auto simp: rb_place_def place_def lessthan_qnode assms(1))

lemma insert_thread:
  assumes "rb_holds m tree (map qnode_rb ts)" "\<forall>u \<in> set ts. thread_addr u" "sorted_wrt (before_rb th ok) ts"
    and "thread_addr t" "t \<notin> set ts" "\<And>u. u \<in> set ts \<Longrightarrow> before_rb th ok t u \<or> before_rb th ok u t"
  shows "\<exists>tree' m'. rb_insert (z_priq_rb_lessthan th ok) junk (qnode_rb t) tree m = Some (tree', m') \<and>
    rb_holds m' tree' (map qnode_rb (place (before_rb th ok t) t ts)) \<and> sorted_wrt (before_rb th ok) (place (before_rb th ok t) t ts)"
proof -
  have "qnode_rb t \<notin> set (map qnode_rb ts)" using assms(2,4,5) by (auto simp: qnode_inj)
  moreover have "z_priq_rb_lessthan th ok (qnode_rb t) n \<or> z_priq_rb_lessthan th ok n (qnode_rb t)" if "n \<in> set (map qnode_rb ts)" for n
    using that assms(2,4) assms(6) by (fastforce simp: lessthan_qnode)
  ultimately obtain tree' m' where
    i: "rb_insert (z_priq_rb_lessthan th ok) junk (qnode_rb t) tree m = Some (tree', m')"
    "rb_holds m' tree' (map qnode_rb (place (before_rb th ok t) t ts))"
    "sorted_wrt (z_priq_rb_lessthan th ok) (map qnode_rb (place (before_rb th ok t) t ts))"
    using prq.insert_sorted [OF assms(1), of th ok "qnode_rb t" junk] qnode_ok [OF assms(4)] assms(2,3) sorted_nodes [OF assms(2)]
      rb_place_nodes [OF assms(4,2)] by auto
  have "\<forall>u \<in> set (place (before_rb th ok t) t ts). thread_addr u" using assms(2,4) by auto
  with i show ?thesis using sorted_nodes by blast
qed

lemma rb_add_spec:
  assumes "rb_queue th (pq, ok, m) ts" "keys_below (pq, ok, m) ts" "thread_addr t" "t \<notin> set ts" "next_order_key pq + 1 \<noteq> 0"
  shows "\<exists>s'. z_priq_rb_add th junk junk_left t (pq, ok, m) = Some s' \<and> rb_queue th s' (z_priq_dumb_add th ts t) \<and>
    keys_below s' (z_priq_dumb_add th ts t) \<and> next_order_key (fst s') = next_order_key pq + 1"
proof -
  let ?ok = "ok(t := next_order_key pq)"
  have below: "ok u < next_order_key pq" if "u \<in> set ts" for u using assms(2) that by (simp add: keys_below_def)
  have key: "before_rb th ?ok u v \<longleftrightarrow> before_rb th ok u v" if "u \<in> set ts" "v \<in> set ts" for u v
    using that assms(4) by (auto simp: before_rb_def)
  have bt: "before_rb th ?ok t u \<longleftrightarrow> prio (th t) < prio (th u)" "before_rb th ?ok u t \<longleftrightarrow> prio (th u) \<le> prio (th t)" if "u \<in> set ts" for u
    using below [OF that] that assms(4) by (auto simp: before_rb_def)
  have s: "sorted_wrt (before_rb th ?ok) ts"
    using assms(1) sorted_wrt_mono_rel [of ts "before_rb th ok" "before_rb th ?ok"] key by (simp add: rb_queue_def)
  have pl: "place (before_rb th ?ok t) t ts = z_priq_dumb_add th ts t"
    unfolding dumb_add_place by (rule place_cong) (simp add: bt)
  from insert_thread [of m "rb_tree pq" ts th ?ok t junk] assms(1,3,4) s bt obtain tree' m' where
    i: "rb_insert (z_priq_rb_lessthan th ?ok) junk (qnode_rb t) (rb_tree pq) m = Some (tree', m')"
    "rb_holds m' tree' (map qnode_rb (z_priq_dumb_add th ts t))" "sorted_wrt (before_rb th ?ok) (z_priq_dumb_add th ts t)"
    unfolding pl by (fastforce simp: rb_queue_def)
  let ?s = "(\<lparr>rb_tree = tree', next_order_key = next_order_key pq + 1\<rparr>, ?ok, m')"
  have "z_priq_rb_add th junk junk_left t (pq, ok, m) = Some ?s" using i(1) assms(5) by (simp add: z_priq_rb_add_def)
  moreover have "rb_queue th ?s (z_priq_dumb_add th ts t)" using i(2,3) assms(1,3) by (auto simp: rb_queue_def)
  moreover have "keys_below ?s (z_priq_dumb_add th ts t)"
  proof -
    have "next_order_key pq < next_order_key pq + 1" using assms(5) unatSuc [of "next_order_key pq"] by (simp add: word_less_nat_alt add.commute)
    then show ?thesis using below by (auto simp: keys_below_def dest: less_trans)
  qed
  ultimately show ?thesis by (intro exI [of _ ?s]) simp
qed

lemma remove1_map_qnode:
  assumes "\<forall>u \<in> set ts. thread_addr u" "thread_addr t"
  shows "remove1 (qnode_rb t) (map qnode_rb ts) = map qnode_rb (remove1 t ts)"
  using assms by (induction ts) (auto simp: qnode_inj)

lemma rb_holds_empty: "rb_holds m tree ns \<Longrightarrow> root tree = 0 \<longleftrightarrow> ns = []"
proof -
  assume "rb_holds m tree ns"
  then obtain T where "root tree = ptr T" "nodes_ok (inorder T)" "inorder T = ns" by (auto simp: rb_holds_def good_def)
  then show ?thesis using ptr_0 [of T] by (cases T) auto
qed

lemma rb_remove_thread:
  assumes "rb_queue th (pq, ok, m) ts" "t \<in> set ts"
  shows "\<exists>pq' m'. z_priq_rb_remove th junk t (pq, ok, m) = Some (pq', ok, m') \<and> rb_queue th (pq', ok, m') (remove1 t ts) \<and>
    next_order_key pq' = (if remove1 t ts = [] then 0 else next_order_key pq)"
proof -
  have q: "rb_holds m (rb_tree pq) (map qnode_rb ts)" "\<forall>u \<in> set ts. thread_addr u" "sorted_wrt (before_rb th ok) ts"
    using assms(1) by (simp_all add: rb_queue_def)
  have "qnode_rb t \<in> set (map qnode_rb ts)" using assms(2) by simp
  from prq.remove_sorted [OF q(1) _ this, of th ok junk] q(2,3) assms(2) obtain tree' m' where
    r: "rb_remove (z_priq_rb_lessthan th ok) junk (qnode_rb t) (rb_tree pq) m = Some (tree', m')" "rb_holds m' tree' (map qnode_rb (remove1 t ts))"
    by (auto simp: sorted_nodes remove1_map_qnode)
  have "sorted_wrt (before_rb th ok) (remove1 t ts)" using q(3) by (rule sorted_wrt_remove1)
  moreover have "\<forall>u \<in> set (remove1 t ts). thread_addr u" using q(2) by (auto dest: in_set_remove1 notin_set_remove1)
  ultimately show ?thesis
    using r rb_holds_empty [OF r(2)] by (auto simp: z_priq_rb_remove_def rb_queue_def)
qed

lemma rb_best_thread:
  assumes "rb_queue th (pq, ok, m) ts"
  shows "z_priq_rb_best m pq = Some (z_priq_dumb_best ts)"
proof -
  have q: "rb_holds m (rb_tree pq) (map qnode_rb ts)" "\<forall>u \<in> set ts. thread_addr u" using assms by (simp_all add: rb_queue_def)
  then obtain T where T: "holds (cell m) T" "root (rb_tree pq) = ptr T" "nodes_ok (inorder T)" "inorder T = map qnode_rb ts"
    by (auto simp: rb_holds_def good_def)
  have "T = Tip \<longleftrightarrow> ts = []" using T(4) by (cases T) auto
  then have "rb_get_min m (rb_tree pq) = Some (if ts = [] then 0 else qnode_rb (hd ts))"
    using minmax_loop_spec(1) [OF T(1,3)] T(2,4) by (auto simp: rb_get_min_def z_rb_get_minmax_def hd_map)
  then show ?thesis using q(2) qnode_ok by (cases ts) (auto simp: z_priq_rb_best_def z_priq_dumb_best_def)
qed

section \<open>Wrap-around of the order key\<close>

lemma renumber_spec:
  assumes "distinct ts" "\<forall>u \<in> set ts. thread_addr u"
  shows "\<exists>ok'. renumber (map qnode_rb ts) key ok = (key + of_nat (length ts), ok') \<and>
    (\<forall>i < length ts. ok' (ts ! i) = key + of_nat i) \<and> (\<forall>u. u \<notin> set ts \<longrightarrow> ok' u = ok u)"
  using assms
proof (induction ts arbitrary: key ok)
  case (Cons t ts)
  have "distinct ts" "\<forall>u \<in> set ts. thread_addr u" using Cons.prems by simp_all
  from Cons.IH [OF this, of "key + 1" "ok(t := key)"] obtain ok' where
    i: "renumber (map qnode_rb ts) (key + 1) (ok(t := key)) = (key + 1 + of_nat (length ts), ok')"
    "\<forall>i < length ts. ok' (ts ! i) = key + 1 + of_nat i" "\<forall>u. u \<notin> set ts \<longrightarrow> ok' u = (ok(t := key)) u" by blast
  have "ok' ((t # ts) ! i) = key + of_nat i" if "i < length (t # ts)" for i
    using that i(2,3) Cons.prems by (cases i) (auto simp: add.assoc)
  then show ?case using i Cons.prems by (auto simp: add.assoc)
qed simp

lemma few_threads:
  assumes "distinct ts" "\<forall>t \<in> set ts. thread_addr t"
  shows "length ts + 3 \<le> 2 ^ 32"
proof -
  have "set ts \<subseteq> {..<2 ^ 32} - {0, 1, 3}" using assms(2) by (auto simp: thread_addr_def)
  then have "card (set ts) \<le> card ({..<2 ^ 32} - {0, 1, 3 :: nat})" by (rule card_mono [rotated]) simp
  moreover have "card ({..<2 ^ 32} - {0, 1, 3 :: nat}) = 2 ^ 32 - 3" by (subst card_Diff_subset) auto
  ultimately show ?thesis using distinct_card [OF assms(1)] by simp
qed

lemma rb_queue_distinct: "rb_queue th (pq, ok, m) ts \<Longrightarrow> distinct ts"
  by (auto simp: rb_queue_def rb_holds_def good_def nodes_ok_def distinct_map)

lemma sorted_renumbered:
  assumes "sorted_wrt (before_rb th ok) ts" "length ts < 2 ^ 32" "\<forall>i < length ts. ok' (ts ! i) = of_nat i"
  shows "sorted_wrt (before_rb th ok') ts"
  unfolding sorted_wrt_iff_nth_less
proof (intro allI impI)
  fix i j assume ij: "i < j" "j < length ts"
  then have "before_rb th ok (ts ! i) (ts ! j)" using assms(1) sorted_wrt_nth_less by blast
  moreover have "ok' (ts ! i) < ok' (ts ! j)" using ij assms(2,3) by (simp add: of_nat_word_less_iff take_bit_nat_eq_self)
  ultimately show "before_rb th ok' (ts ! i) (ts ! j)" by (auto simp: before_rb_def)
qed

text \<open>The addition at which the key wraps around: the threads of the tree are numbered from 0, the new thread keeps the last key.\<close>

lemma rb_add_wraps:
  assumes "rb_queue th (pq, ok, m) ts" "next_order_key pq = - 1" "thread_addr t" "t \<notin> set ts"
  shows "\<exists>pq' ok' m'. z_priq_rb_add th junk junk_left t (pq, ok, m) = Some (pq', ok', m') \<and>
    rb_queue th (pq', ok', m') (z_priq_dumb_add th ts t) \<and> next_order_key pq' = of_nat (length ts) \<and>
    ok' t = - 1 \<and> (\<forall>u \<in> set ts. ok' u < next_order_key pq')"
proof -
  have q: "rb_holds m (rb_tree pq) (map qnode_rb ts)" "\<forall>u \<in> set ts. thread_addr u" "sorted_wrt (before_rb th ok) ts" "distinct ts"
    using assms(1) rb_queue_distinct [OF assms(1)] by (simp_all add: rb_queue_def)
  have len: "length ts < 2 ^ 32" using few_threads [OF q(4,2)] by simp
  from renumber_spec [OF q(4,2), of 0 "ok(t := - 1)"] obtain ok' where
    r: "renumber (map qnode_rb ts) 0 (ok(t := - 1)) = (of_nat (length ts), ok')" "\<forall>i < length ts. ok' (ts ! i) = of_nat i"
    "ok' t = - 1" using assms(4) by auto
  have s: "sorted_wrt (before_rb th ok') ts" by (rule sorted_renumbered [OF q(3) len r(2)])
  have below: "ok' u < of_nat (length ts)" if "u \<in> set ts" for u
    using that r(2) len by (auto simp: in_set_conv_nth of_nat_word_less_iff take_bit_nat_eq_self)
  then have bt: "before_rb th ok' t u \<longleftrightarrow> prio (th t) < prio (th u)" "before_rb th ok' u t \<longleftrightarrow> prio (th u) \<le> prio (th t)" if "u \<in> set ts" for u
    using less_le_trans [OF below [OF that] word_order.extremum] r(3) by (auto simp: before_rb_def)
  have pl: "place (before_rb th ok' t) t ts = z_priq_dumb_add th ts t"
    unfolding dumb_add_place by (rule place_cong) (simp add: bt)
  from insert_thread [OF q(1,2) s assms(3,4), of junk] bt obtain tree' m' where
    i: "rb_insert (z_priq_rb_lessthan th ok') junk (qnode_rb t) (rb_tree pq) m = Some (tree', m')"
    "rb_holds m' tree' (map qnode_rb (z_priq_dumb_add th ts t))" "sorted_wrt (before_rb th ok') (z_priq_dumb_add th ts t)"
    unfolding pl by fastforce
  let ?pq = "\<lparr>rb_tree = tree', next_order_key = of_nat (length ts)\<rparr>"
  have "z_priq_rb_add th junk junk_left t (pq, ok, m) = Some (?pq, ok', m')"
    using i(1) assms(2) r(1) RB_FOR_EACH_spec [OF q(1), of junk junk_left] by (simp add: z_priq_rb_add_def)
  moreover have "rb_queue th (?pq, ok', m') (z_priq_dumb_add th ts t)" using i(2,3) q(2) assms(3) by (auto simp: rb_queue_def)
  ultimately show ?thesis using r(3) below by auto
qed

lemma place_twice: "\<not> P u \<Longrightarrow> place P t (place P u xs) = takeWhile (\<lambda>y. \<not> P y) xs @ u # t # dropWhile (\<lambda>y. \<not> P y) xs"
  by (induction xs) (auto simp: place_def)

lemma place_before: "t \<notin> set xs \<Longrightarrow> place (\<lambda>v. v = t \<or> P v) u (place P t xs) = takeWhile (\<lambda>y. \<not> P y) xs @ u # t # dropWhile (\<lambda>y. \<not> P y) xs"
  by (induction xs) (auto simp: place_def)

lemma count_below_max:
  assumes "n + 3 \<le> 2 ^ 32"
  shows "(of_nat n :: u32) < - 1" "(of_nat n :: u32) + 1 \<noteq> 0"
proof -
  have "unat (of_nat n :: u32) = n" using assms by (simp add: unat_of_nat)
  moreover have "unat (- 1 :: u32) = 2 ^ 32 - 1" by (simp add: unsigned_minus_1_eq_mask mask_eq_exp_minus_1)
  ultimately show less: "(of_nat n :: u32) < - 1" using assms by (simp add: word_less_nat_alt)
  then show "(of_nat n :: u32) + 1 \<noteq> 0" by (metis add_eq_0_iff2 less_irrefl)
qed

text \<open>An addition whose key is below that of one thread of the same priority and above those of all others.\<close>

lemma rb_add_second:
  assumes "rb_queue th (pq, ok, m) ts" "thread_addr u" "u \<notin> set ts" "t \<in> set ts" "prio (th t) = prio (th u)"
    and "next_order_key pq < ok t" "\<forall>v \<in> set ts - {t}. ok v < next_order_key pq" "next_order_key pq + 1 \<noteq> 0"
  shows "\<exists>s'. z_priq_rb_add th junk junk_left u (pq, ok, m) = Some s' \<and>
    rb_queue th s' (place (\<lambda>v. v = t \<or> prio (th t) < prio (th v)) u ts)"
proof -
  let ?ok = "ok(u := next_order_key pq)" and ?P = "\<lambda>v. v = t \<or> prio (th t) < prio (th v)"
  have q: "rb_holds m (rb_tree pq) (map qnode_rb ts)" "\<forall>v \<in> set ts. thread_addr v" "sorted_wrt (before_rb th ok) ts"
    using assms(1) by (simp_all add: rb_queue_def)
  have key: "before_rb th ?ok v w \<longleftrightarrow> before_rb th ok v w" if "v \<in> set ts" "w \<in> set ts" for v w
    using that assms(3) by (auto simp: before_rb_def)
  have s: "sorted_wrt (before_rb th ?ok) ts" using q(3) sorted_wrt_mono_rel [of ts "before_rb th ok" "before_rb th ?ok"] key by simp
  have bu: "before_rb th ?ok u v \<longleftrightarrow> ?P v" "before_rb th ?ok u v \<or> before_rb th ?ok v u" if "v \<in> set ts" for v
    using that assms(3,5-7) by (cases "v = t"; force simp: before_rb_def)+
  have pl: "place (before_rb th ?ok u) u ts = place ?P u ts" by (rule place_cong) (simp add: bu)
  from insert_thread [OF q(1,2) s assms(2,3), of junk] bu(2) obtain tree' m' where
    i: "rb_insert (z_priq_rb_lessthan th ?ok) junk (qnode_rb u) (rb_tree pq) m = Some (tree', m')"
    "rb_holds m' tree' (map qnode_rb (place ?P u ts))" "sorted_wrt (before_rb th ?ok) (place ?P u ts)"
    unfolding pl by blast
  have "z_priq_rb_add th junk junk_left u (pq, ok, m) = Some (\<lparr>rb_tree = tree', next_order_key = next_order_key pq + 1\<rparr>, ?ok, m')"
    using i(1) assms(8) by (simp add: z_priq_rb_add_def)
  then show ?thesis using i(2,3) q(2) assms(2) by (auto simp: rb_queue_def)
qed

text \<open>Every list of threads in the order of their priorities is the content of some tree.\<close>

lemma rb_queue_of_list:
  assumes "distinct ts" "\<forall>t \<in> set ts. thread_addr t" "sorted_wrt (\<lambda>a b. prio (th a) \<le> prio (th b)) ts"
  shows "\<exists>pq ok m. rb_queue th (pq, ok, m) ts \<and> keys_below (pq, ok, m) ts \<and> next_order_key pq = of_nat (length ts)"
  using assms
proof (induction ts rule: rev_induct)
  case Nil
  have "rb_queue th (\<lparr>rb_tree = empty_tree, next_order_key = 0\<rparr>, (\<lambda>_. 0), no_nodes) []" by (simp add: rb_queue_def empty_tree_holds)
  then show ?case by (force simp: keys_below_def)
next
  case (snoc t ts)
  then obtain pq ok m where q: "rb_queue th (pq, ok, m) ts" "keys_below (pq, ok, m) ts" "next_order_key pq = of_nat (length ts)"
    by (auto simp: sorted_wrt_append)
  have "length ts + 3 \<le> 2 ^ 32" using few_threads [of ts] snoc.prems by simp
  then have "next_order_key pq + 1 \<noteq> 0" using q(3) count_below_max by simp
  from rb_add_spec [OF q(1,2) _ _ this, of t "\<lambda>_. 0" "\<lambda>_. False"] snoc.prems obtain s' where
    s: "rb_queue th s' (z_priq_dumb_add th ts t)" "keys_below s' (z_priq_dumb_add th ts t)" "next_order_key (fst s') = of_nat (length ts) + 1"
    using q(3) by auto
  have "z_priq_dumb_add th ts t = ts @ [t]"
    using snoc.prems(3) by (simp add: dumb_add_place place_def sorted_wrt_append takeWhile_eq_all_conv [THEN iffD2] dropWhile_eq_Nil_conv [THEN iffD2] not_less)
  then show ?case using s by (cases s') (auto simp: add.commute)
qed

text \<open>Only the priorities of the threads matter.\<close>

lemma before_rb_cong: "(\<And>t. prio (th t) = prio (th' t)) \<Longrightarrow> before_rb th = before_rb th'"
  by (intro ext) (simp add: before_rb_def)

lemma rb_queue_cong: "(\<And>t. prio (th t) = prio (th' t)) \<Longrightarrow> rb_queue th s ts = rb_queue th' s ts"
  by (simp add: rb_queue_def before_rb_cong [of th th'])

section \<open>Properties\<close>

text \<open>
  C13. Until the order key wraps around, the queue in the red-black tree is the list queue: adding a thread puts it behind the
  threads of the same and of higher priority, removing one leaves the others in their order, and the best thread is the first of
  the list. The queue can so replace the list for the run queue and for wait queues.
\<close>

theorem priq_rb_behaves_as_list:
  assumes "rb_queue th (pq, ok, m) ts" "keys_below (pq, ok, m) ts"
  shows "(\<forall>t junk junk_left. thread_addr t \<and> t \<notin> set ts \<and> next_order_key pq + 1 \<noteq> 0 \<longrightarrow>
      (\<exists>s'. z_priq_rb_add th junk junk_left t (pq, ok, m) = Some s' \<and> rb_queue th s' (z_priq_dumb_add th ts t) \<and>
        keys_below s' (z_priq_dumb_add th ts t))) \<and>
    (\<forall>t junk. t \<in> set ts \<longrightarrow>
      (\<exists>s'. z_priq_rb_remove th junk t (pq, ok, m) = Some s' \<and> rb_queue th s' (z_priq_dumb_remove th ts t) \<and>
        keys_below s' (z_priq_dumb_remove th ts t))) \<and>
    z_priq_rb_best m pq = Some (z_priq_dumb_best ts)"
proof (intro conjI allI impI)
  fix t junk assume "t \<in> set ts"
  from rb_remove_thread [OF assms(1) this, of junk] obtain pq' m' where
    r: "z_priq_rb_remove th junk t (pq, ok, m) = Some (pq', ok, m')" "rb_queue th (pq', ok, m') (remove1 t ts)"
    "next_order_key pq' = (if remove1 t ts = [] then 0 else next_order_key pq)" by blast
  have "keys_below (pq', ok, m') (remove1 t ts)"
    using assms(2) r(3) by (auto simp: keys_below_def dest: notin_set_remove1)
  then show "\<exists>s'. z_priq_rb_remove th junk t (pq, ok, m) = Some s' \<and> rb_queue th s' (z_priq_dumb_remove th ts t) \<and>
      keys_below s' (z_priq_dumb_remove th ts t)"
    using r(1,2) by (auto simp: z_priq_dumb_remove_def)
qed (use assms rb_add_spec rb_best_thread in blast)+

text \<open>Two threads of one priority in the tree, the second added last.\<close>

definition equal_threads :: tcbs where
  "equal_threads = (\<lambda>_. \<lparr>prio = 0, sched_locked = 0, thread_state = {THREAD_QUEUED}, essential = False, pended_on = None,
     swap_retval = 0, swap_data = 0, events = 0, event_options = 0, no_wake_on_timeout = False, next_event_link = None\<rparr>)"

lemma two_threads_queue:
  "\<exists>tree m. rb_queue equal_threads (\<lparr>rb_tree = tree, next_order_key = key\<rparr>, (\<lambda>t. if t = 8 then 1 else 0), m) [4, 8]"
proof -
  obtain m tree where "rb_holds m tree [4, 8]" using two_nodes_run by blast
  then have "rb_queue equal_threads (\<lparr>rb_tree = tree, next_order_key = key\<rparr>, (\<lambda>t. if t = 8 then 1 else 0), m) [4, 8]"
    by (simp add: rb_queue_def qnode_rb_def thread_addr_def before_rb_def equal_threads_def)
  then show ?thesis by blast
qed

lemma priq_rb_behaves_as_list_witness:
  "\<exists>pq ok m s'. z_priq_rb_best m pq = Some (Some 4) \<and> z_priq_rb_add equal_threads (\<lambda>_. 0) (\<lambda>_. False) 16 (pq, ok, m) = Some s' \<and>
    rb_queue equal_threads s' [4, 8, 16]"
proof -
  let ?ok = "\<lambda>t. if t = 8 then 1 else 0 :: u32"
  obtain tree m where q: "rb_queue equal_threads (\<lparr>rb_tree = tree, next_order_key = 2\<rparr>, ?ok, m) [4, 8]"
    using two_threads_queue by blast
  have "keys_below (\<lparr>rb_tree = tree, next_order_key = 2\<rparr>, ?ok, m) [4, 8]" by (simp add: keys_below_def)
  note W = priq_rb_behaves_as_list [OF q this]
  have a: "z_priq_dumb_add equal_threads [4, 8] 16 = [4, 8, 16]" by (simp add: dumb_add_place place_def equal_threads_def)
  have "\<exists>s'. z_priq_rb_add equal_threads (\<lambda>_. 0) (\<lambda>_. False) 16 (\<lparr>rb_tree = tree, next_order_key = 2\<rparr>, ?ok, m) = Some s' \<and>
      rb_queue equal_threads s' [4, 8, 16]"
    using W [THEN conjunct1, rule_format, of 16 "\<lambda>_. 0" "\<lambda>_. False"] unfolding a by (auto simp: thread_addr_def)
  moreover have "z_priq_rb_best m \<lparr>rb_tree = tree, next_order_key = 2\<rparr> = Some (Some 4)" using W by (simp add: z_priq_dumb_best_def)
  ultimately show ?thesis by blast
qed

text \<open>
  C16. At the wrap-around the order of arrival is lost. The loop that numbers the threads again runs over the tree, where the
  thread being added is not yet, so this thread keeps the last key; the thread of the same priority that is added next gets a
  smaller key and is put in front of it. The queue then is the one in which the second thread had come first.
\<close>

theorem priq_rb_renumber_reorders:
  assumes "rb_queue th (pq, ok, m) ts" "next_order_key pq = - 1" "thread_addr t" "thread_addr u" "t \<notin> set ts" "u \<notin> set ts" "t \<noteq> u"
    and "prio (th t) = prio (th u)"
  shows "\<exists>s1 s2. z_priq_rb_add th junk junk_left t (pq, ok, m) = Some s1 \<and> rb_queue th s1 (z_priq_dumb_add th ts t) \<and>
    z_priq_rb_add th junk junk_left u s1 = Some s2 \<and> rb_queue th s2 (z_priq_dumb_add th (z_priq_dumb_add th ts u) t) \<and>
    z_priq_dumb_add th (z_priq_dumb_add th ts u) t \<noteq> z_priq_dumb_add th (z_priq_dumb_add th ts t) u"
proof -
  let ?P = "\<lambda>v. prio (th t) < prio (th v)" and ?L = "z_priq_dumb_add th ts t" and ?M = "z_priq_dumb_add th (z_priq_dumb_add th ts u) t"
  obtain pq1 ok1 m1 where a: "z_priq_rb_add th junk junk_left t (pq, ok, m) = Some (pq1, ok1, m1)" "rb_queue th (pq1, ok1, m1) ?L"
    "next_order_key pq1 = of_nat (length ts)" "ok1 t = - 1" "\<forall>v \<in> set ts. ok1 v < next_order_key pq1"
    using rb_add_wraps [OF assms(1-3,5)] by blast
  have "length ts + 3 \<le> 2 ^ 32" using assms(1) rb_queue_distinct few_threads by (auto simp: rb_queue_def)
  note max = count_below_max [OF this]
  have M: "?M = place (\<lambda>v. v = t \<or> ?P v) u ?L" "?M \<noteq> z_priq_dumb_add th ?L u"
    using assms(5,7,8) by (simp_all add: dumb_add_place place_before place_twice)
  from rb_add_second [OF a(2), of u t] have
    "\<exists>s2. z_priq_rb_add th junk junk_left u (pq1, ok1, m1) = Some s2 \<and> rb_queue th s2 (place (\<lambda>v. v = t \<or> ?P v) u ?L)"
    using max a(3-5) assms(4,6-8) by (auto simp: dumb_add_place)
  then show ?thesis using a(1,2) M by auto
qed

lemma priq_rb_renumber_reorders_witness:
  "\<exists>pq ok m s1 s2. rb_queue equal_threads (pq, ok, m) [4, 8] \<and>
    z_priq_rb_add equal_threads (\<lambda>_. 0) (\<lambda>_. False) 16 (pq, ok, m) = Some s1 \<and>
    z_priq_rb_add equal_threads (\<lambda>_. 0) (\<lambda>_. False) 20 s1 = Some s2 \<and> rb_queue equal_threads s2 [4, 8, 20, 16]"
proof -
  let ?ok = "\<lambda>t. if t = 8 then 1 else 0 :: u32"
  obtain tree m where q: "rb_queue equal_threads (\<lparr>rb_tree = tree, next_order_key = - 1\<rparr>, ?ok, m) [4, 8]"
    using two_threads_queue by blast
  have a: "z_priq_dumb_add equal_threads (z_priq_dumb_add equal_threads [4, 8] 20) 16 = [4, 8, 20, 16]"
    by (simp add: dumb_add_place place_def equal_threads_def)
  have "thread_addr 16" "thread_addr 20" by (simp_all add: thread_addr_def)
  from priq_rb_renumber_reorders [OF q _ this, of "\<lambda>_. 0" "\<lambda>_. False"] have
    "\<exists>s1 s2. z_priq_rb_add equal_threads (\<lambda>_. 0) (\<lambda>_. False) 16 (\<lparr>rb_tree = tree, next_order_key = - 1\<rparr>, ?ok, m) = Some s1 \<and>
      z_priq_rb_add equal_threads (\<lambda>_. 0) (\<lambda>_. False) 20 s1 = Some s2 \<and> rb_queue equal_threads s2 [4, 8, 20, 16]"
    unfolding a by (auto simp: equal_threads_def)
  then show ?thesis using q by blast
qed

end
