(* ===== verification/Spec2Isabelle.thy ===== *)
theory Spec2Isabelle
  imports Condvar Sem Stack Msgq Queue Mem_Slab Futex Events Ring_Buffer Work Priq_Rb
begin

text \<open>
  A verification of the kernel of the Zephyr tree in \<open>src/zephyr-3.7-branch\<close>: the scheduler with its clock, the objects
  threads block on, the work queues, and the data structures under them. All paths below are relative to that directory.

  \<^bold>\<open>The program.\<close> Threads (\<open>include/zephyr/kernel/thread.h\<close>) are ready, pending in a wait queue, suspended, sleeping or
  dead. The scheduler (\<open>kernel/sched.c\<close>) keeps the ready ones in a run queue and a cached choice of the next one. A
  blocking call puts the caller into the wait queue of an object, with a timeout in the list of \<open>kernel/timeout.c\<close>; the
  timer interrupt announces ticks, which runs the callbacks of the timeouts that are due. Semaphores, mutexes, condition
  variables, stacks, queues, message queues, memory slabs, futexes and events are built on these two services, and the
  work queues of \<open>kernel/work.c\<close> on semaphores and the scheduler.

  \<^bold>\<open>Theories and sources.\<close>
  \<^item> \<open>Prelude\<close>: error numbers, timeout values, byte memory, and the list lemmas that the components share.
  \<^item> \<open>Priq\<close>: the thread record and its flags (\<open>kernel/include/kthread.h\<close>), the list queue and the multi-queue of
    \<open>kernel/include/priority_q.h\<close>. The locale \<open>priq\<close> is the contract of a run queue; both queues interpret it.
  \<^item> \<open>Timeout\<close>: the list of \<open>kernel/timeout.c\<close>, whose entries store differences. The locale \<open>timeout_queue\<close> is its
    contract as a map from timeouts to ticks left.
  \<^item> \<open>Sched\<close>: the record \<open>kernel\<close> and the operations of \<open>kernel/sched.c\<close>, \<open>kernel/timeslicing.c\<close>,
    \<open>kernel/include/ksched.h\<close>, \<open>kswap.h\<close>, \<open>wait_q.h\<close> and of thread creation in \<open>kernel/thread.c\<close>. \<open>Sched_Inv\<close> and
    \<open>Sched_Ops\<close> show that each keeps the invariant \<open>sched_inv\<close>; \<open>Sched_Api\<close> has the locale \<open>sched_api\<close>, the contract
    that the kernel objects use, and its interpretation.
  \<^item> \<open>Clock\<close>: \<open>sys_clock_announce\<close> with its callbacks. \<open>Sched_Run\<close>: the relation \<open>sched_step\<close> of the steps that have a scheduling
    point of their own or need none (scheduling calls, interrupt entry and exit, announcements) and \<open>kstep\<close>, which adds
    those that leave it to a later one: the abort of another thread, the priorities that mutexes give, and the waking of
    a thread by a kernel object. Every step keeps \<open>kernel_pre\<close>; the steps of \<open>sched_step\<close> also keep \<open>kernel_inv\<close>, by which
    a preemptible thread runs only while it is the best one. \<open>Boot\<close>: \<open>kernel/init.c\<close>.
  \<^item> \<open>Sched_Props\<close>: the properties of the scheduler, the timeouts and the boot.
  \<^item> \<open>Sem\<close>, \<open>Mutex\<close>, \<open>Condvar\<close>, \<open>Stack\<close>, \<open>Msgq\<close>, \<open>Queue\<close>, \<open>Mem_Slab\<close>, \<open>Futex\<close>, \<open>Events\<close>: the files \<open>kernel/sem.c\<close>,
    \<open>mutex.c\<close>, \<open>condvar.c\<close>, \<open>stack.c\<close>, \<open>msg_q.c\<close>, \<open>queue.c\<close>, \<open>mem_slab.c\<close>, \<open>futex.c\<close> and \<open>events.c\<close>. An object is a
    record; its wait queue lives in the kernel state. \<open>Work\<close>: \<open>kernel/work.c\<close>.
  \<^item> \<open>Genlist\<close>: the linked lists of \<open>include/zephyr/sys/list_gen.h\<close> on memory, for \<open>slist.h\<close> and \<open>sflist.h\<close>, as two
    interpretations of the locale \<open>genlist_nodes\<close>. \<open>Bytes\<close> and \<open>Ring_Buffer\<close>: \<open>lib/utils/ring_buffer.c\<close>.
  \<^item> \<open>Rbtree\<close>: \<open>lib/utils/rb.c\<close> and \<open>include/zephyr/sys/rb.h\<close> on the memory of the nodes. \<open>Rbtree_Insert\<close> and
    \<open>Rbtree_Remove\<close> show that the repair loops of insertion and removal give red-black trees again; \<open>Rbtree_Props\<close> has the
    locale \<open>lessthan\<close>, the contract of a comparison function, and the properties. \<open>Priq_Rb\<close>: the run queue in such a
    tree, with \<open>kernel/priority_queues.c\<close>, whose comparison interprets \<open>lessthan\<close>.

  \<^bold>\<open>How the code is modelled.\<close> A structure is a record and an operation a function on the records it changes, in the order
  of the code and with its early returns. A call that may block is cut at the wait: it returns \<open>Blocked\<close>, with the caller
  in its wait queue, or \<open>Done\<close> with a value, and the rest of the function is the definition whose name ends in \<open>_resume\<close>.
  The model is of one processor, where a spin lock masks interrupts, so a critical section is one step and interleaving is
  a sequence of steps. Where the code reads shared memory outside its lock (\<open>k_futex_wait\<close>) it is two steps. Integers are
  words where they can wrap: the indices of ring buffers, the bit maps, the event bits, the order keys, the flags of work
  items. The calls of the kernel objects are not steps of \<open>kstep\<close>, which has the basic waits, wake-ups and changes of priority
  instead; the theories of the objects show which invariants each call keeps. Lists in memory, trees and buffers are memory and addresses; each comes with a predicate that says which abstract
  list it holds.

  \<^bold>\<open>What is shown.\<close>
  \<^item> Invariants of all runs: the run queue holds exactly the ready threads in priority order, a pending thread is in one
    wait queue, the running thread is ready and the best one since the last scheduling point; the tokens of semaphores are conserved; no thread waits
    for events that are there; an item of a work queue runs on one thread at a time; a red-black tree stays one.
  \<^item> Refinement of abstract objects: token counters, recursive locks, first-in first-out and last-in first-out lists, free
    lists, deadline maps, ordered lists, each for every branch of the operations and with waiting threads. What is handed to
    a waiting thread is part of the specification: the \<open>_resume\<close> definition, run as that thread, returns it, and a
    call that waits and is not served returns its error.
  \<^item> Equivalence of the three run queues, and that the tree follows the scheduler in every reachable state (below).
  \<^item> Liveness and termination: a pended or sleeping thread is woken by the announcement that covers its delay; announcements
    end; a submission wakes the thread of its work queue, which runs the items in the order of their submission; the loop over a tree visits every node once.
  \<^item> Behaviour that is not what the documentation says, each as a theorem about a concrete situation: the scheduler lock
    and priority changes, unlocking without a scheduling point, lists appended to queues with more waiting threads than
    items, the wake-up that a futex misses, the second thread that cancels a work item, and the order keys at their
    wrap-around.

  \<^bold>\<open>Bounds and fuel.\<close> \<open>sys_clock_announce\<close> runs with twice the number of timeouts plus one as fuel, and is shown never to
  need more. The loops that take threads off a wait queue get the length of the queue (plus one). Loops that follow links
  and end only on well-formed memory are partial functions with an optional result; the properties show that they return.
  The operations on trees return no result when they would leave their stack array, which is shown not to happen.

  \<^bold>\<open>Parameters.\<close> The timer driver (\<open>clk_elapsed\<close>, \<open>clk_programmed\<close>), what the heap returned, the generated table of kernel
  objects, the comparison function of a tree, and the former contents of arrays that are not initialised.

  \<^bold>\<open>Not modelled.\<close> Multiprocessing (\<open>kernel/smp.c\<close>, \<open>ipi.c\<close>, \<open>cpu_mask.c\<close>), deadlines, meta-IRQ tracking in runs, the
  architecture code and the switch of register contexts; \<open>CONFIG_POLL\<close>, pipes and mailboxes; user mode, memory domains and
  page tables, which rest on generated tables and architecture code; the heap; object cores and statistics, which no
  decision of the kernel reads; devices, drivers, subsystems and the remaining libraries. \<open>kernel/timer.c\<close> holds a second
  copy of the time slicing code, so there are no timers to model. The other projects of the repository (boot loader,
  messaging, audio, speech and vision) do not interact with the kernel.
\<close>

section \<open>The run queue of the kernel in a red-black tree\<close>

text \<open>
  The scheduler is verified with the list run queue. The tree holds the same threads when it has the content of the
  list and every key in it has been given out by its counter.
\<close>

definition scalable_runq :: "kernel \<Rightarrow> priq_rb \<times> order_keys \<times> rbmem \<Rightarrow> bool" where
  "scalable_runq k s \<longleftrightarrow> rb_queue (threads k) s (runq k) \<and> keys_below s (runq k)"

lemma queue_thread_prio [simp]:
  "prio (threads (queue_thread t k) u) = prio (threads k u)" "prio (threads (dequeue_thread t k) u) = prio (threads k u)"
  by (simp_all add: queue_thread_def dequeue_thread_def runq_add_def runq_remove_def upd_thread_def)

lemma queue_thread_runq:
  "runq (queue_thread t k) = z_priq_dumb_add (threads (queue_thread t k)) (runq k) t"
  "runq (dequeue_thread t k) = remove1 t (runq k)"
  by (simp_all add: queue_thread_def dequeue_thread_def runq_add_def runq_remove_def upd_thread_def z_priq_dumb_remove_def)

lemma scalable_queue:
  assumes "scalable_runq k (pq, ok, m)" "thread_addr t" "t \<notin> set (runq k)" "next_order_key pq + 1 \<noteq> 0"
  shows "\<exists>s'. z_priq_rb_add (threads (queue_thread t k)) junk junk_left t (pq, ok, m) = Some s' \<and> scalable_runq (queue_thread t k) s'"
proof -
  have "rb_queue (threads (queue_thread t k)) (pq, ok, m) (runq k)"
    using assms(1) rb_queue_cong [of "threads (queue_thread t k)" "threads k"] by (simp add: scalable_runq_def)
  from rb_add_spec [OF this _ assms(2-4), of junk junk_left] assms(1) show ?thesis
    unfolding scalable_runq_def queue_thread_runq(1) by blast
qed

lemma scalable_dequeue:
  assumes "scalable_runq k (pq, ok, m)" "t \<in> set (runq k)"
  shows "\<exists>s'. z_priq_rb_remove (threads (dequeue_thread t k)) junk t (pq, ok, m) = Some s' \<and> scalable_runq (dequeue_thread t k) s'"
proof -
  have "rb_queue (threads (dequeue_thread t k)) (pq, ok, m) (runq k)"
    using assms(1) rb_queue_cong [of "threads (dequeue_thread t k)" "threads k"] by (simp add: scalable_runq_def)
  from rb_remove_thread [OF this assms(2), of junk] obtain pq' m' where
    r: "z_priq_rb_remove (threads (dequeue_thread t k)) junk t (pq, ok, m) = Some (pq', ok, m')"
    "rb_queue (threads (dequeue_thread t k)) (pq', ok, m') (remove1 t (runq k))"
    "next_order_key pq' = (if remove1 t (runq k) = [] then 0 else next_order_key pq)" by blast
  have "keys_below (pq', ok, m') (remove1 t (runq k))"
    using assms(1) r(3) by (auto simp: scalable_runq_def keys_below_def dest: notin_set_remove1)
  then show ?thesis using r(1,2) by (auto simp: scalable_runq_def queue_thread_runq(2))
qed

text \<open>
  C9. In every state the kernel reaches from its boot, the run queue can be kept in a red-black tree instead of the list:
  a tree with the threads of the list exists, the best thread of every such tree is the one the scheduler picks from, and
  the two operations of the scheduler on its run queue, done on the tree with the new state of the threads, give the tree
  of the new run queue. Only an addition at which the order key wraps around is left out.
\<close>

theorem scalable_runq_simulates:
  assumes "zeroed k0" "distinct [mn, idle, thread_dummy k0]" "kstep\<^sup>*\<^sup>* (z_cstart mn p idle k0) k" "\<forall>t \<in> set (runq k). thread_addr t"
  shows "(\<exists>s. scalable_runq k s) \<and> (\<forall>pq ok m. scalable_runq k (pq, ok, m) \<longrightarrow>
      z_priq_rb_best m pq = Some (runq_best k) \<and>
      (\<forall>t junk junk_left. thread_addr t \<and> \<not> z_is_thread_queued (threads k t) \<and> next_order_key pq + 1 \<noteq> 0 \<longrightarrow>
        (\<exists>s'. z_priq_rb_add (threads (queue_thread t k)) junk junk_left t (pq, ok, m) = Some s' \<and> scalable_runq (queue_thread t k) s')) \<and>
      (\<forall>t junk. z_is_thread_queued (threads k t) \<longrightarrow>
        (\<exists>s'. z_priq_rb_remove (threads (dequeue_thread t k)) junk t (pq, ok, m) = Some s' \<and> scalable_runq (dequeue_thread t k) s')))"
proof -
  have "sched_inv k" using kernel_preD(1) [OF reachable_pre [OF assms(3) kernel_inv_pre [OF cstart_kernel_inv [OF assms(1,2)]]]] .
  then have w: "wf_queues k" by (rule inv_butD(1))
  then have q: "z_is_thread_queued (threads k t) \<longleftrightarrow> t \<in> set (runq k)" for t by (auto simp: wf_queues_def)
  have "\<exists>s. scalable_runq k s"
    using rb_queue_of_list [of "runq k" "threads k"] w assms(4) by (auto simp: scalable_runq_def wf_queues_def tprio_def)
  moreover have "z_priq_rb_best m pq = Some (runq_best k)" if "scalable_runq k (pq, ok, m)" for pq ok m
    using that rb_best_thread by (auto simp: scalable_runq_def runq_best_def)
  ultimately show ?thesis using scalable_queue scalable_dequeue q by simp
qed

lemma scalable_runq_simulates_witness:
  "\<exists>s. scalable_runq (z_cstart 4 0 0 boot_image) s \<and> z_priq_rb_best (snd (snd s)) (fst s) = Some (Some 4)"
proof -
  have d: "distinct [4, 0, thread_dummy boot_image]" by (simp add: boot_image_def)
  have r: "runq (z_cstart 4 0 0 boot_image) = [4]" using boot_facts(2) [OF zeroed_boot_image d refl] .
  then have "\<forall>t \<in> set (runq (z_cstart 4 0 0 boot_image)). thread_addr t" by (simp add: thread_addr_def)
  note W = scalable_runq_simulates [OF zeroed_boot_image d rtranclp.rtrancl_refl this]
  from W [THEN conjunct1] obtain pq ok m where s: "scalable_runq (z_cstart 4 0 0 boot_image) (pq, ok, m)" by auto
  have "z_priq_rb_best m pq = Some (Some 4)"
    using W [THEN conjunct2, rule_format, OF s, THEN conjunct1] r by (simp add: runq_best_def z_priq_dumb_best_def)
  with s show ?thesis by (intro exI [of _ "(pq, ok, m)"]) simp
qed

end
